(* ===== verification/Recovery_Prelude.thy ===== *)
theory Recovery_Prelude
  imports Main "HOL-Library.Word" "HOL-Library.Monad_Syntax"
begin

text \<open>
  Shared vocabulary of the development: machine words, a byte-addressed memory region with
  partial loads and stores (an access outside the region is \<open>None\<close>, the model of a fault),
  the little-endian value of a byte sequence, and the generic list, option and word lemmas
  the component theories use.  The target is the 32-bit ARM ABI the recovery image is built
  for: \<open>int\<close>, \<open>long\<close>, \<open>size_t\<close>, \<open>off_t\<close> and pointers are 32 bits wide and plain \<open>char\<close>
  is unsigned.
\<close>

unbundle bit_operations_syntax

type_synonym byte = "8 word"
type_synonym u16 = "16 word"
type_synonym u32 = "32 word"
type_synonym u64 = "64 word"

text \<open>
  \<open>region_simps\<close> collects the equations that reduce memory accesses to list operations,
  \<open>le_simps\<close> those that reduce shift-and-or assembly of bytes to \<open>le_word\<close>.
\<close>

named_theorems region_simps
named_theorems le_simps

lemma unat_less_u32: "unat (x :: u32) < 2 ^ 32"
  using unsigned_less [of x, where 'a = nat] by simp

lemma sint_nonneg_u32:
  assumes "0 \<le> sint (w :: u32)"
  shows "sint w = int (unat w)"
proof -
  have "uint w = take_bit 32 (sint w)" using uint_sint [of w] by simp
  also have "\<dots> = sint w" using assms sint_lt [of w] by (intro take_bit_int_eq_self) auto
  finally show ?thesis by simp
qed

section \<open>Little-endian values of byte sequences\<close>

fun le_nat :: "byte list \<Rightarrow> nat" where
  "le_nat [] = 0"
| "le_nat (b # bs) = unat b + 256 * le_nat bs"

fun le_word :: "byte list \<Rightarrow> 'a::len word" where
  "le_word [] = 0"
| "le_word (b # bs) = ucast b OR push_bit 8 (le_word bs)"

fun le_bytes :: "nat \<Rightarrow> 'a::len word \<Rightarrow> byte list" where
  "le_bytes 0 v = []"
| "le_bytes (Suc n) v = ucast v # le_bytes n (drop_bit 8 v)"

lemma length_le_bytes [simp]: "length (le_bytes n v) = n"
  by (induction n arbitrary: v) auto

lemma le_word_Cons_plus:
  "le_word (b # bs) = (ucast b + 256 * le_word bs :: 'a::len word)"
proof -
  have "ucast b + push_bit 8 (le_word bs) = (ucast b OR push_bit 8 (le_word bs) :: 'a word)"
    by (rule disjunctive_add) (auto simp: bit_simps dest: bit_imp_le_length)
  then show ?thesis by (simp add: push_bit_eq_mult mult.commute)
qed

lemma le_word_nat: "le_word bs = (of_nat (le_nat bs) :: 'a::len word)"
proof (induction bs)
  case Nil
  then show ?case by simp
next
  case (Cons b bs)
  have "(ucast b :: 'a word) = of_nat (unat b)" by simp
  with Cons show ?case by (simp add: le_word_Cons_plus del: le_word.simps(2))
qed

lemma le_nat_bound: "le_nat bs < 256 ^ length bs"
proof (induction bs)
  case Nil
  then show ?case by simp
next
  case (Cons b bs)
  have "unat b < 256" using unsigned_less [of b] by simp
  with Cons show ?case by simp
qed

lemma unat_le_word:
  assumes "8 * length bs \<le> LENGTH('a::len)"
  shows "unat (le_word bs :: 'a word) = le_nat bs"
proof -
  have "le_nat bs < 256 ^ length bs" by (rule le_nat_bound)
  also have "(256::nat) ^ length bs = 2 ^ (8 * length bs)"
    by (simp add: power_mult)
  also have "\<dots> \<le> 2 ^ LENGTH('a)" using assms by simp
  finally show ?thesis by (simp add: le_word_nat unat_of_nat)
qed

lemma le_word_le_bytes: "le_word (le_bytes n v) = take_bit (8 * n) v"
proof (induction n arbitrary: v)
  case 0
  then show ?case by simp
next
  case (Suc n)
  have "ucast (ucast v :: byte) OR push_bit 8 (take_bit (8 * n) (drop_bit 8 v)) =
      take_bit (8 + 8 * n) v"
    by (rule bit_word_eqI) (auto simp: bit_simps)
  with Suc show ?case by simp
qed

lemma le_word_le_bytes_full:
  "8 * n = LENGTH('a::len) \<Longrightarrow> le_word (le_bytes n v) = (v :: 'a word)"
  by (simp add: le_word_le_bytes)

lemma bit_le_word: "bit (le_word bs :: 'a::len word) n \<Longrightarrow> n < 8 * length bs"
  by (induction bs arbitrary: n) (force simp: bit_simps dest: bit_imp_le_length)+

lemma le_bytes_le_word:
  "8 * length bs \<le> LENGTH('a::len) \<Longrightarrow> le_bytes (length bs) (le_word bs :: 'a word) = bs"
proof (induction bs)
  case Nil
  then show ?case by simp
next
  case (Cons b bs)
  let ?w = "le_word bs :: 'a word"
  have "ucast (ucast b OR push_bit 8 ?w) = b"
    using Cons.prems by (intro bit_word_eqI) (auto simp: bit_simps)
  moreover have "drop_bit 8 (ucast b OR push_bit 8 ?w) = ?w"
    using Cons.prems
    by (intro bit_word_eqI) (auto simp: bit_simps dest: bit_le_word bit_imp_le_length)
  ultimately show ?case using Cons by simp
qed

lemma le_word_append:
  "le_word (xs @ ys) = (le_word xs OR push_bit (8 * length xs) (le_word ys) :: 'a::len word)"
  by (induction xs) (simp_all add: or.assoc push_bit_or ac_simps)

section \<open>Memory regions\<close>

text \<open>
  A region is a block of bytes at a 32-bit base address.  Pointers into it are addresses;
  \<open>roff\<close> is the distance of a pointer from the base, taken with the wrap-around of C's
  pointer subtraction on unsigned addresses.
\<close>

record region =
  r_base :: u32
  r_bytes :: "byte list"

definition roff :: "region \<Rightarrow> u32 \<Rightarrow> nat" where
  "roff r p = unat (p - r_base r)"

definition load :: "region \<Rightarrow> u32 \<Rightarrow> byte option" where
  "load r p = (if roff r p < length (r_bytes r) then Some (r_bytes r ! roff r p) else None)"

definition store :: "region \<Rightarrow> u32 \<Rightarrow> byte \<Rightarrow> region option" where
  "store r p b =
     (if roff r p < length (r_bytes r)
      then Some (r\<lparr>r_bytes := (r_bytes r)[roff r p := b]\<rparr>) else None)"

fun load_list :: "region \<Rightarrow> u32 \<Rightarrow> nat \<Rightarrow> byte list option" where
  "load_list r p 0 = Some []"
| "load_list r p (Suc n) = do { b \<leftarrow> load r p; bs \<leftarrow> load_list r (p + 1) n; Some (b # bs) }"

fun store_list :: "region \<Rightarrow> u32 \<Rightarrow> byte list \<Rightarrow> region option" where
  "store_list r p [] = Some r"
| "store_list r p (b # bs) = do { r' \<leftarrow> store r p b; store_list r' (p + 1) bs }"

text \<open>A region that fits the address space, and an access of \<open>n\<close> bytes inside it.\<close>

definition region_ok :: "region \<Rightarrow> bool" where
  "region_ok r \<longleftrightarrow> unat (r_base r) + length (r_bytes r) < 2 ^ 32"

definition in_region :: "region \<Rightarrow> u32 \<Rightarrow> nat \<Rightarrow> bool" where
  "in_region r p n \<longleftrightarrow> roff r p + n \<le> length (r_bytes r)"

lemma region_ok_length: "region_ok r \<Longrightarrow> length (r_bytes r) < 2 ^ 32"
  by (simp add: region_ok_def)

lemma roff_Suc:
  assumes "region_ok r" "roff r p < length (r_bytes r)"
  shows "roff r (p + 1) = Suc (roff r p)"
proof -
  have "roff r p + 1 < 2 ^ 32" using assms region_ok_length by fastforce
  then have "unat ((p - r_base r) + 1) = Suc (unat (p - r_base r))"
    by (simp add: roff_def unat_word_ariths(1) del: diff_add_eq add_diff_eq)
  then show ?thesis by (simp add: roff_def algebra_simps)
qed

lemma roff_add:
  assumes "unat (p - r_base r) + k < 2 ^ 32"
  shows "roff r (p + of_nat k) = roff r p + k"
proof -
  have k: "unat (of_nat k :: u32) = k" using assms by (simp add: unat_of_nat)
  have "unat ((p - r_base r) + of_nat k) = unat (p - r_base r) + k"
    unfolding unat_word_ariths(1) k using assms by simp
  moreover have "p + of_nat k - r_base r = (p - r_base r) + of_nat k" by simp
  ultimately show ?thesis by (simp only: roff_def)
qed

lemma in_region_Suc:
  "region_ok r \<Longrightarrow> in_region r p (Suc n) \<Longrightarrow>
     roff r p < length (r_bytes r) \<and> (n = 0 \<or> in_region r (p + 1) n)"
  by (auto simp: in_region_def roff_Suc)

lemma load_Some: "roff r p < length (r_bytes r) \<Longrightarrow> load r p = Some (r_bytes r ! roff r p)"
  by (simp add: load_def)

lemma load_list_in_region [region_simps]:
  "region_ok r \<Longrightarrow> in_region r p n \<Longrightarrow>
     load_list r p n = Some (take n (drop (roff r p) (r_bytes r)))"
proof (induction n arbitrary: p)
  case 0
  then show ?case by simp
next
  case (Suc n)
  then have here: "roff r p < length (r_bytes r)" and rest: "n = 0 \<or> in_region r (p + 1) n"
    using in_region_Suc by blast+
  have tail: "load_list r (p + 1) n = Some (take n (drop (Suc (roff r p)) (r_bytes r)))"
    using rest Suc.IH [OF Suc.prems(1)] roff_Suc [OF Suc.prems(1) here] by auto
  show ?case using here tail
    by (simp add: load_Some Cons_nth_drop_Suc [symmetric])
qed

lemma load_list_fault:
  assumes "region_ok r" "\<not> in_region r p n" "0 < n"
  shows "load_list r p n = None"
  using assms(2,3)
proof (induction n arbitrary: p)
  case 0
  then show ?case by simp
next
  case (Suc n)
  show ?case
  proof (cases "roff r p < length (r_bytes r)")
    case True
    with Suc.prems have "0 < n" "\<not> in_region r (p + 1) n"
      by (auto simp: in_region_def roff_Suc [OF assms(1)])
    with Suc.IH show ?thesis by (simp add: load_def)
  qed (simp add: load_def)
qed

lemma load_list_length: "load_list r p n = Some bs \<Longrightarrow> length bs = n"
  by (induction n arbitrary: p bs) (auto split: bind_splits)

lemma store_frame: "store r p b = Some r' \<Longrightarrow> r_base r' = r_base r \<and> length (r_bytes r') = length (r_bytes r)"
  by (auto simp: store_def split: if_splits)

lemma store_list_in_region [region_simps]:
  "region_ok r \<Longrightarrow> in_region r p (length bs) \<Longrightarrow>
     store_list r p bs =
       Some (r\<lparr>r_bytes := take (roff r p) (r_bytes r) @ bs @
         drop (roff r p + length bs) (r_bytes r)\<rparr>)"
proof (induction bs arbitrary: r p)
  case Nil
  then show ?case by simp
next
  case (Cons b bs)
  let ?r = "r\<lparr>r_bytes := (r_bytes r)[roff r p := b]\<rparr>"
  from Cons.prems have here: "roff r p < length (r_bytes r)"
    by (simp add: in_region_def)
  have ok: "region_ok ?r" using Cons.prems by (simp add: region_ok_def)
  have off: "roff ?r (p + 1) = Suc (roff r p)"
    using roff_Suc [OF Cons.prems(1) here] by (simp add: roff_def)
  have inr: "in_region ?r (p + 1) (length bs)"
    using Cons.prems off by (simp add: in_region_def)
  have "store_list r p (b # bs) = store_list ?r (p + 1) bs"
    using here by (simp add: store_def)
  also have "\<dots> = Some (?r\<lparr>r_bytes := take (Suc (roff r p)) ((r_bytes r)[roff r p := b]) @ bs @
         drop (Suc (roff r p) + length bs) ((r_bytes r)[roff r p := b])\<rparr>)"
    using Cons.IH [OF ok inr] off by simp
  finally show ?case using here
    by (simp add: take_Suc_conv_app_nth)
qed

lemma roff_r_bytes_update [simp]: "roff (r\<lparr>r_bytes := bs\<rparr>) p = roff r p"
  by (simp add: roff_def)

text \<open>Reading back what was written, and reading beside it.\<close>

lemma load_list_store_list_same:
  assumes "region_ok r" "in_region r p (length bs)" "store_list r p bs = Some r'"
  shows "load_list r' p (length bs) = Some bs"
proof -
  have r': "r' = r\<lparr>r_bytes := take (roff r p) (r_bytes r) @ bs @
         drop (roff r p + length bs) (r_bytes r)\<rparr>"
    using assms by (simp add: store_list_in_region)
  have "region_ok r'" "in_region r' p (length bs)" using assms
    by (auto simp: r' region_ok_def in_region_def)
  then show ?thesis using assms(2)
    by (simp add: load_list_in_region) (simp add: r' in_region_def)
qed

lemma take_drop_disjoint:
  assumes "i + n \<le> d \<or> d + length bs \<le> i" "d + length bs \<le> length xs"
  shows "take n (drop i (take d xs @ bs @ drop (d + length bs) xs)) = take n (drop i xs)"
  using assms by (intro nth_equalityI) (auto simp: nth_append)

lemma load_list_store_list_other:
  assumes "region_ok r" "in_region r p (length bs)" "in_region r q n"
    and "roff r q + n \<le> roff r p \<or> roff r p + length bs \<le> roff r q"
    and "store_list r p bs = Some r'"
  shows "load_list r' q n = load_list r q n"
proof -
  have r': "r' = r\<lparr>r_bytes := take (roff r p) (r_bytes r) @ bs @
         drop (roff r p + length bs) (r_bytes r)\<rparr>"
    using assms by (simp add: store_list_in_region)
  have "region_ok r'" "in_region r' q n" using assms
    by (auto simp: r' region_ok_def in_region_def)
  moreover have "take n (drop (roff r q) (r_bytes r')) = take n (drop (roff r q) (r_bytes r))"
    using take_drop_disjoint [OF assms(4)] assms(2) by (simp add: r' in_region_def)
  ultimately show ?thesis using assms(1,3)
    by (simp add: load_list_in_region r')
qed

end
