(* ===== verification/Minzip_Bits.thy ===== *)
theory Minzip_Bits
  imports Recovery_Prelude
begin

text \<open>
  The byte-order accessors of \<^verbatim>\<open>minzip/Bits.h\<close>.  A source pointer is an address into a
  \<open>region\<close>; every dereference is a \<open>load\<close> or \<open>store\<close> and an access outside the region makes
  the whole operation \<open>None\<close>.  The \<open>readN\<close> variants take and return the current value of the
  caller's pointer (\<^verbatim>\<open>*ppSrc\<close>).  The interface of a fixed-width field is the locale
  \<open>byte_codec\<close>, interpreted for each of the six set/get pairs.
\<close>

section \<open>Getters\<close>

definition get1 :: "region \<Rightarrow> u32 \<Rightarrow> byte option" where
  "get1 r pSrc = load r pSrc"

definition get2BE :: "region \<Rightarrow> u32 \<Rightarrow> u16 option" where
  "get2BE r pSrc = do {
     b0 \<leftarrow> load r pSrc;
     b1 \<leftarrow> load r (pSrc + 1);
     Some (push_bit 8 (ucast b0) OR ucast b1) }"

definition get4BE :: "region \<Rightarrow> u32 \<Rightarrow> u32 option" where
  "get4BE r pSrc = do {
     b0 \<leftarrow> load r pSrc;
     b1 \<leftarrow> load r (pSrc + 1);
     b2 \<leftarrow> load r (pSrc + 2);
     b3 \<leftarrow> load r (pSrc + 3);
     Some (((push_bit 24 (ucast b0) OR push_bit 16 (ucast b1)) OR push_bit 8 (ucast b2)) OR ucast b3) }"

definition get8BE :: "region \<Rightarrow> u32 \<Rightarrow> u64 option" where
  "get8BE r pSrc = do {
     b0 \<leftarrow> load r pSrc;
     b1 \<leftarrow> load r (pSrc + 1);
     b2 \<leftarrow> load r (pSrc + 2);
     b3 \<leftarrow> load r (pSrc + 3);
     b4 \<leftarrow> load r (pSrc + 4);
     b5 \<leftarrow> load r (pSrc + 5);
     b6 \<leftarrow> load r (pSrc + 6);
     b7 \<leftarrow> load r (pSrc + 7);
     Some (((((((push_bit 56 (ucast b0) OR push_bit 48 (ucast b1)) OR push_bit 40 (ucast b2)) OR push_bit 32 (ucast b3)) OR push_bit 24 (ucast b4)) OR push_bit 16 (ucast b5)) OR push_bit 8 (ucast b6)) OR ucast b7) }"

definition get2LE :: "region \<Rightarrow> u32 \<Rightarrow> u16 option" where
  "get2LE r pSrc = do {
     b0 \<leftarrow> load r pSrc;
     b1 \<leftarrow> load r (pSrc + 1);
     Some (ucast b0 OR push_bit 8 (ucast b1)) }"

definition get4LE :: "region \<Rightarrow> u32 \<Rightarrow> u32 option" where
  "get4LE r pSrc = do {
     b0 \<leftarrow> load r pSrc;
     b1 \<leftarrow> load r (pSrc + 1);
     b2 \<leftarrow> load r (pSrc + 2);
     b3 \<leftarrow> load r (pSrc + 3);
     Some (((ucast b0 OR push_bit 8 (ucast b1)) OR push_bit 16 (ucast b2)) OR push_bit 24 (ucast b3)) }"

definition get8LE :: "region \<Rightarrow> u32 \<Rightarrow> u64 option" where
  "get8LE r pSrc = do {
     b0 \<leftarrow> load r pSrc;
     b1 \<leftarrow> load r (pSrc + 1);
     b2 \<leftarrow> load r (pSrc + 2);
     b3 \<leftarrow> load r (pSrc + 3);
     b4 \<leftarrow> load r (pSrc + 4);
     b5 \<leftarrow> load r (pSrc + 5);
     b6 \<leftarrow> load r (pSrc + 6);
     b7 \<leftarrow> load r (pSrc + 7);
     Some (((((((ucast b0 OR push_bit 8 (ucast b1)) OR push_bit 16 (ucast b2)) OR push_bit 24 (ucast b3)) OR push_bit 32 (ucast b4)) OR push_bit 40 (ucast b5)) OR push_bit 48 (ucast b6)) OR push_bit 56 (ucast b7)) }"

section \<open>Getters that advance the pointer\<close>

definition read1 :: "region \<Rightarrow> u32 \<Rightarrow> (byte \<times> u32) option" where
  "read1 r ppSrc = do { b \<leftarrow> load r ppSrc; Some (b, ppSrc + 1) }"

definition read2BE :: "region \<Rightarrow> u32 \<Rightarrow> (u16 \<times> u32) option" where
  "read2BE r ppSrc = do {
     b0 \<leftarrow> load r ppSrc;
     let p0 = ppSrc + 1;
     b1 \<leftarrow> load r p0;
     let p1 = p0 + 1;
     Some ((push_bit 8 (ucast b0) OR ucast b1), p1) }"

definition read4BE :: "region \<Rightarrow> u32 \<Rightarrow> (u32 \<times> u32) option" where
  "read4BE r ppSrc = do {
     b0 \<leftarrow> load r ppSrc;
     let p0 = ppSrc + 1;
     b1 \<leftarrow> load r p0;
     let p1 = p0 + 1;
     b2 \<leftarrow> load r p1;
     let p2 = p1 + 1;
     b3 \<leftarrow> load r p2;
     let p3 = p2 + 1;
     Some ((((push_bit 24 (ucast b0) OR push_bit 16 (ucast b1)) OR push_bit 8 (ucast b2)) OR ucast b3), p3) }"

definition read8BE :: "region \<Rightarrow> u32 \<Rightarrow> (u64 \<times> u32) option" where
  "read8BE r ppSrc = do {
     b0 \<leftarrow> load r ppSrc;
     let p0 = ppSrc + 1;
     b1 \<leftarrow> load r p0;
     let p1 = p0 + 1;
     b2 \<leftarrow> load r p1;
     let p2 = p1 + 1;
     b3 \<leftarrow> load r p2;
     let p3 = p2 + 1;
     b4 \<leftarrow> load r p3;
     let p4 = p3 + 1;
     b5 \<leftarrow> load r p4;
     let p5 = p4 + 1;
     b6 \<leftarrow> load r p5;
     let p6 = p5 + 1;
     b7 \<leftarrow> load r p6;
     let p7 = p6 + 1;
     Some ((((((((push_bit 56 (ucast b0) OR push_bit 48 (ucast b1)) OR push_bit 40 (ucast b2)) OR push_bit 32 (ucast b3)) OR push_bit 24 (ucast b4)) OR push_bit 16 (ucast b5)) OR push_bit 8 (ucast b6)) OR ucast b7), p7) }"

definition read2LE :: "region \<Rightarrow> u32 \<Rightarrow> (u16 \<times> u32) option" where
  "read2LE r ppSrc = do {
     b0 \<leftarrow> load r ppSrc;
     let p0 = ppSrc + 1;
     b1 \<leftarrow> load r p0;
     let p1 = p0 + 1;
     Some ((ucast b0 OR push_bit 8 (ucast b1)), p1) }"

definition read4LE :: "region \<Rightarrow> u32 \<Rightarrow> (u32 \<times> u32) option" where
  "read4LE r ppSrc = do {
     b0 \<leftarrow> load r ppSrc;
     let p0 = ppSrc + 1;
     b1 \<leftarrow> load r p0;
     let p1 = p0 + 1;
     b2 \<leftarrow> load r p1;
     let p2 = p1 + 1;
     b3 \<leftarrow> load r p2;
     let p3 = p2 + 1;
     Some ((((ucast b0 OR push_bit 8 (ucast b1)) OR push_bit 16 (ucast b2)) OR push_bit 24 (ucast b3)), p3) }"

definition read8LE :: "region \<Rightarrow> u32 \<Rightarrow> (u64 \<times> u32) option" where
  "read8LE r ppSrc = do {
     b0 \<leftarrow> load r ppSrc;
     let p0 = ppSrc + 1;
     b1 \<leftarrow> load r p0;
     let p1 = p0 + 1;
     b2 \<leftarrow> load r p1;
     let p2 = p1 + 1;
     b3 \<leftarrow> load r p2;
     let p3 = p2 + 1;
     b4 \<leftarrow> load r p3;
     let p4 = p3 + 1;
     b5 \<leftarrow> load r p4;
     let p5 = p4 + 1;
     b6 \<leftarrow> load r p5;
     let p6 = p5 + 1;
     b7 \<leftarrow> load r p6;
     let p7 = p6 + 1;
     Some ((((((((ucast b0 OR push_bit 8 (ucast b1)) OR push_bit 16 (ucast b2)) OR push_bit 24 (ucast b3)) OR push_bit 32 (ucast b4)) OR push_bit 40 (ucast b5)) OR push_bit 48 (ucast b6)) OR push_bit 56 (ucast b7)), p7) }"

section \<open>Length-prefixed strings\<close>

text \<open>
  \<^verbatim>\<open>memcpy\<close> between two regions.  \<open>readUtf8String\<close> writes into the caller's buffer, which
  starts at the base of the region \<open>dst\<close>; \<open>readNewUtf8String\<close> writes into the block that
  \<open>malloc\<close> (a parameter, \<open>None\<close> for the null pointer the code does not test) returned for
  \<^verbatim>\<open>length+1\<close> bytes.
\<close>

definition memcpy_region :: "region \<Rightarrow> u32 \<Rightarrow> region \<Rightarrow> u32 \<Rightarrow> u32 \<Rightarrow> region option" where
  "memcpy_region dst d src s n = do {
     bs \<leftarrow> load_list src s (unat n);
     store_list dst d bs }"

definition skipUtf8String :: "region \<Rightarrow> u32 \<Rightarrow> u32 option" where
  "skipUtf8String r ppSrc = do {
     (len, p) \<leftarrow> read4BE r ppSrc;
     Some (p + len) }"

definition readUtf8String ::
  "region \<Rightarrow> u32 \<Rightarrow> region \<Rightarrow> u32 \<Rightarrow> (u32 \<times> u32 \<times> region) option" where
  "readUtf8String r ppSrc buf bufLen = do {
     (len, p) \<leftarrow> read4BE r ppSrc;
     let copyLen = (if len < bufLen then len else bufLen - 1);
     buf1 \<leftarrow> memcpy_region buf (r_base buf) r p copyLen;
     buf2 \<leftarrow> store buf1 (r_base buf + copyLen) 0;
     Some (len, p + len, buf2) }"

definition readNewUtf8String ::
  "(u32 \<Rightarrow> region option) \<Rightarrow> region \<Rightarrow> u32 \<Rightarrow> (region \<times> u32 \<times> u32) option" where
  "readNewUtf8String malloc r ppSrc = do {
     (len, p) \<leftarrow> read4BE r ppSrc;
     buf \<leftarrow> malloc (len + 1);
     buf1 \<leftarrow> memcpy_region buf (r_base buf) r p len;
     buf2 \<leftarrow> store buf1 (r_base buf + len) 0;
     Some (buf2, len, p + len) }"

section \<open>Setters\<close>

definition set1 :: "region \<Rightarrow> u32 \<Rightarrow> byte \<Rightarrow> region option" where
  "set1 r buf val = store r buf val"

definition set2BE :: "region \<Rightarrow> u32 \<Rightarrow> u16 \<Rightarrow> region option" where
  "set2BE r buf val = do {
     r \<leftarrow> store r buf (ucast (drop_bit 8 val));
     store r (buf + 1) (ucast val) }"

definition set4BE :: "region \<Rightarrow> u32 \<Rightarrow> u32 \<Rightarrow> region option" where
  "set4BE r buf val = do {
     r \<leftarrow> store r buf (ucast (drop_bit 24 val));
     r \<leftarrow> store r (buf + 1) (ucast (drop_bit 16 val));
     r \<leftarrow> store r (buf + 2) (ucast (drop_bit 8 val));
     store r (buf + 3) (ucast val) }"

definition set8BE :: "region \<Rightarrow> u32 \<Rightarrow> u64 \<Rightarrow> region option" where
  "set8BE r buf val = do {
     r \<leftarrow> store r buf (ucast (drop_bit 56 val));
     r \<leftarrow> store r (buf + 1) (ucast (drop_bit 48 val));
     r \<leftarrow> store r (buf + 2) (ucast (drop_bit 40 val));
     r \<leftarrow> store r (buf + 3) (ucast (drop_bit 32 val));
     r \<leftarrow> store r (buf + 4) (ucast (drop_bit 24 val));
     r \<leftarrow> store r (buf + 5) (ucast (drop_bit 16 val));
     r \<leftarrow> store r (buf + 6) (ucast (drop_bit 8 val));
     store r (buf + 7) (ucast val) }"

definition set2LE :: "region \<Rightarrow> u32 \<Rightarrow> u16 \<Rightarrow> region option" where
  "set2LE r buf val = do {
     r \<leftarrow> store r buf (ucast val);
     store r (buf + 1) (ucast (drop_bit 8 val)) }"

definition set4LE :: "region \<Rightarrow> u32 \<Rightarrow> u32 \<Rightarrow> region option" where
  "set4LE r buf val = do {
     r \<leftarrow> store r buf (ucast val);
     r \<leftarrow> store r (buf + 1) (ucast (drop_bit 8 val));
     r \<leftarrow> store r (buf + 2) (ucast (drop_bit 16 val));
     store r (buf + 3) (ucast (drop_bit 24 val)) }"

definition set8LE :: "region \<Rightarrow> u32 \<Rightarrow> u64 \<Rightarrow> region option" where
  "set8LE r buf val = do {
     r \<leftarrow> store r buf (ucast val);
     r \<leftarrow> store r (buf + 1) (ucast (drop_bit 8 val));
     r \<leftarrow> store r (buf + 2) (ucast (drop_bit 16 val));
     r \<leftarrow> store r (buf + 3) (ucast (drop_bit 24 val));
     r \<leftarrow> store r (buf + 4) (ucast (drop_bit 32 val));
     r \<leftarrow> store r (buf + 5) (ucast (drop_bit 40 val));
     r \<leftarrow> store r (buf + 6) (ucast (drop_bit 48 val));
     store r (buf + 7) (ucast (drop_bit 56 val)) }"

definition setUtf8String :: "region \<Rightarrow> u32 \<Rightarrow> byte list \<Rightarrow> region option" where
  "setUtf8String r buf str = do {
     let strLen = of_nat (length str);
     r \<leftarrow> set4BE r buf strLen;
     store_list r (buf + 4) str }"

section \<open>The interface of a fixed-width field\<close>

text \<open>
  A codec writes a value as exactly \<open>width\<close> bytes and reads it back.  The provider shows that
  its two operations are byte-sequence writes and reads with inverse encodings; the client
  lemmas say what an aligned sequence of header fields relies on.
\<close>

locale byte_codec =
  fixes put :: "region \<Rightarrow> u32 \<Rightarrow> 'v \<Rightarrow> region option"
    and get :: "region \<Rightarrow> u32 \<Rightarrow> 'v option"
    and enc :: "'v \<Rightarrow> byte list"
    and dec :: "byte list \<Rightarrow> 'v"
    and width :: nat
  assumes put_bytes: "put r p v = store_list r p (enc v)"
    and get_bytes: "get r p = map_option dec (load_list r p width)"
    and dec_enc: "dec (enc v) = v"
    and enc_dec: "length bs = width \<Longrightarrow> enc (dec bs) = bs"
    and enc_length: "length (enc v) = width"
    and width_pos: "0 < width"
begin

lemma put_total:
  "region_ok r \<Longrightarrow> in_region r p width \<Longrightarrow> \<exists>r'. put r p v = Some r'"
  by (simp add: put_bytes enc_length store_list_in_region)

lemma get_total:
  "region_ok r \<Longrightarrow> in_region r p width \<Longrightarrow> \<exists>v. get r p = Some v"
  by (simp add: get_bytes load_list_in_region)

lemma get_fault:
  "region_ok r \<Longrightarrow> \<not> in_region r p width \<Longrightarrow> get r p = None"
  using width_pos by (simp add: get_bytes load_list_fault)

lemma get_put:
  "region_ok r \<Longrightarrow> in_region r p width \<Longrightarrow> put r p v = Some r' \<Longrightarrow> get r' p = Some v"
  using load_list_store_list_same [of r p "enc v" r']
  by (simp add: put_bytes get_bytes enc_length dec_enc)

lemma load_list_put:
  "region_ok r \<Longrightarrow> in_region r p width \<Longrightarrow> in_region r q n \<Longrightarrow>
   roff r q + n \<le> roff r p \<or> roff r p + width \<le> roff r q \<Longrightarrow>
   put r p v = Some r' \<Longrightarrow> load_list r' q n = load_list r q n"
  using load_list_store_list_other [of r p "enc v" q n r']
  by (simp add: put_bytes enc_length)

lemma get_put_other:
  "region_ok r \<Longrightarrow> in_region r p width \<Longrightarrow> in_region r q width \<Longrightarrow>
   roff r q + width \<le> roff r p \<or> roff r p + width \<le> roff r q \<Longrightarrow>
   put r p v = Some r' \<Longrightarrow> get r' q = get r q"
  using load_list_put [of r p q width v r'] by (simp add: get_bytes)

lemma put_region:
  assumes "region_ok r" "in_region r p width" "put r p v = Some r'"
  shows "region_ok r'" "r_base r' = r_base r" "length (r_bytes r') = length (r_bytes r)"
  using assms
  by (auto simp: put_bytes enc_length store_list_in_region region_ok_def in_region_def)

lemma put_get_id:
  assumes "region_ok r" "in_region r p width" "get r p = Some v"
  shows "put r p v = Some r"
proof -
  let ?d = "roff r p"
  have v: "v = dec (take width (drop ?d (r_bytes r)))"
    using assms by (simp add: get_bytes load_list_in_region)
  have "enc v = take width (drop ?d (r_bytes r))"
    using assms(2) by (simp add: v enc_dec in_region_def)
  moreover have "take ?d (r_bytes r) @ take width (drop ?d (r_bytes r)) @
      drop (?d + width) (r_bytes r) = r_bytes r"
    by (metis append_take_drop_id drop_drop add.commute)
  ultimately show ?thesis using assms(1,2) store_list_in_region [of r p "enc v"]
    by (simp add: put_bytes in_region_def min_absorb2)
qed

end

section \<open>The accessors as byte-sequence operations\<close>

lemma le_word_single: "le_word [b] = ucast b"
  by simp

lemma get2BE_bytes: "get2BE r p = map_option (\<lambda>bs. le_word (rev bs)) (load_list r p 2)"
  by (simp add: get2BE_def eval_nat_numeral add.assoc or.assoc or.commute or.left_commute
      Option.bind_map_option split: bind_splits option.splits)

lemma set2BE_bytes: "set2BE r p v = store_list r p (rev (le_bytes 2 v))"
  by (simp add: set2BE_def eval_nat_numeral add.assoc)

lemma get4BE_bytes: "get4BE r p = map_option (\<lambda>bs. le_word (rev bs)) (load_list r p 4)"
  by (simp add: get4BE_def eval_nat_numeral add.assoc or.assoc or.commute or.left_commute
      Option.bind_map_option split: bind_splits option.splits)

lemma set4BE_bytes: "set4BE r p v = store_list r p (rev (le_bytes 4 v))"
  by (simp add: set4BE_def eval_nat_numeral add.assoc)

lemma get8BE_bytes: "get8BE r p = map_option (\<lambda>bs. le_word (rev bs)) (load_list r p 8)"
  by (simp add: get8BE_def eval_nat_numeral add.assoc or.assoc or.commute or.left_commute
      Option.bind_map_option split: bind_splits option.splits)

lemma set8BE_bytes: "set8BE r p v = store_list r p (rev (le_bytes 8 v))"
  by (simp add: set8BE_def eval_nat_numeral add.assoc)

lemma get2LE_bytes: "get2LE r p = map_option le_word (load_list r p 2)"
  by (simp add: get2LE_def eval_nat_numeral add.assoc or.assoc or.commute or.left_commute
      Option.bind_map_option split: bind_splits option.splits)

lemma set2LE_bytes: "set2LE r p v = store_list r p (le_bytes 2 v)"
  by (simp add: set2LE_def eval_nat_numeral add.assoc)

lemma get4LE_bytes: "get4LE r p = map_option le_word (load_list r p 4)"
  by (simp add: get4LE_def eval_nat_numeral add.assoc or.assoc or.commute or.left_commute
      Option.bind_map_option split: bind_splits option.splits)

lemma set4LE_bytes: "set4LE r p v = store_list r p (le_bytes 4 v)"
  by (simp add: set4LE_def eval_nat_numeral add.assoc)

lemma get8LE_bytes: "get8LE r p = map_option le_word (load_list r p 8)"
  by (simp add: get8LE_def eval_nat_numeral add.assoc or.assoc or.commute or.left_commute
      Option.bind_map_option split: bind_splits option.splits)

lemma set8LE_bytes: "set8LE r p v = store_list r p (le_bytes 8 v)"
  by (simp add: set8LE_def eval_nat_numeral add.assoc)

interpretation bits2BE: byte_codec set2BE get2BE "\<lambda>v. rev (le_bytes 2 v)" "\<lambda>bs. le_word (rev bs)" 2
proof unfold_locales
  fix bs :: "byte list"
  assume "length bs = 2"
  then show "rev (le_bytes 2 (le_word (rev bs) :: u16)) = bs"
    using le_bytes_le_word [where 'a = 16, of "rev bs"] by (simp add: rev_swap)
qed (simp_all add: set2BE_bytes get2BE_bytes le_word_le_bytes_full)

interpretation bits4BE: byte_codec set4BE get4BE "\<lambda>v. rev (le_bytes 4 v)" "\<lambda>bs. le_word (rev bs)" 4
proof unfold_locales
  fix bs :: "byte list"
  assume "length bs = 4"
  then show "rev (le_bytes 4 (le_word (rev bs) :: u32)) = bs"
    using le_bytes_le_word [where 'a = 32, of "rev bs"] by (simp add: rev_swap)
qed (simp_all add: set4BE_bytes get4BE_bytes le_word_le_bytes_full)

interpretation bits8BE: byte_codec set8BE get8BE "\<lambda>v. rev (le_bytes 8 v)" "\<lambda>bs. le_word (rev bs)" 8
proof unfold_locales
  fix bs :: "byte list"
  assume "length bs = 8"
  then show "rev (le_bytes 8 (le_word (rev bs) :: u64)) = bs"
    using le_bytes_le_word [where 'a = 64, of "rev bs"] by (simp add: rev_swap)
qed (simp_all add: set8BE_bytes get8BE_bytes le_word_le_bytes_full)

interpretation bits2LE: byte_codec set2LE get2LE "le_bytes 2" le_word 2
proof unfold_locales
  fix bs :: "byte list"
  assume "length bs = 2"
  then show "le_bytes 2 (le_word bs :: u16) = bs"
    using le_bytes_le_word [where 'a = 16, of "bs"] by (simp add: rev_swap)
qed (simp_all add: set2LE_bytes get2LE_bytes le_word_le_bytes_full)

interpretation bits4LE: byte_codec set4LE get4LE "le_bytes 4" le_word 4
proof unfold_locales
  fix bs :: "byte list"
  assume "length bs = 4"
  then show "le_bytes 4 (le_word bs :: u32) = bs"
    using le_bytes_le_word [where 'a = 32, of "bs"] by (simp add: rev_swap)
qed (simp_all add: set4LE_bytes get4LE_bytes le_word_le_bytes_full)

interpretation bits8LE: byte_codec set8LE get8LE "le_bytes 8" le_word 8
proof unfold_locales
  fix bs :: "byte list"
  assume "length bs = 8"
  then show "le_bytes 8 (le_word bs :: u64) = bs"
    using le_bytes_le_word [where 'a = 64, of "bs"] by (simp add: rev_swap)
qed (simp_all add: set8LE_bytes get8LE_bytes le_word_le_bytes_full)

section \<open>Reading advances past what was read\<close>

lemma read2BE_get: "read2BE r p = map_option (\<lambda>v. (v, p + 2)) (get2BE r p)"
  by (simp add: read2BE_def get2BE_def add.assoc Let_def map_option_bind split: bind_splits)

lemma read4BE_get: "read4BE r p = map_option (\<lambda>v. (v, p + 4)) (get4BE r p)"
  by (simp add: read4BE_def get4BE_def add.assoc Let_def map_option_bind split: bind_splits)

lemma read8BE_get: "read8BE r p = map_option (\<lambda>v. (v, p + 8)) (get8BE r p)"
  by (simp add: read8BE_def get8BE_def add.assoc Let_def map_option_bind split: bind_splits)

lemma read2LE_get: "read2LE r p = map_option (\<lambda>v. (v, p + 2)) (get2LE r p)"
  by (simp add: read2LE_def get2LE_def add.assoc Let_def map_option_bind split: bind_splits)

lemma read4LE_get: "read4LE r p = map_option (\<lambda>v. (v, p + 4)) (get4LE r p)"
  by (simp add: read4LE_def get4LE_def add.assoc Let_def map_option_bind split: bind_splits)

lemma read8LE_get: "read8LE r p = map_option (\<lambda>v. (v, p + 8)) (get8LE r p)"
  by (simp add: read8LE_def get8LE_def add.assoc Let_def map_option_bind split: bind_splits)

section \<open>Properties\<close>

text \<open>
  Field round trip: for every width and byte order, writing a field that lies inside the
  buffer succeeds, the matching getter returns the value written, and every field that does
  not overlap it still reads as before.
\<close>

theorem set_get_round_trip:
  assumes "region_ok r" "in_region r p 8"
  shows "(\<exists>r'. set2BE r p v2 = Some r' \<and> get2BE r' p = Some v2)
       \<and> (\<exists>r'. set4BE r p v4 = Some r' \<and> get4BE r' p = Some v4)
       \<and> (\<exists>r'. set8BE r p v8 = Some r' \<and> get8BE r' p = Some v8)
       \<and> (\<exists>r'. set2LE r p v2 = Some r' \<and> get2LE r' p = Some v2)
       \<and> (\<exists>r'. set4LE r p v4 = Some r' \<and> get4LE r' p = Some v4 \<and>
            (\<forall>q. in_region r q 4 \<and> (roff r q + 4 \<le> roff r p \<or> roff r p + 4 \<le> roff r q)
               \<longrightarrow> get4LE r' q = get4LE r q))
       \<and> (\<exists>r'. set8LE r p v8 = Some r' \<and> get8LE r' p = Some v8)"
proof -
  have "in_region r p 2" "in_region r p 4" using assms(2) by (simp_all add: in_region_def)
  note ins = this assms
  show ?thesis
    using ins bits2BE.put_total bits2BE.get_put bits4BE.put_total bits4BE.get_put
      bits8BE.put_total bits8BE.get_put bits2LE.put_total bits2LE.get_put
      bits4LE.put_total bits4LE.get_put bits4LE.get_put_other bits8LE.put_total bits8LE.get_put
    by meson
qed

theorem set_get_round_trip_witness:
  "\<exists>r'. set4LE \<lparr>r_base = 100, r_bytes = [0, 0, 0, 0, 0, 0, 0, 0, 9]\<rparr> 101 0x01020304 = Some r'
      \<and> get4LE r' 101 = Some 0x01020304"
  using set_get_round_trip [of "\<lparr>r_base = 100, r_bytes = [0, 0, 0, 0, 0, 0, 0, 0, 9]\<rparr>" 101
      0 "0x01020304" 0]
  by (auto simp: region_ok_def in_region_def roff_def)

text \<open>
  Byte order and bounds of the getters: inside the buffer a little-endian getter returns
  the number whose base-256 digits are the bytes in ascending order of address, a big-endian
  one reads them in descending order, and neither ever returns a value for a field that is
  not wholly inside the buffer.
\<close>

theorem getters_value_and_bounds:
  assumes "region_ok r"
  shows "map_option unat (get4LE r p) =
           (if in_region r p 4 then Some (le_nat (take 4 (drop (roff r p) (r_bytes r)))) else None)
     \<and> map_option unat (get4BE r p) =
           (if in_region r p 4 then Some (le_nat (rev (take 4 (drop (roff r p) (r_bytes r))))) else None)
     \<and> map_option unat (get2LE r p) =
           (if in_region r p 2 then Some (le_nat (take 2 (drop (roff r p) (r_bytes r)))) else None)
     \<and> map_option unat (get8LE r p) =
           (if in_region r p 8 then Some (le_nat (take 8 (drop (roff r p) (r_bytes r)))) else None)"
  using assms
  by (auto simp: get4LE_bytes get4BE_bytes get2LE_bytes get8LE_bytes load_list_in_region
      load_list_fault unat_le_word)

theorem getters_value_and_bounds_witness:
  "map_option unat (get4LE \<lparr>r_base = 16, r_bytes = [1, 2, 3, 4]\<rparr> 16) = Some 67305985"
  using getters_value_and_bounds [of "\<lparr>r_base = 16, r_bytes = [1, 2, 3, 4]\<rparr>" 16]
  by (simp add: region_ok_def in_region_def roff_def)

lemma memcpy_region_in:
  assumes "region_ok src" "in_region src s (unat n)" "region_ok dst" "in_region dst d (unat n)"
  shows "memcpy_region dst d src s n =
    Some (dst\<lparr>r_bytes := take (roff dst d) (r_bytes dst) @ take (unat n) (drop (roff src s) (r_bytes src)) @
        drop (roff dst d + unat n) (r_bytes dst)\<rparr>)"
proof -
  have len: "length (take (unat n) (drop (roff src s) (r_bytes src))) = unat n"
    using assms(2) by (simp add: in_region_def)
  show ?thesis
    unfolding memcpy_region_def load_list_in_region [OF assms(1,2)]
    using store_list_in_region [OF assms(3), of d "take (unat n) (drop (roff src s) (r_bytes src))"]
      assms(4) by (simp add: len del: length_take)
qed

text \<open>
  The bytes \<open>setUtf8String\<close> leaves in the buffer: the length field and the string after it.
\<close>

lemma setUtf8String_bytes:
  assumes "region_ok r" "in_region r p (4 + length str)" "setUtf8String r p str = Some r'"
  shows "region_ok r'" "r_base r' = r_base r" "length (r_bytes r') = length (r_bytes r)"
    "get4BE r' p = Some (of_nat (length str))" "roff r' (p + 4) = roff r p + 4"
    "take (length str) (drop (roff r p + 4) (r_bytes r')) = str"
proof -
  have in4: "in_region r p 4" using assms(2) by (simp add: in_region_def)
  obtain r1 where r1: "set4BE r p (of_nat (length str)) = Some r1"
    using bits4BE.put_total [OF assms(1) in4] by blast
  note r1ok = bits4BE.put_region [OF assms(1) in4 r1]
  have off4: "roff r (p + 4) = roff r p + 4"
    using roff_add [of p r 4] assms(1,2)
    by (simp add: in_region_def region_ok_def roff_def)
  have off1: "roff r1 q = roff r q" for q using r1ok by (simp add: roff_def)
  have in1: "in_region r1 (p + 4) (length str)" "in_region r1 p 4"
    using assms(2) in4 off4 r1ok by (simp_all add: in_region_def off1)
  have st: "store_list r1 (p + 4) str = Some r'"
    using assms(3) r1 by (simp add: setUtf8String_def)
  have eq: "r' = r1\<lparr>r_bytes := take (roff r p + 4) (r_bytes r1) @ str @
      drop (roff r p + 4 + length str) (r_bytes r1)\<rparr>"
    using st store_list_in_region [OF r1ok(1) in1(1)] by (simp add: off1 off4)
  show "region_ok r'" "r_base r' = r_base r" "length (r_bytes r') = length (r_bytes r)"
    using eq r1ok in1 assms(2) by (auto simp: region_ok_def in_region_def)
  show "roff r' (p + 4) = roff r p + 4" using off4 eq r1ok by (simp add: roff_def)
  have "load_list r' p 4 = load_list r1 p 4"
    by (rule load_list_store_list_other [OF r1ok(1) in1(1) in1(2) _ st]) (simp add: off1 off4)
  then show "get4BE r' p = Some (of_nat (length str))"
    using bits4BE.get_put [OF assms(1) in4 r1] by (simp add: get4BE_bytes)
  show "take (length str) (drop (roff r p + 4) (r_bytes r')) = str"
    using in1 by (simp add: eq in_region_def off1 off4)
qed

text \<open>
  String round trip: what \<open>setUtf8String\<close> wrote, \<open>readUtf8String\<close> reads back.  The
  returned length is the original one even when the destination is too small; the destination
  receives the longest prefix that leaves room for the terminating NUL, and the terminator.
\<close>

theorem setUtf8String_readUtf8String:
  assumes "region_ok r" "in_region r p (4 + length str)" "setUtf8String r p str = Some r'"
    and "region_ok buf" "0 < unat bufLen" "unat bufLen \<le> length (r_bytes buf)"
  defines "n \<equiv> min (length str) (unat bufLen - 1)"
  shows "\<exists>buf'. readUtf8String r' p buf bufLen =
            Some (of_nat (length str), p + 4 + of_nat (length str), buf')
          \<and> take n (r_bytes buf') = take n str \<and> r_bytes buf' ! n = 0"
proof -
  note r' = setUtf8String_bytes [OF assms(1-3)]
  let ?len = "of_nat (length str) :: u32"
  have len: "unat ?len = length str"
    using assms(1,2) by (simp add: region_ok_def in_region_def unat_of_nat)
  define c where "c = (if ?len < bufLen then ?len else bufLen - 1)"
  have bl1: "unat (bufLen - 1) = unat bufLen - 1" using assms(5)
    by (simp add: unat_minus_one unat_gt_0 [symmetric])
  have c: "unat c = n" by (simp add: c_def n_def len word_less_nat_alt bl1)
  have nlt: "n < length (r_bytes buf)" "n \<le> length str" using assms(5,6) by (auto simp: n_def)
  have ins: "in_region r' (p + 4) (unat c)" "in_region buf (r_base buf) (unat c)"
    using assms(2) nlt r' by (auto simp: in_region_def c roff_def)
  have "take n (take (length str) (drop (roff r p + 4) (r_bytes r'))) = take n str"
    using r'(6) by simp
  then have pre: "take n (drop (roff r' (p + 4)) (r_bytes r')) = take n str"
    using nlt(2) by (simp add: r'(5) min_absorb1)
  have cp: "memcpy_region buf (r_base buf) r' (p + 4) c =
      Some (buf\<lparr>r_bytes := take n str @ drop n (r_bytes buf)\<rparr>)"
    using memcpy_region_in [OF r'(1) ins(1) assms(4) ins(2)]
    unfolding c pre by (simp add: roff_def)
  have oc: "roff buf (r_base buf + c) = n" by (simp add: roff_def c)
  show ?thesis
    using cp nlt
    by (simp add: readUtf8String_def read4BE_get r' c_def [symmetric] store_def oc)
qed

theorem setUtf8String_readUtf8String_witness:
  "\<exists>r' buf'. setUtf8String \<lparr>r_base = 64, r_bytes = [0, 0, 0, 0, 0, 0, 0, 0]\<rparr> 64 [65, 66] = Some r'
     \<and> readUtf8String r' 64 \<lparr>r_base = 8, r_bytes = [7, 7, 7, 7]\<rparr> 4 = Some (2, 70, buf')
     \<and> take 2 (r_bytes buf') = [65, 66] \<and> r_bytes buf' ! 2 = 0"
proof -
  let ?r = "\<lparr>r_base = 64, r_bytes = [0, 0, 0, 0, 0, 0, 0, 0]\<rparr>"
  obtain r' where r': "setUtf8String ?r 64 [65, 66] = Some r'"
    by (simp add: setUtf8String_def set4BE_def store_def roff_def Let_def)
  show ?thesis
    using r' setUtf8String_readUtf8String [of ?r 64 "[65, 66]" r' "\<lparr>r_base = 8, r_bytes = [7, 7, 7, 7]\<rparr>" 4]
    by (simp add: region_ok_def in_region_def roff_def) (simp add: numeral_2_eq_2)
qed

end
