(* ===== verification/Minzip_Hash.thy ===== *)
theory Minzip_Hash
  imports Recovery_Prelude "HOL-Library.Multiset"
begin

text \<open>
  The open-addressing hash table of \<^verbatim>\<open>minzip/Hash.c\<close> and \<^verbatim>\<open>minzip/Hash.h\<close>.  A \<^verbatim>\<open>void*\<close> slot
  value is \<open>NULL\<close>, the tombstone or a live pointer.  The probing loops have no bound in the
  source, so they are \<open>partial_function (option)\<close>: \<open>None\<close> is a loop that never ends.  A failed
  \<^verbatim>\<open>assert\<close>, the \<^verbatim>\<open>abort\<close> after a failed resize and a step past the end of the one-entry table
  are values of \<open>hash_error\<close>.  Whether \<^verbatim>\<open>calloc(n, sizeof(HashTable))\<close> succeeds is a parameter.

  The sections give the operations in the order of the source, the well-formedness invariant
  \<open>hash_wf\<close> (sizes, counters, load factor, unbroken probe chains), what each operation does to
  the bag of live entries, and the refinement of whole operation sequences.
\<close>

section \<open>Data\<close>

datatype 'p ptr = NULL | HASH_TOMBSTONE | Ptr 'p

record 'p HashEntry =
  hashValue :: u32
  data :: "'p ptr"

text \<open>
  \<open>tableSize\<close> is an \<^verbatim>\<open>int\<close> that is never negative; the counters are \<^verbatim>\<open>int\<close>s that are also
  decremented.  \<open>freeFunc\<close> says whether a free function was registered; the calls it receives
  are part of the result of \<open>mzHashTableClear\<close>.
\<close>

record 'p HashTable =
  tableSize :: nat
  numEntries :: int
  numDeadEntries :: int
  pEntries :: "'p HashEntry list"
  freeFunc :: bool

datatype hash_error = AssertFailed | ResizeAbort | PastEnd

definition LOAD_NUMER :: int where "LOAD_NUMER = 5"
definition LOAD_DENOM :: int where "LOAD_DENOM = 8"

definition empty_entry :: "'p HashEntry" where
  "empty_entry = \<lparr>hashValue = 0, data = NULL\<rparr>"

section \<open>Sizes\<close>

definition mzHashSize :: "u32 \<Rightarrow> u32" where
  "mzHashSize sz = (sz * 8) div 5 + 1"

definition roundUpPower2 :: "u32 \<Rightarrow> u32" where
  "roundUpPower2 val =
     (let val = val - 1;
          val = val OR drop_bit 1 val;
          val = val OR drop_bit 2 val;
          val = val OR drop_bit 4 val;
          val = val OR drop_bit 8 val;
          val = val OR drop_bit 16 val
      in val + 1)"

section \<open>Creation and destruction\<close>

definition mzHashTableCreate ::
  "bool \<Rightarrow> (nat \<Rightarrow> bool) \<Rightarrow> u32 \<Rightarrow> bool \<Rightarrow> hash_error + 'p HashTable option" where
  "mzHashTableCreate malloc_ok calloc initialSize ff =
     (if \<not> initialSize > 0 then Inl AssertFailed
      else if \<not> malloc_ok then Inr None
      else let n = unat (roundUpPower2 initialSize)
           in if \<not> calloc n then Inr None
              else Inr (Some \<lparr>tableSize = n, numEntries = 0, numDeadEntries = 0,
                              pEntries = replicate n empty_entry, freeFunc = ff\<rparr>))"

text \<open>The loop of \<open>mzHashTableClear\<close>: the nuked entries and the arguments of the free calls.\<close>

fun clear_entries :: "bool \<Rightarrow> 'p HashEntry list \<Rightarrow> 'p HashEntry list \<times> 'p ptr list" where
  "clear_entries ff [] = ([], [])"
| "clear_entries ff (e # es) =
     (let (es', freed) = clear_entries ff es
      in if data e = HASH_TOMBSTONE then (e\<lparr>data := NULL\<rparr> # es', freed)
         else if data e \<noteq> NULL
              then (e\<lparr>data := NULL\<rparr> # es', (if ff then data e # freed else freed))
         else (e # es', freed))"

definition mzHashTableClear :: "'p HashTable \<Rightarrow> 'p HashTable \<times> 'p ptr list" where
  "mzHashTableClear ht =
     (let (es, freed) = clear_entries (freeFunc ht) (pEntries ht)
      in (ht\<lparr>pEntries := es, numEntries := 0, numDeadEntries := 0\<rparr>, freed))"

text \<open>Freeing returns the arguments of the free calls; a null table is left alone.\<close>

definition mzHashTableFree :: "'p HashTable option \<Rightarrow> 'p ptr list" where
  "mzHashTableFree pHashTable =
     (case pHashTable of None \<Rightarrow> [] | Some ht \<Rightarrow> snd (mzHashTableClear ht))"

definition mzHashTableNumEntries :: "'p HashTable \<Rightarrow> int" where
  "mzHashTableNumEntries ht = numEntries ht"

text \<open>\<^verbatim>\<open>sizeof(HashTable)\<close> is 20 and \<^verbatim>\<open>sizeof(HashEntry)\<close> is 8 on the 32-bit target.\<close>

definition mzHashTableMemUsage :: "'p HashTable \<Rightarrow> nat" where
  "mzHashTableMemUsage ht = 20 + tableSize ht * 8"

section \<open>Resizing\<close>

fun countTombStones :: "'p HashEntry list \<Rightarrow> int" where
  "countTombStones [] = 0"
| "countTombStones (e # es) =
     (if data e = HASH_TOMBSTONE then 1 else 0) + countTombStones es"

text \<open>\<^verbatim>\<open>x & (size-1)\<close>, the index computation of every probe.\<close>

definition mask_idx :: "u32 \<Rightarrow> nat \<Rightarrow> nat" where
  "mask_idx x n = unat (x AND (of_nat n - 1))"

partial_function (option) resize_probe :: "'p HashEntry list \<Rightarrow> nat \<Rightarrow> nat \<Rightarrow> nat option" where
  "resize_probe es newSize newIdx =
     (if data (es ! newIdx) \<noteq> NULL
      then resize_probe es newSize (mask_idx (of_nat newIdx + 1) newSize)
      else Some newIdx)"

fun reinsert :: "nat \<Rightarrow> 'p HashEntry list \<Rightarrow> 'p HashEntry list \<Rightarrow> 'p HashEntry list option" where
  "reinsert newSize [] new = Some new"
| "reinsert newSize (e # es) new =
     (if data e \<noteq> NULL \<and> data e \<noteq> HASH_TOMBSTONE
      then do {
        newIdx \<leftarrow> resize_probe new newSize (mask_idx (hashValue e) newSize);
        reinsert newSize es (new[newIdx := \<lparr>hashValue = hashValue e, data = data e\<rparr>]) }
      else reinsert newSize es new)"

text \<open>\<open>Some (Inr None)\<close> is the return value \<^verbatim>\<open>false\<close> (no memory), with the table untouched.\<close>

definition resizeHash ::
  "(nat \<Rightarrow> bool) \<Rightarrow> 'p HashTable \<Rightarrow> nat \<Rightarrow> (hash_error + 'p HashTable option) option" where
  "resizeHash calloc ht newSize =
     (if countTombStones (pEntries ht) \<noteq> numDeadEntries ht then Some (Inl AssertFailed)
      else if \<not> calloc newSize then Some (Inr None)
      else do {
        new \<leftarrow> reinsert newSize (pEntries ht) (replicate newSize empty_entry);
        let ht' = ht\<lparr>pEntries := new, tableSize := newSize, numDeadEntries := 0\<rparr>;
        if countTombStones new \<noteq> 0 then Some (Inl AssertFailed) else Some (Inr (Some ht')) })"

section \<open>Lookup, insertion, removal\<close>

text \<open>
  The probe loop shared by lookup, removal and probe counting: stop at an empty slot or at a
  slot that satisfies \<open>hit\<close>, wrapping around at the end.  In the one-entry table the loop
  breaks with \<^verbatim>\<open>pEntry == pEnd\<close>, the index \<open>n\<close>.
\<close>

partial_function (option) probe ::
  "('p HashEntry \<Rightarrow> bool) \<Rightarrow> 'p HashEntry list \<Rightarrow> nat \<Rightarrow> nat \<Rightarrow> nat option" where
  "probe hit es n i =
     (if data (es ! i) \<noteq> NULL
      then if hit (es ! i) then Some i
           else if i + 1 = n then (if n = 1 then Some (i + 1) else probe hit es n 0)
           else probe hit es n (i + 1)
      else Some i)"

definition cmp_hit ::
  "('p ptr \<Rightarrow> 'p ptr \<Rightarrow> int) \<Rightarrow> u32 \<Rightarrow> 'p ptr \<Rightarrow> 'p HashEntry \<Rightarrow> bool" where
  "cmp_hit cmpFunc itemHash item e \<longleftrightarrow>
     data e \<noteq> HASH_TOMBSTONE \<and> hashValue e = itemHash \<and> cmpFunc (data e) item = 0"

definition mzHashTableLookup ::
  "(nat \<Rightarrow> bool) \<Rightarrow> 'p HashTable \<Rightarrow> u32 \<Rightarrow> 'p ptr \<Rightarrow> ('p ptr \<Rightarrow> 'p ptr \<Rightarrow> int) \<Rightarrow> bool \<Rightarrow>
     (hash_error + 'p ptr \<times> 'p HashTable) option" where
  "mzHashTableLookup calloc ht itemHash item cmpFunc doAdd =
     (if \<not> tableSize ht > 0 \<or> item = HASH_TOMBSTONE \<or> item = NULL then Some (Inl AssertFailed)
      else do {
        i \<leftarrow> probe (cmp_hit cmpFunc itemHash item) (pEntries ht) (tableSize ht)
               (mask_idx itemHash (tableSize ht));
        if i = tableSize ht then Some (Inl PastEnd)
        else if data (pEntries ht ! i) = NULL then
          if doAdd then do {
            let ht1 = ht\<lparr>pEntries := (pEntries ht)[i := \<lparr>hashValue = itemHash, data = item\<rparr>],
                         numEntries := numEntries ht + 1\<rparr>;
            r \<leftarrow> (if (numEntries ht1 + numDeadEntries ht1) * LOAD_DENOM
                       > int (tableSize ht1) * LOAD_NUMER
                  then resizeHash calloc ht1 (tableSize ht1 * 2)
                  else Some (Inr (Some ht1)));
            case r of
              Inl e \<Rightarrow> Some (Inl e)
            | Inr None \<Rightarrow> Some (Inl ResizeAbort)
            | Inr (Some ht2) \<Rightarrow>
                if \<not> numEntries ht2 < int (tableSize ht2) then Some (Inl AssertFailed)
                else Some (Inr (item, ht2)) }
          else Some (Inr (NULL, ht))
        else Some (Inr (data (pEntries ht ! i), ht)) })"

definition mzHashTableRemove ::
  "'p HashTable \<Rightarrow> u32 \<Rightarrow> 'p ptr \<Rightarrow> (hash_error + bool \<times> 'p HashTable) option" where
  "mzHashTableRemove ht itemHash item =
     (if \<not> tableSize ht > 0 then Some (Inl AssertFailed)
      else do {
        i \<leftarrow> probe (\<lambda>e. data e = item) (pEntries ht) (tableSize ht)
               (mask_idx itemHash (tableSize ht));
        if i = tableSize ht then Some (Inr (False, ht))
        else if data (pEntries ht ! i) = NULL then Some (Inr (False, ht))
        else Some (Inr (True,
               ht\<lparr>pEntries := (pEntries ht)[i := (pEntries ht ! i)\<lparr>data := HASH_TOMBSTONE\<rparr>],
                  numEntries := numEntries ht - 1,
                  numDeadEntries := numDeadEntries ht + 1\<rparr>)) })"

section \<open>Traversal\<close>

text \<open>The callback of \<open>mzHashForeach\<close> acts on a state of the caller and returns an \<^verbatim>\<open>int\<close>.\<close>

fun foreach_entries :: "('p ptr \<Rightarrow> 's \<Rightarrow> int \<times> 's) \<Rightarrow> 'p HashEntry list \<Rightarrow> 's \<Rightarrow> int \<times> 's" where
  "foreach_entries func [] s = (0, s)"
| "foreach_entries func (e # es) s =
     (if data e \<noteq> NULL \<and> data e \<noteq> HASH_TOMBSTONE
      then let (val, s') = func (data e) s in if val \<noteq> 0 then (val, s') else foreach_entries func es s'
      else foreach_entries func es s)"

definition mzHashForeach :: "'p HashTable \<Rightarrow> ('p ptr \<Rightarrow> 's \<Rightarrow> int \<times> 's) \<Rightarrow> 's \<Rightarrow> int \<times> 's" where
  "mzHashForeach ht func arg = foreach_entries func (pEntries ht) arg"

text \<open>The iterator: the index of the current entry; the scan for the next live one.\<close>

function iter_scan :: "'p HashTable \<Rightarrow> nat \<Rightarrow> nat" where
  "iter_scan ht i =
     (if i < tableSize ht
      then if data (pEntries ht ! i) \<noteq> NULL \<and> data (pEntries ht ! i) \<noteq> HASH_TOMBSTONE then i
           else iter_scan ht (i + 1)
      else i)"
  by pat_completeness auto
termination
  by (relation "measure (\<lambda>(ht, i). tableSize ht - i)") auto

definition mzHashIterNext :: "'p HashTable \<Rightarrow> int \<Rightarrow> int" where
  "mzHashIterNext ht idx = int (iter_scan ht (nat (idx + 1)))"

definition mzHashIterBegin :: "'p HashTable \<Rightarrow> int" where
  "mzHashIterBegin ht = mzHashIterNext ht (-1)"

definition mzHashIterDone :: "'p HashTable \<Rightarrow> int \<Rightarrow> bool" where
  "mzHashIterDone ht idx \<longleftrightarrow> idx \<ge> int (tableSize ht)"

definition mzHashIterData :: "'p HashTable \<Rightarrow> int \<Rightarrow> hash_error + 'p ptr" where
  "mzHashIterData ht idx =
     (if \<not> (idx \<ge> 0 \<and> idx < int (tableSize ht)) then Inl AssertFailed
      else Inr (data (pEntries ht ! nat idx)))"

text \<open>The probe loop again, counting the steps.\<close>

partial_function (option) count_loop ::
  "('p HashEntry \<Rightarrow> bool) \<Rightarrow> 'p HashEntry list \<Rightarrow> nat \<Rightarrow> nat \<Rightarrow> int \<Rightarrow> (nat \<times> int) option" where
  "count_loop hit es n i cnt =
     (if data (es ! i) \<noteq> NULL
      then if hit (es ! i) then Some (i, cnt)
           else if i + 1 = n
                then (if n = 1 then Some (i + 1, cnt) else count_loop hit es n 0 (cnt + 1))
           else count_loop hit es n (i + 1) (cnt + 1)
      else Some (i, cnt))"

definition countProbes ::
  "'p HashTable \<Rightarrow> u32 \<Rightarrow> 'p ptr \<Rightarrow> ('p ptr \<Rightarrow> 'p ptr \<Rightarrow> int) \<Rightarrow> (hash_error + int) option" where
  "countProbes ht itemHash item cmpFunc =
     (if \<not> tableSize ht > 0 \<or> item = HASH_TOMBSTONE \<or> item = NULL then Some (Inl AssertFailed)
      else do {
        (i, cnt) \<leftarrow> count_loop (cmp_hit cmpFunc itemHash item) (pEntries ht) (tableSize ht)
               (mask_idx itemHash (tableSize ht)) 0;
        if i = tableSize ht then Some (Inl PastEnd)
        else if data (pEntries ht ! i) = NULL then Some (Inr (-1))
        else Some (Inr cnt) })"

text \<open>
  \<open>mzHashTableProbeCount\<close> logs the number of entries and the minimum, maximum and total of the
  probes; the model returns them (the printed average is not modelled).
\<close>

declare iter_scan.simps [simp del]

lemma iter_scan_ge: "i \<le> iter_scan ht i"
proof (induction ht i rule: iter_scan.induct)
  case (1 ht i)
  then show ?case by (subst iter_scan.simps) (auto dest: Suc_leD)
qed

lemma mzHashIterNext_gt: "idx < mzHashIterNext ht idx"
  using iter_scan_ge [of "nat (idx + 1)" ht] by (simp add: mzHashIterNext_def)

function probe_count_loop ::
  "'p HashTable \<Rightarrow> ('p ptr \<Rightarrow> u32) \<Rightarrow> ('p ptr \<Rightarrow> 'p ptr \<Rightarrow> int) \<Rightarrow> int \<Rightarrow>
     int \<times> int \<times> int \<times> int \<Rightarrow> (hash_error + int \<times> int \<times> int \<times> int) option" where
  "probe_count_loop ht calcFunc cmpFunc idx (n, minProbe, maxProbe, totalProbe) =
     (if mzHashIterDone ht idx then Some (Inr (n, minProbe, maxProbe, totalProbe))
      else case mzHashIterData ht idx of
        Inl e \<Rightarrow> Some (Inl e)
      | Inr dat \<Rightarrow> do {
          r \<leftarrow> countProbes ht (calcFunc dat) dat cmpFunc;
          case r of
            Inl e \<Rightarrow> Some (Inl e)
          | Inr cnt \<Rightarrow>
              probe_count_loop ht calcFunc cmpFunc (mzHashIterNext ht idx)
                (n + 1,
                 (if cnt < minProbe then cnt else minProbe),
                 (if cnt > maxProbe then cnt else maxProbe),
                 totalProbe + cnt) })"
  by pat_completeness auto
termination
proof (relation "measure (\<lambda>(ht, calcFunc, cmpFunc, idx, st). nat (int (tableSize ht) - idx))", goal_cases)
  case 1
  show ?case by simp
next
  case (2 ht calcFunc cmpFunc idx)
  then show ?case using mzHashIterNext_gt [of idx ht] by (simp add: mzHashIterDone_def)
qed

definition mzHashTableProbeCount ::
  "'p HashTable \<Rightarrow> ('p ptr \<Rightarrow> u32) \<Rightarrow> ('p ptr \<Rightarrow> 'p ptr \<Rightarrow> int) \<Rightarrow>
     (hash_error + int \<times> int \<times> int \<times> int) option" where
  "mzHashTableProbeCount ht calcFunc cmpFunc =
     probe_count_loop ht calcFunc cmpFunc (mzHashIterBegin ht) (0, 65536 * 32767, 0, 0)"

section \<open>Index arithmetic\<close>

lemma mask_idx_pow2:
  assumes "n = 2 ^ k" "k < 32"
  shows "mask_idx x n = unat x mod n"
proof -
  have "(of_nat n - 1 :: u32) = mask k"
    using assms by (simp add: mask_eq_exp_minus_1)
  then have "x AND (of_nat n - 1) = take_bit k x" by (simp add: take_bit_eq_mask)
  then have "mask_idx x n = take_bit k (unat x)" by (simp add: mask_idx_def unsigned_take_bit_eq)
  then show ?thesis by (simp add: assms(1) take_bit_eq_mod)
qed

lemma mask_idx_Suc:
  assumes "n = 2 ^ k" "k < 32" "i < n"
  shows "mask_idx (of_nat i + 1) n = Suc i mod n"
proof -
  have n: "n < 2 ^ 32" unfolding assms(1) using assms(2) by (intro power_strict_increasing) simp_all
  then have "unat (of_nat i + 1 :: u32) = Suc i mod 2 ^ 32"
    using assms(3) by (simp add: unat_word_ariths(1) unat_of_nat)
  moreover have "Suc i mod 2 ^ 32 mod n = Suc i mod n" using n assms(3)
    by (cases "Suc i = n") auto
  ultimately show ?thesis using mask_idx_pow2 [OF assms(1,2)] by metis
qed

section \<open>Live entries\<close>

definition slot_bag :: "'p HashEntry \<Rightarrow> (u32 \<times> 'p) multiset" where
  "slot_bag e = (case data e of Ptr p \<Rightarrow> {#(hashValue e, p)#} | _ \<Rightarrow> {#})"

primrec live :: "'p HashEntry list \<Rightarrow> (u32 \<times> 'p) multiset" where
  "live [] = {#}"
| "live (e # es) = slot_bag e + live es"

abbreviation entries :: "'p HashTable \<Rightarrow> (u32 \<times> 'p) multiset" where
  "entries ht \<equiv> live (pEntries ht)"

definition nulls :: "'p HashEntry list \<Rightarrow> nat" where
  "nulls es = length (filter (\<lambda>e. data e = NULL) es)"

lemma slot_bag_simps [simp]:
  "data e = NULL \<Longrightarrow> slot_bag e = {#}"
  "data e = HASH_TOMBSTONE \<Longrightarrow> slot_bag e = {#}"
  "data e = Ptr p \<Longrightarrow> slot_bag e = {#(hashValue e, p)#}"
  by (simp_all add: slot_bag_def)

lemma slot_partition:
  "int (size (live es)) + countTombStones es + int (nulls es) = int (length es)"
proof (induction es)
  case (Cons e es)
  then show ?case by (cases "data e") (simp_all add: nulls_def slot_bag_def)
qed (simp add: nulls_def)

lemma countTombStones_nonneg: "0 \<le> countTombStones es"
  by (induction es) auto

lemma live_replicate_empty [simp]:
  "live (replicate n empty_entry) = {#}" "countTombStones (replicate n empty_entry) = 0"
  by (induction n) (auto simp: empty_entry_def)

lemma live_update:
  "i < length es \<Longrightarrow> live (es[i := e]) + slot_bag (es ! i) = live es + slot_bag e"
proof (induction es arbitrary: i)
  case (Cons a es)
  then show ?case using Cons.IH [of "i - 1"] by (cases i) (auto simp: ac_simps)
qed simp

lemma countTombStones_update:
  "i < length es \<Longrightarrow>
     countTombStones (es[i := e]) + (if data (es ! i) = HASH_TOMBSTONE then 1 else 0) =
     countTombStones es + (if data e = HASH_TOMBSTONE then 1 else 0)"
proof (induction es arbitrary: i)
  case (Cons a es)
  then show ?case using Cons.IH [of "i - 1"] by (cases i) auto
qed simp

lemma in_live_iff:
  "(h, p) \<in># live es \<longleftrightarrow> (\<exists>i < length es. data (es ! i) = Ptr p \<and> hashValue (es ! i) = h)"
  by (induction es) (auto simp: slot_bag_def nth_Cons less_Suc_eq_0_disj split: ptr.splits)

lemma nulls_pos_iff: "0 < nulls es \<longleftrightarrow> (\<exists>i < length es. data (es ! i) = NULL)"
  unfolding nulls_def length_greater_0_conv filter_empty_conv by (metis in_set_conv_nth)

section \<open>Probing\<close>

text \<open>Slot \<open>k\<close> steps after \<open>s\<close> in a table of \<open>n\<close> slots.\<close>

abbreviation cyc :: "'p HashEntry list \<Rightarrow> nat \<Rightarrow> nat \<Rightarrow> 'p HashEntry" where
  "cyc es s k \<equiv> es ! ((s + k) mod length es)"

lemma cyc_Suc: "Suc ((s + k) mod n) mod n = (s + Suc k) mod (n::nat)"
  by (simp add: mod_Suc_eq)

lemma cyc_surj:
  assumes "i < n" "s < (n::nat)"
  shows "\<exists>k < n. i = (s + k) mod n"
proof (cases "s \<le> i")
  case True
  then show ?thesis using assms by (intro exI [of _ "i - s"]) auto
next
  case False
  then show ?thesis using assms by (intro exI [of _ "n + i - s"]) auto
qed

lemma probe_next:
  assumes "i < n" "n = length es" "n \<noteq> 1" "data (es ! i) \<noteq> NULL" "\<not> hit (es ! i)"
  shows "probe hit es n i = probe hit es n (Suc i mod n)"
  using assms by (subst probe.simps) (auto simp: less_Suc_eq)

lemma probe_skip:
  assumes "n = length es" "n \<noteq> 1" "0 < n"
    and "\<And>j. j < k \<Longrightarrow> data (cyc es s j) \<noteq> NULL \<and> \<not> hit (cyc es s j)"
  shows "probe hit es n (s mod n) = probe hit es n ((s + k) mod n)"
  using assms(4)
proof (induction k)
  case 0
  then show ?case by simp
next
  case (Suc k)
  have "probe hit es n ((s + k) mod n) = probe hit es n (Suc ((s + k) mod n) mod n)"
    using Suc.prems [of k] assms(1-3) by (intro probe_next) simp_all
  with Suc show ?case by (simp only: cyc_Suc) simp
qed

text \<open>A probe of a table that has an empty slot ends, at the first stopping slot.\<close>

lemma probe_stops:
  assumes n: "n = length es" and s: "s < n" and null: "\<exists>i < n. data (es ! i) = NULL"
  obtains k where "k < n" "probe hit es n s = Some ((s + k) mod n)"
    "\<And>j. j < k \<Longrightarrow> data (cyc es s j) \<noteq> NULL \<and> \<not> hit (cyc es s j)"
    "data (cyc es s k) = NULL \<or> hit (cyc es s k)"
proof -
  let ?stop = "\<lambda>k. data (cyc es s k) = NULL \<or> hit (cyc es s k)"
  define k where "k = (LEAST k. ?stop k)"
  obtain i k0 where "i < n" "data (es ! i) = NULL" "k0 < n" "i = (s + k0) mod n"
    using null cyc_surj [OF _ s] by blast
  then have k0: "?stop k0" "k0 < n" using n by auto
  have stop: "?stop k" unfolding k_def by (rule LeastI [of ?stop k0]) (use k0 in blast)
  have kn: "k < n" using Least_le [of ?stop k0] k0 unfolding k_def by linarith
  have skip: "data (cyc es s j) \<noteq> NULL \<and> \<not> hit (cyc es s j)" if "j < k" for j
    using not_less_Least [of j ?stop] that unfolding k_def by blast
  have "probe hit es n s = probe hit es n ((s + k) mod n)"
  proof (cases "n = 1")
    case True
    then show ?thesis using s kn by simp
  next
    case False
    then show ?thesis using probe_skip [OF n False _ skip] s by simp
  qed
  also have "\<dots> = Some ((s + k) mod n)"
    using stop n by (subst probe.simps) auto
  finally show thesis using that kn skip stop by blast
qed

text \<open>The probe of the resize loop is the same probe with no early hit.\<close>

lemma resize_probe_next:
  assumes "n = 2 ^ k" "k < 32" "i < n" "data (es ! i) \<noteq> NULL"
  shows "resize_probe es n i = resize_probe es n (Suc i mod n)"
  using assms mask_idx_Suc [OF assms(1-3)] by (subst resize_probe.simps) simp

lemma resize_probe_skip:
  assumes "n = length es" "n = 2 ^ b" "b < 32"
    and "\<And>j. j < k \<Longrightarrow> data (cyc es s j) \<noteq> NULL"
  shows "resize_probe es n (s mod n) = resize_probe es n ((s + k) mod n)"
  using assms(4)
proof (induction k)
  case 0
  then show ?case by simp
next
  case (Suc k)
  have "(s + k) mod n < n" using assms(2) by (intro mod_less_divisor) simp
  then have "resize_probe es n ((s + k) mod n) = resize_probe es n (Suc ((s + k) mod n) mod n)"
    using Suc.prems [of k] assms(1) by (intro resize_probe_next [OF assms(2,3)]) simp_all
  with Suc show ?case by (simp only: cyc_Suc) simp
qed

lemma resize_probe_stops:
  assumes n: "n = length es" "n = 2 ^ b" "b < 32" and s: "s < n"
    and null: "\<exists>i < n. data (es ! i) = NULL"
  obtains k where "k < n" "resize_probe es n s = Some ((s + k) mod n)"
    "\<And>j. j < k \<Longrightarrow> data (cyc es s j) \<noteq> NULL" "data (cyc es s k) = NULL"
proof -
  obtain k where k: "k < n" "\<And>j. j < k \<Longrightarrow> data (cyc es s j) \<noteq> NULL" "data (cyc es s k) = NULL"
    using probe_stops [OF n(1) s null, of "\<lambda>_. False"] by metis
  have "resize_probe es n s = resize_probe es n ((s + k) mod n)"
    using resize_probe_skip [OF n, of k s] k(2) s by simp
  also have "\<dots> = Some ((s + k) mod n)" using k(3) n(1) by (subst resize_probe.simps) simp
  finally show thesis using that k by blast
qed

section \<open>The invariant\<close>

text \<open>
  Every live entry is found by probing from its hash: no empty slot lies between the slot its
  hash selects and the slot it is in.
\<close>

definition chain :: "'p HashEntry list \<Rightarrow> nat \<Rightarrow> nat \<Rightarrow> bool" where
  "chain es s i \<longleftrightarrow>
     (\<exists>k < length es. i = (s + k) mod length es \<and> (\<forall>j < k. data (cyc es s j) \<noteq> NULL))"

definition chains_ok :: "'p HashEntry list \<Rightarrow> bool" where
  "chains_ok es \<longleftrightarrow>
     (\<forall>i < length es. data (es ! i) \<noteq> NULL \<longrightarrow> data (es ! i) \<noteq> HASH_TOMBSTONE \<longrightarrow>
        chain es (unat (hashValue (es ! i)) mod length es) i)"

definition pow2_size :: "nat \<Rightarrow> bool" where
  "pow2_size n \<longleftrightarrow> (\<exists>k < 32. n = 2 ^ k)"

text \<open>Everything but the load bound; holds also between an insertion and the resize it triggers.\<close>

definition table_ok :: "'p HashTable \<Rightarrow> bool" where
  "table_ok ht \<longleftrightarrow>
     length (pEntries ht) = tableSize ht \<and> pow2_size (tableSize ht) \<and>
     numEntries ht = int (size (entries ht)) \<and>
     numDeadEntries ht = countTombStones (pEntries ht) \<and>
     chains_ok (pEntries ht)"

definition load_ok :: "'p HashTable \<Rightarrow> bool" where
  "load_ok ht \<longleftrightarrow>
     (numEntries ht + numDeadEntries ht) * LOAD_DENOM \<le> int (tableSize ht) * LOAD_NUMER"

definition hash_wf :: "'p HashTable \<Rightarrow> bool" where
  "hash_wf ht \<longleftrightarrow> table_ok ht \<and> load_ok ht"

text \<open>
  What the code relies on from \<^verbatim>\<open>calloc\<close>: a block of \<open>n\<close> elements of 20 bytes is never granted
  when it does not fit the 32-bit address space.
\<close>

definition calloc_fits :: "(nat \<Rightarrow> bool) \<Rightarrow> bool" where
  "calloc_fits calloc \<longleftrightarrow> (\<forall>n. calloc n \<longrightarrow> n * 20 < 2 ^ 32)"

lemma pow2_size_pos: "pow2_size n \<Longrightarrow> 0 < n"
  by (auto simp: pow2_size_def)

lemma mask_idx_pow2_size: "pow2_size n \<Longrightarrow> mask_idx x n = unat x mod n"
  by (auto simp: pow2_size_def mask_idx_pow2)

lemma pow2_size_double:
  assumes "pow2_size n" "n * 2 * 20 < 2 ^ 32"
  shows "pow2_size (n * 2)"
proof -
  obtain k where k: "n = 2 ^ k" using assms(1) by (auto simp: pow2_size_def)
  have "Suc k < 32"
  proof (rule ccontr)
    assume "\<not> Suc k < 32"
    then have "(2::nat) ^ 31 \<le> 2 ^ k" by (intro power_increasing) auto
    with assms(2) k show False by simp
  qed
  then show ?thesis unfolding pow2_size_def using k by (intro exI [of _ "Suc k"]) simp
qed

lemma wf_has_null:
  assumes "hash_wf ht"
  shows "\<exists>i < tableSize ht. data (pEntries ht ! i) = NULL"
proof -
  have "0 < tableSize ht" using assms by (auto simp: hash_wf_def table_ok_def pow2_size_pos)
  then have "0 < nulls (pEntries ht)"
    using assms slot_partition [of "pEntries ht"]
    by (auto simp: hash_wf_def table_ok_def load_ok_def LOAD_DENOM_def LOAD_NUMER_def)
  then show ?thesis using assms by (auto simp: nulls_pos_iff hash_wf_def table_ok_def)
qed

lemma chain_mono:
  assumes "chain es s i" "length es' = length es"
    and "\<And>m. m < length es \<Longrightarrow> data (es ! m) \<noteq> NULL \<Longrightarrow> data (es' ! m) \<noteq> NULL"
  shows "chain es' s i"
proof -
  obtain k where k: "k < length es" "i = (s + k) mod length es"
      "\<And>j. j < k \<Longrightarrow> data (cyc es s j) \<noteq> NULL"
    using assms(1) by (auto simp: chain_def)
  have "data (cyc es' s j) \<noteq> NULL" if "j < k" for j
  proof -
    have "(s + j) mod length es < length es" using k(1) by (intro mod_less_divisor) linarith
    then show ?thesis using assms(2) assms(3) [OF _ k(3) [OF that]] by simp
  qed
  with k assms(2) show ?thesis unfolding chain_def by auto
qed

text \<open>Filling an empty slot at the end of a probe keeps all chains and creates the new one.\<close>

lemma chains_ok_fill:
  assumes ok: "chains_ok es" and i: "i < length es" and null: "data (es ! i) = NULL"
    and e: "data e \<noteq> NULL"
    and ch: "chain es (unat (hashValue e) mod length es) i"
  shows "chains_ok (es[i := e])"
  unfolding chains_ok_def
proof (intro allI impI)
  fix j
  assume j: "j < length (es[i := e])" "data (es[i := e] ! j) \<noteq> NULL"
    "data (es[i := e] ! j) \<noteq> HASH_TOMBSTONE"
  have lift: "chain (es[i := e]) s m" if "chain es s m" for s m
    using that by (rule chain_mono) (use e in \<open>auto simp: nth_list_update [OF i]\<close>)
  show "chain (es[i := e]) (unat (hashValue (es[i := e] ! j)) mod length (es[i := e])) j"
    using j ok ch i by (cases "j = i") (auto simp: chains_ok_def intro!: lift)
qed

lemma chains_ok_bury:
  assumes "chains_ok es" "i < length es" "data (es ! i) \<noteq> NULL"
  shows "chains_ok (es[i := (es ! i)\<lparr>data := HASH_TOMBSTONE\<rparr>])" (is "chains_ok ?es")
  unfolding chains_ok_def
proof (intro allI impI)
  fix j
  assume j: "j < length ?es" "data (?es ! j) \<noteq> NULL" "data (?es ! j) \<noteq> HASH_TOMBSTONE"
  have lift: "chain ?es s m" if "chain es s m" for s m
    using that by (rule chain_mono) (auto simp: nth_list_update [OF assms(2)])
  show "chain ?es (unat (hashValue (?es ! j)) mod length ?es) j"
    using j assms by (cases "j = i") (auto simp: chains_ok_def intro!: lift)
qed

lemma chains_ok_empty: "chains_ok (replicate n empty_entry)"
  by (simp add: chains_ok_def empty_entry_def)

section \<open>What the operations do to the table\<close>

lemma table_insert:
  fixes p :: 'p and ht :: "'p HashTable"
  assumes ok: "table_ok ht" and i: "i < tableSize ht" and null: "data (pEntries ht ! i) = NULL"
    and ch: "chain (pEntries ht) (unat h mod tableSize ht) i"
  defines "ht' \<equiv> ht\<lparr>pEntries := (pEntries ht)[i := \<lparr>hashValue = h, data = Ptr p\<rparr>],
                   numEntries := numEntries ht + 1\<rparr>"
  shows "table_ok ht'" "entries ht' = add_mset (h, p) (entries ht)"
proof -
  have i': "i < length (pEntries ht)" using ok i by (simp add: table_ok_def)
  show bag: "entries ht' = add_mset (h, p) (entries ht)"
    using live_update [OF i', of "\<lparr>hashValue = h, data = Ptr p\<rparr>"] null
    by (simp add: ht'_def)
  show "table_ok ht'"
    using ok bag chains_ok_fill [of "pEntries ht" i "\<lparr>hashValue = h, data = Ptr p\<rparr>"]
      countTombStones_update [OF i', of "\<lparr>hashValue = h, data = Ptr p\<rparr>"] i' null ch
    by (simp add: table_ok_def ht'_def)
qed

lemma reinsert_ok:
  assumes "n = length new" "pow2_size n" "chains_ok new" "countTombStones new = 0"
    and "size (live es) + size (live new) < n"
  shows "\<exists>new'. reinsert n es new = Some new' \<and> length new' = n \<and> chains_ok new' \<and>
           countTombStones new' = 0 \<and> live new' = live new + live es"
  using assms
proof (induction es arbitrary: new)
  case Nil
  then show ?case by simp
next
  case (Cons e es)
  show ?case
  proof (cases "data e")
    case (Ptr p)
    obtain b where b: "n = 2 ^ b" "b < 32" using Cons.prems(2) by (auto simp: pow2_size_def)
    let ?s = "unat (hashValue e) mod n"
    have s: "?s < n" using pow2_size_pos [OF Cons.prems(2)] by simp
    have "0 < nulls new" using slot_partition [of new] Cons.prems(1,4,5) by simp
    then have null: "\<exists>i < n. data (new ! i) = NULL" using Cons.prems(1) by (simp add: nulls_pos_iff)
    obtain k where k: "k < n" "resize_probe new n ?s = Some ((?s + k) mod n)"
        "\<And>j. j < k \<Longrightarrow> data (cyc new ?s j) \<noteq> NULL" "data (cyc new ?s k) = NULL"
      using resize_probe_stops [OF Cons.prems(1) b s null] by blast
    let ?i = "(?s + k) mod n" and ?e = "\<lparr>hashValue = hashValue e, data = Ptr p\<rparr>"
    have i: "?i < length new" using pow2_size_pos [OF Cons.prems(2)] Cons.prems(1) by simp
    have ch: "chain new (unat (hashValue ?e) mod length new) ?i"
      unfolding chain_def using k Cons.prems(1) by auto
    have nul: "data (new ! ?i) = NULL" using k(4) Cons.prems(1) by simp
    have ok: "chains_ok (new[?i := ?e])"
      by (rule chains_ok_fill [OF Cons.prems(3) i nul _ ch]) simp
    have ts: "countTombStones (new[?i := ?e]) = 0"
      using countTombStones_update [OF i, of ?e] nul Cons.prems(4) by simp
    have lv: "live (new[?i := ?e]) = add_mset (hashValue e, p) (live new)"
      using live_update [OF i, of ?e] nul by simp
    have "\<exists>new'. reinsert n es (new[?i := ?e]) = Some new' \<and> length new' = n \<and> chains_ok new' \<and>
           countTombStones new' = 0 \<and> live new' = live (new[?i := ?e]) + live es"
      using Cons.prems lv ok ts Ptr by (intro Cons.IH) simp_all
    then show ?thesis
      using k(2) Ptr lv by (simp add: mask_idx_pow2_size [OF Cons.prems(2)])
  qed (use Cons in simp_all)
qed

lemma resizeHash_ok:
  assumes "table_ok ht" "calloc n" "pow2_size n" "size (entries ht) < n"
  shows "\<exists>ht'. resizeHash calloc ht n = Some (Inr (Some ht')) \<and> table_ok ht' \<and>
           entries ht' = entries ht \<and> tableSize ht' = n \<and> numDeadEntries ht' = 0 \<and>
           freeFunc ht' = freeFunc ht"
proof -
  obtain new where "reinsert n (pEntries ht) (replicate n empty_entry) = Some new"
      "length new = n" "chains_ok new" "countTombStones new = 0" "live new = entries ht"
    using reinsert_ok [of n "replicate n empty_entry" "pEntries ht"] assms chains_ok_empty by auto
  then show ?thesis using assms by (auto simp: resizeHash_def table_ok_def Let_def)
qed

text \<open>
  The probe of a well-formed table for entries that all carry the hash \<open>h\<close>: it ends at a
  matching slot if there is one, else at the empty slot where such an entry belongs.
\<close>

lemma probe_search:
  assumes wf: "hash_wf ht"
    and hash: "\<And>e p. data e = Ptr p \<Longrightarrow> hit e \<Longrightarrow> e \<in> set (pEntries ht) \<Longrightarrow> hashValue e = h"
  obtains (found) i where "i < tableSize ht"
      "probe hit (pEntries ht) (tableSize ht) (mask_idx h (tableSize ht)) = Some i"
      "data (pEntries ht ! i) \<noteq> NULL" "hit (pEntries ht ! i)"
  | (missing) i where "i < tableSize ht"
      "probe hit (pEntries ht) (tableSize ht) (mask_idx h (tableSize ht)) = Some i"
      "data (pEntries ht ! i) = NULL" "chain (pEntries ht) (unat h mod tableSize ht) i"
      "\<And>e p. e \<in> set (pEntries ht) \<Longrightarrow> data e = Ptr p \<Longrightarrow> \<not> hit e"
proof -
  let ?es = "pEntries ht" and ?n = "tableSize ht" and ?s = "unat h mod tableSize ht"
  have ok: "table_ok ht" using wf by (simp add: hash_wf_def)
  then have len: "?n = length ?es" and p2: "pow2_size ?n" and chs: "chains_ok ?es"
    by (auto simp: table_ok_def)
  have npos: "0 < ?n" using p2 by (rule pow2_size_pos)
  then have s: "?s < ?n" by simp
  obtain k where k: "k < ?n" "probe hit ?es ?n ?s = Some ((?s + k) mod ?n)"
      "\<And>j. j < k \<Longrightarrow> data (cyc ?es ?s j) \<noteq> NULL \<and> \<not> hit (cyc ?es ?s j)"
      "data (cyc ?es ?s k) = NULL \<or> hit (cyc ?es ?s k)"
    using probe_stops [OF len s wf_has_null [OF wf]] by blast
  let ?i = "(?s + k) mod ?n"
  have i: "?i < ?n" using npos by simp
  have pr: "probe hit ?es ?n (mask_idx h ?n) = Some ?i"
    using k(2) by (simp add: mask_idx_pow2_size [OF p2])
  show thesis
  proof (cases "data (?es ! ?i) = NULL")
    case False
    then show thesis using found [OF i pr] k(4) len by simp
  next
    case True
    have ch: "chain ?es ?s ?i" unfolding chain_def using k len by auto
    have "\<not> hit e" if e: "e \<in> set ?es" "data e = Ptr p" for e p
    proof
      assume "hit e"
      with e hash have "hashValue e = h" by blast
      moreover obtain j where j: "j < length ?es" "?es ! j = e" using e(1) by (auto simp: in_set_conv_nth)
      ultimately have "chain ?es ?s j" using chs e(2) len by (auto simp: chains_ok_def)
      then obtain k' where k': "k' < ?n" "j = (?s + k') mod ?n" "\<And>m. m < k' \<Longrightarrow> data (cyc ?es ?s m) \<noteq> NULL"
        using len by (auto simp: chain_def)
      have "\<not> k < k'" using k'(3) True len by auto
      moreover have "k' \<noteq> k" using k'(2) True j e(2) by auto
      moreover have "\<not> k' < k" using k(3) [of k'] k'(2) j \<open>hit e\<close> len by auto
      ultimately show False by linarith
    qed
    then show thesis using missing [OF i pr True ch] by blast
  qed
qed

lemma cmp_hit_hash: "cmp_hit cmp h item e \<Longrightarrow> hashValue e = h"
  by (simp add: cmp_hit_def)

lemma wf_tableSize_pos: "hash_wf ht \<Longrightarrow> 0 < tableSize ht"
  by (auto simp: hash_wf_def table_ok_def pow2_size_pos)

definition matches :: "('p ptr \<Rightarrow> 'p ptr \<Rightarrow> int) \<Rightarrow> 'p HashTable \<Rightarrow> u32 \<Rightarrow> 'p \<Rightarrow> 'p set" where
  "matches cmp ht h q = {p. (h, p) \<in># entries ht \<and> cmp (Ptr p) (Ptr q) = 0}"

lemma hit_matches:
  assumes "i < length (pEntries ht)" "data (pEntries ht ! i) \<noteq> NULL"
    "cmp_hit cmp h (Ptr q) (pEntries ht ! i)"
  shows "\<exists>p \<in> matches cmp ht h q. data (pEntries ht ! i) = Ptr p"
  using assms by (cases "data (pEntries ht ! i)") (auto simp: cmp_hit_def matches_def in_live_iff)

lemma no_hit_matches:
  assumes "\<And>e p. e \<in> set (pEntries ht) \<Longrightarrow> data e = Ptr p \<Longrightarrow> \<not> cmp_hit cmp h (Ptr q) e"
  shows "matches cmp ht h q = {}"
proof -
  have False if m: "p \<in> matches cmp ht h q" for p
  proof -
    obtain i where "i < length (pEntries ht)" "data (pEntries ht ! i) = Ptr p"
        "hashValue (pEntries ht ! i) = h" "cmp (Ptr p) (Ptr q) = 0"
      using m by (auto simp: matches_def in_live_iff)
    with assms [of "pEntries ht ! i" p] show False by (simp add: cmp_hit_def)
  qed
  then show ?thesis by blast
qed

text \<open>The two outcomes of the probe of a lookup.\<close>

lemma lookup_search:
  assumes wf: "hash_wf ht"
  obtains (found) i p where "i < tableSize ht" "p \<in> matches cmp ht h q"
      "probe (cmp_hit cmp h (Ptr q)) (pEntries ht) (tableSize ht) (mask_idx h (tableSize ht)) = Some i"
      "data (pEntries ht ! i) = Ptr p"
  | (missing) i where "i < tableSize ht" "matches cmp ht h q = {}"
      "probe (cmp_hit cmp h (Ptr q)) (pEntries ht) (tableSize ht) (mask_idx h (tableSize ht)) = Some i"
      "data (pEntries ht ! i) = NULL" "chain (pEntries ht) (unat h mod tableSize ht) i"
proof -
  have len: "length (pEntries ht) = tableSize ht" using wf by (simp add: hash_wf_def table_ok_def)
  show thesis
  proof (rule probe_search [OF wf, of "cmp_hit cmp h (Ptr q)" h])
    fix e p
    assume "cmp_hit cmp h (Ptr q) e"
    then show "hashValue e = h" by (rule cmp_hit_hash)
  next
    fix i
    assume "i < tableSize ht"
      "probe (cmp_hit cmp h (Ptr q)) (pEntries ht) (tableSize ht) (mask_idx h (tableSize ht)) = Some i"
      "data (pEntries ht ! i) \<noteq> NULL" "cmp_hit cmp h (Ptr q) (pEntries ht ! i)"
    then show thesis using hit_matches [of i ht cmp h q] found len by auto
  next
    fix i
    assume i: "i < tableSize ht"
      "probe (cmp_hit cmp h (Ptr q)) (pEntries ht) (tableSize ht) (mask_idx h (tableSize ht)) = Some i"
      "data (pEntries ht ! i) = NULL" "chain (pEntries ht) (unat h mod tableSize ht) i"
      and none: "\<And>e p. e \<in> set (pEntries ht) \<Longrightarrow> data e = Ptr p \<Longrightarrow> \<not> cmp_hit cmp h (Ptr q) e"
    show thesis by (rule missing [OF i(1) no_hit_matches [OF none] i(2-4)])
  qed
qed

lemma lookup_existing:
  assumes "hash_wf ht" "matches cmp ht h q \<noteq> {}"
  shows "\<exists>p \<in> matches cmp ht h q.
    mzHashTableLookup calloc ht h (Ptr q) cmp doAdd = Some (Inr (Ptr p, ht))"
proof (cases rule: lookup_search [OF assms(1), of cmp h q])
  case (1 i p)
  then show ?thesis using wf_tableSize_pos [OF assms(1)]
    by (auto simp: mzHashTableLookup_def)
qed (use assms(2) in simp)

lemma lookup_absent:
  assumes "hash_wf ht" "matches cmp ht h q = {}"
  shows "mzHashTableLookup calloc ht h (Ptr q) cmp False = Some (Inr (NULL, ht))"
proof (cases rule: lookup_search [OF assms(1), of cmp h q])
  case (2 i)
  then show ?thesis using wf_tableSize_pos [OF assms(1)]
    by (auto simp: mzHashTableLookup_def)
qed (use assms(2) in simp)

text \<open>
  Whether the next insertion crosses the load bound, and the three ways an insertion of a new
  item can go: room left, table doubled, no memory to double it.
\<close>

definition overloads :: "'p HashTable \<Rightarrow> bool" where
  "overloads ht \<longleftrightarrow>
     (numEntries ht + 1 + numDeadEntries ht) * LOAD_DENOM > int (tableSize ht) * LOAD_NUMER"

lemma lookup_insert:
  assumes wf: "hash_wf ht" and new: "matches cmp ht h q = {}"
    and fits: "calloc_fits calloc" and mem: "overloads ht \<Longrightarrow> calloc (tableSize ht * 2)"
  shows "\<exists>ht'. mzHashTableLookup calloc ht h (Ptr q) cmp True = Some (Inr (Ptr q, ht')) \<and>
    hash_wf ht' \<and> entries ht' = add_mset (h, q) (entries ht) \<and>
    tableSize ht' = (if overloads ht then tableSize ht * 2 else tableSize ht) \<and>
    (\<not> overloads ht \<longrightarrow> numDeadEntries ht' = numDeadEntries ht) \<and> freeFunc ht' = freeFunc ht"
proof (cases rule: lookup_search [OF wf, of cmp h q])
  case (2 i)
  have ok: "table_ok ht" and ld: "load_ok ht" using wf by (auto simp: hash_wf_def)
  define ht1 where "ht1 = ht\<lparr>pEntries := (pEntries ht)[i := \<lparr>hashValue = h, data = Ptr q\<rparr>],
      numEntries := numEntries ht + 1\<rparr>"
  have ok1: "table_ok ht1" and bag: "entries ht1 = add_mset (h, q) (entries ht)"
    using table_insert [OF ok 2(1,4,5), of q] by (simp_all add: ht1_def)
  have sz: "tableSize ht1 = tableSize ht" "freeFunc ht1 = freeFunc ht"
      "numEntries ht1 = numEntries ht + 1" "numDeadEntries ht1 = numDeadEntries ht"
    by (simp_all add: ht1_def)
  have npos: "0 < tableSize ht" by (rule wf_tableSize_pos [OF wf])
  have nn: "0 \<le> numEntries ht" "0 \<le> numDeadEntries ht"
    using ok countTombStones_nonneg by (auto simp: table_ok_def)
  have ldn: "(numEntries ht + numDeadEntries ht) * 8 \<le> int (tableSize ht) * 5"
    using ld by (simp add: load_ok_def LOAD_DENOM_def LOAD_NUMER_def)
  show ?thesis
  proof (cases "overloads ht")
    case False
    then have "load_ok ht1" by (simp add: overloads_def load_ok_def sz)
    moreover have "numEntries ht1 < int (tableSize ht1)"
      using \<open>load_ok ht1\<close> nn npos by (simp add: load_ok_def LOAD_DENOM_def LOAD_NUMER_def sz)
    ultimately show ?thesis
      using 2 npos False ok1 bag sz
      by (simp add: mzHashTableLookup_def hash_wf_def overloads_def Let_def ht1_def [symmetric])
  next
    case True
    let ?n = "tableSize ht * 2"
    have c: "calloc ?n" using mem True by blast
    then have p2: "pow2_size ?n"
      using ok fits by (intro pow2_size_double) (auto simp: table_ok_def calloc_fits_def)
    have n1: "1 \<le> int (tableSize ht)" using npos by simp
    have twice: "(numEntries ht + 1) * 8 \<le> int (tableSize ht) * 2 * 5"
      using n1 ldn nn by presburger
    from n1 have "numEntries ht + 1 < 2 * int (tableSize ht)" using ldn nn by (simp add: algebra_simps)
    then have "numEntries ht + 1 < int ?n" by simp
    then have lt: "size (entries ht1) < ?n" using ok bag by (simp add: table_ok_def)
    obtain ht2 where h2: "resizeHash calloc ht1 ?n = Some (Inr (Some ht2))" "table_ok ht2"
        "entries ht2 = entries ht1" "tableSize ht2 = ?n" "numDeadEntries ht2 = 0"
        "freeFunc ht2 = freeFunc ht1"
      using resizeHash_ok [of ht1 calloc "?n", OF ok1 c p2 lt] by blast
    have ne: "numEntries ht2 = numEntries ht + 1"
      using h2(2,3) ok1 sz by (simp add: table_ok_def)
    then have "load_ok ht2" using h2(4,5) twice
      by (simp add: load_ok_def LOAD_DENOM_def LOAD_NUMER_def)
    moreover have "numEntries ht2 < int (tableSize ht2)"
      using ne h2(4) \<open>numEntries ht + 1 < int ?n\<close> by simp
    moreover have "int (tableSize ht1) * LOAD_NUMER < (numEntries ht1 + numDeadEntries ht1) * LOAD_DENOM"
      using True by (simp add: overloads_def sz)
    ultimately show ?thesis
      using 2 npos True bag sz h2
      by (simp add: mzHashTableLookup_def hash_wf_def Let_def ht1_def [symmetric])
  qed
qed (use new in simp)

lemma lookup_insert_no_memory:
  assumes wf: "hash_wf ht" and new: "matches cmp ht h q = {}"
    and "overloads ht" "\<not> calloc (tableSize ht * 2)"
  shows "mzHashTableLookup calloc ht h (Ptr q) cmp True = Some (Inl ResizeAbort)"
proof (cases rule: lookup_search [OF wf, of cmp h q])
  case (2 i)
  define ht1 where "ht1 = ht\<lparr>pEntries := (pEntries ht)[i := \<lparr>hashValue = h, data = Ptr q\<rparr>],
      numEntries := numEntries ht + 1\<rparr>"
  have "table_ok ht1"
    using table_insert [of ht i h q] wf 2 by (simp add: ht1_def hash_wf_def)
  moreover have "int (tableSize ht1) * LOAD_NUMER < (numEntries ht1 + numDeadEntries ht1) * LOAD_DENOM"
    using assms(3) by (simp add: overloads_def ht1_def)
  moreover have "tableSize ht1 = tableSize ht" by (simp add: ht1_def)
  ultimately show ?thesis
    using 2 wf_tableSize_pos [OF wf] assms(4)
    by (simp add: mzHashTableLookup_def Let_def resizeHash_def table_ok_def ht1_def [symmetric])
qed (use new in simp)

lemma remove_present:
  assumes wf: "hash_wf ht" and q: "(h, q) \<in># entries ht"
    and uniq: "\<And>h'. (h', q) \<in># entries ht \<Longrightarrow> h' = h"
  shows "\<exists>ht'. mzHashTableRemove ht h (Ptr q) = Some (Inr (True, ht')) \<and> hash_wf ht' \<and>
    entries ht' = entries ht - {#(h, q)#} \<and> tableSize ht' = tableSize ht \<and>
    freeFunc ht' = freeFunc ht"
proof -
  have ok: "table_ok ht" and ld: "load_ok ht" using wf by (auto simp: hash_wf_def)
  then have len: "length (pEntries ht) = tableSize ht" by (simp add: table_ok_def)
  have hash: "hashValue e = h" if "data e = Ptr q" "e \<in> set (pEntries ht)" for e
    using that uniq [of "hashValue e"] by (auto simp: in_live_iff in_set_conv_nth)
  show ?thesis
  proof (cases rule: probe_search [OF wf, of "\<lambda>e. data e = Ptr q" h])
    case (1 e p)
    then show ?case using hash by simp
  next
    case (2 i)
    let ?e = "(pEntries ht ! i)\<lparr>data := HASH_TOMBSTONE\<rparr>"
    have i: "i < length (pEntries ht)" using 2 len by simp
    have h: "hashValue (pEntries ht ! i) = h" using hash 2 i by simp
    have bag: "live ((pEntries ht)[i := ?e]) = entries ht - {#(h, q)#}"
      using live_update [OF i, of ?e] 2 h by simp (metis add_mset_remove_trivial)
    have dead: "countTombStones ((pEntries ht)[i := ?e]) = countTombStones (pEntries ht) + 1"
      using countTombStones_update [OF i, of ?e] 2 by simp
    have sz: "size (entries ht - {#(h, q)#}) = size (entries ht) - 1" "0 < size (entries ht)"
      using q by (simp_all add: size_Diff_singleton) (metis empty_not_add_mset insert_DiffM nonempty_has_size)
    have ch: "chains_ok ((pEntries ht)[i := ?e])"
      by (rule chains_ok_bury) (use ok i 2 in \<open>auto simp: table_ok_def\<close>)
    show ?thesis
      using 2 wf_tableSize_pos [OF wf] bag dead sz ch ok ld
      by (auto simp: mzHashTableRemove_def hash_wf_def table_ok_def load_ok_def)
  next
    case (3 i)
    obtain j where j: "j < length (pEntries ht)" "data (pEntries ht ! j) = Ptr q"
      using q by (auto simp: in_live_iff)
    with 3(5) [OF nth_mem [OF j(1)]] show ?thesis by simp
  qed
qed

lemma remove_absent:
  assumes wf: "hash_wf ht" and q: "\<And>h'. (h', q) \<notin># entries ht"
  shows "mzHashTableRemove ht h (Ptr q) = Some (Inr (False, ht))"
proof -
  have len: "length (pEntries ht) = tableSize ht" using wf by (simp add: hash_wf_def table_ok_def)
  have no: "data e \<noteq> Ptr q" if "e \<in> set (pEntries ht)" for e
    using that q [of "hashValue e"] by (auto simp: in_live_iff in_set_conv_nth)
  show ?thesis
  proof (cases rule: probe_search [OF wf, of "\<lambda>e. data e = Ptr q" h])
    case (1 e p)
    then show ?case using no by simp
  next
    case (2 i)
    then show ?thesis using no len by simp
  next
    case (3 i)
    then show ?thesis using wf_tableSize_pos [OF wf] by (simp add: mzHashTableRemove_def)
  qed
qed

lemma clear_entries_null:
  "length (fst (clear_entries ff es)) = length es \<and>
   (\<forall>e \<in> set (fst (clear_entries ff es)). data e = NULL) \<and>
   mset (snd (clear_entries ff es)) = (if ff then image_mset (\<lambda>(h, p). Ptr p) (live es) else {#})"
proof (induction es)
  case (Cons e es)
  then show ?case by (cases "data e") (auto simp: Let_def split_beta)
qed simp

lemma null_entries:
  assumes "\<And>e. e \<in> set es \<Longrightarrow> data e = NULL"
  shows "live es = {#}" "countTombStones es = 0" "chains_ok es"
proof -
  show "live es = {#}" "countTombStones es = 0" using assms by (induction es) auto
  show "chains_ok es" using assms by (simp add: chains_ok_def)
qed

lemma clear_ok:
  assumes "hash_wf ht"
  shows "hash_wf (fst (mzHashTableClear ht)) \<and> entries (fst (mzHashTableClear ht)) = {#} \<and>
    tableSize (fst (mzHashTableClear ht)) = tableSize ht \<and>
    freeFunc (fst (mzHashTableClear ht)) = freeFunc ht"
proof -
  let ?es = "fst (clear_entries (freeFunc ht) (pEntries ht))"
  have null: "\<And>e. e \<in> set ?es \<Longrightarrow> data e = NULL" and len: "length ?es = length (pEntries ht)"
    using clear_entries_null [of "freeFunc ht" "pEntries ht"] by auto
  show ?thesis using assms null_entries [OF null] len
    by (auto simp: mzHashTableClear_def split_beta hash_wf_def table_ok_def load_ok_def LOAD_NUMER_def)
qed

section \<open>Sizes\<close>

lemma smear_step:
  fixes x w :: u32
  assumes "\<And>i. bit x i \<longleftrightarrow> (\<exists>j < d. bit w (i + j))" and "0 < d"
  shows "bit (x OR drop_bit d x) i \<longleftrightarrow> (\<exists>j < d + d. bit w (i + j))"
proof -
  have "bit (drop_bit d x) i \<longleftrightarrow> (\<exists>j < d. bit w (i + d + j))"
    using assms(1) [of "i + d"] by (simp add: bit_drop_bit_eq add.commute)
  also have "\<dots> \<longleftrightarrow> (\<exists>j. d \<le> j \<and> j < d + d \<and> bit w (i + j))"
    by (rule iffI, metis add.assoc add_less_cancel_left le_add1,
        metis add.assoc add_less_cancel_left le_Suc_ex)
  finally show ?thesis using assms by (auto simp: bit_or_iff) (meson not_less trans_less_add1)+
qed

lemma bits_of_least_exp:
  fixes w :: u32
  assumes "unat w < 2 ^ k" "k = 0 \<or> 2 ^ (k - 1) \<le> unat w"
  shows "(\<exists>j < 32. bit w (i + j)) \<longleftrightarrow> i < k"
proof -
  have tb: "take_bit k w = w"
    using assms(1) by (simp add: word_unat_eq_iff unsigned_take_bit_eq take_bit_nat_eq_self)
  then have high: "bit w n \<Longrightarrow> n < k" for n by (metis bit_take_bit_iff)
  have low: "bit w (k - 1)" if "0 < k"
  proof -
    have pow: "(2::nat) ^ k = 2 * 2 ^ (k - 1)" using that by (cases k) auto
    have "unat w div 2 ^ (k - 1) = 1"
    proof (rule div_nat_eqI)
      show "2 ^ (k - 1) * 1 \<le> unat w" using assms(2) that by auto
      show "unat w < 2 ^ (k - 1) * Suc 1" using assms(1) unfolding pow by simp
    qed
    then have "bit (unat w) (k - 1)" by (simp add: bit_iff_odd)
    then show ?thesis by (simp add: bit_unsigned_iff)
  qed
  have k32: "k \<le> 32" using low bit_imp_le_length [of w "k - 1"] by (cases k) auto
  show ?thesis
  proof
    assume "i < k"
    then have "bit w (i + (k - 1 - i))" "k - 1 - i < 32" using low k32 by auto
    then show "\<exists>j < 32. bit w (i + j)" by blast
  qed (use high in fastforce)
qed

lemma roundUpPower2_least:
  assumes "unat (v - 1) < 2 ^ k" "k = 0 \<or> 2 ^ (k - 1) \<le> unat (v - 1)"
  shows "roundUpPower2 v = 2 ^ k"
proof -
  let ?w = "v - 1"
  define x1 where "x1 = ?w OR drop_bit 1 ?w"
  define x2 where "x2 = x1 OR drop_bit 2 x1"
  define x3 where "x3 = x2 OR drop_bit 4 x2"
  define x4 where "x4 = x3 OR drop_bit 8 x3"
  define x5 where "x5 = x4 OR drop_bit 16 x4"
  have b1: "bit x1 i \<longleftrightarrow> (\<exists>j < 2. bit ?w (i + j))" for i
    using smear_step [of ?w 1 ?w] by (simp add: x1_def numeral_2_eq_2)
  have b2: "bit x2 i \<longleftrightarrow> (\<exists>j < 4. bit ?w (i + j))" for i
    using smear_step [of x1 2 ?w, OF b1] by (simp add: x2_def)
  have b3: "bit x3 i \<longleftrightarrow> (\<exists>j < 8. bit ?w (i + j))" for i
    using smear_step [of x2 4 ?w, OF b2] by (simp add: x3_def)
  have b4: "bit x4 i \<longleftrightarrow> (\<exists>j < 16. bit ?w (i + j))" for i
    using smear_step [of x3 8 ?w, OF b3] by (simp add: x4_def)
  have b5: "bit x5 i \<longleftrightarrow> (\<exists>j < 32. bit ?w (i + j))" for i
    using smear_step [of x4 16 ?w, OF b4] by (simp add: x5_def)
  have "x5 = mask k"
    by (rule bit_word_eqI) (simp add: b5 bits_of_least_exp [OF assms] bit_mask_iff)
  moreover have "roundUpPower2 v = x5 + 1"
    by (simp only: roundUpPower2_def Let_def x5_def x4_def x3_def x2_def x1_def)
  ultimately show ?thesis by (simp add: mask_eq_exp_minus_1)
qed

lemma least_exp:
  "\<exists>k. (n::nat) < 2 ^ k \<and> (k = 0 \<or> 2 ^ (k - 1) \<le> n)"
proof -
  let ?k = "LEAST k. n < 2 ^ k"
  have "n < 2 ^ ?k" by (rule LeastI [of "\<lambda>k. n < 2 ^ k" n]) simp
  moreover have "?k = 0 \<or> 2 ^ (?k - 1) \<le> n"
    using not_less_Least [of "?k - 1" "\<lambda>k. n < 2 ^ k"] by (cases ?k) auto
  ultimately show ?thesis by blast
qed

lemma least_exp_ge:
  assumes "0 < n" "n - 1 < 2 ^ k" "k = 0 \<or> 2 ^ (k - 1) \<le> n - (1::nat)"
  shows "(LEAST m. n \<le> 2 ^ m) = k"
proof (rule Least_equality)
  show "n \<le> 2 ^ k" using assms by simp
  fix m
  assume m: "n \<le> 2 ^ m"
  show "k \<le> m"
  proof (rule ccontr)
    assume "\<not> k \<le> m"
    then have "(2::nat) ^ m \<le> 2 ^ (k - 1)" "k \<noteq> 0" by (auto intro: power_increasing)
    with m assms show False by linarith
  qed
qed

section \<open>Properties of sizes\<close>

lemma unat_roundUpPower2:
  "unat (roundUpPower2 v) =
     (if v = 0 \<or> 2 ^ 31 < unat v then 0 else 2 ^ (LEAST m. unat v \<le> 2 ^ m))"
proof (cases "v = 0")
  case True
  then show ?thesis by (simp add: roundUpPower2_def)
next
  case False
  have w: "unat (v - 1) = unat v - 1" using False by (simp add: unat_minus_one)
  have pos: "0 < unat v" using False by (simp add: unat_gt_0)
  obtain k where k: "unat (v - 1) < 2 ^ k" "k = 0 \<or> 2 ^ (k - 1) \<le> unat (v - 1)"
    using least_exp by blast
  have r: "roundUpPower2 v = 2 ^ k" using roundUpPower2_least [OF k] .
  have least: "(LEAST m. unat v \<le> 2 ^ m) = k" using least_exp_ge [OF pos] k w by simp
  have k32: "k \<le> 32"
  proof (rule ccontr)
    assume "\<not> k \<le> 32"
    then have "(2::nat) ^ 32 \<le> 2 ^ (k - 1)" by (intro power_increasing) auto
    with k(2) \<open>\<not> k \<le> 32\<close> unat_less_u32 [of "v - 1"] show False by simp
  qed
  show ?thesis
  proof (cases "k = 32")
    case True
    with k w have "2 ^ 31 \<le> unat v - 1" by simp
    with pos have "2 ^ 31 < unat v" by linarith
    with True r show ?thesis by simp
  next
    case f: False
    then have "(2::nat) ^ k \<le> 2 ^ 31" using k32 by (intro power_increasing) auto
    with k w have "\<not> 2 ^ 31 < unat v" by simp
    moreover have "unat (of_nat (2 ^ k) :: u32) = 2 ^ k"
      unfolding unat_of_nat using \<open>(2::nat) ^ k \<le> 2 ^ 31\<close> by simp
    ultimately show ?thesis using False r least by simp
  qed
qed

text \<open>
  \<open>roundUpPower2\<close> returns the least power of two that is at least its argument, for every
  argument up to \<open>2^31\<close>; for 0 and above \<open>2^31\<close> the result wraps to 0.
\<close>

theorem roundUpPower2_spec:
  "unat (roundUpPower2 v) =
     (if v = 0 \<or> 2 ^ 31 < unat v then 0 else 2 ^ (LEAST m. unat v \<le> 2 ^ m))"
  by (rule unat_roundUpPower2)

lemma unat_mzHashSize:
  assumes "unat n < 2 ^ 28"
  shows "unat (mzHashSize n) = unat n * 8 div 5 + 1"
proof -
  have m: "unat (n * 8) = unat n * 8" using assms by (simp add: unat_word_ariths(2))
  have "unat ((n * 8) div 5) = unat n * 8 div 5" by (simp add: unat_div_distrib m)
  then show ?thesis using assms by (simp add: mzHashSize_def unat_word_ariths(1))
qed

lemma create_ok:
  assumes "0 < unat n" "unat n \<le> 2 ^ 31" "calloc (unat (roundUpPower2 n))"
  obtains ht where "mzHashTableCreate True calloc n ff = Inr (Some ht)" "hash_wf ht"
    "entries ht = {#}" "tableSize ht = unat (roundUpPower2 n)" "unat n \<le> tableSize ht"
    "numDeadEntries ht = 0" "freeFunc ht = ff"
proof -
  let ?n = "unat (roundUpPower2 n)"
  have n0: "n \<noteq> 0" using assms(1) by auto
  have r: "?n = 2 ^ (LEAST m. unat n \<le> 2 ^ m)"
    using unat_roundUpPower2 [of n] n0 assms(2) by simp
  have "unat n \<le> 2 ^ (LEAST m. unat n \<le> 2 ^ m)"
    using LeastI [of "\<lambda>m. unat n \<le> 2 ^ m" 31] assms(2) by blast
  moreover have "pow2_size ?n"
    using Least_le [of "\<lambda>m. unat n \<le> 2 ^ m" 31] assms(2) r by (auto simp: pow2_size_def)
  ultimately show thesis
    using that [of "\<lparr>tableSize = ?n, numEntries = 0, numDeadEntries = 0,
        pEntries = replicate ?n empty_entry, freeFunc = ff\<rparr>"] assms n0 r
    by (simp add: chains_ok_empty mzHashTableCreate_def hash_wf_def table_ok_def load_ok_def LOAD_NUMER_def
        word_gt_0 Let_def)
qed

section \<open>Operation sequences\<close>

text \<open>
  A client's sequence of calls with one comparison function, and the specification on the bag
  of live entries.  Removal is specified for the discipline of the callers: an item is removed
  with the hash under which it was added.
\<close>

datatype 'p hop = Add u32 'p | Del u32 'p | ClearAll

fun hash_step ::
  "(nat \<Rightarrow> bool) \<Rightarrow> ('p ptr \<Rightarrow> 'p ptr \<Rightarrow> int) \<Rightarrow> 'p hop \<Rightarrow> 'p HashTable \<Rightarrow>
     (hash_error + 'p HashTable) option" where
  "hash_step calloc cmp (Add h q) ht =
     map_option (map_sum id snd) (mzHashTableLookup calloc ht h (Ptr q) cmp True)"
| "hash_step calloc cmp (Del h q) ht = map_option (map_sum id snd) (mzHashTableRemove ht h (Ptr q))"
| "hash_step calloc cmp ClearAll ht = Some (Inr (fst (mzHashTableClear ht)))"

fun hash_run ::
  "(nat \<Rightarrow> bool) \<Rightarrow> ('p ptr \<Rightarrow> 'p ptr \<Rightarrow> int) \<Rightarrow> 'p hop list \<Rightarrow> 'p HashTable \<Rightarrow>
     (hash_error + 'p HashTable) option" where
  "hash_run calloc cmp [] ht = Some (Inr ht)"
| "hash_run calloc cmp (x # xs) ht = do {
     r \<leftarrow> hash_step calloc cmp x ht;
     case r of Inl e \<Rightarrow> Some (Inl e) | Inr ht' \<Rightarrow> hash_run calloc cmp xs ht' }"

fun spec_step ::
  "('p ptr \<Rightarrow> 'p ptr \<Rightarrow> int) \<Rightarrow> 'p hop \<Rightarrow> (u32 \<times> 'p) multiset \<Rightarrow> (u32 \<times> 'p) multiset" where
  "spec_step cmp (Add h q) B =
     (if \<exists>p. (h, p) \<in># B \<and> cmp (Ptr p) (Ptr q) = 0 then B else add_mset (h, q) B)"
| "spec_step cmp (Del h q) B = B - {#(h, q)#}"
| "spec_step cmp ClearAll B = {#}"

fun step_ok :: "'p hop \<Rightarrow> (u32 \<times> 'p) multiset \<Rightarrow> bool" where
  "step_ok (Del h q) B \<longleftrightarrow> (\<forall>h'. (h', q) \<in># B \<longrightarrow> h' = h)"
| "step_ok _ B \<longleftrightarrow> True"

fun run_ok ::
  "('p ptr \<Rightarrow> 'p ptr \<Rightarrow> int) \<Rightarrow> 'p hop list \<Rightarrow> (u32 \<times> 'p) multiset \<Rightarrow> bool" where
  "run_ok cmp [] B \<longleftrightarrow> True"
| "run_ok cmp (x # xs) B \<longleftrightarrow> step_ok x B \<and> run_ok cmp xs (spec_step cmp x B)"

lemma matches_empty_iff:
  "matches cmp ht h q = {} \<longleftrightarrow> \<not> (\<exists>p. (h, p) \<in># entries ht \<and> cmp (Ptr p) (Ptr q) = 0)"
  by (auto simp: matches_def)

definition step_refines ::
  "(nat \<Rightarrow> bool) \<Rightarrow> ('p ptr \<Rightarrow> 'p ptr \<Rightarrow> int) \<Rightarrow> 'p hop \<Rightarrow> 'p HashTable \<Rightarrow> bool" where
  "step_refines calloc cmp x ht \<longleftrightarrow>
     (\<exists>ht'. hash_step calloc cmp x ht = Some (Inr ht') \<and> hash_wf ht' \<and>
        entries ht' = spec_step cmp x (entries ht)) \<or>
     (hash_step calloc cmp x ht = Some (Inl ResizeAbort) \<and> (\<exists>h q. x = Add h q) \<and> overloads ht \<and>
        \<not> calloc (tableSize ht * 2))"

lemma hash_step_refines:
  assumes "hash_wf ht" "calloc_fits calloc" "step_ok x (entries ht)"
  shows "step_refines calloc cmp x ht"
proof (cases x)
  case (Add h q)
  show ?thesis
  proof (cases "matches cmp ht h q = {}")
    case False
    obtain p where "mzHashTableLookup calloc ht h (Ptr q) cmp True = Some (Inr (Ptr p, ht))"
      using lookup_existing [OF assms(1) False] by blast
    with Add False assms(1) show ?thesis by (simp add: step_refines_def matches_empty_iff)
  next
    case True
    show ?thesis
    proof (cases "overloads ht \<and> \<not> calloc (tableSize ht * 2)")
      case no_mem: True
      then show ?thesis using lookup_insert_no_memory [OF assms(1) True] Add
        by (simp add: step_refines_def)
    next
      case False
      then obtain ht' where "mzHashTableLookup calloc ht h (Ptr q) cmp True = Some (Inr (Ptr q, ht'))"
          "hash_wf ht'" "entries ht' = add_mset (h, q) (entries ht)"
        using lookup_insert [OF assms(1) True assms(2)] by blast
      with Add True show ?thesis by (simp add: step_refines_def matches_empty_iff)
    qed
  qed
next
  case (Del h q)
  show ?thesis
  proof (cases "(h, q) \<in># entries ht")
    case True
    have "\<And>h'. (h', q) \<in># entries ht \<Longrightarrow> h' = h" using assms(3) Del by simp
    then obtain ht' where "mzHashTableRemove ht h (Ptr q) = Some (Inr (True, ht'))" "hash_wf ht'"
        "entries ht' = entries ht - {#(h, q)#}"
      using remove_present [OF assms(1) True] by blast
    with Del show ?thesis by (simp add: step_refines_def)
  next
    case False
    then have "(h', q) \<notin># entries ht" for h' using assms(3) Del by auto
    then show ?thesis using remove_absent [OF assms(1)] False assms(1) Del
      by (simp add: step_refines_def diff_single_trivial)
  qed
next
  case ClearAll
  then show ?thesis using clear_ok [OF assms(1)] by (simp add: step_refines_def)
qed

lemma run_of_adds_no_resize:
  assumes "hash_wf ht" "numDeadEntries ht = 0"
    and "(size (entries ht) + length items) * 8 \<le> tableSize ht * 5"
  shows "\<exists>ht'. hash_run (\<lambda>_. False) cmp (map (\<lambda>(h, q). Add h q) items) ht = Some (Inr ht') \<and>
    hash_wf ht' \<and> tableSize ht' = tableSize ht \<and>
    (\<forall>(h, q) \<in> set items. \<exists>p. (h, p) \<in># entries ht' \<and> (p = q \<or> cmp (Ptr p) (Ptr q) = 0)) \<and>
    entries ht \<subseteq># entries ht'"
  using assms
proof (induction items arbitrary: ht)
  case Nil
  then show ?case by simp
next
  case (Cons x items)
  obtain h q where x: "x = (h, q)" by (cases x)
  have fits: "calloc_fits (\<lambda>_. False)" by (simp add: calloc_fits_def)
  have "numEntries ht = int (size (entries ht))"
    using Cons.prems(1) by (simp add: hash_wf_def table_ok_def)
  then have no: "\<not> overloads ht" using Cons.prems(2,3)
    by (simp add: overloads_def LOAD_DENOM_def LOAD_NUMER_def)
  obtain ht1 p where step: "hash_step (\<lambda>_. False) cmp (Add h q) ht = Some (Inr ht1)"
      "hash_wf ht1" "numDeadEntries ht1 = 0" "tableSize ht1 = tableSize ht"
      "size (entries ht1) \<le> size (entries ht) + 1" "entries ht \<subseteq># entries ht1"
      "(h, p) \<in># entries ht1" "p = q \<or> cmp (Ptr p) (Ptr q) = 0"
  proof (cases "matches cmp ht h q = {}")
    case True
    obtain ht' where "mzHashTableLookup (\<lambda>_. False) ht h (Ptr q) cmp True = Some (Inr (Ptr q, ht'))"
        "hash_wf ht'" "entries ht' = add_mset (h, q) (entries ht)" "tableSize ht' = tableSize ht"
        "numDeadEntries ht' = numDeadEntries ht"
      using lookup_insert [OF Cons.prems(1) True fits] no by auto
    then show thesis using that [of ht' q] Cons.prems(2) by simp
  next
    case False
    then obtain p where "p \<in> matches cmp ht h q"
        "mzHashTableLookup (\<lambda>_. False) ht h (Ptr q) cmp True = Some (Inr (Ptr p, ht))"
      using lookup_existing [OF Cons.prems(1) False] by blast
    then show thesis using that [of ht p] Cons.prems by (simp add: matches_def)
  qed
  have "\<exists>ht'. hash_run (\<lambda>_. False) cmp (map (\<lambda>(h, q). Add h q) items) ht1 = Some (Inr ht') \<and>
    hash_wf ht' \<and> tableSize ht' = tableSize ht1 \<and>
    (\<forall>(h, q) \<in> set items. \<exists>p. (h, p) \<in># entries ht' \<and> (p = q \<or> cmp (Ptr p) (Ptr q) = 0)) \<and>
    entries ht1 \<subseteq># entries ht'"
    using Cons.prems(3) step by (intro Cons.IH) auto
  then obtain ht' where IH: "hash_run (\<lambda>_. False) cmp (map (\<lambda>(h, q). Add h q) items) ht1 = Some (Inr ht')"
      "hash_wf ht'" "tableSize ht' = tableSize ht1"
      "\<forall>(h, q) \<in> set items. \<exists>p. (h, p) \<in># entries ht' \<and> (p = q \<or> cmp (Ptr p) (Ptr q) = 0)"
      "entries ht1 \<subseteq># entries ht'" by blast
  have "(h, p) \<in># entries ht'" using IH(5) step(7) by (rule mset_subset_eqD)
  then show ?case
    using IH step x subset_mset.order_trans [OF step(6) IH(5)] by auto
qed

text \<open>A concrete two-slot table with one entry, for the witnesses.\<close>

definition sample_table :: "nat HashTable" where
  "sample_table = \<lparr>tableSize = 2, numEntries = 1, numDeadEntries = 0,
     pEntries = [empty_entry, \<lparr>hashValue = 5, data = Ptr 7\<rparr>], freeFunc = True\<rparr>"

definition sample_cmp :: "nat ptr \<Rightarrow> nat ptr \<Rightarrow> int" where
  "sample_cmp a b = (if a = b then 0 else 1)"

lemma sample_entries [simp]: "entries sample_table = {#(5, 7)#}"
  by (simp add: sample_table_def empty_entry_def slot_bag_def)

lemma sample_wf [simp]: "hash_wf sample_table"
proof -
  let ?es = "pEntries sample_table"
  have "chain ?es 1 1" unfolding chain_def by (intro exI [of _ 0]) (simp add: sample_table_def)
  moreover have "5 mod Suc (Suc 0) = Suc 0" by (simp flip: numeral_2_eq_2)
  ultimately have "chains_ok ?es"
    by (auto simp: chains_ok_def sample_table_def empty_entry_def less_Suc_eq)
  moreover have "pow2_size 2" unfolding pow2_size_def by (intro exI [of _ 1]) simp
  ultimately show ?thesis
    by (simp add: hash_wf_def table_ok_def load_ok_def sample_table_def empty_entry_def slot_bag_def
        LOAD_DENOM_def LOAD_NUMER_def)
qed

section \<open>Properties of the operations\<close>

text \<open>
  Lookup without insertion always returns, changes nothing, and is exact: the null pointer
  means that no live entry carries the hash and compares equal; any other result is such an
  entry.
\<close>

theorem mzHashTableLookup_find:
  assumes "hash_wf ht"
  shows "\<exists>res. mzHashTableLookup calloc ht h (Ptr q) cmp False = Some (Inr (res, ht)) \<and>
    ((res = NULL \<and> \<not> (\<exists>p. (h, p) \<in># entries ht \<and> cmp (Ptr p) (Ptr q) = 0)) \<or>
     (\<exists>p. res = Ptr p \<and> (h, p) \<in># entries ht \<and> cmp (Ptr p) (Ptr q) = 0))"
proof (cases "matches cmp ht h q = {}")
  case True
  then show ?thesis using lookup_absent [OF assms True] by (simp add: matches_def)
next
  case False
  then show ?thesis using lookup_existing [OF assms False] by (fastforce simp: matches_def)
qed

theorem mzHashTableLookup_find_witness:
  "mzHashTableLookup (\<lambda>_. False) sample_table 5 (Ptr 7) sample_cmp False =
     Some (Inr (Ptr 7, sample_table))"
  using mzHashTableLookup_find [of sample_table "\<lambda>_. False" 5 7 sample_cmp]
  by (auto simp: sample_cmp_def)

text \<open>
  Lookup with insertion, given memory for doubling: an item that compares equal to a live
  entry of the same hash changes nothing and that entry is returned; otherwise the item itself
  is returned and is the only change to the bag of entries.  The invariant is kept, so no
  assertion fails, no probe runs past the table and the next probe ends.
\<close>

theorem mzHashTableLookup_add:
  assumes "hash_wf ht" "calloc_fits calloc" "overloads ht \<Longrightarrow> calloc (tableSize ht * 2)"
  shows "\<exists>res ht'. mzHashTableLookup calloc ht h (Ptr q) cmp True = Some (Inr (res, ht')) \<and>
    hash_wf ht' \<and>
    (if \<exists>p. (h, p) \<in># entries ht \<and> cmp (Ptr p) (Ptr q) = 0
     then ht' = ht \<and> (\<exists>p. res = Ptr p \<and> (h, p) \<in># entries ht \<and> cmp (Ptr p) (Ptr q) = 0)
     else res = Ptr q \<and> entries ht' = add_mset (h, q) (entries ht))"
proof (cases "matches cmp ht h q = {}")
  case True
  then show ?thesis using lookup_insert [OF assms(1) True assms(2,3)]
    by (auto simp: matches_def)
next
  case False
  then show ?thesis using lookup_existing [OF assms(1) False, of calloc True] assms(1)
    by (auto simp: matches_def)
qed

theorem mzHashTableLookup_add_witness:
  "\<exists>ht'. mzHashTableLookup (\<lambda>n. n = 4) sample_table 5 (Ptr 9) sample_cmp True = Some (Inr (Ptr 9, ht'))
     \<and> hash_wf ht' \<and> entries ht' = {#(5, 9), (5, 7)#}"
  using mzHashTableLookup_add [of sample_table "\<lambda>n. n = 4" 5 9 sample_cmp]
  by (auto simp: sample_cmp_def calloc_fits_def) (simp_all add: sample_table_def)

text \<open>
  Removal with the item's own hash: a live item is found, becomes a tombstone and leaves the
  bag; an item that is not in the table leaves it unchanged and \<^verbatim>\<open>false\<close> is returned.
\<close>

theorem mzHashTableRemove_spec:
  assumes "hash_wf ht" "\<forall>h'. (h', q) \<in># entries ht \<longrightarrow> h' = h"
  shows "\<exists>ht'. mzHashTableRemove ht h (Ptr q) = Some (Inr ((h, q) \<in># entries ht, ht')) \<and>
    hash_wf ht' \<and> entries ht' = entries ht - {#(h, q)#} \<and>
    ((h, q) \<notin># entries ht \<longrightarrow> ht' = ht)"
proof (cases "(h, q) \<in># entries ht")
  case True
  obtain ht' where "mzHashTableRemove ht h (Ptr q) = Some (Inr (True, ht'))" "hash_wf ht'"
      "entries ht' = entries ht - {#(h, q)#}"
    using remove_present [OF assms(1) True] assms(2) by blast
  with True show ?thesis by simp
next
  case False
  then have "\<And>h'. (h', q) \<notin># entries ht" using assms(2) by blast
  then show ?thesis using remove_absent [OF assms(1)] False assms(1)
    by (simp add: diff_single_trivial)
qed

theorem mzHashTableRemove_spec_witness:
  "\<exists>ht'. mzHashTableRemove sample_table 5 (Ptr 7) = Some (Inr (True, ht')) \<and> entries ht' = {#}"
  using mzHashTableRemove_spec [of sample_table 7 5] by auto

text \<open>
  C12. Refinement of whole call sequences: started on a well-formed table, every sequence of
  additions, removals and clears that removes items with their own hash either ends in a
  well-formed table whose bag of entries is the one the specification computes, or stops in
  the abort, and this only at an addition to a table that the calls before it have brought, as
  specified, to the load bound, when the allocation of a table of twice its size fails.  It
  never loops, fails an assertion or leaves the array.
\<close>

theorem hash_run_refines:
  assumes "hash_wf ht" "calloc_fits calloc" "run_ok cmp xs (entries ht)"
  shows "(\<exists>ht'. hash_run calloc cmp xs ht = Some (Inr ht') \<and> hash_wf ht' \<and>
            entries ht' = fold (spec_step cmp) xs (entries ht)) \<or>
         (\<exists>ys h q zs ht1. xs = ys @ Add h q # zs \<and>
            hash_run calloc cmp ys ht = Some (Inr ht1) \<and> hash_wf ht1 \<and>
            entries ht1 = fold (spec_step cmp) ys (entries ht) \<and> overloads ht1 \<and>
            \<not> calloc (tableSize ht1 * 2) \<and> hash_run calloc cmp xs ht = Some (Inl ResizeAbort))"
    (is "?runs xs ht \<or> ?aborts xs ht")
  using assms(1,3)
proof (induction xs arbitrary: ht)
  case Nil
  then show ?case by simp
next
  case (Cons x xs)
  have "step_refines calloc cmp x ht"
    using Cons.prems assms(2) by (intro hash_step_refines) simp_all
  then consider (ok) ht' where "hash_step calloc cmp x ht = Some (Inr ht')" "hash_wf ht'"
      "entries ht' = spec_step cmp x (entries ht)"
    | (abort) h q where "hash_step calloc cmp x ht = Some (Inl ResizeAbort)" "x = Add h q" "overloads ht"
      "\<not> calloc (tableSize ht * 2)"
    by (auto simp: step_refines_def)
  then show ?case
  proof cases
    case ok
    then have "?runs xs ht' \<or> ?aborts xs ht'" using Cons.IH [of ht'] Cons.prems by simp
    then show ?thesis
    proof
      assume "?aborts xs ht'"
      then obtain ys h q zs ht1 where a: "xs = ys @ Add h q # zs" "hash_run calloc cmp ys ht' = Some (Inr ht1)"
          "hash_wf ht1" "entries ht1 = fold (spec_step cmp) ys (entries ht')" "overloads ht1"
          "\<not> calloc (tableSize ht1 * 2)" "hash_run calloc cmp xs ht' = Some (Inl ResizeAbort)" by blast
      have "?aborts (x # xs) ht"
        by (rule exI [of _ "x # ys"], intro exI [of _ h] exI [of _ q] exI [of _ zs] exI [of _ ht1])
          (use a ok in simp)
      then show ?thesis by blast
    qed (use ok in simp)
  next
    case abort
    have r: "hash_run calloc cmp (x # xs) ht = Some (Inl ResizeAbort)" using abort(1) by simp
    have "?aborts (x # xs) ht"
      by (rule exI [of _ "[]"], intro exI [of _ h] exI [of _ q] exI [of _ xs] exI [of _ ht] conjI)
        (use abort(2-4) Cons.prems(1) r in simp_all)
    then show ?thesis by blast
  qed
qed

theorem hash_run_refines_witness:
  "\<exists>ht'. hash_run (\<lambda>n. n = 4) sample_cmp [Del 5 7, Add 5 8] sample_table = Some (Inr ht') \<and>
     hash_wf ht' \<and> entries ht' = {#(5, 8)#}"
proof -
  obtain ht' where "mzHashTableRemove sample_table 5 (Ptr 7) = Some (Inr (True, ht'))" "tableSize ht' = tableSize sample_table"
    using remove_present [of sample_table 5 7] by (metis sample_wf sample_entries add_mset_eq_singleton_iff prod.inject singletonD set_mset_single union_single_eq_member)
  moreover have "tableSize sample_table = 2" by (simp add: sample_table_def)
  ultimately have "tableSize ht1 = 2" if "hash_run (\<lambda>n. n = 4) sample_cmp [Del 5 7] sample_table = Some (Inr ht1)" for ht1
    using that by simp
  then have "\<not> (\<exists>ys h q zs ht1. [Del 5 7, Add 5 8] = ys @ Add h q # zs \<and>
      hash_run (\<lambda>n. n = 4) sample_cmp ys sample_table = Some (Inr ht1) \<and> tableSize ht1 * 2 \<noteq> 4)"
    by (auto simp: Cons_eq_append_conv simp del: hash_run.simps)
  then show ?thesis
    using hash_run_refines [of sample_table "\<lambda>n. n = 4" sample_cmp "[Del 5 7, Add 5 8]"]
    by (simp add: calloc_fits_def del: hash_run.simps) blast
qed

text \<open>
  A table created with \<open>mzHashSize n\<close> takes \<open>n\<close> additions without ever reallocating: they
  succeed even if no further allocation would, and every item is afterwards represented.
\<close>

theorem presized_never_resizes:
  fixes ht :: "'p HashTable"
  assumes "0 < unat n" "unat n < 2 ^ 28" "length items \<le> unat n"
    and "mzHashTableCreate True calloc (mzHashSize n) ff = Inr (Some ht)"
  shows "\<exists>ht'. hash_run (\<lambda>_. False) cmp (map (\<lambda>(h, q). Add h q) items) ht = Some (Inr ht') \<and>
    hash_wf ht' \<and> tableSize ht' = tableSize ht \<and>
    (\<forall>(h, q) \<in> set items. \<exists>p. (h, p) \<in># entries ht' \<and> (p = q \<or> cmp (Ptr p) (Ptr q) = 0))"
proof -
  let ?m = "mzHashSize n"
  have m: "unat ?m = unat n * 8 div 5 + 1" using assms(2) by (rule unat_mzHashSize)
  have "unat n * 8 div 5 \<le> unat n * 8" by simp
  then have m31: "unat ?m \<le> 2 ^ 31" using m assms(2) by simp
  have "calloc (unat (roundUpPower2 ?m))"
    using assms(4) by (auto simp: mzHashTableCreate_def Let_def split: if_splits)
  then obtain ht0 :: "'p HashTable" where "mzHashTableCreate True calloc ?m ff = Inr (Some ht0)" "hash_wf ht0"
      "entries ht0 = {#}" "unat ?m \<le> tableSize ht0" "numDeadEntries ht0 = 0"
    using create_ok [of ?m calloc ff] m m31 by auto
  moreover have "unat n * 8 \<le> unat ?m * 5" unfolding m by presburger
  ultimately have ht: "hash_wf ht" "numDeadEntries ht = 0"
      "(size (entries ht) + length items) * 8 \<le> tableSize ht * 5"
    using assms(3,4) by auto
  show ?thesis using run_of_adds_no_resize [OF ht] by blast
qed

theorem presized_never_resizes_witness:
  "\<exists>ht ht'. mzHashTableCreate True (\<lambda>n. n = 2) (mzHashSize 1) False = Inr (Some ht) \<and>
     hash_run (\<lambda>_. False) sample_cmp [Add 3 9] ht = Some (Inr ht') \<and> tableSize ht' = tableSize ht"
proof -
  have "mzHashSize 1 = 2" by (simp add: mzHashSize_def)
  moreover have "roundUpPower2 2 = 2" by (simp add: roundUpPower2_def Let_def)
  ultimately obtain ht :: "nat HashTable"
    where ht: "mzHashTableCreate True (\<lambda>n. n = 2) (mzHashSize 1) False = Inr (Some ht)"
    by (simp add: mzHashTableCreate_def Let_def)
  then show ?thesis using presized_never_resizes [of 1 "[(3, 9)]" "\<lambda>n. n = 2" False ht sample_cmp]
    by auto
qed

section \<open>Traversal\<close>

definition live_ptrs :: "'p HashEntry list \<Rightarrow> 'p ptr list" where
  "live_ptrs es = filter (\<lambda>d. d \<noteq> NULL \<and> d \<noteq> HASH_TOMBSTONE) (map data es)"

text \<open>The specification of a traversal with early exit, and the loop of the header's example.\<close>

fun visit :: "('p ptr \<Rightarrow> 's \<Rightarrow> int \<times> 's) \<Rightarrow> 'p ptr list \<Rightarrow> 's \<Rightarrow> int \<times> 's" where
  "visit func [] s = (0, s)"
| "visit func (d # ds) s =
     (let (val, s') = func d s in if val \<noteq> 0 then (val, s') else visit func ds s')"

function iter_run :: "'p HashTable \<Rightarrow> int \<Rightarrow> int list" where
  "iter_run ht idx =
     (if mzHashIterDone ht idx then [] else idx # iter_run ht (mzHashIterNext ht idx))"
  by pat_completeness auto
termination
proof (relation "measure (\<lambda>(ht, idx). nat (int (tableSize ht) - idx))", goal_cases)
  case (2 ht idx)
  then show ?case using mzHashIterNext_gt [of idx ht] by (simp add: mzHashIterDone_def)
qed simp

declare iter_run.simps [simp del]

abbreviation is_live :: "'p HashTable \<Rightarrow> nat \<Rightarrow> bool" where
  "is_live ht i \<equiv> data (pEntries ht ! i) \<noteq> NULL \<and> data (pEntries ht ! i) \<noteq> HASH_TOMBSTONE"

lemma iter_run_scan:
  "iter_run ht (int (iter_scan ht i)) = map int (filter (is_live ht) [i..<tableSize ht])"
proof (induction "tableSize ht - i" arbitrary: i)
  case 0
  then have "iter_scan ht i = i" by (subst iter_scan.simps) simp
  with 0 show ?case by (simp add: iter_run.simps mzHashIterDone_def)
next
  case (Suc m)
  then have i: "i < tableSize ht" by simp
  have IH: "iter_run ht (int (iter_scan ht (Suc i))) =
      map int (filter (is_live ht) [Suc i..<tableSize ht])"
    using Suc by simp
  show ?case
  proof (cases "is_live ht i")
    case True
    then have "iter_scan ht i = i" using i by (subst iter_scan.simps) simp
    moreover have "mzHashIterNext ht (int i) = int (iter_scan ht (Suc i))"
      by (simp add: mzHashIterNext_def nat_add_distrib)
    ultimately show ?thesis using True i IH
      by (simp add: iter_run.simps [of ht "int i"] mzHashIterDone_def upt_conv_Cons)
  next
    case False
    then have "iter_scan ht i = iter_scan ht (Suc i)" using i
      by (subst iter_scan.simps) auto
    with False i IH show ?thesis by (auto simp: upt_conv_Cons)
  qed
qed

lemma foreach_visit: "foreach_entries func es s = visit func (live_ptrs es) s"
  by (induction es arbitrary: s) (auto simp: live_ptrs_def split: prod.split)

lemma live_ptrs_nth:
  "live_ptrs es = map (\<lambda>i. data (es ! i))
     (filter (\<lambda>i. data (es ! i) \<noteq> NULL \<and> data (es ! i) \<noteq> HASH_TOMBSTONE) [0..<length es])"
proof -
  have "map data es = map (\<lambda>i. data (es ! i)) [0..<length es]"
    by (rule nth_equalityI) simp_all
  then show ?thesis by (simp add: live_ptrs_def filter_map o_def)
qed

lemma mset_live_ptrs: "mset (live_ptrs es) = image_mset (\<lambda>(h, p). Ptr p) (live es)"
proof (induction es)
  case (Cons e es)
  then show ?case by (cases "data e") (simp_all add: live_ptrs_def)
qed (simp add: live_ptrs_def)

text \<open>
  Both traversals visit the live entries in slot order: \<open>mzHashForeach\<close> calls the function
  on each until it returns nonzero, the iterator loop of \<^verbatim>\<open>Hash.h\<close> yields each of them without a
  failed assertion, and together they are exactly the bag of live entries.
\<close>

theorem traversals_visit_live_entries:
  assumes "hash_wf ht"
  shows "mzHashForeach ht func s = visit func (live_ptrs (pEntries ht)) s \<and>
    map (mzHashIterData ht) (iter_run ht (mzHashIterBegin ht)) = map Inr (live_ptrs (pEntries ht)) \<and>
    mset (live_ptrs (pEntries ht)) = image_mset (\<lambda>(h, p). Ptr p) (entries ht)"
proof -
  have len: "length (pEntries ht) = tableSize ht" using assms by (simp add: hash_wf_def table_ok_def)
  have "mzHashIterBegin ht = int (iter_scan ht 0)"
    by (simp add: mzHashIterBegin_def mzHashIterNext_def)
  then have "map (mzHashIterData ht) (iter_run ht (mzHashIterBegin ht)) =
      map (\<lambda>i. mzHashIterData ht (int i)) (filter (is_live ht) [0..<tableSize ht])"
    by (simp add: iter_run_scan o_def)
  also have "\<dots> = map (\<lambda>i. Inr (data (pEntries ht ! i))) (filter (is_live ht) [0..<tableSize ht])"
    by (rule map_cong) (auto simp: mzHashIterData_def)
  also have "\<dots> = map Inr (live_ptrs (pEntries ht))"
    by (simp add: live_ptrs_nth len o_def)
  finally show ?thesis by (simp add: mzHashForeach_def foreach_visit mset_live_ptrs)
qed

theorem traversals_visit_live_entries_witness:
  "mzHashForeach sample_table (\<lambda>d n. (0, Suc n)) (3::nat) = (0, 4)"
  using traversals_visit_live_entries [OF sample_wf, of "\<lambda>d n. (0, Suc n)" 3]
  by (simp add: live_ptrs_def sample_table_def empty_entry_def)

section \<open>Machine integers, clearing, full tables\<close>

text \<open>
  The counters are \<^verbatim>\<open>int\<close>s and the model computes with unbounded integers.  For a table that
  was allocated (20 bytes per slot within 32 bits) every value the code computes from them,
  including the products of the load test and the doubled size, stays in the 32-bit range, so
  the two agree.
\<close>

theorem hash_ints_in_range:
  assumes "hash_wf ht" "tableSize ht * 20 < 2 ^ 32"
  shows "0 \<le> numEntries ht \<and> 0 \<le> numDeadEntries ht \<and>
    (numEntries ht + 1 + numDeadEntries ht) * LOAD_DENOM < 2 ^ 31 \<and>
    int (tableSize ht) * LOAD_NUMER < 2 ^ 31 \<and> int (tableSize ht * 2) < 2 ^ 31 \<and>
    int (mzHashTableMemUsage ht) < 2 ^ 31"
proof -
  obtain k where k: "tableSize ht = 2 ^ k" using assms(1)
    by (auto simp: hash_wf_def table_ok_def pow2_size_def)
  have "k < 28"
  proof (rule ccontr)
    assume "\<not> k < 28"
    then have "(2::nat) ^ 28 \<le> 2 ^ k" by (intro power_increasing) auto
    with assms(2) k show False by simp
  qed
  then have "(2::nat) ^ k \<le> 2 ^ 27" by (intro power_increasing) auto
  then have "tableSize ht \<le> 2 ^ 27" using k by simp
  then have n: "int (tableSize ht) \<le> 2 ^ 27" by simp
  have ld: "(numEntries ht + numDeadEntries ht) * 8 \<le> int (tableSize ht) * 5"
    using assms(1) by (simp add: hash_wf_def load_ok_def LOAD_DENOM_def LOAD_NUMER_def)
  have "0 \<le> numEntries ht" "0 \<le> numDeadEntries ht"
    using assms(1) countTombStones_nonneg by (auto simp: hash_wf_def table_ok_def)
  then show ?thesis using n ld
    by (simp add: LOAD_DENOM_def LOAD_NUMER_def mzHashTableMemUsage_def algebra_simps)
qed

theorem hash_ints_in_range_witness:
  "(numEntries sample_table + 1 + numDeadEntries sample_table) * LOAD_DENOM < 2 ^ 31"
  using hash_ints_in_range [OF sample_wf] by (simp add: sample_table_def)

text \<open>
  Clearing empties the table in place: the size is kept, the invariant holds, and exactly
  the live items are passed to the free function, when one is registered.
\<close>

theorem mzHashTableClear_spec:
  assumes "hash_wf ht"
  shows "hash_wf (fst (mzHashTableClear ht)) \<and> entries (fst (mzHashTableClear ht)) = {#} \<and>
    tableSize (fst (mzHashTableClear ht)) = tableSize ht \<and>
    mset (snd (mzHashTableClear ht)) =
      (if freeFunc ht then image_mset (\<lambda>(h, p). Ptr p) (entries ht) else {#})"
  using clear_ok [OF assms] clear_entries_null [of "freeFunc ht" "pEntries ht"]
  by (simp add: mzHashTableClear_def split_beta)

theorem mzHashTableClear_spec_witness:
  "mset (snd (mzHashTableClear sample_table)) = {#Ptr 7#}"
  using mzHashTableClear_spec [OF sample_wf] by simp (simp add: sample_table_def)

definition full :: "('p HashEntry \<Rightarrow> bool) \<Rightarrow> 'p HashEntry list \<Rightarrow> nat \<Rightarrow> bool" where
  "full hit es n \<longleftrightarrow> 2 \<le> n \<and> (\<forall>j < n. data (es ! j) \<noteq> NULL \<and> \<not> hit (es ! j))"

text \<open>
  Why the load bound matters, as the comment in the source warns: in a table of at least
  two slots with no empty slot, the search for an item that matches nothing never halts.
\<close>

theorem full_table_never_halts:
  fixes es :: "'a HashEntry list"
  assumes "2 \<le> n" "i < n" "\<forall>j < n. data (es ! j) \<noteq> NULL \<and> \<not> hit (es ! j)"
  shows "probe hit es n i = None"
proof (rule ccontr)
  assume "probe hit es n i \<noteq> None"
  then obtain r where r: "probe hit es n i = Some r" by blast
  have "full hit es n \<Longrightarrow> \<not> i < n"
  proof (rule probe.raw_induct [where P = "\<lambda>hit es n i r. full hit es n \<longrightarrow> \<not> i < n",
        OF _ r, THEN mp])
    fix f :: "('a HashEntry \<Rightarrow> bool) \<Rightarrow> 'a HashEntry list \<Rightarrow> nat \<Rightarrow> nat \<Rightarrow> nat option"
      and hit es n i r
    assume IH: "\<And>hit es n i r. f hit es n i = Some r \<Longrightarrow> full hit es n \<longrightarrow> \<not> i < n"
      and step: "(if data (es ! i) \<noteq> NULL
          then if hit (es ! i) then Some i
               else if i + 1 = n then (if n = 1 then Some (i + 1) else f hit es n 0)
               else f hit es n (i + 1)
          else Some i) = Some r"
    show "full hit es n \<longrightarrow> \<not> i < n"
    proof (intro impI notI)
      assume full: "full hit es n" and i: "i < n"
      then have "f hit es n (if i + 1 = n then 0 else i + 1) = Some r"
        using step by (auto simp: full_def split: if_splits)
      then have "\<not> (if i + 1 = n then 0 else i + 1) < n" using IH full by blast
      then show False using i full by (auto simp: full_def split: if_splits)
    qed
  qed
  then show False using assms by (simp add: full_def)
qed

theorem full_table_never_halts_witness:
  "probe (\<lambda>_. False) (replicate 2 \<lparr>hashValue = 0, data = Ptr ()\<rparr>) 2 0 = None"
  by (rule full_table_never_halts) (simp_all add: less_Suc_eq numeral_2_eq_2)

end
