(* ===== verification/C_Library.thy ===== *)
theory C_Library
  imports Recovery_Prelude
begin

text \<open>
  The functions of the C library that the components call on strings and arrays.  A C string is
  a \<^typ>\<open>string\<close>, the characters before the terminating NUL; a pointer into a string is the
  suffix it points at.  Comparison is by unsigned character code.
\<close>

abbreviation code :: "char \<Rightarrow> nat" where
  "code c \<equiv> of_char c"

definition isspace :: "char \<Rightarrow> bool" where
  "isspace c \<longleftrightarrow> code c = 32 \<or> (9 \<le> code c \<and> code c \<le> 13)"

definition isdigit :: "char \<Rightarrow> bool" where
  "isdigit c \<longleftrightarrow> 48 \<le> code c \<and> code c \<le> 57"

section \<open>Comparison and search\<close>

fun strcmp :: "string \<Rightarrow> string \<Rightarrow> int" where
  "strcmp [] [] = 0"
| "strcmp [] (b # bs) = -1"
| "strcmp (a # as) [] = 1"
| "strcmp (a # as) (b # bs) =
     (if a = b then strcmp as bs else if code a < code b then -1 else 1)"

fun is_prefix :: "string \<Rightarrow> string \<Rightarrow> bool" where
  "is_prefix [] s = True"
| "is_prefix (p # ps) [] = False"
| "is_prefix (p # ps) (c # cs) = (p = c \<and> is_prefix ps cs)"

text \<open>\<^verbatim>\<open>strstr(haystack, needle)\<close> and \<^verbatim>\<open>strchr(s, c)\<close> return the suffix found.\<close>

fun strstr :: "string \<Rightarrow> string \<Rightarrow> string option" where
  "strstr [] needle = (if needle = [] then Some [] else None)"
| "strstr (c # cs) needle = (if is_prefix needle (c # cs) then Some (c # cs) else strstr cs needle)"

fun strchr :: "string \<Rightarrow> char \<Rightarrow> string option" where
  "strchr [] x = None"
| "strchr (c # cs) x = (if c = x then Some (c # cs) else strchr cs x)"

text \<open>
  \<^verbatim>\<open>strsep(&cur, [delim])\<close> on a non-null \<^verbatim>\<open>cur\<close>: the token before the first delimiter, and the
  string after it, or \<open>None\<close> (the null pointer) if there was none.
\<close>

fun strsep :: "string \<Rightarrow> char \<Rightarrow> string \<times> string option" where
  "strsep [] d = ([], None)"
| "strsep (c # cs) d =
     (if c = d then ([], Some cs) else let (tok, rest) = strsep cs d in (c # tok, rest))"

section \<open>Numbers\<close>

text \<open>The value of a digit in bases up to 36.\<close>

definition digit_val :: "char \<Rightarrow> nat option" where
  "digit_val c =
     (if 48 \<le> code c \<and> code c \<le> 57 then Some (code c - 48)
      else if 97 \<le> code c \<and> code c \<le> 122 then Some (code c - 87)
      else if 65 \<le> code c \<and> code c \<le> 90 then Some (code c - 55)
      else None)"

definition is_base_digit :: "nat \<Rightarrow> char \<Rightarrow> bool" where
  "is_base_digit base c = (case digit_val c of None \<Rightarrow> False | Some d \<Rightarrow> d < base)"

fun digits_val :: "nat \<Rightarrow> nat \<Rightarrow> string \<Rightarrow> nat \<times> string" where
  "digits_val base acc [] = (acc, [])"
| "digits_val base acc (c # cs) =
     (if is_base_digit base c then digits_val base (acc * base + the (digit_val c)) cs
      else (acc, c # cs))"

text \<open>
  The common part of \<^verbatim>\<open>strtol\<close> and \<^verbatim>\<open>strtoul\<close>: skip white space, an optional sign, an optional
  \<^verbatim>\<open>0x\<close> in base 16 when a hexadecimal digit follows, then the longest run of digits.  \<open>None\<close> if
  there is no digit (then \<^verbatim>\<open>end\<close> is the start of the string).
\<close>

definition strip_0x :: "nat \<Rightarrow> string \<Rightarrow> string" where
  "strip_0x base t =
     (case t of
        z # x # h # rest \<Rightarrow>
          if base = 16 \<and> z = CHR ''0'' \<and> (x = CHR ''x'' \<or> x = CHR ''X'') \<and> is_base_digit 16 h
          then h # rest else t
      | _ \<Rightarrow> t)"

definition parse_num :: "nat \<Rightarrow> string \<Rightarrow> (bool \<times> nat \<times> string) option" where
  "parse_num base s =
     (let t = dropWhile isspace s;
          (neg, t) = (case t of c # cs \<Rightarrow> if c = CHR ''-'' then (True, cs)
                                          else if c = CHR ''+'' then (False, cs) else (False, t)
                      | [] \<Rightarrow> (False, t));
          t = strip_0x base t
      in case t of
           c # cs \<Rightarrow> if is_base_digit base c
                     then let (n, rest) = digits_val base 0 t in Some (neg, n, rest)
                     else None
         | [] \<Rightarrow> None)"

text \<open>The 32-bit \<^verbatim>\<open>long\<close> result of \<^verbatim>\<open>strtol\<close>, clamped, and the end pointer.\<close>

definition strtol :: "string \<Rightarrow> nat \<Rightarrow> int \<times> string" where
  "strtol s base =
     (case parse_num base s of
        None \<Rightarrow> (0, s)
      | Some (neg, n, rest) \<Rightarrow>
          ((if neg then max (- (2 ^ 31)) (- int n) else min (2 ^ 31 - 1) (int n)), rest))"

text \<open>The 32-bit \<^verbatim>\<open>unsigned long\<close> result of \<^verbatim>\<open>strtoul\<close>: clamped at the top, negated modulo \<open>2^32\<close>.\<close>

definition strtoul :: "string \<Rightarrow> nat \<Rightarrow> u32 \<times> string" where
  "strtoul s base =
     (case parse_num base s of
        None \<Rightarrow> (0, s)
      | Some (neg, n, rest) \<Rightarrow>
          (if 2 ^ 32 \<le> n then (- 1, rest)
           else ((if neg then - of_nat n else of_nat n), rest)))"

text \<open>Decimal printing (\<^verbatim>\<open>%d\<close>).\<close>

definition digit_char :: "nat \<Rightarrow> char" where
  "digit_char d = char_of (48 + d)"

fun show_nat :: "nat \<Rightarrow> string" where
  "show_nat n = (if n < 10 then [digit_char n] else show_nat (n div 10) @ [digit_char (n mod 10)])"

definition show_int :: "int \<Rightarrow> string" where
  "show_int i = (if i < 0 then CHR ''-'' # show_nat (nat (- i)) else show_nat (nat i))"

section \<open>Sorting and searching arrays\<close>

text \<open>
  \<^verbatim>\<open>qsort\<close> and \<^verbatim>\<open>bsearch\<close> with a comparison function.  The order \<^verbatim>\<open>qsort\<close> gives to equal elements
  is unspecified in C; the model sorts by insertion.  \<open>bsearch_loop\<close> is the loop of the
  BSD implementation over the sub-array of \<open>lim\<close> elements at \<open>base\<close>.
\<close>

fun insert_by :: "('a \<Rightarrow> 'a \<Rightarrow> int) \<Rightarrow> 'a \<Rightarrow> 'a list \<Rightarrow> 'a list" where
  "insert_by cmp x [] = [x]"
| "insert_by cmp x (y # ys) = (if cmp x y \<le> 0 then x # y # ys else y # insert_by cmp x ys)"

fun qsort :: "('a \<Rightarrow> 'a \<Rightarrow> int) \<Rightarrow> 'a list \<Rightarrow> 'a list" where
  "qsort cmp [] = []"
| "qsort cmp (x # xs) = insert_by cmp x (qsort cmp xs)"

function bsearch_loop :: "('a \<Rightarrow> int) \<Rightarrow> 'a list \<Rightarrow> nat \<Rightarrow> nat \<Rightarrow> 'a option" where
  "bsearch_loop cmp xs base lim =
     (if lim = 0 then None
      else let p = base + lim div 2; r = cmp (xs ! p)
           in if r = 0 then Some (xs ! p)
              else if r > 0 then bsearch_loop cmp xs (p + 1) ((lim - 1) div 2)
              else bsearch_loop cmp xs base (lim div 2))"
  by pat_completeness auto
termination
  by (relation "measure (\<lambda>(cmp, xs, base, lim). lim)") auto

definition bsearch :: "('a \<Rightarrow> int) \<Rightarrow> 'a list \<Rightarrow> 'a option" where
  "bsearch cmp xs = bsearch_loop cmp xs 0 (length xs)"

section \<open>Facts\<close>

declare bsearch_loop.simps [simp del] show_nat.simps [simp del]

lemma strcmp_eq_0 [simp]: "strcmp a b = 0 \<longleftrightarrow> a = b"
  by (induction a b rule: strcmp.induct) auto

lemma strcmp_refl [simp]: "strcmp a a = 0"
  by simp

lemma strcmp_swap: "strcmp b a = - strcmp a b"
  by (induction a b rule: strcmp.induct) auto

lemma strcmp_trans: "strcmp a b < 0 \<Longrightarrow> strcmp b c < 0 \<Longrightarrow> strcmp a c < 0"
proof (induction a c arbitrary: b rule: strcmp.induct)
  case (4 x xs y ys)
  then show ?case by (cases b) (auto split: if_splits)
next
  case 1
  then show ?case by (cases b) auto
next
  case (3 x xs)
  then show ?case by (cases b) auto
qed simp

lemma is_prefix_iff: "is_prefix p s \<longleftrightarrow> (\<exists>t. s = p @ t)"
  by (induction p s rule: is_prefix.induct) auto

lemma strstr_iff: "strstr h n \<noteq> None \<longleftrightarrow> (\<exists>a b. h = a @ n @ b)"
proof (induction h)
  case (Cons c cs)
  have "(\<exists>a b. c # cs = a @ n @ b) \<longleftrightarrow> (\<exists>b. c # cs = n @ b) \<or> (\<exists>a b. cs = a @ n @ b)"
    by (metis append_Cons append_Nil list.exhaust list.inject)
  with Cons show ?case by (auto simp: is_prefix_iff)
qed auto

lemma strchr_suffix: "strchr s c = Some t \<Longrightarrow> \<exists>a. s = a @ t \<and> c \<notin> set a \<and> (\<exists>u. t = c # u)"
  by (induction s) (auto split: if_splits intro: exI [of _ "_ # _"])

lemma strchr_None: "strchr s c = None \<longleftrightarrow> c \<notin> set s"
  by (induction s) auto

lemma strsep_spec:
  "strsep s d = (tok, rest) \<Longrightarrow>
     d \<notin> set tok \<and> (case rest of None \<Rightarrow> s = tok | Some r \<Rightarrow> s = tok @ d # r)"
  by (induction s arbitrary: tok) (auto split: if_splits prod.splits option.splits)

subsection \<open>Sorting and searching\<close>

text \<open>A comparison function that orders by a key, as \<^verbatim>\<open>strcmp\<close> on names does.\<close>

definition sorted_by :: "('a \<Rightarrow> 'a \<Rightarrow> int) \<Rightarrow> 'a list \<Rightarrow> bool" where
  "sorted_by cmp xs = sorted_wrt (\<lambda>x y. cmp x y \<le> 0) xs"

lemma set_insert_by [simp]: "set (insert_by cmp x xs) = insert x (set xs)"
  by (induction xs) auto

lemma set_qsort [simp]: "set (qsort cmp xs) = set xs"
  by (induction xs) auto

lemma length_insert_by [simp]: "length (insert_by cmp x xs) = Suc (length xs)"
  by (induction xs) auto

lemma length_qsort [simp]: "length (qsort cmp xs) = length xs"
  by (induction xs) auto

lemma sorted_by_insert_by:
  assumes trans: "\<And>a b c. cmp a b \<le> 0 \<Longrightarrow> cmp b c \<le> 0 \<Longrightarrow> cmp a c \<le> 0"
    and total: "\<And>a b. cmp a b \<le> 0 \<or> cmp b a \<le> 0"
    and "sorted_by cmp xs"
  shows "sorted_by cmp (insert_by cmp x xs)"
  using assms(3)
proof (induction xs)
  case (Cons y ys)
  show ?case
  proof (cases "cmp x y \<le> 0")
    case True
    then show ?thesis using Cons.prems trans by (auto simp: sorted_by_def)
  next
    case False
    then have "cmp y x \<le> 0" using total by blast
    then show ?thesis using Cons False by (auto simp: sorted_by_def)
  qed
qed (simp add: sorted_by_def)

lemma sorted_by_qsort:
  assumes "\<And>a b c. cmp a b \<le> 0 \<Longrightarrow> cmp b c \<le> 0 \<Longrightarrow> cmp a c \<le> 0"
    and "\<And>a b. cmp a b \<le> 0 \<or> cmp b a \<le> 0"
  shows "sorted_by cmp (qsort cmp xs)"
proof (induction xs)
  case (Cons x xs)
  then show ?case using sorted_by_insert_by [of cmp, OF assms] by simp
qed (simp add: sorted_by_def)

lemma strcmp_le_trans: "strcmp a b \<le> 0 \<Longrightarrow> strcmp b c \<le> 0 \<Longrightarrow> strcmp a c \<le> 0"
  using strcmp_trans [of a b c] by (metis order_le_less strcmp_eq_0)

lemma strcmp_le_total: "strcmp a b \<le> 0 \<or> strcmp b a \<le> 0"
  using strcmp_swap [of a b] by linarith

text \<open>
  Binary search in an array on which the comparison with the key goes from positive through
  zero to negative: it returns an element that compares equal if there is one in the range,
  and nothing otherwise.
\<close>

lemma bsearch_loop_sound:
  "base + lim \<le> length xs \<Longrightarrow> bsearch_loop cmp xs base lim = Some x \<Longrightarrow> x \<in> set xs \<and> cmp x = 0"
proof (induction cmp xs base lim rule: bsearch_loop.induct)
  case (1 cmp xs base lim)
  show ?case
  proof (cases "lim = 0")
    case True
    with "1.prems" show ?thesis by (simp add: bsearch_loop.simps)
  next
    case False
    let ?p = "base + lim div 2"
    have p: "?p < length xs" using False "1.prems"(1) by linarith
    consider "cmp (xs ! ?p) = 0" | "cmp (xs ! ?p) > 0" | "cmp (xs ! ?p) < 0" by linarith
    then show ?thesis
    proof cases
      case 1
      then show ?thesis using "1.prems" False p
        by (auto simp: bsearch_loop.simps [of cmp xs base lim])
    next
      case 2
      have "?p + 1 + (lim - 1) div 2 \<le> length xs" using "1.prems"(1) False by linarith
      then show ?thesis using "1.IH"(1) [OF False refl refl] "1.prems"(2) 2 False
        by (simp add: bsearch_loop.simps [of cmp xs base lim] Let_def)
    next
      case 3
      have "base + lim div 2 \<le> length xs" using "1.prems"(1) by linarith
      then show ?thesis using "1.IH"(2) [OF False refl refl] "1.prems"(2) 3 False
        by (simp add: bsearch_loop.simps [of cmp xs base lim] Let_def)
    qed
  qed
qed

lemma bsearch_loop_complete:
  assumes mono: "\<And>i j. i < j \<Longrightarrow> j < length xs \<Longrightarrow> cmp (xs ! i) \<le> 0 \<Longrightarrow> cmp (xs ! j) < 0"
  shows "base + lim \<le> length xs \<Longrightarrow> base \<le> k \<Longrightarrow> k < base + lim \<Longrightarrow> cmp (xs ! k) = 0 \<Longrightarrow>
    bsearch_loop cmp xs base lim = Some (xs ! k)"
proof (induction lim arbitrary: base rule: less_induct)
  case (less lim)
  let ?p = "base + lim div 2"
  have lim: "lim \<noteq> 0" using less.prems by linarith
  have p: "?p < length xs" using lim less.prems(1) by linarith
  consider "cmp (xs ! ?p) = 0" | "cmp (xs ! ?p) > 0" | "cmp (xs ! ?p) < 0" by linarith
  then show ?case
  proof cases
    case 1
    have "k = ?p"
    proof (rule ccontr)
      assume "k \<noteq> ?p"
      then show False using mono [of k ?p] mono [of ?p k] 1 less.prems p by (cases "k < ?p") auto
    qed
    then show ?thesis using 1 lim by (simp add: bsearch_loop.simps [of cmp xs base lim])
  next
    case 2
    then have "?p < k" using mono [of k ?p] less.prems(4) p by (cases "k = ?p") force+
    then have "bsearch_loop cmp xs (?p + 1) ((lim - 1) div 2) = Some (xs ! k)"
      using less.prems lim by (intro less.IH) linarith+
    then show ?thesis using 2 lim by (simp add: bsearch_loop.simps [of cmp xs base lim] Let_def)
  next
    case 3
    then have "k < ?p" using mono [of ?p k] less.prems p by (cases "k = ?p") force+
    then have "bsearch_loop cmp xs base (lim div 2) = Some (xs ! k)"
      using less.prems lim by (intro less.IH) auto
    then show ?thesis using 3 lim by (simp add: bsearch_loop.simps [of cmp xs base lim] Let_def)
  qed
qed

subsection \<open>Printing and parsing numbers\<close>

lemma code_digit_char: "d < 10 \<Longrightarrow> code (digit_char d) = 48 + d"
  by (simp add: digit_char_def)

lemma digit_char_props:
  assumes "d < 10"
  shows "digit_val (digit_char d) = Some d" "is_base_digit 10 (digit_char d)"
    "\<not> isspace (digit_char d)" "digit_char d \<noteq> CHR ''-''" "digit_char d \<noteq> CHR ''+''"
proof -
  note c = code_digit_char [OF assms]
  show dv: "digit_val (digit_char d) = Some d" using assms by (simp add: digit_val_def c)
  show "is_base_digit 10 (digit_char d)" using assms by (simp add: is_base_digit_def dv)
  show "\<not> isspace (digit_char d)" by (simp add: isspace_def c)
  show "digit_char d \<noteq> CHR ''-''" "digit_char d \<noteq> CHR ''+''" using c by auto
qed

lemma digits_val_append:
  "list_all (is_base_digit b) s \<Longrightarrow> digits_val b a (s @ t) = digits_val b (fst (digits_val b a s)) t"
  by (induction s arbitrary: a) auto

lemma show_nat_digits: "list_all (is_base_digit 10) (show_nat n)"
proof (induction n rule: show_nat.induct)
  case (1 n)
  then show ?case
    by (subst show_nat.simps) (auto simp: digit_char_props)
qed

lemma digits_val_show_nat: "digits_val 10 0 (show_nat n) = (n, [])"
proof (induction n rule: show_nat.induct)
  case (1 n)
  show ?case
  proof (cases "n < 10")
    case True
    then show ?thesis by (subst show_nat.simps) (simp add: digit_char_props)
  next
    case False
    have m: "n mod 10 < 10" by simp
    show ?thesis using False 1
      by (subst show_nat.simps)
        (simp add: digits_val_append [OF show_nat_digits] digit_char_props [OF m])
  qed
qed

lemma show_nat_Cons: "\<exists>d ds. show_nat n = digit_char d # ds \<and> d < 10"
proof (induction n rule: show_nat.induct)
  case (1 n)
  then show ?case by (subst show_nat.simps) (fastforce split: if_splits)
qed

lemma strip_0x_10 [simp]: "strip_0x 10 t = t"
  by (auto simp: strip_0x_def split: list.splits)

lemma parse_num_show_int: "parse_num 10 (show_int i) = Some (i < 0, nat \<bar>i\<bar>, [])"
proof -
  obtain d ds where d: "show_nat (nat \<bar>i\<bar>) = digit_char d # ds" "d < 10"
    using show_nat_Cons by blast
  have v: "digits_val 10 0 (digit_char d # ds) = (nat \<bar>i\<bar>, [])"
    using digits_val_show_nat [of "nat \<bar>i\<bar>"] d(1) by simp
  have "\<not> isspace (CHR ''-'')" by (simp add: isspace_def)
  then show ?thesis
    using d v digit_char_props [OF d(2)]
    by (cases "i < 0") (simp_all add: show_int_def parse_num_def)
qed

text \<open>Printing a 32-bit \<^verbatim>\<open>int\<close> and reading it back with \<^verbatim>\<open>strtol\<close> consumes it all and gives it back.\<close>

lemma strtol_show_int:
  assumes "- (2 ^ 31) \<le> i" "i < 2 ^ 31"
  shows "strtol (show_int i) 10 = (i, [])"
  using assms by (simp add: strtol_def parse_num_show_int)

end
