(* ===== verification/Minzip_Zip.thy ===== *)
theory Minzip_Zip
  imports Minzip_Bits Minzip_Hash C_Library
begin

text \<open>
  Opening a Zip archive, \<^verbatim>\<open>minzip/Zip.c\<close> and \<^verbatim>\<open>minzip/Zip.h\<close>: the scan for the end record, the
  central directory, the sorted table of entries and the hash index by name.  The mapped file is
  a \<open>region\<close>; pointers are its 32-bit addresses.  Fields of type \<^verbatim>\<open>long\<close> are words, read with
  \<open>sint\<close> where the sign matters.  An access outside the mapping is the outer \<open>None\<close>; the inner
  \<open>None\<close> is the result \<^verbatim>\<open>false\<close>.  \<^verbatim>\<open>safe_add\<close> comes from the library safe_iop, which is not part of
  the sources: its two uses are the parameters \<open>safe_addu\<close> (addresses) and \<open>safe_adds\<close> (signed
  lengths), with the documented behaviour as the predicate \<open>safe_iop\<close>.
\<close>

section \<open>Constants\<close>

definition CENSIG :: u32 where "CENSIG = 0x02014b50"
definition CENHDR :: u32 where "CENHDR = 46"
definition CENVEM :: u32 where "CENVEM = 4"
definition CENHOW :: u32 where "CENHOW = 10"
definition CENTIM :: u32 where "CENTIM = 12"
definition CENCRC :: u32 where "CENCRC = 16"
definition CENSIZ :: u32 where "CENSIZ = 20"
definition CENLEN :: u32 where "CENLEN = 24"
definition CENNAM :: u32 where "CENNAM = 28"
definition CENEXT :: u32 where "CENEXT = 30"
definition CENCOM :: u32 where "CENCOM = 32"
definition CENATX :: u32 where "CENATX = 38"
definition CENOFF :: u32 where "CENOFF = 42"
definition ENDSIG :: u32 where "ENDSIG = 0x06054b50"
definition ENDHDR :: nat where "ENDHDR = 22"
definition ENDSUB :: u32 where "ENDSUB = 8"
definition ENDOFF :: u32 where "ENDOFF = 16"
definition LOCSIG :: u32 where "LOCSIG = 0x04034b50"
definition LOCHDR :: u32 where "LOCHDR = 30"
definition LOCNAM :: u32 where "LOCNAM = 26"
definition LOCEXT :: u32 where "LOCEXT = 28"
definition STORED :: u32 where "STORED = 0"
definition DEFLATED :: u32 where "DEFLATED = 8"
definition CENVEM_UNIX :: u32 where "CENVEM_UNIX = push_bit 8 3"
definition PATH_MAX :: nat where "PATH_MAX = 4096"

lemmas zip_consts = CENSIG_def CENHDR_def CENVEM_def CENHOW_def CENTIM_def CENCRC_def CENSIZ_def
  CENLEN_def CENNAM_def CENEXT_def CENCOM_def CENATX_def CENOFF_def ENDSIG_def ENDHDR_def ENDSUB_def
  ENDOFF_def LOCSIG_def LOCHDR_def LOCNAM_def LOCEXT_def CENVEM_UNIX_def

section \<open>Data\<close>

record ZipEntry =
  fileNameLen :: u32
  fileName :: u32
  offset :: u32
  compLen :: u32
  uncompLen :: u32
  compression :: u32
  modTime :: u32
  crc32 :: u32
  versionMadeBy :: u32
  externalFileAttributes :: u32

text \<open>A pointer stored in the index is an entry of the table; the key of a search is a C string.\<close>

datatype zkey = EntryP nat | NameP string

record ZipArchive =
  z_fd :: int
  z_numEntries :: nat
  z_pEntries :: "ZipEntry list"
  z_pHash :: "zkey HashTable"
  z_map :: region

text \<open>The characters at a pointer, as far as they are mapped, and the name of an entry.\<close>

definition chars_at :: "region \<Rightarrow> u32 \<Rightarrow> nat \<Rightarrow> string" where
  "chars_at r p n = (case load_list r p n of None \<Rightarrow> [] | Some bs \<Rightarrow> map (\<lambda>b. char_of (unat b)) bs)"

definition entry_name :: "region \<Rightarrow> ZipEntry \<Rightarrow> string" where
  "entry_name r e = chars_at r (fileName e) (unat (fileNameLen e))"

section \<open>Names\<close>

fun memcmp :: "string \<Rightarrow> string \<Rightarrow> nat \<Rightarrow> int" where
  "memcmp (a # as) (b # bs) (Suc n) =
     (if a = b then memcmp as bs n else if code a < code b then -1 else 1)"
| "memcmp as bs n = 0"

definition hashcmpZipEntry :: "(nat \<Rightarrow> string) \<Rightarrow> zkey ptr \<Rightarrow> zkey ptr \<Rightarrow> int" where
  "hashcmpZipEntry nm ventry1 ventry2 =
     (case (ventry1, ventry2) of
        (Ptr (EntryP i), Ptr (EntryP j)) \<Rightarrow>
          if length (nm i) \<noteq> length (nm j) then int (length (nm i)) - int (length (nm j))
          else memcmp (nm i) (nm j) (length (nm i))
      | _ \<Rightarrow> 1)"

definition hashcmpZipName :: "(nat \<Rightarrow> string) \<Rightarrow> zkey ptr \<Rightarrow> zkey ptr \<Rightarrow> int" where
  "hashcmpZipName nm ventry vname =
     (case (ventry, vname) of
        (Ptr (EntryP i), Ptr (NameP name)) \<Rightarrow>
          if length (nm i) \<noteq> length name then int (length (nm i)) - int (length name)
          else memcmp (nm i) name (length name)
      | _ \<Rightarrow> 1)"

fun computeHash_loop :: "u32 \<Rightarrow> string \<Rightarrow> u32" where
  "computeHash_loop hash [] = hash"
| "computeHash_loop hash (c # name) = computeHash_loop (hash * 31 + of_nat (code c)) name"

definition computeHash :: "string \<Rightarrow> u32" where
  "computeHash name = computeHash_loop 2 name"

definition addEntryToHashTable ::
  "(nat \<Rightarrow> bool) \<Rightarrow> (nat \<Rightarrow> string) \<Rightarrow> nat \<Rightarrow> zkey HashTable \<Rightarrow> (hash_error + zkey HashTable) option" where
  "addEntryToHashTable calloc nm i ht = do {
     r \<leftarrow> mzHashTableLookup calloc ht (computeHash (nm i)) (Ptr (EntryP i)) (hashcmpZipEntry nm) True;
     Some (case r of Inl e \<Rightarrow> Inl e | Inr (found, ht) \<Rightarrow> Inr ht) }"

fun valid_chars :: "region \<Rightarrow> u32 \<Rightarrow> nat \<Rightarrow> bool option" where
  "valid_chars r p 0 = Some True"
| "valid_chars r p (Suc n) = do {
     c \<leftarrow> load r p;
     if unat c < 32 \<or> unat c \<ge> 127 then Some False else valid_chars r (p + 1) n }"

definition validFilename :: "region \<Rightarrow> u32 \<Rightarrow> u32 \<Rightarrow> bool option" where
  "validFilename r name len =
     (if unat len \<ge> PATH_MAX then Some False else valid_chars r name (unat len))"

section \<open>Parsing\<close>

text \<open>The backward scan for the end record, from offset \<open>off\<close> down to the start of the mapping.\<close>

definition is_eocd :: "region \<Rightarrow> u32 \<Rightarrow> bool option" where
  "is_eocd r p = do {
     b \<leftarrow> load r p;
     if ucast b = ENDSIG AND 0xff then do { v \<leftarrow> get4LE r p; Some (v = ENDSIG) } else Some False }"

fun find_eocd :: "region \<Rightarrow> nat \<Rightarrow> u32 option option" where
  "find_eocd r 0 = do { here \<leftarrow> is_eocd r (r_base r); Some (if here then Some (r_base r) else None) }"
| "find_eocd r (Suc off) = do {
     here \<leftarrow> is_eocd r (r_base r + of_nat (Suc off));
     if here then Some (Some (r_base r + of_nat (Suc off))) else find_eocd r off }"

text \<open>The comparison and the loop of the binary search for the place of a name.\<close>

fun strncmp :: "string \<Rightarrow> string \<Rightarrow> nat \<Rightarrow> int" where
  "strncmp as bs 0 = 0"
| "strncmp as bs (Suc n) = (case (as, bs) of
     ([], []) \<Rightarrow> 0
   | ([], _) \<Rightarrow> -1
   | (_, []) \<Rightarrow> 1
   | (a # as, b # bs) \<Rightarrow> if a = b then strncmp as bs n else if code a < code b then -1 else 1)"

definition name_diff :: "string \<Rightarrow> string \<Rightarrow> int" where
  "name_diff a b =
     (let diffLen = (if length a < length b then length a else length b);
          diff = strncmp a b diffLen
      in if diff = 0 then int (length a) - int (length b) else diff)"

function place :: "(nat \<Rightarrow> string) \<Rightarrow> string \<Rightarrow> int \<Rightarrow> int \<Rightarrow> int" where
  "place nm name low high =
     (if low \<le> high
      then let mid = low + (high - low) div 2; diff = name_diff (nm (nat mid)) name
           in if diff < 0 then place nm name (mid + 1) high
              else if diff > 0 then place nm name low (mid - 1)
              else mid
      else high)"
  by pat_completeness auto
termination
  by (relation "measure (\<lambda>(nm, name, low, high). nat (high - low + 1))") auto

text \<open>Making room at \<open>target\<close>; \<open>None\<close> is the failed assertion.\<close>

definition insert_entry :: "region \<Rightarrow> ZipEntry \<Rightarrow> ZipEntry list \<Rightarrow> ZipEntry list option" where
  "insert_entry r e es =
     (let i = length es;
          target = (if i > 0 then place (\<lambda>k. entry_name r (es ! k)) (entry_name r e) 0 (int i - 1) + 1 else 0)
      in if 0 \<le> target \<and> target \<le> int i
         then Some (take (nat target) es @ [e] @ drop (nat target) es) else None)"

text \<open>The address of the local header, checked; the check of the data against the file.\<close>

definition local_header :: "(u32 \<Rightarrow> u32 \<Rightarrow> u32 option) \<Rightarrow> region \<Rightarrow> u32 \<Rightarrow> u32 option option" where
  "local_header safe_addu r localHdrOffset =
     (case safe_addu (r_base r) localHdrOffset of
        None \<Rightarrow> Some None
      | Some localHdr \<Rightarrow>
          if localHdr + LOCHDR > r_base r + of_nat (length (r_bytes r)) then Some None
          else do {
            sig \<leftarrow> get4LE r localHdr;
            if sig \<noteq> LOCSIG then Some None
            else do {
              n \<leftarrow> get2LE r (localHdr + LOCNAM);
              x \<leftarrow> get2LE r (localHdr + LOCEXT);
              Some (Some (localHdrOffset + LOCHDR + ucast n + ucast x)) } })"

definition data_fits :: "(u32 \<Rightarrow> u32 \<Rightarrow> bool) \<Rightarrow> region \<Rightarrow> u32 \<Rightarrow> u32 \<Rightarrow> bool" where
  "data_fits safe_adds r off len \<longleftrightarrow>
     safe_adds off len \<and> \<not> off + len > of_nat (length (r_bytes r))"

text \<open>One central directory header: the entry and the distance to the next header.\<close>

definition parse_entry ::
  "(u32 \<Rightarrow> u32 \<Rightarrow> u32 option) \<Rightarrow> (u32 \<Rightarrow> u32 \<Rightarrow> bool) \<Rightarrow> region \<Rightarrow> u32 \<Rightarrow>
     (ZipEntry \<times> u32) option option" where
  "parse_entry safe_addu safe_adds r p =
     (if p + CENHDR > r_base r + of_nat (length (r_bytes r)) then Some None
      else do {
        sig \<leftarrow> get4LE r p;
        if sig \<noteq> CENSIG then Some None
        else do {
          localHdrOffset \<leftarrow> get4LE r (p + CENOFF);
          nlen \<leftarrow> map_option ucast (get2LE r (p + CENNAM));
          extraLen \<leftarrow> map_option ucast (get2LE r (p + CENEXT));
          commentLen \<leftarrow> map_option ucast (get2LE r (p + CENCOM));
          let name = p + CENHDR;
          if name + nlen > r_base r + of_nat (length (r_bytes r)) then Some None
          else do {
            valid \<leftarrow> validFilename r name nlen;
            if \<not> valid then Some None
            else do {
              csiz \<leftarrow> get4LE r (p + CENSIZ);
              clen \<leftarrow> get4LE r (p + CENLEN);
              how \<leftarrow> map_option ucast (get2LE r (p + CENHOW));
              tim \<leftarrow> get4LE r (p + CENTIM);
              crc \<leftarrow> get4LE r (p + CENCRC);
              vem \<leftarrow> map_option ucast (get2LE r (p + CENVEM));
              if vem AND 0xff00 \<noteq> 0 \<and> vem AND 0xff00 \<noteq> CENVEM_UNIX then Some None
              else do {
                atx \<leftarrow> get4LE r (p + CENATX);
                hdr \<leftarrow> local_header safe_addu r localHdrOffset;
                case hdr of
                  None \<Rightarrow> Some None
                | Some off \<Rightarrow>
                    if \<not> data_fits safe_adds r off csiz then Some None
                    else Some (Some
                      (\<lparr>fileNameLen = nlen, fileName = name, offset = off, compLen = csiz,
                        uncompLen = clen, compression = how, modTime = tim, crc32 = crc,
                        versionMadeBy = vem, externalFileAttributes = atx\<rparr>,
                       CENHDR + nlen + extraLen + commentLen)) } } } } })"

fun parse_entries ::
  "(u32 \<Rightarrow> u32 \<Rightarrow> u32 option) \<Rightarrow> (u32 \<Rightarrow> u32 \<Rightarrow> bool) \<Rightarrow> region \<Rightarrow> nat \<Rightarrow> u32 \<Rightarrow> ZipEntry list \<Rightarrow>
     ZipEntry list option option" where
  "parse_entries safe_addu safe_adds r 0 p es = Some (Some es)"
| "parse_entries safe_addu safe_adds r (Suc n) p es = do {
     x \<leftarrow> parse_entry safe_addu safe_adds r p;
     case x of
       None \<Rightarrow> Some None
     | Some (e, dist) \<Rightarrow> do {
         es \<leftarrow> insert_entry r e es;
         parse_entries safe_addu safe_adds r n (p + dist) es } }"

text \<open>Adding the entries from index \<open>i\<close> to the hash table.\<close>

fun add_entries :: "(nat \<Rightarrow> bool) \<Rightarrow> (nat \<Rightarrow> string) \<Rightarrow> nat list \<Rightarrow> zkey HashTable \<Rightarrow>
    (hash_error + zkey HashTable) option" where
  "add_entries calloc nm [] ht = Some (Inr ht)"
| "add_entries calloc nm (i # is) ht = do {
     r \<leftarrow> addEntryToHashTable calloc nm i ht;
     case r of Inl e \<Rightarrow> Some (Inl e) | Inr ht \<Rightarrow> add_entries calloc nm is ht }"

datatype parse_result = Bad_read | Hash_error | Not_zip | Parsed ZipArchive

text \<open>\<open>entries_ok\<close> and \<open>calloc\<close> say whether the entry table and the hash table can be allocated.\<close>

definition parseZipArchive ::
  "bool \<Rightarrow> (nat \<Rightarrow> bool) \<Rightarrow> (u32 \<Rightarrow> u32 \<Rightarrow> u32 option) \<Rightarrow> (u32 \<Rightarrow> u32 \<Rightarrow> bool) \<Rightarrow> int \<Rightarrow> region \<Rightarrow> parse_result" where
  "parseZipArchive entries_ok calloc safe_addu safe_adds fd r =
     (case get4LE r (r_base r) of
        None \<Rightarrow> Bad_read
      | Some val \<Rightarrow>
          if val = ENDSIG then Not_zip
          else if val \<noteq> LOCSIG then Not_zip
          else case find_eocd r (length (r_bytes r) - ENDHDR) of
            None \<Rightarrow> Bad_read
          | Some None \<Rightarrow> Not_zip
          | Some (Some p) \<Rightarrow>
              (case (get2LE r (p + ENDSUB), get4LE r (p + ENDOFF)) of
                 (Some n16, Some cdOffset) \<Rightarrow>
                   let n = unat n16 in
                   if n = 0 \<or> cdOffset \<ge> of_nat (length (r_bytes r)) then Not_zip
                   else (case mzHashTableCreate True calloc (mzHashSize (ucast n16)) False of
                     Inr (Some ht) \<Rightarrow>
                       if \<not> entries_ok then Not_zip
                       else (case parse_entries safe_addu safe_adds r n (r_base r + cdOffset) [] of
                         None \<Rightarrow> Bad_read
                       | Some None \<Rightarrow> Not_zip
                       | Some (Some es) \<Rightarrow>
                           (case add_entries calloc (\<lambda>k. entry_name r (es ! k)) [0..<n] ht of
                              Some (Inr ht) \<Rightarrow>
                                Parsed \<lparr>z_fd = fd, z_numEntries = n, z_pEntries = es, z_pHash = ht, z_map = r\<rparr>
                            | _ \<Rightarrow> Hash_error))
                   | Inr None \<Rightarrow> Not_zip
                   | Inl _ \<Rightarrow> Hash_error)
               | _ \<Rightarrow> Bad_read))"

section \<open>Opening, finding and accessors\<close>

text \<open>
  \<open>opened\<close> is the descriptor, \<open>mapped\<close> the mapping made by \<^verbatim>\<open>sysMapFileInShmem\<close>, both \<open>None\<close> on
  failure.  The result is the error code with the archive.
\<close>

datatype open_result = Open_fault | Opened int "ZipArchive option"

definition mzOpenZipArchive ::
  "bool \<Rightarrow> (nat \<Rightarrow> bool) \<Rightarrow> (u32 \<Rightarrow> u32 \<Rightarrow> u32 option) \<Rightarrow> (u32 \<Rightarrow> u32 \<Rightarrow> bool) \<Rightarrow> int \<Rightarrow> int option \<Rightarrow> region option \<Rightarrow>
     open_result" where
  "mzOpenZipArchive entries_ok calloc safe_addu safe_adds errno opened mapped =
     (case opened of
        None \<Rightarrow> Opened (if errno \<noteq> 0 then errno else -1) None
      | Some fd \<Rightarrow>
          (case mapped of
             None \<Rightarrow> Opened (-1) None
           | Some r \<Rightarrow>
               if length (r_bytes r) < ENDHDR then Opened (-1) None
               else (case parseZipArchive entries_ok calloc safe_addu safe_adds fd r of
                       Bad_read \<Rightarrow> Open_fault
                     | Hash_error \<Rightarrow> Open_fault
                     | Not_zip \<Rightarrow> Opened (-1) None
                     | Parsed z \<Rightarrow> Opened 0 (Some z))))"

definition z_name :: "ZipArchive \<Rightarrow> nat \<Rightarrow> string" where
  "z_name z k = entry_name (z_map z) (z_pEntries z ! k)"

definition mzFindZipEntry :: "ZipArchive \<Rightarrow> string \<Rightarrow> nat option option" where
  "mzFindZipEntry z name = do {
     r \<leftarrow> mzHashTableLookup (\<lambda>_. False) (z_pHash z) (computeHash name) (Ptr (NameP name))
            (hashcmpZipName (z_name z)) False;
     case r of
       Inr (Ptr (EntryP i), _) \<Rightarrow> Some (Some i)
     | Inr (NULL, _) \<Rightarrow> Some None
     | _ \<Rightarrow> None }"

definition mzZipEntryCount :: "ZipArchive \<Rightarrow> nat" where
  "mzZipEntryCount z = z_numEntries z"

definition mzGetZipEntryAt :: "ZipArchive \<Rightarrow> nat \<Rightarrow> ZipEntry option" where
  "mzGetZipEntryAt z i = (if i < z_numEntries z then Some (z_pEntries z ! i) else None)"

definition S_ISLNK :: "u32 \<Rightarrow> bool" where
  "S_ISLNK mode \<longleftrightarrow> mode AND 0xF000 = 0xA000"

text \<open>The shift is arithmetic, the attributes being a \<^verbatim>\<open>long\<close>.\<close>

definition mzIsZipEntrySymlink :: "ZipEntry \<Rightarrow> bool" where
  "mzIsZipEntrySymlink e \<longleftrightarrow>
     versionMadeBy e AND 0xff00 = CENVEM_UNIX \<and> S_ISLNK (signed_drop_bit 16 (externalFileAttributes e))"

declare place.simps [simp del]

section \<open>The order of names\<close>

lemma strncmp_strcmp:
  "n = min (length a) (length b) \<Longrightarrow>
     (if strncmp a b n = 0 then sgn (strcmp a b) = sgn (int (length a) - int (length b))
      else strncmp a b n = strcmp a b)"
proof (induction a b arbitrary: n rule: strcmp.induct)
  case (4 a as b bs)
  have n: "n = Suc (min (length as) (length bs))" using "4.prems" by simp
  show ?case using "4.IH" [OF _ refl] by (cases "a = b") (auto simp: n split: if_splits)
qed auto

lemma name_diff_sgn: "sgn (name_diff a b) = sgn (strcmp a b)"
proof -
  have m: "(if length a < length b then length a else length b) = min (length a) (length b)" by auto
  show ?thesis using strncmp_strcmp [OF refl, of a b]
    by (auto simp: name_diff_def Let_def m split: if_splits)
qed

lemma name_diff_simps:
  "name_diff a b < 0 \<longleftrightarrow> strcmp a b < 0" "name_diff a b > 0 \<longleftrightarrow> strcmp a b > 0"
  using name_diff_sgn [of a b] by (auto simp: sgn_if simp del: strcmp_eq_0 split: if_splits)

definition sorted_names :: "(nat \<Rightarrow> string) \<Rightarrow> nat \<Rightarrow> bool" where
  "sorted_names nm n \<longleftrightarrow> (\<forall>i j. i < j \<and> j < n \<longrightarrow> strcmp (nm i) (nm j) \<le> 0)"

text \<open>The binary search returns the last position whose name is not after the new one.\<close>

lemma strcmp_ge_trans: "strcmp a b \<ge> 0 \<Longrightarrow> strcmp b c \<ge> 0 \<Longrightarrow> strcmp a c \<ge> 0"
  using strcmp_le_trans [of c b a] strcmp_swap by (metis neg_0_le_iff_le minus_minus neg_le_0_iff_le)

definition split_at :: "(nat \<Rightarrow> string) \<Rightarrow> nat \<Rightarrow> string \<Rightarrow> int \<Rightarrow> bool" where
  "split_at nm n name p \<longleftrightarrow> -1 \<le> p \<and> p < int n \<and> (\<forall>i. int i \<le> p \<longrightarrow> strcmp (nm i) name \<le> 0) \<and>
     (\<forall>i. p < int i \<and> i < n \<longrightarrow> strcmp (nm i) name \<ge> 0)"

lemma sorted_names_le:
  assumes "sorted_names nm n" "strcmp (nm m) name \<le> 0" "i \<le> m" "m < n"
  shows "strcmp (nm i) name \<le> 0"
  using assms strcmp_le_trans unfolding sorted_names_def by (metis order_le_less)

lemma sorted_names_ge:
  assumes "sorted_names nm n" "strcmp (nm m) name \<ge> 0" "m \<le> i" "i < n"
  shows "strcmp (nm i) name \<ge> 0"
proof (cases "m = i")
  case False
  then have "strcmp (nm m) (nm i) \<le> 0" using assms unfolding sorted_names_def by simp
  then have "strcmp (nm i) (nm m) \<ge> 0" using strcmp_swap [of "nm i" "nm m"] by simp
  then show ?thesis using assms(2) by (rule strcmp_ge_trans)
qed (use assms in simp)

lemma place_split:
  assumes sorted: "sorted_names nm n"
  shows "0 \<le> low \<Longrightarrow> low \<le> high + 1 \<Longrightarrow> high < int n \<Longrightarrow>
    (\<forall>i. int i < low \<longrightarrow> strcmp (nm i) name \<le> 0) \<Longrightarrow>
    (\<forall>i. high < int i \<and> i < n \<longrightarrow> strcmp (nm i) name \<ge> 0) \<Longrightarrow>
    split_at nm n name (place nm name low high)"
proof (induction "nat (high - low + 1)" arbitrary: low high rule: less_induct)
  case less
  show ?case
  proof (cases "low \<le> high")
    case False
    then have "place nm name low high = high" by (simp add: place.simps)
    then show ?thesis using less.prems False by (simp add: split_at_def)
  next
    case True
    define mid where "mid = low + (high - low) div 2"
    have mid: "low \<le> mid" "mid \<le> high" using True by (auto simp: mid_def)
    have n: "int (nat mid) = mid" "nat mid < n" using mid less.prems by auto
    have le: "strcmp (nm i) name \<le> 0" if "strcmp (nm (nat mid)) name \<le> 0" "int i \<le> mid" for i
      using sorted_names_le [OF sorted that(1) _ n(2)] that(2) by (simp add: le_nat_iff)
    have ge: "strcmp (nm i) name \<ge> 0" if "strcmp (nm (nat mid)) name \<ge> 0" "mid \<le> int i" "i < n" for i
      using sorted_names_ge [OF sorted that(1) _ that(3)] that(2) by (simp add: nat_le_iff)
    consider "strcmp (nm (nat mid)) name < 0" | "strcmp (nm (nat mid)) name > 0" | "strcmp (nm (nat mid)) name = 0"
      by linarith
    then show ?thesis
    proof cases
      case 1
      have "split_at nm n name (place nm name (mid + 1) high)"
        by (rule less.hyps) (use less.prems mid True le 1 in auto)
      then show ?thesis using True 1
        by (subst place.simps) (simp add: mid_def [symmetric] name_diff_simps Let_def)
    next
      case 2
      have "split_at nm n name (place nm name low (mid - 1))"
        by (rule less.hyps) (use less.prems mid True ge 2 in auto)
      then show ?thesis using True 2
        by (subst place.simps) (simp add: mid_def [symmetric] name_diff_simps Let_def)
    next
      case 3
      then have "place nm name low high = mid" using True
        by (subst place.simps) (simp add: mid_def [symmetric] name_diff_simps Let_def del: strcmp_eq_0)
      then show ?thesis using le ge 3 mid less.prems by (simp add: split_at_def del: strcmp_eq_0)
    qed
  qed
qed

lemma sorted_names_insert:
  assumes "sorted_names (\<lambda>k. f (es ! k)) (length es)" "split_at (\<lambda>k. f (es ! k)) (length es) (f e) p"
    and t: "t = nat (p + 1)" and es': "es' = take t es @ [e] @ drop t es"
  shows "sorted_names (\<lambda>k. f (es' ! k)) (length es')"
proof -
  have t2: "t \<le> length es" using assms(2) t by (auto simp: split_at_def)
  have lo: "strcmp (f x) (f e) \<le> 0" if "x \<in> set (take t es)" for x
    using that assms(2) t by (auto simp: split_at_def in_set_conv_nth)
  have hi: "strcmp (f e) (f x) \<le> 0" if x: "x \<in> set (drop t es)" for x
  proof -
    obtain i where i: "x = es ! (t + i)" "t + i < length es" using x by (auto simp: in_set_conv_nth)
    have "strcmp (f x) (f e) \<ge> 0" using assms(2) t i by (auto simp: split_at_def)
    then show ?thesis using strcmp_swap [of "f e" "f x"] by simp
  qed
  have s: "sorted_wrt (\<lambda>x y. strcmp (f x) (f y) \<le> 0) es"
    using assms(1) by (auto simp: sorted_wrt_iff_nth_less sorted_names_def)
  have "sorted_wrt (\<lambda>x y. strcmp (f x) (f y) \<le> 0) (take t es @ [e] @ drop t es)"
  proof -
    have "sorted_wrt (\<lambda>x y. strcmp (f x) (f y) \<le> 0) (take t es @ drop t es)" using s by simp
    then show ?thesis unfolding sorted_wrt_append using lo hi by auto
  qed
  then show ?thesis unfolding es' by (auto simp: sorted_wrt_iff_nth_less sorted_names_def)
qed

lemma insert_entry_sorted:
  assumes "sorted_names (\<lambda>k. entry_name r (es ! k)) (length es)"
  shows "\<exists>es'. insert_entry r e es = Some es' \<and> mset es' = add_mset e (mset es) \<and>
    sorted_names (\<lambda>k. entry_name r (es' ! k)) (length es')"
proof (cases "es = []")
  case True
  then show ?thesis by (simp add: insert_entry_def sorted_names_def)
next
  case False
  let ?p = "place (\<lambda>k. entry_name r (es ! k)) (entry_name r e) 0 (int (length es) - 1)"
  let ?es = "take (nat (?p + 1)) es @ [e] @ drop (nat (?p + 1)) es"
  have sp: "split_at (\<lambda>k. entry_name r (es ! k)) (length es) (entry_name r e) ?p"
    by (rule place_split [OF assms]) (use False in auto)
  have "mset ?es = add_mset e (mset (take (nat (?p + 1)) es @ drop (nat (?p + 1)) es))"
    unfolding mset_append by simp
  then have "mset ?es = add_mset e (mset es)" by (simp only: append_take_drop_id)
  moreover have "insert_entry r e es = Some ?es"
    using sp False by (simp add: insert_entry_def Let_def split_at_def)
  ultimately show ?thesis using sorted_names_insert [OF assms sp refl refl] by blast
qed

section \<open>The index by name\<close>

text \<open>
  What the archive relies on in an index from names to entries: an index with room for another
  entry takes it unless it has one with the same name, and a search returns a member with the
  name if there is one.  The hash table provides this.
\<close>

locale name_index =
  fixes room :: "'t \<Rightarrow> nat \<Rightarrow> bool" and members :: "'t \<Rightarrow> nat set"
    and add :: "nat \<Rightarrow> 't \<Rightarrow> 't option" and find :: "string \<Rightarrow> 't \<Rightarrow> nat option option"
    and nm :: "nat \<Rightarrow> string"
  assumes add_law: "room t (Suc n) \<Longrightarrow> \<exists>t'. add i t = Some t' \<and> room t' n \<and>
      members t' = (if \<exists>j \<in> members t. nm j = nm i then members t else insert i (members t))"
    and find_law: "room t n \<Longrightarrow>
      (\<exists>j \<in> members t. find s t = Some (Some j) \<and> nm j = s) \<or>
      find s t = Some None \<and> (\<forall>j \<in> members t. nm j \<noteq> s)"
begin

fun add_all :: "nat list \<Rightarrow> 't \<Rightarrow> 't option" where
  "add_all [] t = Some t"
| "add_all (i # is) t = do { t \<leftarrow> add i t; add_all is t }"

lemma add_all_ok:
  "room t (length is + n) \<Longrightarrow> \<exists>t'. add_all is t = Some t' \<and> room t' n \<and>
     members t' \<subseteq> members t \<union> set is \<and> (\<forall>i \<in> members t \<union> set is. \<exists>j \<in> members t'. nm j = nm i)"
proof (induction "is" arbitrary: t)
  case (Cons i "is")
  obtain t1 where t1: "add i t = Some t1" "room t1 (length is + n)"
      "members t1 = (if \<exists>j \<in> members t. nm j = nm i then members t else insert i (members t))"
    using add_law [of t "length is + n" i] Cons.prems by auto
  have rep: "\<exists>j \<in> members t1. nm j = nm i" "members t \<subseteq> members t1" "members t1 \<subseteq> insert i (members t)"
    using t1(3) by auto
  obtain t2 where t2: "add_all is t1 = Some t2" "room t2 n" "members t2 \<subseteq> members t1 \<union> set is"
      "\<forall>k \<in> members t1 \<union> set is. \<exists>j \<in> members t2. nm j = nm k"
    using Cons.IH [OF t1(2)] by blast
  have "\<forall>k \<in> members t \<union> set (i # is). \<exists>j \<in> members t2. nm j = nm k"
    using t2(4) rep(1,2) by (metis UnCI UnE insert_iff list.simps(15) subsetD)
  then show ?case using t1(1) t2 rep(3) by auto
qed auto

lemma find_added:
  assumes "room t (length is)" "members t = {}" "add_all is t = Some t'"
  shows "(\<exists>j \<in> set is. find s t' = Some (Some j) \<and> nm j = s) \<or>
    find s t' = Some None \<and> (\<forall>j \<in> set is. nm j \<noteq> s)"
proof -
  have t': "room t' 0" "members t' \<subseteq> set is" "\<forall>i \<in> set is. \<exists>j \<in> members t'. nm j = nm i"
    using add_all_ok [of t "is" 0] assms by auto
  show ?thesis using find_law [OF t'(1), of s] t'(2,3) by fastforce
qed

end

lemma memcmp_eq: "length a = length b \<Longrightarrow> memcmp a b (length a) = 0 \<longleftrightarrow> a = b"
  by (induction a b rule: list_induct2) auto

lemma hashcmpZipEntry_0:
  "hashcmpZipEntry nm (Ptr (EntryP i)) (Ptr (EntryP j)) = 0 \<longleftrightarrow> nm i = nm j"
  using memcmp_eq [of "nm i" "nm j"] by (auto simp: hashcmpZipEntry_def)

lemma hashcmpZipName_0:
  "hashcmpZipName nm (Ptr (EntryP i)) (Ptr (NameP s)) = 0 \<longleftrightarrow> nm i = s"
  using memcmp_eq [of "nm i" s] by (auto simp: hashcmpZipName_def)

definition hash_members :: "(nat \<Rightarrow> string) \<Rightarrow> zkey HashTable \<Rightarrow> nat set" where
  "hash_members nm ht = {i. (computeHash (nm i), EntryP i) \<in># entries ht}"

definition hash_room :: "(nat \<Rightarrow> bool) \<Rightarrow> (nat \<Rightarrow> string) \<Rightarrow> zkey HashTable \<Rightarrow> nat \<Rightarrow> bool" where
  "hash_room calloc nm ht n \<longleftrightarrow> calloc_fits calloc \<and> hash_wf ht \<and> numDeadEntries ht = 0 \<and>
     (size (entries ht) + n) * 8 \<le> tableSize ht * 5 \<and>
     (\<forall>x \<in># entries ht. \<exists>i. x = (computeHash (nm i), EntryP i))"

definition hash_add :: "(nat \<Rightarrow> bool) \<Rightarrow> (nat \<Rightarrow> string) \<Rightarrow> nat \<Rightarrow> zkey HashTable \<Rightarrow> zkey HashTable option" where
  "hash_add calloc nm i ht =
     (case addEntryToHashTable calloc nm i ht of Some (Inr ht') \<Rightarrow> Some ht' | _ \<Rightarrow> None)"

definition hash_find :: "(nat \<Rightarrow> string) \<Rightarrow> string \<Rightarrow> zkey HashTable \<Rightarrow> nat option option" where
  "hash_find nm s ht =
     (case mzHashTableLookup (\<lambda>_. False) ht (computeHash s) (Ptr (NameP s)) (hashcmpZipName nm) False of
        Some (Inr (Ptr (EntryP i), _)) \<Rightarrow> Some (Some i)
      | Some (Inr (NULL, _)) \<Rightarrow> Some None
      | _ \<Rightarrow> None)"

lemma hash_matches_entry:
  assumes "hash_room calloc nm ht n"
  shows "matches (hashcmpZipEntry nm) ht (computeHash (nm i)) (EntryP i) =
    {EntryP j |j. j \<in> hash_members nm ht \<and> nm j = nm i}"
  using assms by (fastforce simp: matches_def hash_members_def hash_room_def hashcmpZipEntry_0)

lemma hash_matches_name:
  assumes "hash_room calloc nm ht n"
  shows "matches (hashcmpZipName nm) ht (computeHash s) (NameP s) =
    {EntryP j |j. j \<in> hash_members nm ht \<and> nm j = s}"
  using assms by (fastforce simp: matches_def hash_members_def hash_room_def hashcmpZipName_0)

lemma hash_add_law:
  assumes "hash_room calloc nm ht (Suc n)"
  shows "\<exists>ht'. hash_add calloc nm i ht = Some ht' \<and> hash_room calloc nm ht' n \<and>
    hash_members nm ht' = (if \<exists>j \<in> hash_members nm ht. nm j = nm i then hash_members nm ht
      else insert i (hash_members nm ht))"
proof -
  have wf: "hash_wf ht" "calloc_fits calloc" using assms by (auto simp: hash_room_def)
  note m = hash_matches_entry [OF assms, of i]
  show ?thesis
  proof (cases "\<exists>j \<in> hash_members nm ht. nm j = nm i")
    case True
    then have "matches (hashcmpZipEntry nm) ht (computeHash (nm i)) (EntryP i) \<noteq> {}" unfolding m by auto
    from lookup_existing [OF wf(1) this, of calloc True] obtain p where
      "mzHashTableLookup calloc ht (computeHash (nm i)) (Ptr (EntryP i)) (hashcmpZipEntry nm) True = Some (Inr (Ptr p, ht))"
      by blast
    then show ?thesis using True assms by (auto simp: hash_add_def addEntryToHashTable_def hash_room_def)
  next
    case False
    then have none: "matches (hashcmpZipEntry nm) ht (computeHash (nm i)) (EntryP i) = {}" unfolding m by auto
    have "numEntries ht = int (size (entries ht))" using wf(1) by (simp add: hash_wf_def table_ok_def)
    then have no: "\<not> overloads ht"
      using assms by (auto simp: overloads_def hash_room_def LOAD_DENOM_def LOAD_NUMER_def)
    from lookup_insert [OF wf(1) none wf(2)] no obtain ht' where ht':
      "mzHashTableLookup calloc ht (computeHash (nm i)) (Ptr (EntryP i)) (hashcmpZipEntry nm) True = Some (Inr (Ptr (EntryP i), ht'))"
      "hash_wf ht'" "entries ht' = add_mset (computeHash (nm i), EntryP i) (entries ht)"
      "tableSize ht' = tableSize ht" "numDeadEntries ht' = numDeadEntries ht"
      by auto
    have "hash_members nm ht' = insert i (hash_members nm ht)" using ht'(3) by (auto simp: hash_members_def)
    then show ?thesis using ht' False assms by (auto simp: hash_add_def addEntryToHashTable_def hash_room_def)
  qed
qed

lemma hash_find_law:
  assumes "hash_room calloc nm ht n"
  shows "(\<exists>j \<in> hash_members nm ht. hash_find nm s ht = Some (Some j) \<and> nm j = s) \<or>
    hash_find nm s ht = Some None \<and> (\<forall>j \<in> hash_members nm ht. nm j \<noteq> s)"
proof -
  have wf: "hash_wf ht" using assms by (simp add: hash_room_def)
  note m = hash_matches_name [OF assms, of s]
  show ?thesis
  proof (cases "\<exists>j \<in> hash_members nm ht. nm j = s")
    case True
    then have "matches (hashcmpZipName nm) ht (computeHash s) (NameP s) \<noteq> {}" unfolding m by auto
    from lookup_existing [OF wf this, of "\<lambda>_. False" False] obtain j where "j \<in> hash_members nm ht" "nm j = s"
      "mzHashTableLookup (\<lambda>_. False) ht (computeHash s) (Ptr (NameP s)) (hashcmpZipName nm) False = Some (Inr (Ptr (EntryP j), ht))"
      unfolding m by blast
    then show ?thesis by (auto simp: hash_find_def)
  next
    case False
    then have "matches (hashcmpZipName nm) ht (computeHash s) (NameP s) = {}" unfolding m by auto
    from lookup_absent [OF wf this] False show ?thesis by (simp add: hash_find_def)
  qed
qed

interpretation zip_index: name_index "hash_room calloc nm" "hash_members nm" "hash_add calloc nm" "hash_find nm" nm
  for calloc nm
  by unfold_locales (use hash_add_law hash_find_law in blast)+

lemma add_entries_add_all:
  "zip_index.add_all calloc nm is ht = Some ht' \<Longrightarrow> add_entries calloc nm is ht = Some (Inr ht')"
proof (induction "is" arbitrary: ht)
  case (Cons i "is")
  then obtain ht1 where h: "hash_add calloc nm i ht = Some ht1" "zip_index.add_all calloc nm is ht1 = Some ht'"
    by (auto split: bind_splits)
  then have "addEntryToHashTable calloc nm i ht = Some (Inr ht1)"
    by (auto simp: hash_add_def split: option.splits sum.splits)
  then show ?case using Cons.IH [OF h(2)] by simp
qed simp

section \<open>What a parsed entry guarantees\<close>

text \<open>The documented behaviour of safe_iop: addition that fails exactly when it would overflow.\<close>

definition safe_iop :: "(u32 \<Rightarrow> u32 \<Rightarrow> u32 option) \<Rightarrow> (u32 \<Rightarrow> u32 \<Rightarrow> bool) \<Rightarrow> bool" where
  "safe_iop safe_addu safe_adds \<longleftrightarrow>
     (\<forall>a b. safe_addu a b = (if unat a + unat b < 2 ^ 32 then Some (a + b) else None)) \<and>
     (\<forall>a b. safe_adds a b \<longleftrightarrow> - (2 ^ 31) \<le> sint a + sint b \<and> sint a + sint b < 2 ^ 31)"

definition printable :: "char \<Rightarrow> bool" where
  "printable c \<longleftrightarrow> 32 \<le> code c \<and> code c < 127"

definition entry_ok :: "region \<Rightarrow> ZipEntry \<Rightarrow> bool" where
  "entry_ok r e \<longleftrightarrow> (fileNameLen e = 0 \<or> in_region r (fileName e) (unat (fileNameLen e))) \<and>
     length (entry_name r e) = unat (fileNameLen e) \<and> unat (fileNameLen e) < PATH_MAX \<and>
     list_all printable (entry_name r e) \<and>
     (0 \<le> sint (offset e) \<and> 0 \<le> sint (compLen e) \<longrightarrow>
        unat (offset e) + unat (compLen e) \<le> length (r_bytes r))"

lemma valid_chars_True:
  "valid_chars r p n = Some True \<Longrightarrow>
     \<exists>bs. load_list r p n = Some bs \<and> (\<forall>b \<in> set bs. 32 \<le> unat b \<and> unat b < 127)"
proof (induction n arbitrary: p)
  case (Suc n)
  from Suc.prems obtain b where b: "load r p = Some b" "32 \<le> unat b" "unat b < 127"
      "valid_chars r (p + 1) n = Some True"
    by (auto split: bind_splits if_splits)
  then show ?case using Suc.IH [OF b(4)] by auto
qed simp

lemma validFilename_True:
  assumes "validFilename r p len = Some True" "region_ok r"
  shows "unat len < PATH_MAX \<and> (len = 0 \<or> in_region r p (unat len)) \<and>
    length (chars_at r p (unat len)) = unat len \<and> list_all printable (chars_at r p (unat len))"
proof -
  have v: "unat len < PATH_MAX" "valid_chars r p (unat len) = Some True"
    using assms by (auto simp: validFilename_def split: if_splits)
  then obtain bs where bs: "load_list r p (unat len) = Some bs" "\<forall>b \<in> set bs. 32 \<le> unat b \<and> unat b < 127"
    using valid_chars_True by blast
  have "length bs = unat len" using load_list_length [OF bs(1)] .
  moreover have "len = 0 \<or> in_region r p (unat len)"
    using load_list_fault [OF assms(2), of p "unat len"] bs(1) by (auto simp: unat_gt_0)
  moreover have "\<forall>b \<in> set bs. printable (char_of (unat b))"
    using bs(2) by (auto simp: printable_def)
  ultimately show ?thesis using v(1) bs(1)
    by (simp add: chars_at_def list_all_iff)
qed

lemma data_fits_bound:
  assumes "safe_iop safe_addu safe_adds" "data_fits safe_adds r off len" "length (r_bytes r) < 2 ^ 32"
    and "0 \<le> sint off" "0 \<le> sint len"
  shows "unat off + unat len \<le> length (r_bytes r)"
proof -
  have s: "sint off + sint len < 2 ^ 31" using assms(1,2) by (simp add: safe_iop_def data_fits_def)
  have "int (unat off + unat len) < 2 ^ 31"
    using s sint_nonneg_u32 [OF assms(4)] sint_nonneg_u32 [OF assms(5)] by simp
  then have "unat off + unat len < nat (2 ^ 31)" by (simp only: zless_nat_eq_int_zless)
  then have "unat off + unat len < 2 ^ 31" by simp
  then have "unat (off + len) = unat off + unat len" by (simp add: unat_word_ariths(1))
  moreover have "off + len \<le> of_nat (length (r_bytes r))" using assms(2) by (simp add: data_fits_def not_less)
  ultimately show ?thesis using assms(3) by (simp add: word_le_nat_alt unat_of_nat)
qed

lemma parse_entry_ok:
  assumes "safe_iop safe_addu safe_adds" "region_ok r"
    and "parse_entry safe_addu safe_adds r p = Some (Some (e, d))"
  shows "entry_ok r e"
proof -
  have "validFilename r (fileName e) (fileNameLen e) = Some True \<and> data_fits safe_adds r (offset e) (compLen e)"
    using assms(3) unfolding parse_entry_def
    by (auto simp: Let_def split: bind_splits if_splits option.splits)
  then show ?thesis
    using validFilename_True [OF _ assms(2)] data_fits_bound [OF assms(1) _ region_ok_length [OF assms(2)]]
    by (auto simp: entry_ok_def entry_name_def)
qed

lemma parse_entries_ok:
  assumes "safe_iop safe_addu safe_adds" "region_ok r"
  shows "parse_entries safe_addu safe_adds r n p es = Some (Some es') \<Longrightarrow>
    sorted_names (\<lambda>k. entry_name r (es ! k)) (length es) \<Longrightarrow> (\<forall>e \<in> set es. entry_ok r e) \<Longrightarrow>
    sorted_names (\<lambda>k. entry_name r (es' ! k)) (length es') \<and> (\<forall>e \<in> set es'. entry_ok r e) \<and>
    length es' = length es + n"
proof (induction n arbitrary: p es)
  case (Suc n)
  obtain e d where e: "parse_entry safe_addu safe_adds r p = Some (Some (e, d))"
    using Suc.prems(1) by (auto split: bind_splits option.splits)
  obtain es1 where es1: "insert_entry r e es = Some es1" "mset es1 = add_mset e (mset es)"
      "sorted_names (\<lambda>k. entry_name r (es1 ! k)) (length es1)"
    using insert_entry_sorted [OF Suc.prems(2)] by blast
  have "set es1 = insert e (set es)" using es1(2) by (metis set_mset_add_mset_insert set_mset_mset)
  then have all: "\<forall>x \<in> set es1. entry_ok r x"
    using Suc.prems(3) parse_entry_ok [OF assms e] by simp
  have len: "length es1 = Suc (length es)" using es1(2) by (metis size_add_mset size_mset)
  have "parse_entries safe_addu safe_adds r n (p + d) es1 = Some (Some es')"
    using Suc.prems(1) e es1(1) by simp
  from Suc.IH [OF this es1(3) all] show ?case
    unfolding len add_Suc add_Suc_right .
qed simp

section \<open>Properties\<close>

lemma parse_create:
  assumes "0 < unat n16" "mzHashTableCreate True calloc (mzHashSize (ucast (n16 :: u16))) False = Inr (Some (ht :: zkey HashTable))"
    and "calloc_fits calloc"
  shows "hash_room calloc nm ht (unat n16) \<and> hash_members nm ht = {}"
proof -
  let ?n = "ucast n16 :: u32" and ?m = "mzHashSize (ucast n16)"
  have n16: "unat n16 < 2 ^ 16" using unsigned_less [of n16, where 'a = nat] by simp
  have n: "unat ?n = unat n16" using n16 by (simp add: unsigned_ucast_eq take_bit_nat_eq_self)
  have m: "unat ?m = unat n16 * 8 div 5 + 1" using unat_mzHashSize [of ?n] n n16 by simp
  have "unat n16 * 8 div 5 \<le> unat n16 * 8" by simp
  then have m31: "0 < unat ?m" "unat ?m \<le> 2 ^ 31" using m n16 by simp_all
  have "calloc (unat (roundUpPower2 ?m))"
    using assms(2) by (auto simp: mzHashTableCreate_def Let_def split: if_splits)
  then obtain ht0 :: "zkey HashTable" where "mzHashTableCreate True calloc ?m False = Inr (Some ht0)" "hash_wf ht0"
      "entries ht0 = {#}" "unat ?m \<le> tableSize ht0" "numDeadEntries ht0 = 0"
    using create_ok [OF m31] by blast
  moreover have "unat n16 * 8 \<le> unat ?m * 5" unfolding m by presburger
  ultimately show ?thesis using assms by (auto simp: hash_room_def hash_members_def)
qed

lemma index_total:
  assumes "0 < unat n16" "mzHashTableCreate True calloc (mzHashSize (ucast (n16 :: u16))) False = Inr (Some ht)"
    and "calloc_fits calloc"
  shows "\<exists>ht'. add_entries calloc nm [0..<unat n16] ht = Some (Inr ht')"
  using zip_index.add_all_ok [of calloc nm ht "[0..<unat n16]" 0] parse_create [OF assms, of nm]
    add_entries_add_all by fastforce

lemma index_total_ne:
  assumes "0 < unat n16" "mzHashTableCreate True calloc (mzHashSize (ucast (n16 :: u16))) False = Inr (Some ht)"
    and "calloc_fits calloc"
  shows "add_entries calloc nm [0..<unat n16] ht \<noteq> None" "add_entries calloc nm [0..<unat n16] ht \<noteq> Some (Inl e)"
  using index_total [OF assms, of nm] by auto

lemma index_size_pos: "mzHashSize (ucast (n16 :: u16)) > 0"
proof -
  have n16: "unat n16 < 2 ^ 16" using unsigned_less [of n16, where 'a = nat] by simp
  have "unat (ucast n16 :: u32) = unat n16" using n16 by (simp add: unsigned_ucast_eq take_bit_nat_eq_self)
  then have "unat (mzHashSize (ucast n16)) = unat n16 * 8 div 5 + 1"
    using unat_mzHashSize [of "ucast n16"] n16 by simp
  then show ?thesis by (simp add: word_less_nat_alt)
qed

lemma parse_no_hash_error:
  assumes "calloc_fits calloc"
  shows "parseZipArchive entries_ok calloc safe_addu safe_adds fd r \<noteq> Hash_error"
proof
  assume "parseZipArchive entries_ok calloc safe_addu safe_adds fd r = Hash_error"
  moreover have "mzHashTableCreate True calloc (mzHashSize (ucast n16)) False \<noteq> (Inl e :: _ + zkey HashTable option)"
    for n16 :: u16 and e using index_size_pos [of n16] by (simp add: mzHashTableCreate_def Let_def)
  ultimately show False unfolding parseZipArchive_def
    by (auto simp: Let_def index_total_ne [OF _ _ assms] split: option.splits sum.splits if_splits)
qed

lemma find_hash_find: "mzFindZipEntry z s = hash_find (z_name z) s (z_pHash z)"
  by (auto simp: mzFindZipEntry_def hash_find_def split: option.splits sum.splits ptr.splits zkey.splits prod.splits
      bind_splits)

lemma parsed_cases:
  assumes "parseZipArchive entries_ok calloc safe_addu safe_adds fd r = Parsed z"
  obtains n16 :: u16 and cdOffset ht ht' es where "0 < unat n16"
    and "mzHashTableCreate True calloc (mzHashSize (ucast n16)) False = Inr (Some ht)"
    and "parse_entries safe_addu safe_adds r (unat n16) (r_base r + cdOffset) [] = Some (Some es)"
    and "add_entries calloc (\<lambda>k. entry_name r (es ! k)) [0..<unat n16] ht = Some (Inr ht')"
    and "z = \<lparr>z_fd = fd, z_numEntries = unat n16, z_pEntries = es, z_pHash = ht', z_map = r\<rparr>"
  using assms unfolding parseZipArchive_def
  by (auto simp: Let_def split: option.splits sum.splits if_splits)

lemma parsed_entries:
  assumes "parseZipArchive entries_ok calloc safe_addu safe_adds fd r = Parsed z"
    and "safe_iop safe_addu safe_adds" "region_ok r"
  shows "(\<forall>e \<in> set (z_pEntries z). entry_ok r e)" "length (z_pEntries z) = z_numEntries z" "z_map z = r"
proof -
  show "(\<forall>e \<in> set (z_pEntries z). entry_ok r e)" "length (z_pEntries z) = z_numEntries z" "z_map z = r"
    using assms(1) parse_entries_ok [OF assms(2,3)] by (auto elim!: parsed_cases simp: sorted_names_def)
qed

lemma parsed_sorted:
  assumes "parseZipArchive entries_ok calloc safe_addu safe_adds fd r = Parsed z"
    and "safe_iop safe_addu safe_adds" "region_ok r"
  shows "sorted_names (z_name z) (mzZipEntryCount z)"
  using assms(1)
proof (rule parsed_cases)
  fix n16 :: u16 and cdOffset ht ht' es
  assume es: "parse_entries safe_addu safe_adds r (unat n16) (r_base r + cdOffset) [] = Some (Some es)"
    and z: "z = \<lparr>z_fd = fd, z_numEntries = unat n16, z_pEntries = es, z_pHash = ht', z_map = r\<rparr>"
  have "sorted_names (\<lambda>k. entry_name r (es ! k)) (length es)" "length es = unat n16"
    using parse_entries_ok [OF assms(2,3) es] by (simp_all add: sorted_names_def)
  then show ?thesis by (simp add: z z_name_def [abs_def] mzZipEntryCount_def)
qed

text \<open>
  C10. The directory of an opened archive: when parsing succeeds, every entry has a name inside the
  mapping, shorter than \<^verbatim>\<open>PATH_MAX\<close> and of printable ASCII characters only; the entries are
  sorted by name; the data of every entry whose lengths are not negative as \<^verbatim>\<open>long\<close> lies inside
  the file; and searching a name returns an entry with that name exactly when the archive has
  one.\<close>

theorem parsed_archive:
  assumes "parseZipArchive entries_ok calloc safe_addu safe_adds fd r = Parsed z"
    and "safe_iop safe_addu safe_adds" "region_ok r" "calloc_fits calloc"
  shows "(\<forall>e \<in> set (z_pEntries z). entry_ok (z_map z) e) \<and> length (z_pEntries z) = mzZipEntryCount z \<and>
    sorted_names (z_name z) (mzZipEntryCount z) \<and>
    (\<forall>s. (\<exists>i < mzZipEntryCount z. mzFindZipEntry z s = Some (Some i) \<and> z_name z i = s) \<or>
         mzFindZipEntry z s = Some None \<and> (\<forall>i < mzZipEntryCount z. z_name z i \<noteq> s))"
  using assms(1)
proof (rule parsed_cases)
  fix n16 :: u16 and cdOffset ht ht' es
  assume n: "0 < unat n16" and ht: "mzHashTableCreate True calloc (mzHashSize (ucast n16)) False = Inr (Some ht)"
    and es: "parse_entries safe_addu safe_adds r (unat n16) (r_base r + cdOffset) [] = Some (Some es)"
    and add: "add_entries calloc (\<lambda>k. entry_name r (es ! k)) [0..<unat n16] ht = Some (Inr ht')"
    and z: "z = \<lparr>z_fd = fd, z_numEntries = unat n16, z_pEntries = es, z_pHash = ht', z_map = r\<rparr>"
  let ?nm = "\<lambda>k. entry_name r (es ! k)"
  have nm: "z_name z = ?nm" by (simp add: z z_name_def [abs_def])
  have e: "sorted_names ?nm (length es)" "\<forall>e \<in> set es. entry_ok r e" "length es = unat n16"
    using parse_entries_ok [OF assms(2,3) es] by (simp_all add: sorted_names_def)
  have room: "hash_room calloc ?nm ht (length [0..<unat n16])" "hash_members ?nm ht = {}"
    using parse_create [OF n ht assms(4)] by simp_all
  obtain t' where t': "zip_index.add_all calloc ?nm [0..<unat n16] ht = Some t'"
    using zip_index.add_all_ok [of calloc ?nm ht "[0..<unat n16]" 0] room(1) by auto
  then have "t' = ht'" using add_entries_add_all [OF t'] add by simp
  then have f: "(\<exists>j \<in> set [0..<unat n16]. hash_find ?nm s ht' = Some (Some j) \<and> ?nm j = s) \<or>
      hash_find ?nm s ht' = Some None \<and> (\<forall>j \<in> set [0..<unat n16]. ?nm j \<noteq> s)" for s
    using zip_index.find_added [OF room t', of s] by simp
  have find: "mzFindZipEntry z s = hash_find ?nm s ht'" for s
    using find_hash_find [of z s] by (simp add: nm) (simp add: z)
  have cnt: "mzZipEntryCount z = unat n16" "z_pEntries z = es" "z_map z = r"
    by (simp_all add: mzZipEntryCount_def z)
  have s: "(\<exists>i < unat n16. mzFindZipEntry z s = Some (Some i) \<and> ?nm i = s) \<or>
         mzFindZipEntry z s = Some None \<and> (\<forall>i < unat n16. ?nm i \<noteq> s)" for s
    unfolding find using f [of s] by auto
  show ?thesis unfolding cnt nm using e s by simp
qed

section \<open>No read outside the mapping\<close>

text \<open>
  A mapping that is neither in the first page nor at the very top of the address space, so that no pointer computed while
  the directory is walked wraps around: one directory record is at most 196651 bytes long.
\<close>

definition mapped_low :: "region \<Rightarrow> bool" where
  "mapped_low r \<longleftrightarrow> ENDHDR \<le> length (r_bytes r) \<and> 4096 \<le> unat (r_base r) \<and>
     unat (r_base r) + length (r_bytes r) + 200000 < 2 ^ 32"

text \<open>A local header offset for which \<^verbatim>\<open>localHdr + LOCHDR\<close> wraps although \<^verbatim>\<open>localHdr\<close> does not.\<close>

definition wrapping_offset :: "region \<Rightarrow> u32 \<Rightarrow> bool" where
  "wrapping_offset r off \<longleftrightarrow> 2 ^ 32 - 30 \<le> unat (r_base r) + unat off \<and> unat (r_base r) + unat off < 2 ^ 32"

lemma mapped_low_ok: "mapped_low r \<Longrightarrow> region_ok r"
  by (simp add: mapped_low_def region_ok_def)

lemma unat_base_plus:
  "mapped_low r \<Longrightarrow> k \<le> length (r_bytes r) + 200000 \<Longrightarrow> unat (r_base r + of_nat k) = unat (r_base r) + k"
  by (simp add: mapped_low_def unat_word_ariths(1) unat_of_nat)

lemma roff_base_plus:
  "mapped_low r \<Longrightarrow> k \<le> length (r_bytes r) + 200000 \<Longrightarrow> roff r (r_base r + of_nat k) = k"
  by (simp add: mapped_low_def roff_def unat_of_nat)

lemma end_cmp:
  assumes "mapped_low r" "k \<le> length (r_bytes r) + 200000"
  shows "r_base r + of_nat k > r_base r + of_nat (length (r_bytes r)) \<longleftrightarrow> length (r_bytes r) < k"
  using unat_base_plus [OF assms] unat_base_plus [OF assms(1), of "length (r_bytes r)"]
  by (simp add: word_less_nat_alt)

lemma get4LE_at:
  "mapped_low r \<Longrightarrow> k + 4 \<le> length (r_bytes r) \<Longrightarrow> \<exists>v. get4LE r (r_base r + of_nat k) = Some v"
  by (rule bits4LE.get_total) (simp_all add: mapped_low_ok in_region_def roff_base_plus)

lemma get2LE_at:
  "mapped_low r \<Longrightarrow> k + 2 \<le> length (r_bytes r) \<Longrightarrow> \<exists>v. get2LE r (r_base r + of_nat k) = Some v"
  by (rule bits2LE.get_total) (simp_all add: mapped_low_ok in_region_def roff_base_plus)

lemma load_at:
  "mapped_low r \<Longrightarrow> k < length (r_bytes r) \<Longrightarrow> \<exists>b. load r (r_base r + of_nat k) = Some b"
  by (simp add: load_def roff_base_plus)

lemma valid_chars_total:
  "mapped_low r \<Longrightarrow> k + n \<le> length (r_bytes r) \<Longrightarrow> valid_chars r (r_base r + of_nat k) n \<noteq> None"
proof (induction n arbitrary: k)
  case (Suc n)
  obtain b where b: "load r (r_base r + of_nat k) = Some b" using load_at [of r k] Suc.prems by auto
  have s: "r_base r + of_nat (Suc k) = r_base r + of_nat k + 1" by (simp add: algebra_simps)
  have "valid_chars r (r_base r + of_nat k + 1) n \<noteq> None"
    using Suc.IH [of "Suc k"] Suc.prems unfolding s by simp
  then show ?case using b by (auto simp: ex_in_conv)
qed simp

lemma is_eocd_total:
  assumes "mapped_low r" "k + 4 \<le> length (r_bytes r)"
  shows "is_eocd r (r_base r + of_nat k) \<noteq> None"
  using get4LE_at [OF assms] load_at [of r k] assms by (auto simp: is_eocd_def)

lemma find_eocd_total:
  assumes "mapped_low r"
  shows "off + ENDHDR \<le> length (r_bytes r) \<Longrightarrow>
    \<exists>x. find_eocd r off = Some x \<and> (\<forall>p. x = Some p \<longrightarrow> (\<exists>k. p = r_base r + of_nat k \<and> k + ENDHDR \<le> length (r_bytes r)))"
proof (induction off)
  case 0
  obtain b where "is_eocd r (r_base r) = Some b" using is_eocd_total [OF assms, of 0] 0 by (auto simp: ENDHDR_def)
  then show ?case using 0 by (auto intro: exI [of _ 0])
next
  case (Suc off)
  obtain b where b: "is_eocd r (r_base r + of_nat (Suc off)) = Some b"
    using is_eocd_total [OF assms, of "Suc off"] Suc.prems by (auto simp: ENDHDR_def)
  show ?case
  proof (cases b)
    case True
    then have "find_eocd r (Suc off) = Some (Some (r_base r + of_nat (Suc off)))" using b by (simp del: of_nat_Suc)
    then show ?thesis using Suc.prems by (metis option.inject)
  next
    case False
    then have "find_eocd r (Suc off) = find_eocd r off" using b by (simp del: of_nat_Suc)
    then show ?thesis using Suc by (simp add: ENDHDR_def)
  qed
qed

lemma local_header_total:
  assumes "mapped_low r" "safe_iop safe_addu safe_adds" "\<not> wrapping_offset r off"
  shows "local_header safe_addu r off \<noteq> None"
proof (cases "unat (r_base r) + unat off < 2 ^ 32")
  case True
  let ?h = "r_base r + off"
  have h: "safe_addu (r_base r) off = Some ?h" using assms(2) True by (simp add: safe_iop_def)
  have small: "unat (r_base r) + unat off + 30 < 2 ^ 32"
    using assms(3) True unfolding wrapping_offset_def by linarith
  have u: "unat (?h + LOCHDR) = unat (r_base r) + unat off + 30"
    using small by (simp add: unat_word_ariths(1) LOCHDR_def)
  have e: "unat (r_base r + of_nat (length (r_bytes r))) = unat (r_base r) + length (r_bytes r)"
    using unat_base_plus [OF assms(1)] by simp
  show ?thesis
  proof (cases "?h + LOCHDR > r_base r + of_nat (length (r_bytes r))")
    case False
    then have k: "unat off + 30 \<le> length (r_bytes r)" using u e by (simp add: word_less_nat_alt)
    have o: "of_nat (unat off) = off" by simp
    obtain v n x where "get4LE r ?h = Some v" "get2LE r (?h + 26) = Some n" "get2LE r (?h + 28) = Some x"
      using get4LE_at [OF assms(1), of "unat off"] get2LE_at [OF assms(1), of "unat off + 26"]
        get2LE_at [OF assms(1), of "unat off + 28"] k by (auto simp: algebra_simps)
    then show ?thesis using h False by (simp add: local_header_def LOCNAM_def LOCEXT_def)
  qed (simp add: local_header_def h)
qed (use assms(2) in \<open>simp add: local_header_def safe_iop_def\<close>)

text \<open>The fields of a central directory header that lies in the file can be read.\<close>

lemma header_fields:
  assumes "mapped_low r" "k + 46 \<le> length (r_bytes r)"
  shows "unat w + 4 \<le> 46 \<Longrightarrow> \<exists>v. get4LE r (r_base r + of_nat k + w) = Some v"
    and "unat w + 2 \<le> 46 \<Longrightarrow> \<exists>v. get2LE r (r_base r + of_nat k + w) = Some v"
proof -
  have w: "r_base r + of_nat k + w = r_base r + of_nat (k + unat w)" by (simp add: add.assoc)
  show "unat w + 4 \<le> 46 \<Longrightarrow> \<exists>v. get4LE r (r_base r + of_nat k + w) = Some v"
    unfolding w by (rule get4LE_at [OF assms(1)]) (use assms(2) in simp)
  show "unat w + 2 \<le> 46 \<Longrightarrow> \<exists>v. get2LE r (r_base r + of_nat k + w) = Some v"
    unfolding w by (rule get2LE_at [OF assms(1)]) (use assms(2) in simp)
qed

text \<open>No field of the file is a local header offset that wraps.\<close>

definition offsets_ok :: "region \<Rightarrow> bool" where
  "offsets_ok r \<longleftrightarrow> (\<forall>k < length (r_bytes r).
     case get4LE r (r_base r + of_nat k) of None \<Rightarrow> True | Some v \<Rightarrow> \<not> wrapping_offset r v)"

lemma offsets_ok_field:
  assumes "offsets_ok r" "k + 46 \<le> length (r_bytes r)" "get4LE r (r_base r + of_nat k + CENOFF) = Some v"
  shows "\<not> wrapping_offset r v"
proof -
  have "r_base r + of_nat k + CENOFF = r_base r + of_nat (k + 42)" by (simp add: CENOFF_def)
  then have "get4LE r (r_base r + of_nat (k + 42)) = Some v" using assms(3) by (simp only:)
  moreover have "k + 42 < length (r_bytes r)" using assms(2) by simp
  ultimately show ?thesis using assms(1) unfolding offsets_ok_def by (metis option.simps(5))
qed

lemma validFilename_total:
  "mapped_low r \<Longrightarrow> k + unat n \<le> length (r_bytes r) \<Longrightarrow> \<exists>b. validFilename r (r_base r + of_nat k) n = Some b"
  using valid_chars_total [of r k "unat n"] by (auto simp: validFilename_def)

lemma unat_u16_lt: "unat (ucast (w :: u16) :: u32) < 65536"
proof -
  have "unat w < 65536" using unsigned_less [of w, where ?'a = nat] by simp
  then show ?thesis by (simp add: unsigned_ucast_eq take_bit_nat_eq_self)
qed

lemma parse_entry_total:
  assumes "mapped_low r" "safe_iop safe_addu safe_adds" "offsets_ok r" "k \<le> length (r_bytes r) + 131070"
  shows "\<exists>x. parse_entry safe_addu safe_adds r (r_base r + of_nat k) = Some x \<and>
    (\<forall>e d. x = Some (e, d) \<longrightarrow> (\<exists>k'. r_base r + of_nat k + d = r_base r + of_nat k' \<and> k' \<le> length (r_bytes r) + 131070))"
proof (cases "k + 46 \<le> length (r_bytes r)")
  case False
  have p: "r_base r + of_nat k + CENHDR = r_base r + of_nat (k + 46)" by (simp add: CENHDR_def)
  have "r_base r + of_nat k + CENHDR > r_base r + of_nat (length (r_bytes r))"
    unfolding p using end_cmp [OF assms(1), of "k + 46"] assms(4) False by linarith
  then show ?thesis by (simp add: parse_entry_def)
next
  case True
  let ?p = "r_base r + of_nat k"
  note f4 = header_fields(1) [OF assms(1) True] and f2 = header_fields(2) [OF assms(1) True]
  obtain sig lho csiz clen tim crc atx where g4: "get4LE r ?p = Some sig" "get4LE r (?p + CENOFF) = Some lho"
      "get4LE r (?p + CENSIZ) = Some csiz" "get4LE r (?p + CENLEN) = Some clen" "get4LE r (?p + CENTIM) = Some tim"
      "get4LE r (?p + CENCRC) = Some crc" "get4LE r (?p + CENATX) = Some atx"
    using f4 [of 0] f4 [of CENOFF] f4 [of CENSIZ] f4 [of CENLEN] f4 [of CENTIM] f4 [of CENCRC] f4 [of CENATX]
    by (auto simp: zip_consts)
  obtain nlen ex cm how vem where g2: "get2LE r (?p + CENNAM) = Some nlen" "get2LE r (?p + CENEXT) = Some ex"
      "get2LE r (?p + CENCOM) = Some cm" "get2LE r (?p + CENHOW) = Some how" "get2LE r (?p + CENVEM) = Some vem"
    using f2 [of CENNAM] f2 [of CENEXT] f2 [of CENCOM] f2 [of CENHOW] f2 [of CENVEM] by (auto simp: zip_consts)
  obtain hdr where hdr: "local_header safe_addu r lho = Some hdr"
    using local_header_total [OF assms(1,2)] offsets_ok_field [OF assms(3) True g4(2)] by blast
  let ?n = "ucast nlen :: u32"
  have n: "unat ?n < 65536" "unat (ucast ex :: u32) < 65536" "unat (ucast cm :: u32) < 65536"
    by (rule unat_u16_lt)+
  have p46: "?p + CENHDR = r_base r + of_nat (k + 46)" by (simp add: CENHDR_def)
  have pn: "?p + CENHDR + ?n = r_base r + of_nat (k + 46 + unat ?n)" unfolding p46 by (simp add: add.assoc)
  show ?thesis
  proof (cases "?p + CENHDR + ?n > r_base r + of_nat (length (r_bytes r))")
    case True
    then show ?thesis by (auto simp: parse_entry_def g4 g2 Let_def)
  next
    case False
    then have fit: "k + 46 + unat ?n \<le> length (r_bytes r)"
      using end_cmp [OF assms(1), of "k + 46 + unat ?n"] n True unfolding pn by simp
    obtain v where v: "validFilename r (?p + CENHDR) ?n = Some v"
      using validFilename_total [OF assms(1), of "k + 46" ?n] fit unfolding p46 by auto
    let ?d = "CENHDR + ?n + ucast ex + ucast cm"
    let ?k = "k + 46 + unat ?n + unat (ucast ex :: u32) + unat (ucast cm :: u32)"
    have "?p + ?d = r_base r + of_nat ?k" by (simp add: CENHDR_def add.assoc)
    moreover have "?k \<le> length (r_bytes r) + 131070" using fit n by simp
    ultimately have next_k: "\<exists>k'. ?p + ?d = r_base r + of_nat k' \<and> k' \<le> length (r_bytes r) + 131070" by blast
    have "parse_entry safe_addu safe_adds r ?p = Some None \<or>
        (\<exists>e. parse_entry safe_addu safe_adds r ?p = Some (Some (e, ?d)))"
      by (cases hdr) (auto simp: parse_entry_def g4 g2 Let_def v hdr)
    then show ?thesis using next_k by blast
  qed
qed

lemma parse_entries_total:
  assumes "mapped_low r" "safe_iop safe_addu safe_adds" "offsets_ok r"
  shows "k \<le> length (r_bytes r) + 131070 \<Longrightarrow> sorted_names (\<lambda>k. entry_name r (es ! k)) (length es) \<Longrightarrow>
    parse_entries safe_addu safe_adds r n (r_base r + of_nat k) es \<noteq> None"
proof (induction n arbitrary: k es)
  case (Suc n)
  obtain x where x: "parse_entry safe_addu safe_adds r (r_base r + of_nat k) = Some x"
      "\<forall>e d. x = Some (e, d) \<longrightarrow> (\<exists>k'. r_base r + of_nat k + d = r_base r + of_nat k' \<and> k' \<le> length (r_bytes r) + 131070)"
    using parse_entry_total [OF assms Suc.prems(1)] by blast
  show ?case
  proof (cases x)
    case None
    then show ?thesis using x(1) by simp
  next
    case (Some ed)
    obtain e d where ed: "ed = (e, d)" by (cases ed)
    obtain k' where k': "r_base r + of_nat k + d = r_base r + of_nat k'" "k' \<le> length (r_bytes r) + 131070"
      using x(2) Some ed by blast
    obtain es' where "insert_entry r e es = Some es'" "sorted_names (\<lambda>k. entry_name r (es' ! k)) (length es')"
      using insert_entry_sorted [OF Suc.prems(2)] by blast
    then show ?thesis using x(1) Some ed Suc.IH [OF k'(2)] unfolding parse_entries.simps x(1) k'(1) [symmetric] by simp
  qed
qed simp

lemma parse_no_bad_read:
  assumes "mapped_low r" "offsets_ok r" "safe_iop safe_addu safe_adds"
  shows "parseZipArchive entries_ok calloc safe_addu safe_adds fd r \<noteq> Bad_read"
proof -
  have len: "ENDHDR \<le> length (r_bytes r)" using assms(1) by (simp add: mapped_low_def)
  obtain v where v: "get4LE r (r_base r) = Some v"
    using get4LE_at [OF assms(1), of 0] len by (auto simp: ENDHDR_def)
  obtain x where x: "find_eocd r (length (r_bytes r) - ENDHDR) = Some x"
      "\<forall>p. x = Some p \<longrightarrow> (\<exists>k. p = r_base r + of_nat k \<and> k + ENDHDR \<le> length (r_bytes r))"
    using find_eocd_total [OF assms(1), of "length (r_bytes r) - ENDHDR"] len by auto
  show ?thesis
  proof (cases x)
    case None
    then show ?thesis using v x(1) by (simp add: parseZipArchive_def)
  next
    case (Some p)
    obtain k where k: "p = r_base r + of_nat k" "k + ENDHDR \<le> length (r_bytes r)" using x(2) Some by blast
    obtain n16 where n16: "get2LE r (p + ENDSUB) = Some n16"
      using get2LE_at [OF assms(1), of "k + 8"] k by (auto simp: ENDSUB_def ENDHDR_def add.assoc)
    obtain cd where cd: "get4LE r (p + ENDOFF) = Some cd"
      using get4LE_at [OF assms(1), of "k + 16"] k by (auto simp: ENDOFF_def ENDHDR_def add.assoc)
    have "parse_entries safe_addu safe_adds r n (r_base r + of_nat (unat cd)) [] \<noteq> None"
      if "\<not> cd \<ge> of_nat (length (r_bytes r))" for n
      by (rule parse_entries_total [OF assms(1,3,2)])
        (use that assms(1) in \<open>simp_all add: sorted_names_def not_le word_less_nat_alt unat_of_nat mapped_low_def\<close>)
    then have pe: "parse_entries safe_addu safe_adds r n (r_base r + cd) [] \<noteq> None"
      if "\<not> cd \<ge> of_nat (length (r_bytes r))" for n using that by simp
    show ?thesis using v x(1) Some n16 cd pe [of "unat n16"]
      by (auto simp: parseZipArchive_def Let_def split: option.splits sum.splits)
  qed
qed

text \<open>
  C11. Parsing a hostile file reads nothing outside the mapping: no load of the scan for the end
  record, of the directory headers, of the names and of the local headers faults, the
  assertion on the insertion point holds and building the index neither fails nor fails to end,
  whatever the bytes are, provided that the mapping does not reach the last bytes of the address
  space and no 4-byte field is a local header offset whose header would wrap around it.\<close>

theorem parse_reads_inside:
  assumes "mapped_low r" "offsets_ok r" "safe_iop safe_addu safe_adds" "calloc_fits calloc"
  shows "parseZipArchive entries_ok calloc safe_addu safe_adds fd r = Not_zip \<or>
    (\<exists>z. parseZipArchive entries_ok calloc safe_addu safe_adds fd r = Parsed z)"
proof -
  have "parseZipArchive entries_ok calloc safe_addu safe_adds fd r \<noteq> Bad_read"
    by (rule parse_no_bad_read [OF assms(1-3)])
  then show ?thesis using parse_no_hash_error [OF assms(4)]
    by (cases "parseZipArchive entries_ok calloc safe_addu safe_adds fd r") auto
qed

text \<open>
  C32. The bounds check of the local header can be passed by an offset that is far outside the file:
  for an offset that puts the header into the last 30 bytes of the address space,
  \<^verbatim>\<open>localHdr + LOCHDR\<close> wraps around, the comparison with the end of the mapping succeeds and the
  signature is read outside the mapping.\<close>

theorem wrapping_header_faults:
  assumes "mapped_low r" "safe_iop safe_addu safe_adds" "wrapping_offset r off"
  shows "local_header safe_addu r off = None"
proof -
  let ?h = "r_base r + off"
  have w: "2 ^ 32 - 30 \<le> unat (r_base r) + unat off" "unat (r_base r) + unat off < 2 ^ 32"
    using assms(3) unfolding wrapping_offset_def by simp_all
  have h: "safe_addu (r_base r) off = Some ?h" using assms(2) w by (simp add: safe_iop_def)
  have "unat ?h = unat (r_base r) + unat off" using w by (simp add: unat_word_ariths(1))
  then have "unat (?h + LOCHDR) = unat (r_base r) + unat off + 30 - 2 ^ 32"
    using w by (simp add: unat_word_ariths(1) LOCHDR_def mod_if)
  moreover have "unat (r_base r) + unat off + 30 - 2 ^ 32 < 30" using w by simp
  moreover have "unat (r_base r + of_nat (length (r_bytes r))) = unat (r_base r) + length (r_bytes r)"
    using unat_base_plus [OF assms(1)] by simp
  ultimately have ok: "\<not> ?h + LOCHDR > r_base r + of_nat (length (r_bytes r))"
    using assms(1) w by (simp add: word_less_nat_alt mapped_low_def ENDHDR_def)
  have "load r ?h = None"
    using assms(1) w by (simp add: load_def roff_def mapped_low_def)
  then show ?thesis using h ok by (simp add: local_header_def get4LE_def)
qed

section \<open>A sample archive\<close>

text \<open>
  One stored, empty entry named \<^verbatim>\<open>a\<close>: local header, central directory header and end record.
\<close>

definition sample_zip :: "byte list" where
  "sample_zip =
    [0x50, 0x4b, 3, 4] @ replicate 22 0 @ [1, 0, 0, 0] @ [0x61] @
    [0x50, 0x4b, 1, 2] @ replicate 24 0 @ [1, 0] @ replicate 16 0 @ [0x61] @
    [0x50, 0x4b, 5, 6, 0, 0, 0, 0, 1, 0, 1, 0, 0, 0, 0, 0, 31, 0, 0, 0, 0, 0]"

definition sample_region :: region where
  "sample_region = \<lparr>r_base = 0x1000, r_bytes = sample_zip\<rparr>"

definition safe_addu_model :: "u32 \<Rightarrow> u32 \<Rightarrow> u32 option" where
  "safe_addu_model a b = (if uint a + uint b < 2 ^ 32 then Some (a + b) else None)"

definition safe_adds_model :: "u32 \<Rightarrow> u32 \<Rightarrow> bool" where
  "safe_adds_model a b \<longleftrightarrow> - (2 ^ 31) \<le> sint a + sint b \<and> sint a + sint b < 2 ^ 31"

definition calloc_model :: "nat \<Rightarrow> bool" where
  "calloc_model n \<longleftrightarrow> n < 1000"

lemma safe_iop_model: "safe_iop safe_addu_model safe_adds_model"
proof -
  have "uint a + uint b < 2 ^ 32 \<longleftrightarrow> unat a + unat b < 2 ^ 32" for a b :: u32
    using of_nat_less_iff [where ?'a = int, of "unat a + unat b" "2 ^ 32"] by simp
  then show ?thesis by (simp add: safe_iop_def safe_addu_model_def safe_adds_model_def)
qed

lemma calloc_model_fits: "calloc_fits calloc_model"
  by (auto simp: calloc_fits_def calloc_model_def)

lemma sample_region_ok: "region_ok sample_region"
  by (simp add: region_ok_def sample_region_def sample_zip_def)

lemma sample_mapped_low: "mapped_low sample_region"
  by (simp add: mapped_low_def sample_region_def sample_zip_def ENDHDR_def)

lemma parsesI:
  assumes "get4LE r (r_base r) = Some LOCSIG" "find_eocd r (length (r_bytes r) - ENDHDR) = Some (Some p)"
    and "get2LE r (p + ENDSUB) = Some n16" "get4LE r (p + ENDOFF) = Some cd"
    and "0 < unat n16" "cd < of_nat (length (r_bytes r))"
    and "calloc (unat (roundUpPower2 (mzHashSize (ucast n16))))" "calloc_fits calloc"
    and es: "parse_entries safe_addu safe_adds r (unat n16) (r_base r + cd) [] = Some (Some es)"
  shows "\<exists>z. parseZipArchive True calloc safe_addu safe_adds fd r = Parsed z \<and> z_pEntries z = es \<and> z_numEntries z = unat n16"
proof -
  have "LOCSIG \<noteq> ENDSIG" by (simp add: LOCSIG_def ENDSIG_def)
  moreover obtain ht :: "zkey HashTable" where
    ht: "mzHashTableCreate True calloc (mzHashSize (ucast n16)) False = Inr (Some ht)"
    using index_size_pos [of n16] assms(7) by (simp add: mzHashTableCreate_def Let_def)
  moreover obtain ht' where "add_entries calloc (\<lambda>k. entry_name r (es ! k)) [0..<unat n16] ht = Some (Inr ht')"
    using index_total [OF assms(5) ht assms(8)] by blast
  moreover have "\<not> of_nat (length (r_bytes r)) \<le> cd" using assms(6) by simp
  ultimately show ?thesis using assms(1-5) es by (simp add: parseZipArchive_def Let_def)
qed

lemma sample_parsed:
  "\<exists>z. parseZipArchive True calloc_model safe_addu_model safe_adds_model 3 sample_region = Parsed z \<and>
     z_numEntries z = 1 \<and> list_all (\<lambda>e. compression e = STORED \<and> offset e = 31 \<and> compLen e = 0 \<and> uncompLen e = 0) (z_pEntries z)"
proof -
  have "case parse_entries safe_addu_model safe_adds_model sample_region 1 (0x1000 + 31) [] of
      Some (Some es) \<Rightarrow> list_all (\<lambda>e. compression e = STORED \<and> offset e = 31 \<and> compLen e = 0 \<and> uncompLen e = 0) es
    | _ \<Rightarrow> False" by code_simp
  then obtain es where es: "parse_entries safe_addu_model safe_adds_model sample_region (unat (1 :: u16)) (r_base sample_region + 31) [] = Some (Some es)"
      "list_all (\<lambda>e. compression e = STORED \<and> offset e = 31 \<and> compLen e = 0 \<and> uncompLen e = 0) es"
    by (auto simp: sample_region_def split: option.splits)
  have "\<exists>z. parseZipArchive True calloc_model safe_addu_model safe_adds_model 3 sample_region = Parsed z \<and>
      z_pEntries z = es \<and> z_numEntries z = unat (1 :: u16)"
  proof (rule parsesI [where p = "0x104e" and ?n16.0 = 1 and cd = 31])
    show "get4LE sample_region (r_base sample_region) = Some LOCSIG" by code_simp
    show "find_eocd sample_region (length (r_bytes sample_region) - ENDHDR) = Some (Some 0x104e)" by code_simp
    show "get2LE sample_region (0x104e + ENDSUB) = Some 1" by code_simp
    show "get4LE sample_region (0x104e + ENDOFF) = Some 31" by code_simp
    show "31 < (of_nat (length (r_bytes sample_region)) :: u32)" by code_simp
    show "calloc_model (unat (roundUpPower2 (mzHashSize (ucast (1 :: u16)))))" by code_simp
    show "parse_entries safe_addu_model safe_adds_model sample_region (unat (1 :: u16)) (r_base sample_region + 31) [] = Some (Some es)"
      by (rule es(1))
  qed (simp_all add: calloc_model_fits)
  then show ?thesis using es(2) by auto
qed

theorem parsed_archive_witness:
  "\<exists>z. parseZipArchive True calloc_model safe_addu_model safe_adds_model 3 sample_region = Parsed z \<and>
     (\<forall>e \<in> set (z_pEntries z). entry_ok (z_map z) e)"
proof -
  obtain z where "parseZipArchive True calloc_model safe_addu_model safe_adds_model 3 sample_region = Parsed z"
    using sample_parsed by blast
  then show ?thesis
    using parsed_archive [OF _ safe_iop_model sample_region_ok calloc_model_fits] by blast
qed

lemma sample_offsets_ok: "offsets_ok sample_region"
proof -
  have "list_all (\<lambda>k. case get4LE sample_region (0x1000 + of_nat k) of None \<Rightarrow> True
      | Some v \<Rightarrow> uint v < 0xfffff000 - 30) [0..<100]" by code_simp
  then have a: "\<forall>k < 100. case get4LE sample_region (0x1000 + of_nat k) of None \<Rightarrow> True
      | Some v \<Rightarrow> uint v < 0xfffff000 - 30" by (simp add: list_all_iff)
  have "uint v < 0xfffff000 - 30 \<Longrightarrow> \<not> wrapping_offset sample_region v" for v
    using of_nat_less_iff [where ?'a = int, of "unat v" "0xfffff000 - 30"]
    by (simp add: wrapping_offset_def sample_region_def)
  moreover have "length (r_bytes sample_region) = 100" "r_base sample_region = 0x1000"
    by (simp_all add: sample_region_def sample_zip_def)
  ultimately show ?thesis using a unfolding offsets_ok_def by (auto split: option.splits)
qed

theorem parse_reads_inside_witness:
  "mapped_low sample_region \<and>
   (parseZipArchive True calloc_model safe_addu_model safe_adds_model 3 sample_region = Not_zip \<or>
    (\<exists>z. parseZipArchive True calloc_model safe_addu_model safe_adds_model 3 sample_region = Parsed z))"
  using parse_reads_inside [OF sample_mapped_low sample_offsets_ok safe_iop_model calloc_model_fits] sample_mapped_low
  by blast

theorem wrapping_header_faults_witness:
  "local_header safe_addu_model sample_region 0xffffeff0 = None"
  by (rule wrapping_header_faults [OF sample_mapped_low safe_iop_model])
    (simp add: wrapping_offset_def sample_region_def)

end
