(* ===== verification/Minzip_Extract.thy ===== *)
theory Minzip_Extract
  imports Minzip_Zip
begin

text \<open>
  The contents of entries, \<^verbatim>\<open>minzip/Zip.c\<close> from \<^verbatim>\<open>processStoredEntry\<close> to \<^verbatim>\<open>targetEntryPath\<close>: streaming
  the data of an entry through a process function, and the process functions that check the CRC,
  copy to a buffer and write to a file.  The descriptor of the archive is a regular file with a
  position and a schedule of read errors.  A process function gets a block of data and its
  cookie; \<open>None\<close> is an access outside the buffer the cookie points to.  zlib is not part of the
  sources: \<^verbatim>\<open>inflateInit2\<close>, \<^verbatim>\<open>inflate\<close> and \<^verbatim>\<open>crc32\<close> are parameters.
\<close>

section \<open>Descriptors\<close>

record ofile =
  f_data :: "byte list"
  f_pos :: nat
  f_errs :: "bool list"

text \<open>
  \<^verbatim>\<open>read\<close> on a regular file: the schedule may make the call fail; a count above \<^verbatim>\<open>SSIZE_MAX\<close> is
  refused; otherwise the bytes up to the end of the file are delivered.
\<close>

definition read_file :: "nat \<Rightarrow> ofile \<Rightarrow> int \<times> byte list \<times> ofile" where
  "read_file cnt f =
     (case f_errs f of
        True # errs \<Rightarrow> (-1, [], f\<lparr>f_errs := errs\<rparr>)
      | errs \<Rightarrow>
          if int cnt \<ge> 2147483648 then (-1, [], f\<lparr>f_errs := tl errs\<rparr>)
          else let bs = take cnt (drop (f_pos f) (f_data f))
               in (int (length bs), bs, f\<lparr>f_pos := f_pos f + length bs, f_errs := tl errs\<rparr>))"

text \<open>\<^verbatim>\<open>lseek\<close> with \<^verbatim>\<open>SEEK_SET\<close>: a negative offset is refused.\<close>

definition lseek_set :: "int \<Rightarrow> ofile \<Rightarrow> ofile" where
  "lseek_set off f = (if off < 0 then f else f\<lparr>f_pos := nat off\<rparr>)"

type_synonym 'c processFn = "byte list \<Rightarrow> 'c \<Rightarrow> (bool \<times> 'c) option"

definition BUF_SIZE :: nat where "BUF_SIZE = 32 * 1024"

section \<open>Stored entries\<close>

function stored_loop :: "'c processFn \<Rightarrow> nat \<Rightarrow> ofile \<Rightarrow> 'c \<Rightarrow> (bool \<times> ofile \<times> 'c) option" where
  "stored_loop processFunction bytesLeft f cookie =
     (if bytesLeft > 0
      then let cnt = (if bytesLeft > BUF_SIZE then BUF_SIZE else bytesLeft);
               (n, buf, f) = read_file cnt f
           in if n < 0 \<or> n \<noteq> int cnt then Some (False, f, cookie)
              else do {
                (ret, cookie) \<leftarrow> processFunction buf cookie;
                if \<not> ret then Some (False, f, cookie)
                else stored_loop processFunction (bytesLeft - cnt) f cookie }
      else Some (True, f, cookie))"
  by pat_completeness auto
termination
  by (relation "measure (\<lambda>(p, n, f, c). n)") (auto simp: BUF_SIZE_def)

declare stored_loop.simps [simp del]

definition processStoredEntry ::
  "'c processFn \<Rightarrow> ZipEntry \<Rightarrow> ofile \<Rightarrow> 'c \<Rightarrow> (bool \<times> ofile \<times> 'c) option" where
  "processStoredEntry processFunction pEntry f cookie =
     stored_loop processFunction (unat (compLen pEntry)) f cookie"

section \<open>Deflated entries\<close>

definition Z_OK :: int where "Z_OK = 0"
definition Z_STREAM_END :: int where "Z_STREAM_END = 1"

text \<open>
  One call of \<^verbatim>\<open>inflate\<close>: from the stream state, the available input and the room in the output
  buffer to the return code, the new state, the output produced and the input not consumed.
\<close>

type_synonym 'z inflate_fn = "'z \<Rightarrow> byte list \<Rightarrow> nat \<Rightarrow> int \<times> 'z \<times> byte list \<times> byte list"

datatype 'a outcome = Fault | Done 'a

lemma map_outcome_Done [simp]: "map_outcome g x = Done z \<longleftrightarrow> (\<exists>y. x = Done y \<and> z = g y)"
  by (cases x) auto

lemma map_outcome_Fault [simp]: "map_outcome g x = Fault \<longleftrightarrow> x = Fault"
  by (cases x) auto

text \<open>
  The state of the loop: the stream, its input, the bytes in \<^verbatim>\<open>procBuf\<close>, \<^verbatim>\<open>total_out\<close>, the
  \<^verbatim>\<open>long\<close> \<^verbatim>\<open>compRemaining\<close>, the descriptor and the cookie.
\<close>

record ('z, 'c) istate =
  i_stream :: 'z
  i_in :: "byte list"
  i_procBuf :: "byte list"
  i_total :: u32
  i_compRemaining :: int
  i_fd :: ofile
  i_cookie :: 'c

text \<open>
  The refill at the head of the loop: \<open>None\<close> goes to \<^verbatim>\<open>z_bail\<close>.  A negative size equal to the error
  return of \<^verbatim>\<open>read\<close> passes the comparison and leaves \<^verbatim>\<open>avail_in\<close> beyond the buffer, a fault.
\<close>

definition refill :: "('z, 'c) istate \<Rightarrow> (bool \<times> ('z, 'c) istate) outcome" where
  "refill s =
     (if i_in s = []
      then let getSize = (if i_compRemaining s > int BUF_SIZE then int BUF_SIZE else i_compRemaining s);
               (cc, buf, f) = read_file (nat (getSize mod 2 ^ 32)) (i_fd s);
               s = s\<lparr>i_fd := f\<rparr>
           in if cc \<noteq> getSize then Done (False, s)
              else if getSize < 0 then Fault
              else Done (True, s\<lparr>i_in := buf, i_compRemaining := i_compRemaining s - getSize\<rparr>)
      else Done (True, s))"

text \<open>After \<^verbatim>\<open>inflate\<close>: the block is processed when the buffer is full or at the end of the stream.\<close>

definition flush :: "'c processFn \<Rightarrow> int \<Rightarrow> ('z, 'c) istate \<Rightarrow> (bool \<times> ('z, 'c) istate) outcome" where
  "flush processFunction zerr s =
     (if length (i_procBuf s) = BUF_SIZE \<or> zerr = Z_STREAM_END \<and> i_procBuf s \<noteq> []
      then case processFunction (i_procBuf s) (i_cookie s) of
             None \<Rightarrow> Fault
           | Some (ret, c) \<Rightarrow>
               if \<not> ret then Done (False, s\<lparr>i_cookie := c\<rparr>)
               else Done (True, s\<lparr>i_cookie := c, i_procBuf := []\<rparr>)
      else Done (True, s))"

text \<open>One iteration: the flag says whether the loop goes on, the number is \<^verbatim>\<open>result\<close>.\<close>

definition inflate_step ::
  "'z inflate_fn \<Rightarrow> 'c processFn \<Rightarrow> ('z, 'c) istate \<Rightarrow> (bool \<times> int \<times> ('z, 'c) istate) outcome" where
  "inflate_step inflate processFunction s =
     (case refill s of
        Fault \<Rightarrow> Fault
      | Done (False, s) \<Rightarrow> Done (False, -1, s)
      | Done (True, s) \<Rightarrow>
          let (zerr, z, out, rest) = inflate (i_stream s) (i_in s) (BUF_SIZE - length (i_procBuf s));
              s = s\<lparr>i_stream := z, i_in := rest, i_procBuf := i_procBuf s @ out,
                    i_total := i_total s + of_nat (length out)\<rparr>
          in if zerr \<noteq> Z_OK \<and> zerr \<noteq> Z_STREAM_END then Done (False, -1, s)
             else (case flush processFunction zerr s of
                     Fault \<Rightarrow> Fault
                   | Done (False, s) \<Rightarrow> Done (False, -1, s)
                   | Done (True, s) \<Rightarrow> Done (zerr = Z_OK, sint (i_total s), s)))"

partial_function (option) inflate_loop ::
  "'z inflate_fn \<Rightarrow> 'c processFn \<Rightarrow> ('z, 'c) istate \<Rightarrow> (int \<times> ('z, 'c) istate) outcome option" where
  [code]: "inflate_loop inflate processFunction s =
     (case inflate_step inflate processFunction s of
        Fault \<Rightarrow> Some Fault
      | Done (go, result, s) \<Rightarrow> if go then inflate_loop inflate processFunction s else Some (Done (result, s)))"

text \<open>The result \<open>None\<close> stands for a loop that does not end.\<close>

definition processDeflatedEntry ::
  "int \<times> 'z \<Rightarrow> 'z inflate_fn \<Rightarrow> 'c processFn \<Rightarrow> ZipEntry \<Rightarrow> ofile \<Rightarrow> 'c \<Rightarrow> (bool \<times> ofile \<times> 'c) outcome option" where
  "processDeflatedEntry inflateInit inflate processFunction pEntry f cookie =
     (let (zerr, z) = inflateInit in
      if zerr \<noteq> Z_OK then Some (Done (-1 = sint (uncompLen pEntry), f, cookie))
      else map_option (map_outcome (\<lambda>(result, s). (result = sint (uncompLen pEntry), i_fd s, i_cookie s)))
             (inflate_loop inflate processFunction
               \<lparr>i_stream = z, i_in = [], i_procBuf = [], i_total = 0,
                i_compRemaining = sint (compLen pEntry), i_fd = f, i_cookie = cookie\<rparr>))"

section \<open>Entry contents\<close>

text \<open>The two functions of zlib that stream an entry.\<close>

record 'z zlib =
  z_init :: "int \<times> 'z"
  z_inflate :: "'z inflate_fn"

definition mzProcessZipEntryContents ::
  "'z zlib \<Rightarrow> 'c processFn \<Rightarrow> ZipEntry \<Rightarrow> ofile \<Rightarrow> 'c \<Rightarrow> (bool \<times> ofile \<times> 'c) outcome option" where
  "mzProcessZipEntryContents zl processFunction pEntry f cookie =
     (let oldOff = f_pos f;
          f = lseek_set (sint (offset pEntry)) f;
          r = (if compression pEntry = STORED
               then Some (case processStoredEntry processFunction pEntry f cookie of None \<Rightarrow> Fault | Some x \<Rightarrow> Done x)
               else if compression pEntry = DEFLATED
               then processDeflatedEntry (z_init zl) (z_inflate zl) processFunction pEntry f cookie
               else Some (Done (False, f, cookie)))
      in map_option (map_outcome (\<lambda>(ret, f, cookie). (ret, lseek_set (int oldOff) f, cookie))) r)"

section \<open>Process functions\<close>

text \<open>\<^verbatim>\<open>crc32\<close> of zlib is the parameter \<open>crcf\<close>; the cookie is the running value.\<close>

definition crcProcessFunction :: "(u32 \<Rightarrow> byte list \<Rightarrow> u32) \<Rightarrow> u32 processFn" where
  "crcProcessFunction crcf blk crc = Some (True, crcf crc blk)"

definition mzIsZipEntryIntact ::
  "'z zlib \<Rightarrow> (u32 \<Rightarrow> byte list \<Rightarrow> u32) \<Rightarrow> ZipEntry \<Rightarrow> ofile \<Rightarrow> (bool \<times> ofile) outcome option" where
  "mzIsZipEntryIntact zl crcf pEntry f =
     map_option (map_outcome (\<lambda>(ret, f, crc). if \<not> ret then (False, f) else (crc = crc32 pEntry, f)))
       (mzProcessZipEntryContents zl (crcProcessFunction crcf) pEntry f 0)"

text \<open>
  A destination in memory: the object the pointer points into, the position of the pointer in it
  and the counter of the cookie, \<^verbatim>\<open>bufLen\<close> of \<^verbatim>\<open>CopyProcessArgs\<close> or \<^verbatim>\<open>len\<close> of \<^verbatim>\<open>BufferExtractCookie\<close>.
\<close>

record dest =
  d_mem :: "byte list"
  d_pos :: nat
  d_len :: int

definition put_bytes :: "byte list \<Rightarrow> dest \<Rightarrow> dest option" where
  "put_bytes bs d =
     (if d_pos d + length bs \<le> length (d_mem d)
      then Some (d\<lparr>d_mem := take (d_pos d) (d_mem d) @ bs @ drop (d_pos d + length bs) (d_mem d),
                   d_pos := d_pos d + length bs, d_len := d_len d - int (length bs)\<rparr>)
      else None)"

definition copyProcessFunction :: "dest processFn" where
  "copyProcessFunction blk args =
     (if int (length blk) \<le> d_len args
      then do { args \<leftarrow> put_bytes blk args; Some (True, args) }
      else Some (False, args))"

definition mzReadZipEntry ::
  "'z zlib \<Rightarrow> ZipEntry \<Rightarrow> ofile \<Rightarrow> byte list \<Rightarrow> int \<Rightarrow> (bool \<times> ofile \<times> byte list) outcome option" where
  "mzReadZipEntry zl pEntry f buf bufLen =
     map_option (map_outcome (\<lambda>(ret, f, args). (ret, f, d_mem args)))
       (mzProcessZipEntryContents zl copyProcessFunction pEntry f \<lparr>d_mem = buf, d_pos = 0, d_len = bufLen\<rparr>)"

definition bufferProcessFunction :: "dest processFn" where
  "bufferProcessFunction blk bec = do { bec \<leftarrow> put_bytes blk bec; Some (True, bec) }"

definition mzExtractZipEntryToBuffer ::
  "'z zlib \<Rightarrow> ZipEntry \<Rightarrow> ofile \<Rightarrow> byte list \<Rightarrow> (bool \<times> ofile \<times> byte list) outcome option" where
  "mzExtractZipEntryToBuffer zl pEntry f buffer =
     map_option (map_outcome (\<lambda>(ret, f, bec). (ret \<and> d_len bec = 0, f, d_mem bec)))
       (mzProcessZipEntryContents zl bufferProcessFunction pEntry f
          \<lparr>d_mem = buffer, d_pos = 0, d_len = sint (uncompLen pEntry)\<rparr>)"

text \<open>
  A file open for writing: its contents and the outcomes of the next \<^verbatim>\<open>write\<close> calls.  \<open>W_fail\<close> is a
  result that is not positive, with the value of \<^verbatim>\<open>errno\<close>; \<open>W_bytes n\<close> writes \<open>n + 1\<close> bytes; when the
  schedule is used up a call writes everything.  The callers pass blocks that are not empty.
\<close>

datatype wout = W_fail int | W_bytes nat

record wfile =
  w_data :: "byte list"
  w_sched :: "wout list"

definition EINTR :: int where "EINTR = 4"

fun write_sched :: "wout list \<Rightarrow> byte list \<Rightarrow> byte list \<Rightarrow> bool \<times> byte list \<times> wout list" where
  "write_sched [] blk out = (True, out @ blk, [])"
| "write_sched (W_fail errno # sched) blk out =
     (if errno \<noteq> EINTR then (False, out, sched) else write_sched sched blk out)"
| "write_sched (W_bytes n # sched) blk out =
     (if Suc n = length blk then (True, out @ blk, sched)
      else if Suc n > length blk then (False, out @ blk, sched)
      else write_sched sched (drop (Suc n) blk) (out @ take (Suc n) blk))"

definition writeProcessFunction :: "wfile processFn" where
  "writeProcessFunction blk fd =
     (let (ok, out, sched) = write_sched (w_sched fd) blk (w_data fd)
      in Some (ok, \<lparr>w_data = out, w_sched = sched\<rparr>))"

definition mzExtractZipEntryToFile ::
  "'z zlib \<Rightarrow> ZipEntry \<Rightarrow> ofile \<Rightarrow> wfile \<Rightarrow> (bool \<times> ofile \<times> wfile) outcome option" where
  "mzExtractZipEntryToFile zl pEntry f fd = mzProcessZipEntryContents zl writeProcessFunction pEntry f fd"

section \<open>The contract of a process function\<close>

text \<open>The bytes of an entry in the file, from its data offset.\<close>

definition raw_bytes :: "ZipEntry \<Rightarrow> byte list \<Rightarrow> byte list" where
  "raw_bytes e bs = take (unat (compLen e)) (drop (unat (offset e)) bs)"

text \<open>
  The documented behaviour of \<^verbatim>\<open>inflate\<close>, for a relation \<open>dec\<close> that says which plain text a stream
  state and the input still to come stand for: the output fits the room, the unused input is a suffix,
  \<^verbatim>\<open>Z_OK\<close> continues the decoding and \<^verbatim>\<open>Z_STREAM_END\<close> completes it.
\<close>

definition inflates :: "'z inflate_fn \<Rightarrow> ('z \<Rightarrow> byte list \<Rightarrow> byte list \<Rightarrow> bool) \<Rightarrow> bool" where
  "inflates inflate dec \<longleftrightarrow>
     (\<forall>z inp n zerr z' out rest. inflate z inp n = (zerr, z', out, rest) \<longrightarrow>
        length out \<le> n \<and> (\<exists>used. inp = used @ rest) \<and>
        (zerr = Z_OK \<longrightarrow> (\<forall>more plain. dec z' (rest @ more) plain \<longrightarrow> dec z (inp @ more) (out @ plain))) \<and>
        (zerr = Z_STREAM_END \<longrightarrow> (\<forall>more. dec z (inp @ more) out)))"

text \<open>What the entry stands for.\<close>

definition entry_plain :: "('z \<Rightarrow> byte list \<Rightarrow> byte list \<Rightarrow> bool) \<Rightarrow> 'z \<Rightarrow> ZipEntry \<Rightarrow> byte list \<Rightarrow> byte list \<Rightarrow> bool" where
  "entry_plain dec z0 e bs plain \<longleftrightarrow>
     (compression e = STORED \<and> plain = raw_bytes e bs \<and> length plain = unat (compLen e)) \<or>
     (compression e = DEFLATED \<and> dec z0 (raw_bytes e bs) plain \<and> of_nat (length plain) = uncompLen e)"

lemma read_file_ok:
  assumes "read_file n f = (int n, buf, f')"
  shows "buf = take n (drop (f_pos f) (f_data f))" "length buf = n" "f_data f' = f_data f" "f_pos f' = f_pos f + n"
  using assms by (auto simp: read_file_def Let_def split: list.splits bool.splits if_splits)

lemma read_file_data: "read_file n f = (cc, buf, f') \<Longrightarrow> f_data f' = f_data f"
  by (auto simp: read_file_def Let_def split: list.splits bool.splits if_splits)

lemma read_file_neg: "read_file n f = (cc, buf, f') \<Longrightarrow> cc < 0 \<Longrightarrow> cc = -1"
  by (auto simp: read_file_def Let_def split: list.splits bool.splits if_splits)

lemma stored_loop_step:
  assumes "0 < n" "read_file (min n BUF_SIZE) f = (k, buf, f1)"
  shows "stored_loop put n f c =
    (if k < 0 \<or> k \<noteq> int (min n BUF_SIZE) then Some (False, f1, c)
     else do { (ret, c1) \<leftarrow> put buf c;
          if \<not> ret then Some (False, f1, c1) else stored_loop put (n - min n BUF_SIZE) f1 c1 })"
proof -
  have m: "(if n > BUF_SIZE then BUF_SIZE else n) = min n BUF_SIZE" by simp
  show ?thesis unfolding stored_loop.simps [of put n] m using assms by (simp add: Let_def)
qed

lemma stored_loop_True:
  assumes "stored_loop put n f c = Some (True, f', c')" "0 < n"
  obtains buf f1 c1 where "read_file (min n BUF_SIZE) f = (int (min n BUF_SIZE), buf, f1)"
    "put buf c = Some (True, c1)" "stored_loop put (n - min n BUF_SIZE) f1 c1 = Some (True, f', c')"
proof -
  obtain k buf f1 where r: "read_file (min n BUF_SIZE) f = (k, buf, f1)" by (metis prod_cases3)
  then show thesis using stored_loop_step [OF assms(2) r, of put c] assms(1) that
    by (auto split: if_splits bind_splits)
qed

text \<open>
  A process function accumulates what it gets: \<open>holds c bs\<close> says that the cookie has received
  \<open>bs\<close>.  The streaming of an entry rests on this alone.
\<close>

locale content_sink =
  fixes put :: "'c processFn" and holds :: "'c \<Rightarrow> byte list \<Rightarrow> bool"
  assumes put_law: "holds c bs \<Longrightarrow> put blk c = Some (True, c') \<Longrightarrow> holds c' (bs @ blk)"
begin

lemma stored_sound:
  "stored_loop put n f c = Some (True, f', c') \<Longrightarrow> holds c bs \<Longrightarrow>
     n \<le> length (drop (f_pos f) (f_data f)) \<and> holds c' (bs @ take n (drop (f_pos f) (f_data f)))"
proof (induction n arbitrary: f c bs rule: less_induct)
  case (less n)
  let ?cnt = "min n BUF_SIZE" and ?d = "drop (f_pos f) (f_data f)"
  show ?case
  proof (cases "n = 0")
    case True
    then show ?thesis using less.prems by (simp add: stored_loop.simps [of put 0])
  next
    case False
    obtain buf f1 c1 where r: "read_file ?cnt f = (int ?cnt, buf, f1)" and c1: "put buf c = Some (True, c1)"
        "stored_loop put (n - ?cnt) f1 c1 = Some (True, f', c')"
      using stored_loop_True [OF less.prems(1)] False by blast
    note rd = read_file_ok [OF r]
    have small: "n - ?cnt < n" using False by (auto simp: BUF_SIZE_def)
    have ih: "n - ?cnt \<le> length (drop ?cnt ?d)" "holds c' ((bs @ take ?cnt ?d) @ take (n - ?cnt) (drop ?cnt ?d))"
      using less.IH [OF small c1(2) put_law [OF less.prems(2) c1(1)]] unfolding rd(1,3,4)
      by (simp_all add: add.commute)
    have len: "?cnt \<le> length ?d" using rd(1,2) by (metis length_take min.cobounded1)
    have sum: "take ?cnt ?d @ take (n - ?cnt) (drop ?cnt ?d) = take n ?d"
      using take_add [of ?cnt "n - ?cnt" ?d] by simp
    have "holds c' (bs @ take n ?d)" using ih(2) unfolding append_assoc sum .
    moreover have "n \<le> length ?d" using ih(1) len by simp
    ultimately show ?thesis by blast
  qed
qed

end

text \<open>The compressed input of a deflated entry that the stream has not consumed yet.\<close>

definition pending :: "('z, 'c) istate \<Rightarrow> byte list" where
  "pending s = i_in s @ take (nat (i_compRemaining s)) (drop (f_pos (i_fd s)) (f_data (i_fd s)))"

lemma refill_ok:
  fixes s s1 :: "('z, 'c) istate"
  assumes "refill s = Done (True, s1)"
  shows "pending s1 = pending s" "i_stream s1 = i_stream s" "i_procBuf s1 = i_procBuf s"
    "i_total s1 = i_total s" "i_cookie s1 = i_cookie s"
    "length (i_in s1) + nat (i_compRemaining s1) = length (i_in s) + nat (i_compRemaining s)"
proof -
  have "pending s1 = pending s \<and> i_stream s1 = i_stream s \<and> i_procBuf s1 = i_procBuf s \<and>
      i_total s1 = i_total s \<and> i_cookie s1 = i_cookie s \<and>
      length (i_in s1) + nat (i_compRemaining s1) = length (i_in s) + nat (i_compRemaining s)"
  proof (cases "i_in s = []")
    case False
    then show ?thesis using assms by (simp add: refill_def)
  next
    case True
    let ?g = "min (i_compRemaining s) (int BUF_SIZE)" and ?d = "drop (f_pos (i_fd s)) (f_data (i_fd s))"
    have g: "(if i_compRemaining s > int BUF_SIZE then int BUF_SIZE else i_compRemaining s) = ?g" by simp
    obtain cc buf f where r: "read_file (nat (?g mod 2 ^ 32)) (i_fd s) = (cc, buf, f)" by (metis prod_cases3)
    have ok: "cc = ?g" "0 \<le> ?g" "s1 = s\<lparr>i_fd := f, i_in := buf, i_compRemaining := i_compRemaining s - ?g\<rparr>"
      using assms True r unfolding refill_def g by (auto simp: Let_def split: if_splits)
    have "?g mod 2 ^ 32 = ?g" using ok(2) by (intro mod_pos_pos_trivial) (auto simp: BUF_SIZE_def)
    then have r': "read_file (nat ?g) (i_fd s) = (int (nat ?g), buf, f)" using r ok(1,2) by simp
    note rd = read_file_ok [OF r']
    have "nat (i_compRemaining s - ?g) = nat (i_compRemaining s) - nat ?g" using ok(2) by (simp add: nat_diff_distrib)
    moreover have le: "nat ?g \<le> nat (i_compRemaining s)" by (simp add: nat_mono)
    ultimately have "take (nat ?g) ?d @ take (nat (i_compRemaining s - ?g)) (drop (nat ?g) ?d) = take (nat (i_compRemaining s)) ?d"
      using take_add [of "nat ?g" "nat (i_compRemaining s) - nat ?g" ?d] by simp
    then have "pending s1 = pending s" using True ok(3) rd by (simp add: pending_def add.commute)
    then show ?thesis using ok(3) True rd(2) le \<open>nat (i_compRemaining s - ?g) = _\<close> by simp
  qed
  then show "pending s1 = pending s" "i_stream s1 = i_stream s" "i_procBuf s1 = i_procBuf s"
    "i_total s1 = i_total s" "i_cookie s1 = i_cookie s"
    "length (i_in s1) + nat (i_compRemaining s1) = length (i_in s) + nat (i_compRemaining s)" by blast+
qed

context content_sink
begin

lemma flush_sound:
  assumes "flush put zerr s = Done (True, s')" "holds (i_cookie s) bs"
  shows "\<exists>bs'. holds (i_cookie s') bs' \<and> bs' @ i_procBuf s' = bs @ i_procBuf s \<and>
    (zerr = Z_STREAM_END \<longrightarrow> i_procBuf s' = []) \<and> pending s' = pending s \<and> i_stream s' = i_stream s \<and>
    i_total s' = i_total s"
  using assms put_law [OF assms(2)]
  by (auto simp: flush_def pending_def split: if_splits option.splits)

text \<open>One iteration without an error: what the stream stands for is received or still to come.\<close>

lemma inflate_step_sound:
  fixes s s' :: "('z, 'c) istate"
  assumes inf: "inflates inflate dec" and step: "inflate_step inflate put s = Done (go, result, s')"
    and ok: "go \<or> result \<noteq> -1" and h: "holds (i_cookie s) bs"
  shows "\<exists>bs' out. holds (i_cookie s') bs' \<and> bs' @ i_procBuf s' = bs @ i_procBuf s @ out \<and>
    i_total s' = i_total s + of_nat (length out) \<and>
    (if go then \<forall>plain. dec (i_stream s') (pending s') plain \<longrightarrow> dec (i_stream s) (pending s) (out @ plain)
     else i_procBuf s' = [] \<and> dec (i_stream s) (pending s) out \<and> result = sint (i_total s'))"
proof -
  obtain s1 where s1: "refill s = Done (True, s1)"
    using step ok by (auto simp: inflate_step_def split: outcome.splits bool.splits)
  note rf = refill_ok [OF s1]
  obtain zerr z out rest where i: "inflate (i_stream s1) (i_in s1) (BUF_SIZE - length (i_procBuf s1)) = (zerr, z, out, rest)"
    by (metis prod_cases4)
  let ?s2 = "s1\<lparr>i_stream := z, i_in := rest, i_procBuf := i_procBuf s1 @ out,
                  i_total := i_total s1 + of_nat (length out)\<rparr>"
  have f: "zerr = Z_OK \<or> zerr = Z_STREAM_END" "flush put zerr ?s2 = Done (True, s')"
      "go = (zerr = Z_OK)" "result = sint (i_total s')"
    using step ok s1 i by (auto simp: inflate_step_def Let_def split: outcome.splits bool.splits if_splits)
  obtain bs' where bs': "holds (i_cookie s') bs'" "bs' @ i_procBuf s' = bs @ i_procBuf s @ out"
      "zerr = Z_STREAM_END \<longrightarrow> i_procBuf s' = []" "pending s' = pending ?s2" "i_stream s' = z"
      "i_total s' = i_total s + of_nat (length out)"
    using flush_sound [OF f(2), of bs] h rf by auto
  let ?rem = "take (nat (i_compRemaining s1)) (drop (f_pos (i_fd s1)) (f_data (i_fd s1)))"
  have p: "pending s = i_in s1 @ ?rem" "pending s' = rest @ ?rem"
    using rf(1) bs'(4) by (simp_all add: pending_def)
  have "zerr = Z_OK \<Longrightarrow> dec z (rest @ ?rem) plain \<Longrightarrow> dec (i_stream s) (pending s) (out @ plain)" for plain
    using inf i rf(2) unfolding inflates_def p by metis
  moreover have "zerr = Z_STREAM_END \<Longrightarrow> dec (i_stream s) (pending s) out"
    using inf i rf(2) unfolding inflates_def p by metis
  ultimately show ?thesis using f bs' p by auto
qed

text \<open>What a loop from \<open>s\<close> that ends with \<open>r\<close> without an error has done.\<close>

definition decodes :: "('z \<Rightarrow> byte list \<Rightarrow> byte list \<Rightarrow> bool) \<Rightarrow> ('z, 'c) istate \<Rightarrow> (int \<times> ('z, 'c) istate) outcome \<Rightarrow> bool" where
  "decodes dec s r \<longleftrightarrow> (\<forall>result s' bs. r = Done (result, s') \<longrightarrow> result \<noteq> -1 \<longrightarrow> holds (i_cookie s) bs \<longrightarrow>
      (\<exists>plain. dec (i_stream s) (pending s) plain \<and> holds (i_cookie s') (bs @ i_procBuf s @ plain) \<and>
        result = sint (i_total s + of_nat (length plain))))"

lemma decodes_step:
  assumes inf: "inflates inflate dec" and step: "inflate_step inflate put s = Done (go, result, s1)"
    and r: "if go then decodes dec s1 r else r = Done (result, s1)"
  shows "decodes dec s r"
  unfolding decodes_def
proof (intro allI impI)
  fix result' s' bs
  assume d: "r = Done (result', s')" "result' \<noteq> -1" "holds (i_cookie s) bs"
  have ok: "go \<or> result \<noteq> -1" using r d by auto
  obtain bs' out where o: "holds (i_cookie s1) bs'" "bs' @ i_procBuf s1 = bs @ i_procBuf s @ out"
      "i_total s1 = i_total s + of_nat (length out)"
      "if go then \<forall>plain. dec (i_stream s1) (pending s1) plain \<longrightarrow> dec (i_stream s) (pending s) (out @ plain)
       else i_procBuf s1 = [] \<and> dec (i_stream s) (pending s) out \<and> result = sint (i_total s1)"
    using inflate_step_sound [OF inf step ok d(3)] by blast
  show "\<exists>plain. dec (i_stream s) (pending s) plain \<and> holds (i_cookie s') (bs @ i_procBuf s @ plain) \<and>
      result' = sint (i_total s + of_nat (length plain))"
  proof (cases go)
    case True
    obtain plain where p: "dec (i_stream s1) (pending s1) plain" "holds (i_cookie s') (bs' @ i_procBuf s1 @ plain)"
        "result' = sint (i_total s1 + of_nat (length plain))"
      using r True d o(1) unfolding decodes_def by auto
    have "dec (i_stream s) (pending s) (out @ plain)" using o(4) True p(1) by simp
    moreover have "holds (i_cookie s') (bs @ i_procBuf s @ out @ plain)" using p(2) o(2) by (metis append_assoc)
    moreover have "result' = sint (i_total s + of_nat (length (out @ plain)))" using p(3) o(3) by (simp add: add.assoc)
    ultimately show ?thesis by blast
  next
    case False
    then have "holds (i_cookie s1) (bs @ i_procBuf s @ out)" using o(1,2,4) by simp
    then show ?thesis using False r d(1) o(3,4) by auto
  qed
qed

lemma inflate_loop_sound:
  assumes "inflates inflate dec" "inflate_loop inflate put s = Some r"
  shows "decodes dec s r"
proof -
  have "inflate = inflate \<longrightarrow> put = put \<longrightarrow> decodes dec s r"
  proof (rule inflate_loop.raw_induct [where P = "\<lambda>i p s r. i = inflate \<longrightarrow> p = put \<longrightarrow> decodes dec s r", OF _ assms(2)])
    fix rec i p s r
    assume IH: "\<And>i p s r. rec i p s = Some r \<Longrightarrow> i = inflate \<longrightarrow> p = put \<longrightarrow> decodes dec s r"
      and b: "(case inflate_step i p s of Fault \<Rightarrow> Some Fault
        | Done (go, result, s) \<Rightarrow> if go then rec i p s else Some (Done (result, s))) = Some r"
    show "i = inflate \<longrightarrow> p = put \<longrightarrow> decodes dec s r"
    proof (intro impI, cases "inflate_step i p s")
      case Fault
      then show "decodes dec s r" using b by (simp add: decodes_def)
    next
      fix x assume ip: "i = inflate" "p = put" and x: "inflate_step i p s = Done x"
      obtain go result s1 where go: "x = (go, result, s1)" by (metis prod_cases3)
      have "if go then decodes dec s1 r else r = Done (result, s1)" using b x go ip IH by (auto split: if_splits)
      then show "decodes dec s r" using decodes_step [OF assms(1)] x go ip by simp
    qed
  qed
  then show ?thesis by simp
qed

end

lemma lseek_set_data [simp]: "f_data (lseek_set off f) = f_data f"
  by (simp add: lseek_set_def)

lemma sint_eq_m1: "sint (w :: u32) = -1 \<longleftrightarrow> w = -1"
  by (metis signed_minus_1 signed_word_eqI)

context content_sink
begin

lemma contents_sound:
  fixes zl :: "'z zlib"
  assumes inf: "inflates (z_inflate zl) dec"
    and run: "mzProcessZipEntryContents zl put e f c = Some (Done (True, f', c'))"
    and h: "holds c []" and e: "uncompLen e \<noteq> -1" "0 \<le> sint (offset e)" "0 \<le> sint (compLen e)"
  shows "\<exists>plain. entry_plain dec (snd (z_init zl)) e (f_data f) plain \<and> holds c' plain"
proof -
  define f0 where "f0 = lseek_set (sint (offset e)) f"
  have pos: "f_data f0 = f_data f" "f_pos f0 = unat (offset e)"
    using sint_nonneg_u32 [OF e(2)] e(2) by (simp_all add: f0_def lseek_set_def)
  consider (stored) "compression e = STORED" | (deflated) "compression e = DEFLATED" "compression e \<noteq> STORED"
    using run by (auto simp: mzProcessZipEntryContents_def Let_def split: if_splits)
  then show ?thesis
  proof cases
    case stored
    obtain f1 where "processStoredEntry put e f0 c = Some (True, f1, c')"
      using run stored unfolding f0_def by (auto simp: mzProcessZipEntryContents_def Let_def split: option.splits)
    then have "unat (compLen e) \<le> length (drop (unat (offset e)) (f_data f)) \<and> holds c' (raw_bytes e (f_data f))"
      using stored_sound [of "unat (compLen e)" f0 c f1 c' "[]"] h pos
      by (simp add: processStoredEntry_def raw_bytes_def)
    then show ?thesis using stored by (auto simp: entry_plain_def raw_bytes_def)
  next
    case deflated
    let ?s = "\<lparr>i_stream = snd (z_init zl), i_in = [], i_procBuf = [], i_total = 0,
                i_compRemaining = sint (compLen e), i_fd = f0, i_cookie = c\<rparr>"
    have "fst (z_init zl) = Z_OK"
    proof (rule ccontr)
      assume "fst (z_init zl) \<noteq> Z_OK"
      then have "- 1 = sint (uncompLen e)" using run deflated unfolding f0_def
        by (simp add: mzProcessZipEntryContents_def Let_def processDeflatedEntry_def case_prod_beta)
      then show False using e(1) sint_eq_m1 by metis
    qed
    then obtain result s' where s': "inflate_loop (z_inflate zl) put ?s = Some (Done (result, s'))"
        "result = sint (uncompLen e)" "i_cookie s' = c'"
      using run deflated unfolding f0_def
      by (auto simp: mzProcessZipEntryContents_def Let_def processDeflatedEntry_def case_prod_beta split: outcome.splits)
    have "result \<noteq> -1" using s'(2) e(1) sint_eq_m1 by metis
    moreover have "pending ?s = raw_bytes e (f_data f)"
      using pos sint_nonneg_u32 [OF e(3)] by (simp add: pending_def raw_bytes_def)
    ultimately obtain plain where "dec (snd (z_init zl)) (raw_bytes e (f_data f)) plain" "holds c' plain"
        "sint (uncompLen e) = sint (of_nat (length plain) :: u32)"
      using inflate_loop_sound [OF inf s'(1)] h s'(2,3) unfolding decodes_def by fastforce
    then show ?thesis using deflated unfolding entry_plain_def by (metis signed_word_eqI)
  qed
qed

end

text \<open>
  A process function that stays inside its buffer: from a cookie that satisfies the invariant every
  block is handled, accepted or refused, and the invariant is kept.
\<close>

locale bounded_sink = content_sink put holds for put :: "'c processFn" and holds +
  fixes inv :: "'c \<Rightarrow> bool"
  assumes put_total: "inv c \<Longrightarrow> \<exists>ret c'. put blk c = Some (ret, c') \<and> inv c'"
begin

lemma stored_total: "inv c \<Longrightarrow> stored_loop put n f c \<noteq> None"
proof (induction n arbitrary: f c rule: less_induct)
  case (less n)
  obtain k buf f1 where r: "read_file (if n > BUF_SIZE then BUF_SIZE else n) f = (k, buf, f1)" by (metis prod_cases3)
  obtain ret c1 where c1: "put buf c = Some (ret, c1)" "inv c1" using put_total [OF less.prems] by blast
  have "stored_loop put (n - (if n > BUF_SIZE then BUF_SIZE else n)) f1 c1 \<noteq> None" if "0 < n"
    using less.IH [OF _ c1(2)] that by (simp add: BUF_SIZE_def)
  then show ?case by (subst stored_loop.simps) (simp add: r c1 Let_def del: not_None_eq)
qed

definition in_bounds :: "('z, 'c) istate \<Rightarrow> bool" where
  "in_bounds s \<longleftrightarrow> 0 \<le> i_compRemaining s \<and> inv (i_cookie s)"

lemma refill_total:
  assumes "in_bounds s"
  shows "\<exists>b s'. refill s = Done (b, s') \<and> in_bounds s'"
proof (cases "i_in s = []")
  case True
  define g where "g = (if i_compRemaining s > int BUF_SIZE then int BUF_SIZE else i_compRemaining s)"
  have g: "0 \<le> g" "g \<le> i_compRemaining s" using assms by (auto simp: g_def in_bounds_def)
  obtain cc buf f where r: "read_file (nat (g mod 2 ^ 32)) (i_fd s) = (cc, buf, f)" by (metis prod_cases3)
  have "refill s = (if cc \<noteq> g then Done (False, s\<lparr>i_fd := f\<rparr>)
      else Done (True, s\<lparr>i_fd := f, i_in := buf, i_compRemaining := i_compRemaining s - g\<rparr>))"
    using True g r unfolding refill_def g_def [symmetric] by (simp add: Let_def)
  then show ?thesis using assms g by (auto simp: in_bounds_def)
qed (use assms in \<open>auto simp: refill_def\<close>)

lemma flush_total:
  assumes "in_bounds s"
  shows "\<exists>b s'. flush put zerr s = Done (b, s') \<and> in_bounds s'"
proof -
  obtain ret c' where "put (i_procBuf s) (i_cookie s) = Some (ret, c')" "inv c'"
    using put_total [of "i_cookie s" "i_procBuf s"] assms unfolding in_bounds_def by blast
  then show ?thesis using assms by (auto simp: flush_def in_bounds_def)
qed

lemma inflate_step_total:
  assumes "in_bounds s"
  shows "\<exists>go result s'. inflate_step inflate put s = Done (go, result, s') \<and> in_bounds s'"
proof -
  obtain b s1 where s1: "refill s = Done (b, s1)" "in_bounds s1" using refill_total [OF assms] by blast
  obtain zerr z out rest where i: "inflate (i_stream s1) (i_in s1) (BUF_SIZE - length (i_procBuf s1)) = (zerr, z, out, rest)"
    by (metis prod_cases4)
  let ?s2 = "s1\<lparr>i_stream := z, i_in := rest, i_procBuf := i_procBuf s1 @ out,
                  i_total := i_total s1 + of_nat (length out)\<rparr>"
  have "in_bounds ?s2" using s1(2) by (simp add: in_bounds_def)
  then obtain b' s' where "flush put zerr ?s2 = Done (b', s')" "in_bounds s'" using flush_total by blast
  then show ?thesis using s1 i \<open>in_bounds ?s2\<close>
    by (cases b; cases b') (auto simp: inflate_step_def Let_def)
qed

lemma inflate_loop_total:
  assumes "inflate_loop inflate put s = Some r" "in_bounds s"
  shows "r \<noteq> Fault"
proof -
  have "p = put \<longrightarrow> in_bounds s \<longrightarrow> r \<noteq> Fault" if "inflate_loop inflate p s = Some r" for p s
  proof (rule inflate_loop.raw_induct [where P = "\<lambda>i p s r. p = put \<longrightarrow> in_bounds s \<longrightarrow> r \<noteq> Fault", OF _ that])
    fix rec and i :: "'z inflate_fn" and p s r
    assume IH: "\<And>i p s r. rec i p s = Some r \<Longrightarrow> p = put \<longrightarrow> in_bounds s \<longrightarrow> r \<noteq> Fault"
      and b: "(case inflate_step i p s of Fault \<Rightarrow> Some Fault
        | Done (go, result, s) \<Rightarrow> if go then rec i p s else Some (Done (result, s))) = Some r"
    show "p = put \<longrightarrow> in_bounds s \<longrightarrow> r \<noteq> Fault"
      using b IH [of i put] inflate_step_total [of s i] by (fastforce split: if_splits)
  qed
  then show ?thesis using assms by blast
qed

lemma contents_in_bounds:
  assumes "inv c" "0 \<le> sint (compLen e)"
  shows "mzProcessZipEntryContents zl put e f c \<noteq> Some Fault"
proof -
  have nf: "inflate_loop (z_inflate zl) put s \<noteq> Some Fault" if "in_bounds s" for s
    using inflate_loop_total that by blast
  have "processDeflatedEntry (z_init zl) (z_inflate zl) put e f1 c \<noteq> Some Fault" for f1
    using assms by (auto simp: processDeflatedEntry_def case_prod_beta Let_def nf in_bounds_def)
  moreover have "processStoredEntry put e f1 c \<noteq> None" for f1
    using stored_total [OF assms(1)] by (auto simp: processStoredEntry_def)
  ultimately show ?thesis
    by (auto simp: mzProcessZipEntryContents_def Let_def simp del: not_None_eq split: option.splits)
qed

end

section \<open>Termination\<close>

text \<open>
  Progress of \<^verbatim>\<open>inflate\<close>: with room in the output, \<^verbatim>\<open>Z_OK\<close> means that input was consumed or output
  produced, and the output of a stream is bounded by its input.  \<open>w\<close> bounds the output still held in a
  state, \<open>k\<close> the output one input byte can give.
\<close>

definition inflate_progress :: "'z inflate_fn \<Rightarrow> ('z \<Rightarrow> nat) \<Rightarrow> nat \<Rightarrow> bool" where
  "inflate_progress inflate w k \<longleftrightarrow>
     (\<forall>z inp n z' out rest. inflate z inp n = (Z_OK, z', out, rest) \<and> 0 < n \<longrightarrow>
        length out \<le> n \<and> w z' + k * length rest < w z + k * length inp)"

lemma inflate_step_progress:
  fixes s s' :: "('z, 'c) istate"
  assumes "inflate_progress inflate w k" "length (i_procBuf s) < BUF_SIZE"
    and "inflate_step inflate put s = Done (True, result, s')"
  shows "length (i_procBuf s') < BUF_SIZE \<and>
    w (i_stream s') + k * (length (i_in s') + nat (i_compRemaining s')) <
    w (i_stream s) + k * (length (i_in s) + nat (i_compRemaining s))"
proof -
  obtain s1 where s1: "refill s = Done (True, s1)"
    using assms(3) by (auto simp: inflate_step_def split: outcome.splits bool.splits)
  note rf = refill_ok [OF s1]
  obtain zerr z out rest where i: "inflate (i_stream s1) (i_in s1) (BUF_SIZE - length (i_procBuf s1)) = (zerr, z, out, rest)"
    by (metis prod_cases4)
  let ?s2 = "s1\<lparr>i_stream := z, i_in := rest, i_procBuf := i_procBuf s1 @ out,
                  i_total := i_total s1 + of_nat (length out)\<rparr>"
  have f: "zerr = Z_OK" "flush put zerr ?s2 = Done (True, s')"
    using assms(3) s1 i by (auto simp: inflate_step_def Let_def split: outcome.splits bool.splits if_splits)
  have p: "length out \<le> BUF_SIZE - length (i_procBuf s1)" "w z + k * length rest < w (i_stream s1) + k * length (i_in s1)"
    using assms(1,2) i f(1) rf(3) unfolding inflate_progress_def by fastforce+
  have s': "i_stream s' = z" "i_in s' = rest" "i_compRemaining s' = i_compRemaining s1"
      "length (i_procBuf s') < BUF_SIZE"
    using f p(1) assms(2) rf(3) by (auto simp: flush_def BUF_SIZE_def Z_OK_def Z_STREAM_END_def split: if_splits option.splits)
  have "w z + k * (length rest + nat (i_compRemaining s1)) < w (i_stream s1) + k * (length (i_in s1) + nat (i_compRemaining s1))"
    using p(2) by (simp add: distrib_left)
  then show ?thesis using s' rf(2,6) by simp
qed

lemma inflate_loop_terminates:
  fixes s :: "('z, 'c) istate"
  assumes "inflate_progress inflate w k"
  shows "length (i_procBuf s) < BUF_SIZE \<Longrightarrow> inflate_loop inflate put s \<noteq> None"
proof (induction "w (i_stream s) + k * (length (i_in s) + nat (i_compRemaining s))" arbitrary: s rule: less_induct)
  case less
  show ?case
  proof (cases "inflate_step inflate put s")
    case Fault
    then show ?thesis by (simp add: inflate_loop.simps [of inflate put s])
  next
    case (Done x)
    obtain go result s' where x: "x = (go, result, s')" by (metis prod_cases3)
    show ?thesis
    proof (cases go)
      case True
      then show ?thesis using inflate_step_progress [OF assms less.prems, of put result s'] less.hyps [of s'] Done x
        by (simp add: inflate_loop.simps [of inflate put s] del: not_None_eq)
    qed (simp add: inflate_loop.simps [of inflate put s] Done x)
  qed
qed

section \<open>The process functions meet the contract\<close>

definition dest_holds :: "byte list \<Rightarrow> int \<Rightarrow> dest \<Rightarrow> byte list \<Rightarrow> bool" where
  "dest_holds mem len d bs \<longleftrightarrow> d_pos d = length bs \<and> length bs \<le> length mem \<and>
     d_mem d = bs @ drop (length bs) mem \<and> d_len d = len - int (length bs)"

definition dest_inv :: "dest \<Rightarrow> bool" where
  "dest_inv d \<longleftrightarrow> d_len d < 0 \<or> int (d_pos d) + d_len d \<le> int (length (d_mem d))"

definition crc_holds :: "(u32 \<Rightarrow> byte list \<Rightarrow> u32) \<Rightarrow> u32 \<Rightarrow> byte list \<Rightarrow> bool" where
  "crc_holds crcf crc bs \<longleftrightarrow> (\<exists>blks. concat blks = bs \<and> crc = foldl crcf 0 blks)"

definition file_holds :: "byte list \<Rightarrow> wfile \<Rightarrow> byte list \<Rightarrow> bool" where
  "file_holds before fd bs \<longleftrightarrow> w_data fd = before @ bs"

lemma put_bytes_holds: "dest_holds mem len d bs \<Longrightarrow> put_bytes blk d = Some d' \<Longrightarrow> dest_holds mem len d' (bs @ blk)"
  by (auto simp: put_bytes_def dest_holds_def add.commute split: if_splits)

definition copy_holds :: "byte list \<Rightarrow> int \<Rightarrow> dest \<Rightarrow> byte list \<Rightarrow> bool" where
  "copy_holds mem len d bs \<longleftrightarrow> dest_holds mem len d bs \<and> (bs = [] \<or> 0 \<le> d_len d)"

interpretation copy_sink: bounded_sink copyProcessFunction "copy_holds mem len" dest_inv for mem len
proof
  show "copy_holds mem len c bs \<Longrightarrow> copyProcessFunction blk c = Some (True, c') \<Longrightarrow> copy_holds mem len c' (bs @ blk)"
    for c bs blk c'
    by (auto simp: copyProcessFunction_def copy_holds_def put_bytes_holds put_bytes_def [of blk c] split: if_splits bind_splits)
  show "dest_inv c \<Longrightarrow> \<exists>ret c'. copyProcessFunction blk c = Some (ret, c') \<and> dest_inv c'" for c blk
    by (auto simp: copyProcessFunction_def put_bytes_def dest_inv_def)
qed

interpretation buffer_sink: content_sink bufferProcessFunction "dest_holds mem len" for mem len
  by unfold_locales (auto simp: bufferProcessFunction_def put_bytes_holds split: bind_splits)

interpretation crc_sink: bounded_sink "crcProcessFunction crcf" "crc_holds crcf" "\<lambda>_. True" for crcf
proof
  show "crc_holds crcf c bs \<Longrightarrow> crcProcessFunction crcf blk c = Some (True, c') \<Longrightarrow> crc_holds crcf c' (bs @ blk)"
    for c bs blk c'
  proof -
    assume "crc_holds crcf c bs" and c': "crcProcessFunction crcf blk c = Some (True, c')"
    then obtain blks where "concat blks = bs" "c = foldl crcf 0 blks" by (auto simp: crc_holds_def)
    then have "concat (blks @ [blk]) = bs @ blk" "c' = foldl crcf 0 (blks @ [blk])"
      using c' by (simp_all add: crcProcessFunction_def)
    then show "crc_holds crcf c' (bs @ blk)" unfolding crc_holds_def by blast
  qed
qed (auto simp: crcProcessFunction_def)

lemma write_sched_holds: "write_sched sched blk out = (True, out', sched') \<Longrightarrow> out' = out @ blk"
  by (induction sched blk out rule: write_sched.induct) (auto split: if_splits)

interpretation file_sink: bounded_sink writeProcessFunction "file_holds before" "\<lambda>_. True" for before
  by unfold_locales
    (auto simp: writeProcessFunction_def file_holds_def split: prod.splits dest: write_sched_holds)

section \<open>Properties\<close>

text \<open>A read without a scheduled error in the file succeeds.\<close>

lemma stored_accepts:
  assumes acc: "\<And>blk c ret c'. P c \<Longrightarrow> put blk c = Some (ret, c') \<Longrightarrow> ret \<and> P c'"
  shows "P c \<Longrightarrow> f_errs f = [] \<Longrightarrow> n \<le> length (drop (f_pos f) (f_data f)) \<Longrightarrow>
    stored_loop put n f c = Some (r, f', c') \<Longrightarrow> r"
proof (induction n arbitrary: f c rule: less_induct)
  case (less n)
  let ?cnt = "min n BUF_SIZE"
  let ?f1 = "f\<lparr>f_pos := f_pos f + ?cnt, f_errs := []\<rparr>" and ?buf = "take ?cnt (drop (f_pos f) (f_data f))"
  have "length ?buf = ?cnt" "int ?cnt < 2147483648" using less.prems(3) by (auto simp: BUF_SIZE_def)
  then have rd: "read_file ?cnt f = (int ?cnt, ?buf, ?f1)"
    using less.prems(2) unfolding read_file_def by (simp add: Let_def BUF_SIZE_def)
  show ?case
  proof (cases "n = 0")
    case True
    then show ?thesis using less.prems(4) by (simp add: stored_loop.simps [of put 0])
  next
    case False
    then have n: "0 < n" by simp
    obtain ret c1 where c1: "put ?buf c = Some (ret, c1)"
      using less.prems(4) stored_loop_step [OF n rd, of put c] by (auto split: bind_splits)
    have "ret \<and> P c1" using acc [OF less.prems(1) c1] .
    moreover have "stored_loop put (n - ?cnt) ?f1 c1 = Some (r, f', c')"
      using less.prems(4) c1 calculation stored_loop_step [OF n rd, of put c] by simp
    moreover have "n - ?cnt < n" using n by (simp add: BUF_SIZE_def)
    moreover have "n - ?cnt \<le> length (drop (f_pos ?f1) (f_data ?f1))" using less.prems(3) by auto
    ultimately show ?thesis using less.IH [of "n - ?cnt" c1 ?f1] by simp
  qed
qed

text \<open>The documented behaviour of \<^verbatim>\<open>crc32\<close>: the value of a concatenation is computed piecewise.\<close>

definition crc_chains :: "(u32 \<Rightarrow> byte list \<Rightarrow> u32) \<Rightarrow> bool" where
  "crc_chains crcf \<longleftrightarrow> (\<forall>c. crcf c [] = c) \<and> (\<forall>c a b. crcf (crcf c a) b = crcf c (a @ b))"

lemma crc_holds_chain: "crc_chains crcf \<Longrightarrow> crc_holds crcf crc bs \<Longrightarrow> crc = crcf 0 bs"
proof -
  have "crc_chains crcf \<Longrightarrow> foldl crcf c blks = crcf c (concat blks)" for c blks
    by (induction blks arbitrary: c) (auto simp: crc_chains_def)
  then show "crc_chains crcf \<Longrightarrow> crc_holds crcf crc bs \<Longrightarrow> crc = crcf 0 bs" by (auto simp: crc_holds_def)
qed

text \<open>An entry whose offset and compressed length are not negative as \<^verbatim>\<open>long\<close>.\<close>

definition plain_entry :: "ZipEntry \<Rightarrow> bool" where
  "plain_entry e \<longleftrightarrow> 0 \<le> sint (offset e) \<and> 0 \<le> sint (compLen e) \<and> uncompLen e \<noteq> -1"

text \<open>
  Reading an entry into a buffer writes at most \<^verbatim>\<open>bufLen\<close> bytes and never outside the buffer,
  whatever the archive holds, and on success the buffer starts with the uncompressed contents of the
  entry and is otherwise unchanged.\<close>

theorem read_entry_contents:
  assumes "inflates (z_inflate zl) dec" "plain_entry e" "bufLen \<le> int (length buf)"
  shows "mzReadZipEntry zl e f buf bufLen \<noteq> Some Fault \<and>
    (\<forall>f' buf'. mzReadZipEntry zl e f buf bufLen = Some (Done (True, f', buf')) \<longrightarrow>
      (\<exists>plain. entry_plain dec (snd (z_init zl)) e (f_data f) plain \<and> (plain = [] \<or> int (length plain) \<le> bufLen) \<and>
        buf' = plain @ drop (length plain) buf))"
proof (intro conjI allI impI)
  let ?d = "\<lparr>d_mem = buf, d_pos = 0, d_len = bufLen\<rparr>"
  have inv: "dest_inv ?d" using assms(3) by (simp add: dest_inv_def)
  show "mzReadZipEntry zl e f buf bufLen \<noteq> Some Fault"
    using copy_sink.contents_in_bounds [OF inv, of e zl f] assms(2) by (auto simp: mzReadZipEntry_def plain_entry_def)
  fix f' buf'
  assume "mzReadZipEntry zl e f buf bufLen = Some (Done (True, f', buf'))"
  then obtain d where d: "mzProcessZipEntryContents zl copyProcessFunction e f ?d = Some (Done (True, f', d))" "d_mem d = buf'"
    by (auto simp: mzReadZipEntry_def)
  have "copy_holds buf bufLen ?d []" by (simp add: copy_holds_def dest_holds_def)
  then obtain plain where "entry_plain dec (snd (z_init zl)) e (f_data f) plain" "copy_holds buf bufLen d plain"
    using copy_sink.contents_sound [OF assms(1) d(1), of buf bufLen] assms(2) by (auto simp: plain_entry_def)
  then show "\<exists>plain. entry_plain dec (snd (z_init zl)) e (f_data f) plain \<and> (plain = [] \<or> int (length plain) \<le> bufLen) \<and>
        buf' = plain @ drop (length plain) buf"
    using d(2) by (auto simp: copy_holds_def dest_holds_def)
qed

text \<open>
  C24. The CRC check accepts an entry whose offset and compressed length are not negative and whose
  uncompressed length is not \<open>2 ^ 32 - 1\<close> only if the CRC of its uncompressed contents is the one of
  the central directory.\<close>

theorem intact_crc:
  assumes "inflates (z_inflate zl) dec" "plain_entry e" "crc_chains crcf"
    and "mzIsZipEntryIntact zl crcf e f = Some (Done (True, f'))"
  shows "\<exists>plain. entry_plain dec (snd (z_init zl)) e (f_data f) plain \<and> crcf 0 plain = crc32 e"
proof -
  obtain f1 crc where run: "mzProcessZipEntryContents zl (crcProcessFunction crcf) e f 0 = Some (Done (True, f1, crc))"
      "crc = crc32 e"
    using assms(4) by (auto simp: mzIsZipEntryIntact_def split: if_splits)
  have "crc_holds crcf 0 []" by (auto simp: crc_holds_def intro: exI [of _ "[]"])
  then show ?thesis
    using crc_sink.contents_sound [OF assms(1) run(1)] assms(2) crc_holds_chain [OF assms(3)] run(2)
    by (auto simp: plain_entry_def)
qed

text \<open>
  Extracting an entry to a file appends its uncompressed contents to the file, through any
  sequence of short and interrupted writes.\<close>

theorem extract_to_file_contents:
  assumes "inflates (z_inflate zl) dec" "plain_entry e"
    and "mzExtractZipEntryToFile zl e f fd = Some (Done (True, f', fd'))"
  shows "\<exists>plain. entry_plain dec (snd (z_init zl)) e (f_data f) plain \<and> w_data fd' = w_data fd @ plain"
  using file_sink.contents_sound [OF assms(1), of e f fd f' fd' "w_data fd"] assms(2,3)
  by (auto simp: plain_entry_def mzExtractZipEntryToFile_def file_holds_def)

text \<open>
  C26. Streaming an entry always ends, with success, failure or a fault, when \<^verbatim>\<open>inflate\<close> makes the
  progress it documents.\<close>

theorem contents_terminates:
  assumes "inflate_progress (z_inflate zl) w k"
  shows "\<exists>x. mzProcessZipEntryContents zl put e f c = Some x"
proof -
  have "processDeflatedEntry (z_init zl) (z_inflate zl) put e f1 c \<noteq> None" for f1
    by (simp add: processDeflatedEntry_def case_prod_beta Let_def BUF_SIZE_def inflate_loop_terminates [OF assms]
        del: not_None_eq)
  then show ?thesis by (auto simp: mzProcessZipEntryContents_def Let_def)
qed

text \<open>The schedule only interrupts writes.\<close>

definition only_interrupts :: "wfile \<Rightarrow> bool" where
  "only_interrupts fd \<longleftrightarrow> list_all (\<lambda>o'. o' = W_fail EINTR) (w_sched fd)"

lemma write_interrupted:
  assumes "only_interrupts fd" "writeProcessFunction blk fd = Some (ret, fd')"
  shows "ret \<and> only_interrupts fd'"
proof -
  have "list_all (\<lambda>o'. o' = W_fail EINTR) sched \<Longrightarrow> write_sched sched blk out = (True, out @ blk, [])" for sched out
    by (induction sched) auto
  then show ?thesis using assms by (auto simp: writeProcessFunction_def only_interrupts_def)
qed

text \<open>
  C14. Every stored entry of an archive that was opened can be extracted: the range check made when
  the directory was parsed ensures that its bytes are in the file, so the extraction succeeds, appends
  exactly these bytes and leaves the position of the archive's descriptor as it was.\<close>

theorem opened_entry_extracts:
  assumes "parseZipArchive entries_ok calloc safe_addu safe_adds fd r = Parsed z"
    and "safe_iop safe_addu safe_adds" "region_ok r" "i < mzZipEntryCount z"
    and "mzGetZipEntryAt z i = Some e" "compression e = STORED" "plain_entry e"
    and "f_data f = r_bytes r" "f_errs f = []" "only_interrupts out"
  shows "\<exists>f' out'. mzExtractZipEntryToFile zl e f out = Some (Done (True, f', out')) \<and>
    w_data out' = w_data out @ raw_bytes e (r_bytes r) \<and> length (raw_bytes e (r_bytes r)) = unat (compLen e) \<and> f_pos f' = f_pos f"
proof -
  have "e \<in> set (z_pEntries z)" "z_map z = r"
    using parsed_entries [OF assms(1-3)] assms(4,5) by (auto simp: mzGetZipEntryAt_def mzZipEntryCount_def)
  then have fit: "unat (offset e) + unat (compLen e) \<le> length (r_bytes r)"
    using parsed_entries [OF assms(1-3)] assms(7) by (auto simp: entry_ok_def plain_entry_def)
  define f0 where "f0 = lseek_set (sint (offset e)) f"
  have f0: "f_pos f0 = unat (offset e)" "f_data f0 = r_bytes r" "f_errs f0 = []"
    using assms(7-9) sint_nonneg_u32 [of "offset e"] by (auto simp: f0_def lseek_set_def plain_entry_def)
  obtain ok f1 out' where run: "stored_loop writeProcessFunction (unat (compLen e)) f0 out = Some (ok, f1, out')"
    using file_sink.stored_total [of "unat (compLen e)" f0 out] by auto
  have ok: "ok"
    by (rule stored_accepts [where P = only_interrupts, OF _ assms(10) f0(3) _ run])
      (use f0 fit write_interrupted in auto)
  then have "file_holds (w_data out) out' ([] @ take (unat (compLen e)) (drop (f_pos f0) (f_data f0)))"
    using file_sink.stored_sound [of _ f0 out f1 out' "w_data out" "[]"] run by (auto simp: file_holds_def)
  then have "w_data out' = w_data out @ raw_bytes e (r_bytes r)" using f0 by (simp add: file_holds_def raw_bytes_def)
  moreover have "length (raw_bytes e (r_bytes r)) = unat (compLen e)" using fit by (simp add: raw_bytes_def)
  moreover have "mzExtractZipEntryToFile zl e f out = Some (Done (True, lseek_set (int (f_pos f)) f1, out'))"
    using run ok assms(6) unfolding f0_def
    by (simp add: mzExtractZipEntryToFile_def mzProcessZipEntryContents_def processStoredEntry_def Let_def)
  moreover have "f_pos (lseek_set (int (f_pos f)) f1) = f_pos f" by (simp add: lseek_set_def)
  ultimately show ?thesis by blast
qed

text \<open>
  Extraction to a buffer overruns it: a stored entry whose compressed length exceeds its
  uncompressed length, which nothing checks, is copied beyond the end of a buffer that has the size
  the caller is told to provide.\<close>

theorem buffer_overrun:
  assumes "compression e = STORED" "plain_entry e" "length buffer = unat (uncompLen e)"
    and "unat (uncompLen e) < unat (compLen e)" "unat (offset e) + unat (compLen e) \<le> length (f_data f)" "f_errs f = []"
  shows "mzExtractZipEntryToBuffer zl e f buffer = Some Fault"
proof -
  define f0 where "f0 = lseek_set (sint (offset e)) f"
  have f0: "f_pos f0 = unat (offset e)" "f_data f0 = f_data f" "f_errs f0 = []"
    using assms(2,6) sint_nonneg_u32 [of "offset e"] by (auto simp: f0_def lseek_set_def plain_entry_def)
  let ?d = "\<lparr>d_mem = buffer, d_pos = 0, d_len = sint (uncompLen e)\<rparr>"
  have "stored_loop bufferProcessFunction (unat (compLen e)) f0 ?d = None"
  proof (rule ccontr)
    assume "stored_loop bufferProcessFunction (unat (compLen e)) f0 ?d \<noteq> None"
    then obtain ok f1 d where run: "stored_loop bufferProcessFunction (unat (compLen e)) f0 ?d = Some (ok, f1, d)" by auto
    have "ok" by (rule stored_accepts [where P = "\<lambda>_. True", OF _ TrueI f0(3) _ run])
        (use f0 assms(5) in \<open>auto simp: bufferProcessFunction_def split: bind_splits\<close>)
    then have "dest_holds buffer (sint (uncompLen e)) d (take (unat (compLen e)) (drop (f_pos f0) (f_data f0)))"
      using buffer_sink.stored_sound [of "unat (compLen e)" f0 ?d f1 d buffer "sint (uncompLen e)" "[]"] run
      by (simp add: dest_holds_def [of _ _ ?d])
    then show False using f0 assms(3-5) by (auto simp: dest_holds_def)
  qed
  then show ?thesis using assms(1) unfolding f0_def
    by (simp add: mzExtractZipEntryToBuffer_def mzProcessZipEntryContents_def processStoredEntry_def Let_def)
qed

text \<open>
  C35. A failure to decompress is reported as success when the uncompressed length in the directory is
  0xffffffff: the error value -1 then equals the expected length.\<close>

theorem failed_inflate_accepted:
  assumes "compression e = DEFLATED" "uncompLen e = -1" "f_errs f = True # errs" "0 \<le> sint (compLen e)"
  shows "mzProcessZipEntryContents zl put e f c = Some (Done (True, f\<lparr>f_errs := errs\<rparr>, c)) \<or> fst (z_init zl) \<noteq> Z_OK"
proof (cases "fst (z_init zl) = Z_OK")
  case True
  let ?s = "\<lparr>i_stream = snd (z_init zl), i_in = [], i_procBuf = [], i_total = 0,
                i_compRemaining = sint (compLen e), i_fd = lseek_set (sint (offset e)) f, i_cookie = c\<rparr>"
  have f: "f_errs (lseek_set (sint (offset e)) f) = True # errs" using assms(3) by (simp add: lseek_set_def)
  have "refill ?s = Done (False, ?s\<lparr>i_fd := (lseek_set (sint (offset e)) f)\<lparr>f_errs := errs\<rparr>\<rparr>)"
    using f assms(4) by (auto simp: refill_def read_file_def Let_def BUF_SIZE_def)
  then have "inflate_loop (z_inflate zl) put ?s = Some (Done (-1, ?s\<lparr>i_fd := (lseek_set (sint (offset e)) f)\<lparr>f_errs := errs\<rparr>\<rparr>))"
    by (simp add: inflate_loop.simps [of _ put ?s] inflate_step_def)
  then show ?thesis using assms True
    by (simp add: mzProcessZipEntryContents_def processDeflatedEntry_def Let_def case_prod_beta STORED_def DEFLATED_def lseek_set_def)
qed simp

section \<open>Samples\<close>

text \<open>A decoder that copies bytes up to a zero byte, and a checksum that adds the bytes.\<close>

definition sample_inflate :: "unit inflate_fn" where
  "sample_inflate z inp n =
     (case inp of
        [] \<Rightarrow> (-5, z, [], [])
      | b # rest \<Rightarrow> if b = 0 then (Z_STREAM_END, z, [], rest)
                    else if n = 0 then (-5, z, [], inp) else (Z_OK, z, [b], rest))"

definition sample_zlib :: "unit zlib" where
  "sample_zlib = \<lparr>z_init = (Z_OK, ()), z_inflate = sample_inflate\<rparr>"

definition sample_dec :: "unit \<Rightarrow> byte list \<Rightarrow> byte list \<Rightarrow> bool" where
  "sample_dec z inp plain \<longleftrightarrow> (\<exists>rest. inp = plain @ 0 # rest)"

definition sample_crc :: "u32 \<Rightarrow> byte list \<Rightarrow> u32" where
  "sample_crc c bs = c + sum_list (map ucast bs)"

definition sample_entry :: "u32 \<Rightarrow> u32 \<Rightarrow> ZipEntry" where
  "sample_entry how ulen = \<lparr>fileNameLen = 1, fileName = 0, offset = 1, compLen = 3, uncompLen = ulen, compression = how,
     modTime = 0, crc32 = 5, versionMadeBy = 0, externalFileAttributes = 0\<rparr>"

definition sample_file :: "bool list \<Rightarrow> ofile" where
  "sample_file errs = \<lparr>f_data = [9, 2, 3, 0, 9], f_pos = 4, f_errs = errs\<rparr>"

lemma sample_inflates: "inflates (z_inflate sample_zlib) sample_dec"
  by (auto simp: inflates_def sample_zlib_def sample_inflate_def sample_dec_def Z_OK_def Z_STREAM_END_def
      split: list.splits if_splits)

lemma sample_progress: "inflate_progress (z_inflate sample_zlib) (\<lambda>_. 0) 1"
  by (auto simp: inflate_progress_def sample_zlib_def sample_inflate_def Z_OK_def Z_STREAM_END_def
      split: list.splits if_splits)

lemma sample_crc_chains: "crc_chains sample_crc"
  by (simp add: crc_chains_def sample_crc_def add.assoc)

lemma sample_plain_entry: "plain_entry (sample_entry how 2)"
  by (simp add: plain_entry_def sample_entry_def)

lemma sample_deflated_run:
  "mzProcessZipEntryContents sample_zlib (crcProcessFunction sample_crc) (sample_entry DEFLATED 2) (sample_file []) 0 =
     Some (Done (True, sample_file [], 5))"
  by (simp add: mzProcessZipEntryContents_def processDeflatedEntry_def inflate_loop.simps inflate_step_def refill_def
      flush_def read_file_def lseek_set_def sample_entry_def sample_file_def sample_zlib_def sample_inflate_def
      crcProcessFunction_def sample_crc_def BUF_SIZE_def Z_OK_def Z_STREAM_END_def STORED_def DEFLATED_def Let_def)

theorem intact_crc_witness:
  "mzIsZipEntryIntact sample_zlib sample_crc (sample_entry DEFLATED 2) (sample_file []) = Some (Done (True, sample_file [])) \<and>
   (\<exists>plain. entry_plain sample_dec () (sample_entry DEFLATED 2) (f_data (sample_file [])) plain \<and> sample_crc 0 plain = 5)"
proof -
  have "mzIsZipEntryIntact sample_zlib sample_crc (sample_entry DEFLATED 2) (sample_file []) = Some (Done (True, sample_file []))"
    by (simp add: mzIsZipEntryIntact_def sample_deflated_run) (simp add: sample_entry_def)
  then show ?thesis
    using intact_crc [OF sample_inflates sample_plain_entry sample_crc_chains] by (simp add: sample_entry_def sample_zlib_def)
qed

theorem read_entry_contents_witness:
  "mzReadZipEntry sample_zlib (sample_entry STORED 2) (sample_file []) [0, 0] 2 \<noteq> Some Fault"
  using read_entry_contents [OF sample_inflates sample_plain_entry, of 2 "[0, 0]" STORED "sample_file []"] by simp

theorem extract_to_file_contents_witness:
  "\<exists>plain. entry_plain sample_dec () (sample_entry STORED 2) (f_data (sample_file [])) plain \<and> [8, 2, 3, 0] = [8] @ plain"
proof -
  have "mzExtractZipEntryToFile sample_zlib (sample_entry STORED 2) (sample_file []) \<lparr>w_data = [8], w_sched = [W_fail EINTR, W_bytes 0]\<rparr> =
      Some (Done (True, sample_file [], \<lparr>w_data = [8, 2, 3, 0], w_sched = []\<rparr>))" by code_simp
  from extract_to_file_contents [OF sample_inflates sample_plain_entry this]
  show ?thesis by (simp add: sample_zlib_def)
qed

theorem contents_terminates_witness:
  "\<exists>x. mzProcessZipEntryContents sample_zlib copyProcessFunction (sample_entry DEFLATED 2) (sample_file []) \<lparr>d_mem = [], d_pos = 0, d_len = 0\<rparr> = Some x"
  by (rule contents_terminates [OF sample_progress])

theorem opened_entry_extracts_witness:
  "\<exists>z e f' out'. parseZipArchive True calloc_model safe_addu_model safe_adds_model 3 sample_region = Parsed z \<and>
     mzGetZipEntryAt z 0 = Some e \<and>
     mzExtractZipEntryToFile sample_zlib e \<lparr>f_data = sample_zip, f_pos = 7, f_errs = []\<rparr> \<lparr>w_data = [], w_sched = [W_fail EINTR]\<rparr> =
       Some (Done (True, f', out'))"
proof -
  obtain z where z: "parseZipArchive True calloc_model safe_addu_model safe_adds_model 3 sample_region = Parsed z"
      "z_numEntries z = 1" "list_all (\<lambda>e. compression e = STORED \<and> offset e = 31 \<and> compLen e = 0 \<and> uncompLen e = 0) (z_pEntries z)"
    using sample_parsed by blast
  have len: "length (z_pEntries z) = 1" using parsed_entries(2) [OF z(1) safe_iop_model sample_region_ok] z(2) by simp
  define e where "e = z_pEntries z ! 0"
  have e: "compression e = STORED" "plain_entry e" "mzGetZipEntryAt z 0 = Some e"
    using z(2,3) len by (auto simp: e_def list_all_length plain_entry_def mzGetZipEntryAt_def)
  show ?thesis
    using opened_entry_extracts [OF z(1) safe_iop_model sample_region_ok _ e(3,1,2), of "\<lparr>f_data = sample_zip, f_pos = 7, f_errs = []\<rparr>"
        "\<lparr>w_data = [], w_sched = [W_fail EINTR]\<rparr>" sample_zlib] z(1,2) e(3)
    by (auto simp: mzZipEntryCount_def sample_region_def only_interrupts_def)
qed

theorem buffer_overrun_witness:
  "mzExtractZipEntryToBuffer sample_zlib (sample_entry STORED 2) (sample_file []) [0, 0] = Some Fault"
  by (rule buffer_overrun [OF _ sample_plain_entry]) (simp_all add: sample_entry_def sample_file_def)

theorem failed_inflate_accepted_witness:
  "mzProcessZipEntryContents sample_zlib copyProcessFunction (sample_entry DEFLATED (-1)) (sample_file [True]) \<lparr>d_mem = [], d_pos = 0, d_len = 0\<rparr> =
     Some (Done (True, (sample_file [True])\<lparr>f_errs := []\<rparr>, \<lparr>d_mem = [], d_pos = 0, d_len = 0\<rparr>))"
  using failed_inflate_accepted [of "sample_entry DEFLATED (-1)" "sample_file [True]" "[]" sample_zlib copyProcessFunction "\<lparr>d_mem = [], d_pos = 0, d_len = 0\<rparr>"]
  by (simp add: sample_entry_def sample_file_def sample_zlib_def)

end
