(* ===== verification/Verifier.thy ===== *)
theory Verifier
  imports Minzip_Extract
begin

text \<open>
  The whole-file signature of an update package, \<^verbatim>\<open>verifier.c\<close>.  The package is a regular file as in
  \<open>Minzip_Extract\<close>; \<^verbatim>\<open>fread\<close> delivers what \<open>read_file\<close> does.  The functions of the library mincrypt are
  parameters: the SHA-1 context, and the RSA verification of a signature of \<open>rsa_bytes\<close> bytes.  The
  progress bar is left out.
\<close>

section \<open>Model\<close>

record ('h, 'd, 'k) crypto =
  sha_init :: 'h
  sha_update :: "'h \<Rightarrow> byte list \<Rightarrow> 'h"
  sha_final :: "'h \<Rightarrow> 'd"
  rsa_verify :: "'k \<Rightarrow> byte list \<Rightarrow> 'd \<Rightarrow> bool"
  rsa_bytes :: nat

datatype verify_result = VERIFY_SUCCESS | VERIFY_FAILURE | VERIFY_FAULT

definition FOOTER_SIZE :: nat where "FOOTER_SIZE = 6"
definition EOCD_HEADER_SIZE :: nat where "EOCD_HEADER_SIZE = 22"
definition BUFFER_SIZE :: nat where "BUFFER_SIZE = 4096"

definition le16 :: "byte \<Rightarrow> byte \<Rightarrow> nat" where
  "le16 lo hi = unat lo + push_bit 8 (unat hi)"

definition marker_at :: "byte list \<Rightarrow> nat \<Rightarrow> bool" where
  "marker_at eocd i \<longleftrightarrow> eocd ! i = 0x50 \<and> eocd ! (i + 1) = 0x4b \<and> eocd ! (i + 2) = 0x05 \<and> eocd ! (i + 3) = 0x06"

text \<open>The search for a second marker, from \<open>i\<close> on.\<close>

function marker_loop :: "byte list \<Rightarrow> nat \<Rightarrow> bool" where
  "marker_loop eocd i =
     (if i < length eocd - 3 then (if marker_at eocd i then True else marker_loop eocd (i + 1)) else False)"
  by pat_completeness auto
termination
  by (relation "measure (\<lambda>(eocd, i). length eocd - i)") auto

declare marker_loop.simps [simp del]

text \<open>Hashing the signed part in blocks; \<open>None\<close> is a failed read.\<close>

function sha_loop :: "('h, 'd, 'k) crypto \<Rightarrow> nat \<Rightarrow> nat \<Rightarrow> ofile \<Rightarrow> 'h \<Rightarrow> 'h option" where
  "sha_loop cr signed_len so_far f ctx =
     (if so_far < signed_len
      then let sz = (if signed_len - so_far < BUFFER_SIZE then signed_len - so_far else BUFFER_SIZE);
               (n, buffer, f) = read_file sz f
           in if n \<noteq> int sz then None
              else sha_loop cr signed_len (so_far + sz) f (sha_update cr ctx buffer)
      else Some ctx)"
  by pat_completeness auto
termination
  by (relation "measure (\<lambda>(cr, signed_len, so_far, f, ctx). signed_len - so_far)") (auto simp: BUFFER_SIZE_def)

declare sha_loop.simps [simp del]

text \<open>
  Trying the keys: the signature is the part of \<^verbatim>\<open>eocd\<close> before its last six bytes; a record that is too
  short puts it before the start of the buffer.
\<close>

fun try_keys :: "('h, 'd, 'k) crypto \<Rightarrow> byte list \<Rightarrow> 'd \<Rightarrow> 'k list \<Rightarrow> verify_result" where
  "try_keys cr eocd sha1 [] = VERIFY_FAILURE"
| "try_keys cr eocd sha1 (k # keys) =
     (if length eocd < 6 + rsa_bytes cr then VERIFY_FAULT
      else if rsa_verify cr k (take (rsa_bytes cr) (drop (length eocd - 6 - rsa_bytes cr) eocd)) sha1 then VERIFY_SUCCESS
      else try_keys cr eocd sha1 keys)"

text \<open>The checks of the end record and the signature, with the position at the start of the record.\<close>

definition verify_eocd :: "('h, 'd, 'k) crypto \<Rightarrow> bool \<Rightarrow> 'k list \<Rightarrow> nat \<Rightarrow> byte list \<Rightarrow> ofile \<Rightarrow> verify_result" where
  "verify_eocd cr malloc_ok keys signed_len eocd f =
     (if \<not> marker_at eocd 0 then VERIFY_FAILURE
      else if marker_loop eocd 4 then VERIFY_FAILURE
      else if \<not> malloc_ok then VERIFY_FAILURE
      else (case sha_loop cr signed_len 0 (f\<lparr>f_pos := 0\<rparr>) (sha_init cr) of
              None \<Rightarrow> VERIFY_FAILURE
            | Some ctx \<Rightarrow> try_keys cr eocd (sha_final cr ctx) keys))"

definition verify_file :: "('h, 'd, 'k) crypto \<Rightarrow> bool \<Rightarrow> bool \<Rightarrow> ofile option \<Rightarrow> 'k list \<Rightarrow> verify_result" where
  "verify_file cr malloc_eocd malloc_buffer opened keys =
     (case opened of
        None \<Rightarrow> VERIFY_FAILURE
      | Some f \<Rightarrow>
          let len = length (f_data f) in
          if len < FOOTER_SIZE then VERIFY_FAILURE
          else let (n, footer, f) = read_file FOOTER_SIZE (f\<lparr>f_pos := len - FOOTER_SIZE\<rparr>) in
          if n \<noteq> int FOOTER_SIZE then VERIFY_FAILURE
          else if footer ! 2 \<noteq> 0xff \<or> footer ! 3 \<noteq> 0xff then VERIFY_FAILURE
          else let comment_size = le16 (footer ! 4) (footer ! 5); signature_start = le16 (footer ! 0) (footer ! 1) in
          if int signature_start - int FOOTER_SIZE < int (rsa_bytes cr) then VERIFY_FAILURE
          else let eocd_size = comment_size + EOCD_HEADER_SIZE in
          if len < eocd_size then VERIFY_FAILURE
          else let signed_len = (len - eocd_size) + EOCD_HEADER_SIZE - 2 in
          if \<not> malloc_eocd then VERIFY_FAILURE
          else let (n, eocd, f) = read_file eocd_size (f\<lparr>f_pos := len - eocd_size\<rparr>) in
          if n \<noteq> int eocd_size then VERIFY_FAILURE
          else verify_eocd cr malloc_buffer keys signed_len eocd f)"

section \<open>Loops\<close>

lemma marker_loop_iff: "marker_loop eocd i \<longleftrightarrow> (\<exists>j \<ge> i. j < length eocd - 3 \<and> marker_at eocd j)"
proof (induction eocd i rule: marker_loop.induct)
  case (1 eocd i)
  show ?case
  proof (cases "i < length eocd - 3 \<and> \<not> marker_at eocd i")
    case True
    then have "marker_loop eocd i = (\<exists>j \<ge> i + 1. j < length eocd - 3 \<and> marker_at eocd j)"
      using 1 by (simp add: marker_loop.simps [of eocd i])
    moreover have "(\<exists>j \<ge> i. j < length eocd - 3 \<and> marker_at eocd j) = (\<exists>j \<ge> i + 1. j < length eocd - 3 \<and> marker_at eocd j)"
      using True by (metis Suc_eq_plus1 Suc_leD le_neq_implies_less not_less_eq_eq not_less)
    ultimately show ?thesis by blast
  next
    case False
    then show ?thesis by (subst marker_loop.simps) auto
  qed
qed

text \<open>The documented behaviour of SHA-1: the digest of the blocks is the digest of their concatenation.\<close>

definition sha_chains :: "('h, 'd, 'k) crypto \<Rightarrow> (byte list \<Rightarrow> 'd) \<Rightarrow> bool" where
  "sha_chains cr sha \<longleftrightarrow> (\<forall>blks. sha_final cr (foldl (sha_update cr) (sha_init cr) blks) = sha (concat blks))"

lemma sha_loop_blocks:
  "sha_loop cr n so_far f ctx = Some ctx' \<Longrightarrow>
     \<exists>blks. ctx' = foldl (sha_update cr) ctx blks \<and> concat blks = take (n - so_far) (drop (f_pos f) (f_data f))"
proof (induction cr n so_far f ctx rule: sha_loop.induct)
  case (1 cr n so_far f ctx)
  let ?d = "drop (f_pos f) (f_data f)"
  define sz where "sz = (if n - so_far < BUFFER_SIZE then n - so_far else BUFFER_SIZE)"
  show ?case
  proof (cases "so_far < n")
    case True
    obtain k buf f1 where r: "read_file sz f = (k, buf, f1)" by (metis prod_cases3)
    have s: "k = int sz" "sha_loop cr n (so_far + sz) f1 (sha_update cr ctx buf) = Some ctx'"
      using "1.prems" True r unfolding sha_loop.simps [of cr n so_far f ctx] sz_def [symmetric]
      by (auto simp: Let_def split: if_splits)
    note rd = read_file_ok [OF r [unfolded s(1)]]
    obtain blks where b: "ctx' = foldl (sha_update cr) (sha_update cr ctx buf) blks"
        "concat blks = take (n - (so_far + sz)) (drop (f_pos f1) (f_data f1))"
      using "1.IH" [OF True refl, unfolded sz_def [symmetric], OF r [symmetric] refl] s by auto
    have sz: "n - so_far = sz + (n - (so_far + sz))" using True by (auto simp: sz_def)
    have "drop (f_pos f1) (f_data f1) = drop sz ?d" using rd(3,4) by (simp add: add.commute)
    then have "concat (buf # blks) = take (n - so_far) ?d"
      unfolding sz take_add using b(2) rd(1) by simp
    then show ?thesis using b(1) by (metis foldl_Cons)
  next
    case False
    then show ?thesis using "1.prems" by (auto simp: sha_loop.simps [of cr n so_far f ctx] intro!: exI [of _ "[]"])
  qed
qed

lemma read_file_total:
  assumes "f_errs f = []" "f_pos f + n \<le> length (f_data f)" "int n < 2147483648"
  shows "read_file n f = (int n, take n (drop (f_pos f) (f_data f)), f\<lparr>f_pos := f_pos f + n, f_errs := []\<rparr>)"
  using assms by (simp add: read_file_def Let_def)

lemma sha_loop_total:
  "f_errs f = [] \<Longrightarrow> f_pos f + (n - so_far) \<le> length (f_data f) \<Longrightarrow> \<exists>ctx'. sha_loop cr n so_far f ctx = Some ctx'"
proof (induction cr n so_far f ctx rule: sha_loop.induct)
  case (1 cr n so_far f ctx)
  define sz where "sz = (if n - so_far < BUFFER_SIZE then n - so_far else BUFFER_SIZE)"
  have sz: "sz \<le> n - so_far" "sz \<le> 4096" by (auto simp: sz_def BUFFER_SIZE_def)
  let ?f = "f\<lparr>f_pos := f_pos f + sz, f_errs := []\<rparr>" and ?buf = "take sz (drop (f_pos f) (f_data f))"
  have r: "read_file sz f = (int sz, ?buf, ?f)" by (rule read_file_total) (use "1.prems" sz in auto)
  show ?case
  proof (cases "so_far < n")
    case True
    have "\<exists>ctx'. sha_loop cr n (so_far + sz) ?f (sha_update cr ctx ?buf) = Some ctx'"
      by (rule "1.IH" [OF True refl, unfolded sz_def [symmetric], OF r [symmetric] refl])
        (use "1.prems" sz in \<open>auto simp: sz_def\<close>)
    then show ?thesis using True r unfolding sha_loop.simps [of cr n so_far f ctx] sz_def [symmetric] by (simp add: Let_def)
  qed (simp add: sha_loop.simps [of cr n so_far f ctx])
qed

section \<open>The specification of a signed package\<close>

lemma try_keys_iff:
  "try_keys cr eocd h keys =
     (if keys = [] then VERIFY_FAILURE else if length eocd < 6 + rsa_bytes cr then VERIFY_FAULT
      else if \<exists>k \<in> set keys. rsa_verify cr k (take (rsa_bytes cr) (drop (length eocd - 6 - rsa_bytes cr) eocd)) h
      then VERIFY_SUCCESS else VERIFY_FAILURE)"
  by (induction keys) auto

text \<open>The comment size and the signature size of the footer, and where the end record starts.\<close>

definition footer_comment :: "byte list \<Rightarrow> nat" where
  "footer_comment bs = le16 (bs ! (length bs - 2)) (bs ! (length bs - 1))"

definition eocd_start :: "byte list \<Rightarrow> nat" where
  "eocd_start bs = length bs - (footer_comment bs + EOCD_HEADER_SIZE)"

text \<open>The form of a package with a signature: the footer, one end record at its start and none after it.\<close>

definition signed_form :: "nat \<Rightarrow> byte list \<Rightarrow> bool" where
  "signed_form rsa bs \<longleftrightarrow> FOOTER_SIZE \<le> length bs \<and> bs ! (length bs - 4) = 0xff \<and> bs ! (length bs - 3) = 0xff \<and>
     FOOTER_SIZE + rsa \<le> le16 (bs ! (length bs - 6)) (bs ! (length bs - 5)) \<and>
     footer_comment bs + EOCD_HEADER_SIZE \<le> length bs \<and> marker_at bs (eocd_start bs) \<and>
     (\<forall>j. eocd_start bs + 4 \<le> j \<and> j + 3 < length bs \<longrightarrow> \<not> marker_at bs j)"

definition signed_by :: "('h, 'd, 'k) crypto \<Rightarrow> (byte list \<Rightarrow> 'd) \<Rightarrow> 'k \<Rightarrow> byte list \<Rightarrow> bool" where
  "signed_by cr sha k bs \<longleftrightarrow>
     rsa_verify cr k (take (rsa_bytes cr) (drop (length bs - 6 - rsa_bytes cr) bs)) (sha (take (eocd_start bs + 20) bs))"

definition verify_spec :: "('h, 'd, 'k) crypto \<Rightarrow> (byte list \<Rightarrow> 'd) \<Rightarrow> 'k list \<Rightarrow> byte list \<Rightarrow> verify_result" where
  "verify_spec cr sha keys bs =
     (if \<not> signed_form (rsa_bytes cr) bs \<or> keys = [] then VERIFY_FAILURE
      else if footer_comment bs + EOCD_HEADER_SIZE < 6 + rsa_bytes cr then VERIFY_FAULT
      else if \<exists>k \<in> set keys. signed_by cr sha k bs then VERIFY_SUCCESS else VERIFY_FAILURE)"

lemma marker_at_drop: "n \<le> length bs \<Longrightarrow> marker_at (drop n bs) i = marker_at bs (n + i)"
  by (simp add: marker_at_def add.assoc)

lemma ex_shift: "(\<exists>j \<ge> 4. s + j + 3 < n \<and> P (s + j)) \<longleftrightarrow> (\<exists>j. s + 4 \<le> j \<and> j + 3 < n \<and> P (j :: nat))"
proof
  assume "\<exists>j. s + 4 \<le> j \<and> j + 3 < n \<and> P j"
  then obtain j where j: "s + 4 \<le> j" "j + 3 < n" "P j" by blast
  then show "\<exists>j \<ge> 4. s + j + 3 < n \<and> P (s + j)" by (intro exI [of _ "j - s"]) simp
next
  assume "\<exists>j \<ge> 4. s + j + 3 < n \<and> P (s + j)"
  then obtain j where j: "4 \<le> j" "s + j + 3 < n" "P (s + j)" by blast
  then show "\<exists>j. s + 4 \<le> j \<and> j + 3 < n \<and> P j" by (intro exI [of _ "s + j"]) simp
qed

text \<open>The part after the footer.\<close>

lemma verify_eocd_spec:
  fixes cr :: "('h, 'd, 'k) crypto" and keys :: "'k list" and m :: bool
  assumes sha: "sha_chains cr sha" and f: "f_data f = bs"
    and form: "FOOTER_SIZE \<le> length bs" "bs ! (length bs - 4) = 0xff" "bs ! (length bs - 3) = 0xff"
      "FOOTER_SIZE + rsa_bytes cr \<le> le16 (bs ! (length bs - 6)) (bs ! (length bs - 5))"
      "footer_comment bs + EOCD_HEADER_SIZE \<le> length bs"
  defines "r \<equiv> verify_eocd cr m keys (eocd_start bs + EOCD_HEADER_SIZE - 2) (drop (eocd_start bs) bs) f"
  shows "r = VERIFY_FAILURE \<or> r = verify_spec cr sha keys bs"
    and "f_errs f = [] \<Longrightarrow> m \<Longrightarrow> r = verify_spec cr sha keys bs"
proof -
  let ?s = "eocd_start bs" and ?e = "drop (eocd_start bs) bs"
  have s: "?s + (footer_comment bs + EOCD_HEADER_SIZE) = length bs" using form(5) by (simp add: eocd_start_def)
  have len: "length ?e = footer_comment bs + EOCD_HEADER_SIZE" using s by simp
  have n: "?s + EOCD_HEADER_SIZE - 2 = ?s + 20" by (simp add: EOCD_HEADER_SIZE_def)
  have "marker_loop ?e 4 \<longleftrightarrow> (\<exists>j. ?s + 4 \<le> j \<and> j + 3 < length bs \<and> marker_at bs j)"
  proof -
    have "marker_loop ?e 4 \<longleftrightarrow> (\<exists>j \<ge> 4. ?s + j + 3 < length bs \<and> marker_at bs (?s + j))"
      using s by (auto simp: marker_loop_iff marker_at_drop EOCD_HEADER_SIZE_def)
    also have "\<dots> \<longleftrightarrow> (\<exists>j. ?s + 4 \<le> j \<and> j + 3 < length bs \<and> marker_at bs j)" by (rule ex_shift)
    finally show ?thesis .
  qed
  moreover have "marker_at ?e 0 \<longleftrightarrow> marker_at bs ?s" using s by (simp add: marker_at_drop)
  ultimately have form_iff: "signed_form (rsa_bytes cr) bs \<longleftrightarrow> marker_at ?e 0 \<and> \<not> marker_loop ?e 4"
    using form by (auto simp: signed_form_def)
  have keys: "sha_loop cr (?s + 20) 0 (f\<lparr>f_pos := 0\<rparr>) (sha_init cr) = Some ctx \<Longrightarrow> signed_form (rsa_bytes cr) bs \<Longrightarrow>
      try_keys cr ?e (sha_final cr ctx) keys = verify_spec cr sha keys bs" for ctx
  proof -
    assume c: "sha_loop cr (?s + 20) 0 (f\<lparr>f_pos := 0\<rparr>) (sha_init cr) = Some ctx" and sf: "signed_form (rsa_bytes cr) bs"
    have d: "sha_final cr ctx = sha (take (?s + 20) bs)"
      using sha_loop_blocks [OF c] sha f by (auto simp: sha_chains_def)
    have "drop (length ?e - 6 - rsa_bytes cr) ?e = drop (length bs - 6 - rsa_bytes cr) bs" if "6 + rsa_bytes cr \<le> length ?e"
      using that s len by (simp add: add.commute)
    then show ?thesis using sf len by (auto simp: try_keys_iff verify_spec_def d signed_by_def simp del: length_drop)
  qed
  have total: "f_errs f = [] \<Longrightarrow> \<exists>ctx. sha_loop cr (?s + 20) 0 (f\<lparr>f_pos := 0\<rparr>) (sha_init cr) = Some ctx"
    by (rule sha_loop_total) (use f s in \<open>simp_all add: EOCD_HEADER_SIZE_def\<close>)
  show "r = VERIFY_FAILURE \<or> r = verify_spec cr sha keys bs" "f_errs f = [] \<Longrightarrow> m \<Longrightarrow> r = verify_spec cr sha keys bs"
    using keys total form_iff unfolding r_def verify_eocd_def n
    by (auto simp: verify_spec_def split: option.splits)
qed

lemma verify_cases:
  assumes "sha_chains cr sha" "length (f_data f) < 2 ^ 31"
  shows "(verify_file cr m1 m2 (Some f) keys = VERIFY_FAILURE \<or>
      verify_file cr m1 m2 (Some f) keys = verify_spec cr sha keys (f_data f)) \<and>
    (f_errs f = [] \<and> m1 \<and> m2 \<longrightarrow> verify_file cr m1 m2 (Some f) keys = verify_spec cr sha keys (f_data f))"
proof (cases "FOOTER_SIZE \<le> length (f_data f)")
  case False
  then show ?thesis by (auto simp: verify_file_def verify_spec_def signed_form_def)
next
  case True
  let ?bs = "f_data f"
  let ?f0 = "f\<lparr>f_pos := length ?bs - FOOTER_SIZE\<rparr>"
  obtain n footer f1 where r1: "read_file FOOTER_SIZE ?f0 = (n, footer, f1)" by (metis prod_cases3)
  have n: "f_errs f = [] \<Longrightarrow> n = int FOOTER_SIZE"
    using r1 read_file_total [of ?f0 FOOTER_SIZE] True by (simp add: FOOTER_SIZE_def)
  show ?thesis
  proof (cases "n = int FOOTER_SIZE")
    case False
    then have "verify_file cr m1 m2 (Some f) keys = VERIFY_FAILURE" using r1 True by (simp add: verify_file_def Let_def)
    then show ?thesis using n False by blast
  next
    case n6: True
    note rd = read_file_ok [OF r1 [unfolded n6]]
    have foot: "footer ! i = ?bs ! (length ?bs - 6 + i)" if "i < 6" for i
      using rd(1) True that by (simp add: FOOTER_SIZE_def)
    have at: "length ?bs - 6 + 1 = length ?bs - 5" "length ?bs - 6 + 2 = length ?bs - 4" "length ?bs - 6 + 3 = length ?bs - 3"
        "length ?bs - 6 + 4 = length ?bs - 2" "length ?bs - 6 + 5 = length ?bs - 1"
      using True by (simp_all add: FOOTER_SIZE_def)
    have f: "footer ! 0 = ?bs ! (length ?bs - 6)" "footer ! 1 = ?bs ! (length ?bs - 5)" "footer ! 2 = ?bs ! (length ?bs - 4)"
        "footer ! 3 = ?bs ! (length ?bs - 3)" "footer ! 4 = ?bs ! (length ?bs - 2)" "footer ! 5 = ?bs ! (length ?bs - 1)"
      using foot [of 0] foot [of 1] foot [of 2] foot [of 3] foot [of 4] foot [of 5] unfolding at by simp_all
    let ?pre = "?bs ! (length ?bs - 4) = 0xff \<and> ?bs ! (length ?bs - 3) = 0xff \<and>
       FOOTER_SIZE + rsa_bytes cr \<le> le16 (?bs ! (length ?bs - 6)) (?bs ! (length ?bs - 5)) \<and>
       footer_comment ?bs + EOCD_HEADER_SIZE \<le> length ?bs"
    let ?es = "footer_comment ?bs + EOCD_HEADER_SIZE"
    obtain n2 eocd f2 where r2: "read_file ?es (f1\<lparr>f_pos := length ?bs - ?es\<rparr>) = (n2, eocd, f2)" by (metis prod_cases3)
    have vf: "verify_file cr m1 m2 (Some f) keys =
       (if \<not> ?pre \<or> \<not> m1 \<or> n2 \<noteq> int ?es then VERIFY_FAILURE
        else verify_eocd cr m2 keys (eocd_start ?bs + EOCD_HEADER_SIZE - 2) eocd f2)"
      using True r1 r2 n6 f by (auto simp: verify_file_def Let_def footer_comment_def eocd_start_def)
    show ?thesis
    proof (cases "?pre \<and> m1 \<and> n2 = int ?es")
      case True
      note rd2 = read_file_ok [OF r2 [unfolded conjunct2 [OF conjunct2 [OF True]]]]
      have e: "eocd = drop (eocd_start ?bs) ?bs" "f_data f2 = ?bs"
        using rd2(1,3) rd(3) by (simp_all add: eocd_start_def)
      have "f_errs f2 = []" if "f_errs f = []"
        using that r1 r2 n6 True by (auto simp: read_file_def Let_def split: if_splits list.splits bool.splits)
      then show ?thesis
        using verify_eocd_spec [OF assms(1) e(2), of m2 keys] True \<open>FOOTER_SIZE \<le> length ?bs\<close> vf e(1) by auto
    next
      case False
      have n2: "n2 = int ?es" if "f_errs f = []" ?pre
      proof -
        have "f_errs f1 = []" using that(1) r1 n6 by (auto simp: read_file_def Let_def split: if_splits)
        then show ?thesis using r2 read_file_total [of "f1\<lparr>f_pos := length ?bs - ?es\<rparr>" ?es] rd(3) that(2) assms(2) by simp
      qed
      have spec: "\<not> ?pre \<Longrightarrow> verify_spec cr sha keys ?bs = VERIFY_FAILURE"
        by (auto simp: verify_spec_def signed_form_def)
      have fail: "verify_file cr m1 m2 (Some f) keys = VERIFY_FAILURE"
        using False by (subst vf) (simp only: if_P de_Morgan_conj)
      show ?thesis
      proof (cases ?pre)
        case True
        then have "\<not> (f_errs f = [] \<and> m1 \<and> m2)" using n2 False by blast
        then show ?thesis using fail by blast
      qed (use spec fail in metis)
    qed
  qed
qed

text \<open>
  C3. Verification of a package computes its specification: the package has the form of a signed file and one of
  the keys accepts the signature of everything before the comment.  A read or an allocation that fails can only turn
  the result into a failure.\<close>

theorem verify_file_spec:
  assumes "sha_chains cr sha" "length (f_data f) < 2 ^ 31"
  shows "(verify_file cr m1 m2 (Some f) keys = VERIFY_FAILURE \<or>
      verify_file cr m1 m2 (Some f) keys = verify_spec cr sha keys (f_data f)) \<and>
    (f_errs f = [] \<and> m1 \<and> m2 \<longrightarrow> verify_file cr m1 m2 (Some f) keys = verify_spec cr sha keys (f_data f))"
  using verify_cases [OF assms, of m1 m2 keys] .

section \<open>The end record that is signed is the one that is used\<close>

text \<open>The scan of minzip sees a marker exactly where the verifier does.\<close>

lemma is_eocd_marker:
  assumes "mapped_low r" "k + 4 \<le> length (r_bytes r)"
  shows "is_eocd r (r_base r + of_nat k) = Some (marker_at (r_bytes r) k)"
proof -
  let ?bs = "take 4 (drop k (r_bytes r))" and ?p = "r_base r + of_nat k"
  have ro: "roff r ?p = k" using roff_base_plus [OF assms(1)] assms(2) by simp
  have len: "length ?bs = 4" using assms(2) by simp
  have ll: "load_list r ?p 4 = Some ?bs"
    using load_list_in_region [OF mapped_low_ok [OF assms(1)], of ?p 4] ro assms(2) by (simp add: in_region_def)
  then have g: "get4LE r ?p = Some (le_word ?bs)" by (simp add: get4LE_bytes)
  have enc: "le_bytes 4 (le_word ?bs :: u32) = ?bs" using le_bytes_le_word [of ?bs, where ?'a = 32] len by simp
  have sig: "le_bytes 4 ENDSIG = [0x50, 0x4b, 0x05, 0x06]" by code_simp
  have dec: "le_word [0x50, 0x4b, 0x05, 0x06 :: byte] = ENDSIG" by code_simp
  have "le_word ?bs = ENDSIG \<longleftrightarrow> ?bs = [0x50, 0x4b, 0x05, 0x06]" using enc sig dec by metis
  moreover have "?bs = [r_bytes r ! k, r_bytes r ! (k + 1), r_bytes r ! (k + 2), r_bytes r ! (k + 3)]"
    using assms(2) by (intro nth_equalityI) (auto simp: nth_Cons' less_Suc_eq numeral_eq_Suc)
  ultimately have m: "le_word ?bs = ENDSIG \<longleftrightarrow> marker_at (r_bytes r) k" by (auto simp: marker_at_def)
  have ld: "load r ?p = Some (r_bytes r ! k)" using ro assms(2) by (simp add: load_def)
  have fst_byte: "marker_at (r_bytes r) k \<Longrightarrow> ucast (r_bytes r ! k) = ENDSIG AND 0xff"
    by (simp add: marker_at_def ENDSIG_def)
  show ?thesis using ld g m fst_byte by (auto simp: is_eocd_def)
qed

lemma find_eocd_last:
  assumes "is_eocd r (r_base r + of_nat s) = Some True"
  shows "s \<le> off \<Longrightarrow> (\<forall>k. s < k \<and> k \<le> off \<longrightarrow> is_eocd r (r_base r + of_nat k) = Some False) \<Longrightarrow>
    find_eocd r off = Some (Some (r_base r + of_nat s))"
proof (induction off)
  case (Suc off)
  show ?case
  proof (cases "s = Suc off")
    case False
    then have "is_eocd r (r_base r + of_nat (Suc off)) = Some False" using Suc.prems by (simp del: of_nat_Suc)
    then have "find_eocd r (Suc off) = find_eocd r off" by (simp del: of_nat_Suc)
    then show ?thesis using Suc False by simp
  qed (use assms in \<open>simp del: of_nat_Suc\<close>)
qed (use assms in simp)

lemma signed_form_eocd:
  assumes "signed_form rsa (r_bytes r)" "mapped_low r"
  shows "find_eocd r (length (r_bytes r) - ENDHDR) = Some (Some (r_base r + of_nat (eocd_start (r_bytes r))))"
proof (rule find_eocd_last)
  let ?bs = "r_bytes r" and ?s = "eocd_start (r_bytes r)"
  have s: "?s + footer_comment ?bs + 22 = length ?bs"
    using assms(1) by (simp add: signed_form_def eocd_start_def EOCD_HEADER_SIZE_def)
  have m: "marker_at ?bs ?s" using assms(1) by (simp add: signed_form_def)
  show "is_eocd r (r_base r + of_nat ?s) = Some True" using is_eocd_marker [OF assms(2), of ?s] m s by simp
  show "?s \<le> length ?bs - ENDHDR" using s by (simp add: ENDHDR_def)
  have near: "\<not> marker_at ?bs (?s + i)" if "0 < i" "i < 4" for i
  proof -
    have "i = 1 \<or> i = 2 \<or> i = 3" using that by linarith
    then show ?thesis using m by (auto simp: marker_at_def)
  qed
  have "\<not> marker_at ?bs k" if "?s < k" "k \<le> length ?bs - ENDHDR" for k
  proof (cases "k < ?s + 4")
    case True
    then show ?thesis using near [of "k - ?s"] that by simp
  next
    case False
    then show ?thesis using assms(1) that s by (auto simp: signed_form_def ENDHDR_def)
  qed
  then show "\<forall>k. ?s < k \<and> k \<le> length ?bs - ENDHDR \<longrightarrow> is_eocd r (r_base r + of_nat k) = Some False"
    using is_eocd_marker [OF assms(2)] s by (auto simp: ENDHDR_def)
qed

text \<open>
  C2. In a package that passes verification the end record found by the archive parser is the one whose
  fields are signed: it starts 22 bytes and the comment before the end of the file, and the first 20
  bytes of it are in the part of the file that the accepted signature covers.\<close>

theorem verified_package_directory:
  assumes "verify_file cr m1 m2 (Some f) keys = VERIFY_SUCCESS" "sha_chains cr sha"
    and "mapped_low r" "r_bytes r = f_data f" "length (f_data f) < 2 ^ 31"
  shows "\<exists>k \<in> set keys. \<exists>s. find_eocd r (length (r_bytes r) - ENDHDR) = Some (Some (r_base r + of_nat s)) \<and>
    s + 20 \<le> length (f_data f) \<and>
    rsa_verify cr k (take (rsa_bytes cr) (drop (length (f_data f) - 6 - rsa_bytes cr) (f_data f))) (sha (take (s + 20) (f_data f)))"
proof -
  have "verify_spec cr sha keys (f_data f) = VERIFY_SUCCESS"
    using verify_cases [OF assms(2,5), of m1 m2 keys] assms(1) by auto
  then have form: "signed_form (rsa_bytes cr) (f_data f)" and "\<exists>k \<in> set keys. signed_by cr sha k (f_data f)"
    by (auto simp: verify_spec_def split: if_splits)
  then obtain k where k: "k \<in> set keys" "signed_by cr sha k (f_data f)" by blast
  have "find_eocd r (length (r_bytes r) - ENDHDR) = Some (Some (r_base r + of_nat (eocd_start (f_data f))))"
    using signed_form_eocd [of "rsa_bytes cr" r] form assms(3,4) by simp
  moreover have "eocd_start (f_data f) + 20 \<le> length (f_data f)"
    using form by (simp add: signed_form_def eocd_start_def EOCD_HEADER_SIZE_def)
  ultimately show ?thesis using k unfolding signed_by_def by blast
qed

text \<open>
  C37. The signature is read outside the buffer when the comment is short: a package whose footer announces
  a large signature but a comment that cannot hold it passes all checks up to the first key, and the signature
  is taken from before the start of the end record that was read.\<close>

theorem short_comment_faults:
  assumes "sha_chains cr sha" "length (f_data f) < 2 ^ 31" "f_errs f = []" "signed_form (rsa_bytes cr) (f_data f)"
    and "footer_comment (f_data f) + EOCD_HEADER_SIZE < 6 + rsa_bytes cr" "keys \<noteq> []"
  shows "verify_file cr True True (Some f) keys = VERIFY_FAULT"
proof -
  have "verify_file cr True True (Some f) keys = verify_spec cr sha keys (f_data f)"
    using verify_cases [OF assms(1,2), of True True keys] assms(3) by blast
  then show ?thesis using assms(4-6) by (simp add: verify_spec_def)
qed

section \<open>A sample package\<close>

text \<open>
  An end record with a comment that holds a signature of one byte, and a scheme in which the signature of a key is the
  key itself and the digest is the data.
\<close>

definition sample_crypto :: "nat \<Rightarrow> (byte list, byte list, byte) crypto" where
  "sample_crypto n = \<lparr>sha_init = [], sha_update = (@), sha_final = id, rsa_verify = (\<lambda>k sig d. sig = [k]), rsa_bytes = n\<rparr>"

definition sample_package :: "byte list" where
  "sample_package = [0x50, 0x4b, 5, 6] @ replicate 16 0 @ [7, 0, 9, 100, 0, 0xff, 0xff, 7, 0]"

definition sample_package_file :: ofile where
  "sample_package_file = \<lparr>f_data = sample_package, f_pos = 0, f_errs = []\<rparr>"

lemma sample_crypto_chains: "sha_chains (sample_crypto n) id"
proof -
  have "foldl (@) a blks = a @ concat blks" for a :: "byte list" and blks by (induction blks arbitrary: a) auto
  then show ?thesis by (simp add: sha_chains_def sample_crypto_def)
qed

lemma sample_package_short: "length (f_data sample_package_file) < 2 ^ 31"
  by (simp add: sample_package_file_def sample_package_def)

lemma sample_package_verifies: "verify_file (sample_crypto 1) True True (Some sample_package_file) [3, 9] = VERIFY_SUCCESS"
  by code_simp

theorem verify_file_spec_witness:
  "verify_spec (sample_crypto 1) id [3, 9] sample_package = VERIFY_SUCCESS"
  using verify_file_spec [OF sample_crypto_chains sample_package_short, of 1 True True "[3, 9]"] sample_package_verifies
  by (auto simp: sample_package_file_def)

theorem verified_package_directory_witness:
  "\<exists>s. find_eocd \<lparr>r_base = 0x1000, r_bytes = sample_package\<rparr> 7 = Some (Some (0x1000 + of_nat s))"
proof -
  have m: "mapped_low \<lparr>r_base = 0x1000, r_bytes = sample_package\<rparr>"
    by (simp add: mapped_low_def sample_package_def ENDHDR_def)
  show ?thesis
    using verified_package_directory [OF sample_package_verifies sample_crypto_chains m _ sample_package_short]
    by (auto simp: sample_package_file_def sample_package_def ENDHDR_def)
qed

theorem short_comment_faults_witness:
  "verify_file (sample_crypto 90) True True (Some sample_package_file) [9] = VERIFY_FAULT"
proof (rule short_comment_faults [OF sample_crypto_chains sample_package_short])
  have "list_all (\<lambda>j. \<not> marker_at sample_package j) [4..<26]" by code_simp
  then have "\<forall>j. 4 \<le> j \<and> j < 26 \<longrightarrow> \<not> marker_at sample_package j"
    unfolding list_all_iff by (metis atLeastLessThan_upt atLeastLessThan_iff)
  moreover have "eocd_start sample_package = 0" "marker_at sample_package 0" "length sample_package = 29"
      "footer_comment sample_package = 7" "le16 (sample_package ! 23) (sample_package ! 24) = 100"
      "sample_package ! 25 = 0xff" "sample_package ! 26 = 0xff"
    by code_simp+
  ultimately show "signed_form (rsa_bytes (sample_crypto 90)) (f_data sample_package_file)"
    by (simp add: signed_form_def sample_package_file_def sample_crypto_def FOOTER_SIZE_def EOCD_HEADER_SIZE_def)
  show "footer_comment (f_data sample_package_file) + EOCD_HEADER_SIZE < 6 + rsa_bytes (sample_crypto 90)" by code_simp
qed (simp_all add: sample_package_file_def)

end
