(* ===== verification/Bspatch.thy ===== *)
theory Bspatch
  imports Verifier
begin

text \<open>
  Binary patches, \<^verbatim>\<open>applypatch/bspatch.c\<close>, with the number format shared with \<^verbatim>\<open>bsdiff.c\<close>.  \<^verbatim>\<open>off_t\<close> and
  \<^verbatim>\<open>ssize_t\<close> have 32 bits: sums of them are cut with \<open>s32\<close>.  The decompressor of libbz2 is a parameter:
  the state of a stream includes its input, and a call gets the room in the output.  \<open>Fault\<close> is
  an access outside the patch or a store outside the new file; the outer \<open>None\<close> a loop that does not end.
\<close>

section \<open>Numbers\<close>

abbreviation s32 :: "int \<Rightarrow> int" where
  "s32 x \<equiv> signed_take_bit 31 x"

definition offtin_step :: "int \<Rightarrow> byte \<Rightarrow> int" where
  "offtin_step y b = s32 (s32 (y * 256) + uint b)"

definition offtin :: "byte list \<Rightarrow> int" where
  "offtin buf =
     (let y = foldl offtin_step (uint (buf ! 7 AND 0x7F)) [buf ! 6, buf ! 5, buf ! 4, buf ! 3, buf ! 2, buf ! 1, buf ! 0]
      in if buf ! 7 AND 0x80 \<noteq> 0 then s32 (- y) else y)"

fun offtout_digits :: "nat \<Rightarrow> int \<Rightarrow> byte list" where
  "offtout_digits 0 y = []"
| "offtout_digits (Suc n) y = word_of_int (y mod 256) # offtout_digits n ((y - y mod 256) div 256)"

definition offtout :: "int \<Rightarrow> byte list" where
  "offtout x =
     (let buf = offtout_digits 8 (if x < 0 then s32 (- x) else x)
      in if x < 0 then buf[7 := buf ! 7 OR 0x80] else buf)"

section \<open>Streams\<close>

type_synonym 'z bz_fn = "'z \<Rightarrow> nat \<Rightarrow> int \<times> 'z \<times> byte list"

record 'z bzlib =
  bz_init :: "byte list \<Rightarrow> 'z"
  bz_decompress :: "'z bz_fn"

definition BZ_OK :: int where "BZ_OK = 0"
definition BZ_STREAM_END :: int where "BZ_STREAM_END = 4"

text \<open>
  Filling a buffer with room for \<open>cap\<close> bytes up to \<open>size\<close>: the bytes, or \<open>None\<close> for the result -1.  A negative size
  becomes a large unsigned one.
\<close>

partial_function (option) fill_loop ::
  "'z bz_fn \<Rightarrow> nat \<Rightarrow> byte list \<Rightarrow> nat \<Rightarrow> 'z \<Rightarrow> (byte list option \<times> 'z) outcome option" where
  [code]: "fill_loop bz cap acc avail z =
     (if avail = 0 then Some (Done (Some acc, z))
      else (case bz z avail of
              (bzerr, z', out) \<Rightarrow>
                if length acc + length out > cap then Some Fault
                else if bzerr \<noteq> BZ_OK \<and> bzerr \<noteq> BZ_STREAM_END then Some (Done (None, z'))
                else fill_loop bz cap (acc @ out) (avail - length out) z'))"

definition FillBuffer :: "'z bz_fn \<Rightarrow> nat \<Rightarrow> int \<Rightarrow> 'z \<Rightarrow> (byte list option \<times> 'z) outcome option" where
  "FillBuffer bz cap sz z = fill_loop bz cap [] (nat (sz mod 2 ^ 32)) z"

definition bind_run :: "'a outcome option \<Rightarrow> ('a \<Rightarrow> 'b outcome option) \<Rightarrow> 'b outcome option" where
  "bind_run x f = (case x of None \<Rightarrow> None | Some Fault \<Rightarrow> Some Fault | Some (Done a) \<Rightarrow> f a)"

section \<open>Applying a patch\<close>

record 'z bstate =
  b_c :: 'z
  b_d :: 'z
  b_e :: 'z
  b_old :: int
  b_new :: int
  b_mem :: "byte list"

text \<open>Adding the old data where there is any.\<close>

definition add_old :: "byte list \<Rightarrow> int \<Rightarrow> byte list \<Rightarrow> byte list" where
  "add_old old oldpos diff =
     map (\<lambda>i. let j = s32 (oldpos + int i)
              in if 0 \<le> j \<and> j < int (length old) then diff ! i + old ! nat j else diff ! i) [0..<length diff]"

definition put_at :: "int \<Rightarrow> byte list \<Rightarrow> byte list \<Rightarrow> byte list" where
  "put_at p bs mem = take (nat p) mem @ bs @ drop (nat p + length bs) mem"

text \<open>
  One iteration, in three parts: the control triple, the diff bytes and the extra bytes.  The flag is false when the
  function returns 1.
\<close>

definition bs_extra :: "'z bz_fn \<Rightarrow> int \<Rightarrow> int \<Rightarrow> int \<Rightarrow> 'z bstate \<Rightarrow> (bool \<times> 'z bstate) outcome option" where
  "bs_extra bz new_size ctrl1 ctrl2 s =
     (if s32 (b_new s + ctrl1) > new_size then Some (Done (False, s))
      else bind_run (FillBuffer bz (nat (new_size - b_new s)) ctrl1 (b_e s)) (\<lambda>(extra, e).
        case extra of
          None \<Rightarrow> Some (Done (False, s\<lparr>b_e := e\<rparr>))
        | Some extra \<Rightarrow>
            Some (Done (True, s\<lparr>b_e := e, b_mem := put_at (b_new s) extra (b_mem s),
                               b_new := s32 (b_new s + ctrl1), b_old := s32 (b_old s + ctrl2)\<rparr>))))"

definition bs_diff :: "'z bz_fn \<Rightarrow> byte list \<Rightarrow> int \<Rightarrow> int \<Rightarrow> 'z bstate \<Rightarrow> (bool \<times> 'z bstate) outcome option" where
  "bs_diff bz old new_size ctrl0 s =
     (if s32 (b_new s + ctrl0) > new_size then Some (Done (False, s))
      else bind_run (FillBuffer bz (nat (new_size - b_new s)) ctrl0 (b_d s)) (\<lambda>(diff, d).
        case diff of
          None \<Rightarrow> Some (Done (False, s\<lparr>b_d := d\<rparr>))
        | Some diff \<Rightarrow>
            Some (Done (True, s\<lparr>b_d := d, b_mem := put_at (b_new s) (add_old old (b_old s) diff) (b_mem s),
                               b_new := s32 (b_new s + ctrl0), b_old := s32 (b_old s + ctrl0)\<rparr>))))"

definition bs_step :: "'z bz_fn \<Rightarrow> byte list \<Rightarrow> int \<Rightarrow> 'z bstate \<Rightarrow> (bool \<times> 'z bstate) outcome option" where
  "bs_step bz old new_size s =
     bind_run (FillBuffer bz 24 24 (b_c s)) (\<lambda>(buf, c).
       case buf of
         None \<Rightarrow> Some (Done (False, s\<lparr>b_c := c\<rparr>))
       | Some buf \<Rightarrow>
           bind_run (bs_diff bz old new_size (offtin buf) (s\<lparr>b_c := c\<rparr>)) (\<lambda>(ok, s).
             if \<not> ok then Some (Done (False, s))
             else bs_extra bz new_size (offtin (drop 8 buf)) (offtin (drop 16 buf)) s))"

partial_function (option) bs_loop :: "'z bz_fn \<Rightarrow> byte list \<Rightarrow> int \<Rightarrow> 'z bstate \<Rightarrow> (int \<times> byte list) outcome option" where
  [code]: "bs_loop bz old new_size s =
     (if b_new s < new_size
      then (case bs_step bz old new_size s of
              None \<Rightarrow> None
            | Some Fault \<Rightarrow> Some Fault
            | Some (Done (ok, s)) \<Rightarrow> if ok then bs_loop bz old new_size s else Some (Done (1, b_mem s)))
      else Some (Done (0, b_mem s)))"

definition BSDIFF_MAGIC :: "byte list" where
  "BSDIFF_MAGIC = [0x42, 0x53, 0x44, 0x49, 0x46, 0x46, 0x34, 0x30]"

text \<open>The result is the return value with the new data; \<open>malloc\<close> gives the fresh memory.\<close>

definition ApplyBSDiffPatchMem ::
  "'z bzlib \<Rightarrow> (nat \<Rightarrow> byte list option) \<Rightarrow> byte list \<Rightarrow> byte list \<Rightarrow> nat \<Rightarrow> (int \<times> byte list) outcome option" where
  "ApplyBSDiffPatchMem bz malloc old patch patch_offset =
     (let header = drop patch_offset patch in
      if length header < 8 then Some Fault
      else if take 8 header \<noteq> BSDIFF_MAGIC then Some (Done (1, []))
      else if length header < 32 then Some Fault
      else let ctrl_len = offtin (drop 8 header); data_len = offtin (drop 16 header); new_size = offtin (drop 24 header) in
      if ctrl_len < 0 \<or> data_len < 0 \<or> new_size < 0 then Some (Done (1, []))
      else if int (length header) < 32 + ctrl_len + data_len then Some Fault
      else (case malloc (nat new_size) of
              None \<Rightarrow> Some (Done (1, []))
            | Some mem \<Rightarrow>
                bs_loop (bz_decompress bz) old new_size
                  \<lparr>b_c = bz_init bz (take (nat ctrl_len) (drop 32 header)),
                   b_d = bz_init bz (take (nat data_len) (drop (32 + nat ctrl_len) header)),
                   b_e = bz_init bz (drop (32 + nat ctrl_len + nat data_len) header),
                   b_old = 0, b_new = 0, b_mem = mem\<rparr>))"

text \<open>Writing the result to a sink, with the hash of what was written.\<close>

type_synonym 't sink_fn = "byte list \<Rightarrow> 't \<Rightarrow> int \<times> 't"

definition ApplyBSDiffPatch ::
  "'z bzlib \<Rightarrow> (nat \<Rightarrow> byte list option) \<Rightarrow> ('h \<Rightarrow> byte list \<Rightarrow> 'h) \<Rightarrow> byte list \<Rightarrow> byte list \<Rightarrow> nat \<Rightarrow> 't sink_fn \<Rightarrow>
     't \<Rightarrow> 'h option \<Rightarrow> (int \<times> 't \<times> 'h option) outcome option" where
  "ApplyBSDiffPatch bz malloc upd old patch patch_offset sink token ctx =
     bind_run (ApplyBSDiffPatchMem bz malloc old patch patch_offset) (\<lambda>(ret, new_data).
       if ret \<noteq> 0 then Some (Done (-1, token, ctx))
       else let (n, token) = sink new_data token in
         if n < int (length new_data) then Some (Done (1, token, ctx))
         else Some (Done (0, token, map_option (\<lambda>c. upd c new_data) ctx)))"

section \<open>The number format\<close>

lemma s32_small: "- (2 ^ 31) \<le> x \<Longrightarrow> x < 2 ^ 31 \<Longrightarrow> s32 x = x"
  by (simp add: signed_take_bit_int_eq_self)

lemma s32_range: "- (2 ^ 31) \<le> s32 x" "s32 x < 2 ^ 31"
  using signed_take_bit_int_greater_eq_minus_exp [of 31 x] signed_take_bit_int_less_exp [of 31 x] by simp_all

lemma s32_add: "s32 (s32 a + b) = s32 (a + b)"
  using signed_take_bit_add [of 31 "s32 a" b] signed_take_bit_add [of 31 a b] by simp

lemma offtout_digits_length [simp]: "length (offtout_digits n y) = n"
  by (induction n arbitrary: y) auto

lemma offtout_length: "length (offtout x) = 8"
  by (simp add: offtout_def Let_def)

lemma offtin_step_small: "0 \<le> y \<Longrightarrow> y * 256 + uint b < 2 ^ 31 \<Longrightarrow> offtin_step y b = y * 256 + uint b"
proof -
  assume y: "0 \<le> y" "y * 256 + uint b < 2 ^ 31"
  have b: "0 \<le> uint b" by simp
  have "s32 (y * 256) = y * 256" by (rule s32_small) (use y b in linarith)+
  then show ?thesis unfolding offtin_step_def using s32_small [of "y * 256 + uint b"] y b by simp
qed

lemma uint_digit: "uint (word_of_int (y mod 256) :: byte) = y mod 256"
  by (simp add: uint_word_of_int)

lemma digit_rest: "((y :: int) - y mod 256) div 256 = y div 256"
  by (simp add: minus_mod_eq_mult_div)

lemma digit_step:
  assumes "0 \<le> v" "v < 2 ^ 31"
  shows "offtin_step (v div 256) (word_of_int (v mod 256)) = v"
proof -
  have "v div 256 * 256 + v mod 256 = v" by simp
  then show ?thesis using offtin_step_small [of "v div 256" "word_of_int (v mod 256)"] assms by (simp add: uint_digit)
qed

lemma offtout_read_back:
  assumes "- (2 ^ 31) < x" "x < 2 ^ 31"
  shows "offtin (offtout x) = x"
proof -
  define y where "y = (if x < 0 then - x else x)"
  have y: "0 \<le> y" "y < 2 ^ 31" using assms by (auto simp: y_def)
  have abs: "(if x < 0 then s32 (- x) else x) = y" using assms s32_small [of "- x"] by (simp add: y_def)
  define d :: "nat \<Rightarrow> byte" where "d k = word_of_int (y div 256 ^ k mod 256)" for k
  have digits: "offtout_digits 8 y = map d [0..<8]"
    by (simp add: numeral_eq_Suc digit_rest d_def zdiv_zmult2_eq [symmetric] upt_rec)
  have hi: "d k = 0" if "k \<in> {4, 5, 6, 7}" for k
    using y that by (auto simp: d_def)
  have lo: "uint (d k) = y div 256 ^ k mod 256" for k
    by (simp add: d_def uint_digit)
  define buf where "buf = offtout x"
  have b: "buf ! k = d k" if "k < 7" for k
    using that by (simp add: buf_def offtout_def abs digits Let_def)
  have b7: "buf ! 7 = (if x < 0 then 0x80 else 0)"
    by (simp add: buf_def offtout_def abs digits Let_def hi)
  have st: "offtin_step (y div 256 ^ Suc k) (d k) = y div 256 ^ k" for k
  proof -
    have "y div 256 ^ k \<le> y" using y(1) by (intro zdiv_mono2 [of y 1 "256 ^ k", simplified]) auto
    then have v: "0 \<le> y div 256 ^ k" "y div 256 ^ k < 2 ^ 31" using y by (auto simp: pos_imp_zdiv_nonneg_iff)
    have "y div 256 ^ Suc k = y div 256 ^ k div 256" by (simp add: zdiv_zmult2_eq [symmetric] mult.commute)
    then show ?thesis using digit_step [OF v] by (simp add: d_def)
  qed
  have top: "y div 256 ^ 4 = 0" using y by simp
  have f: "offtin_step 0 (d 3) = y div 256 ^ 3"
      "offtin_step (y div 256 ^ 3) (d 2) = y div 256 ^ 2" "offtin_step (y div 256 ^ 2) (d 1) = y div 256"
      "offtin_step (y div 256) (d 0) = y" "offtin_step 0 0 = 0"
    using st [of 3] st [of 2] st [of 1] st [of 0] top by (simp_all add: eval_nat_numeral offtin_step_def)
  have "foldl offtin_step 0 [d 6, d 5, d 4, d 3, d 2, d 1, d 0] = y" using f hi by simp
  moreover have "uint (buf ! 7 AND 0x7F) = 0" "buf ! 7 AND 0x80 \<noteq> 0 \<longleftrightarrow> x < 0" by (simp_all add: b7)
  ultimately have "offtin buf = (if x < 0 then s32 (- y) else y)" by (simp add: offtin_def Let_def b)
  then show ?thesis using y s32_small [of "- y"] by (auto simp: buf_def y_def split: if_splits)
qed

text \<open>
  The numbers of a patch survive the trip: what \<^verbatim>\<open>offtout\<close> writes \<^verbatim>\<open>offtin\<close> reads back, for every value
  of a signed 32-bit number except the least one.\<close>

theorem offtin_offtout:
  assumes "- (2 ^ 31) < x" "x < 2 ^ 31"
  shows "offtin (offtout x) = x"
  using assms by (rule offtout_read_back)

section \<open>Streams that deliver a plain text\<close>

text \<open>
  The documented behaviour of the decompressor, for a relation \<open>dec\<close> between the state of a stream and the plain text still to
  come: a successful call delivers the next part of it, at most what there is room for; and while there is plain text left
  a call succeeds and makes progress, measured by \<open>w\<close>.
\<close>

definition bz_decodes :: "'z bz_fn \<Rightarrow> ('z \<Rightarrow> byte list \<Rightarrow> bool) \<Rightarrow> bool" where
  "bz_decodes bz dec \<longleftrightarrow>
     (\<forall>z plain n bzerr z' out. dec z plain \<and> 0 < n \<and> bz z n = (bzerr, z', out) \<and> (bzerr = BZ_OK \<or> bzerr = BZ_STREAM_END) \<longrightarrow>
        length out \<le> n \<and> (\<exists>plain'. plain = out @ plain' \<and> dec z' plain'))"

definition bz_delivers :: "'z bz_fn \<Rightarrow> ('z \<Rightarrow> byte list \<Rightarrow> bool) \<Rightarrow> ('z \<Rightarrow> nat) \<Rightarrow> bool" where
  "bz_delivers bz dec w \<longleftrightarrow> bz_decodes bz dec \<and>
     (\<forall>z plain n. dec z plain \<and> plain \<noteq> [] \<and> 0 < n \<longrightarrow>
        (\<exists>bzerr z' out. bz z n = (bzerr, z', out) \<and> (bzerr = BZ_OK \<or> bzerr = BZ_STREAM_END) \<and> w z' < w z))"

lemma fill_sound:
  assumes dec: "bz_decodes bz dec" and run: "fill_loop bz cap acc avail z = Some (Done (Some bs, z'))"
    and z: "dec z plain"
  shows "\<exists>plain'. plain = drop (length acc) bs @ plain' \<and> dec z' plain' \<and> take (length acc) bs = acc \<and>
    length bs = length acc + avail \<and> (avail = 0 \<or> length bs \<le> cap)"
proof -
  let ?Q = "\<lambda>acc avail z r. \<forall>plain bs z'. r = Done (Some bs, z') \<longrightarrow> dec z plain \<longrightarrow>
    (\<exists>plain'. plain = drop (length acc) bs @ plain' \<and> dec z' plain' \<and> take (length acc) bs = acc \<and>
      length bs = length acc + avail \<and> (avail = 0 \<or> length bs \<le> cap))"
  have "bz = bz \<longrightarrow> cap = cap \<longrightarrow> ?Q acc avail z (Done (Some bs, z'))"
  proof (rule fill_loop.raw_induct [where P = "\<lambda>b c acc avail z r. b = bz \<longrightarrow> c = cap \<longrightarrow> ?Q acc avail z r", OF _ run])
    fix rec b c acc avail z r
    assume IH: "\<And>b c acc avail z r. rec b c acc avail z = Some r \<Longrightarrow> b = bz \<longrightarrow> c = cap \<longrightarrow> ?Q acc avail z r"
      and body: "(if avail = 0 then Some (Done (Some acc, z))
        else (case b z avail of (bzerr, z', out) \<Rightarrow>
                if length acc + length out > c then Some Fault
                else if bzerr \<noteq> BZ_OK \<and> bzerr \<noteq> BZ_STREAM_END then Some (Done (None, z'))
                else rec b c (acc @ out) (avail - length out) z')) = Some r"
    show "b = bz \<longrightarrow> c = cap \<longrightarrow> ?Q acc avail z r"
    proof (intro impI allI)
      fix plain bs z'
      assume eq: "b = bz" "c = cap" and r: "r = Done (Some bs, z')" and z: "dec z plain"
      show "\<exists>plain'. plain = drop (length acc) bs @ plain' \<and> dec z' plain' \<and> take (length acc) bs = acc \<and>
          length bs = length acc + avail \<and> (avail = 0 \<or> length bs \<le> cap)"
      proof (cases "avail = 0")
        case True
        then show ?thesis using body r z by auto
      next
        case False
        obtain bzerr z1 out where o: "bz z avail = (bzerr, z1, out)" by (metis prod_cases3)
        have ok: "bzerr = BZ_OK \<or> bzerr = BZ_STREAM_END" "length acc + length out \<le> cap"
            "rec bz cap (acc @ out) (avail - length out) z1 = Some r"
          using body False o r eq by (auto split: if_splits)
        obtain p1 where p1: "length out \<le> avail" "plain = out @ p1" "dec z1 p1"
          using dec z False o ok(1) unfolding bz_decodes_def by (metis neq0_conv)
        obtain plain' where p': "p1 = drop (length (acc @ out)) bs @ plain'" "dec z' plain'" "take (length (acc @ out)) bs = acc @ out"
            "length bs = length (acc @ out) + (avail - length out)" "avail - length out = 0 \<or> length bs \<le> cap"
          using IH [OF ok(3)] r p1(3) by blast
        have t: "take (length acc) bs = acc" using p'(3) by (metis append_eq_conv_conj append_take_drop_id append.assoc)
        have "drop (length acc) bs = out @ drop (length (acc @ out)) bs"
          using p'(3) by (metis append_assoc append_eq_conv_conj append_take_drop_id)
        then have "plain = drop (length acc) bs @ plain'" using p1(2) p'(1) by simp
        moreover have "length bs = length acc + avail" "length bs \<le> cap" using p'(4,5) p1(1) ok(2) by auto
        ultimately show ?thesis using t p'(2) by blast
      qed
    qed
  qed
  then show ?thesis using z by blast
qed

text \<open>One call on a stream that has plain text left.\<close>

lemma deliver_step:
  assumes "bz_delivers bz dec w" "dec z plain" "plain \<noteq> []" "0 < n"
  obtains bzerr z' out plain' where "bz z n = (bzerr, z', out)" "bzerr = BZ_OK \<or> bzerr = BZ_STREAM_END" "w z' < w z"
    "length out \<le> n" "plain = out @ plain'" "dec z' plain'"
  using assms unfolding bz_delivers_def bz_decodes_def by meson

lemma fill_complete:
  assumes "bz_delivers bz dec w"
  shows "dec z plain \<Longrightarrow> avail \<le> length plain \<Longrightarrow> length acc + avail \<le> cap \<Longrightarrow>
    \<exists>z'. fill_loop bz cap acc avail z = Some (Done (Some (acc @ take avail plain), z')) \<and> dec z' (drop avail plain)"
proof (induction "w z" arbitrary: z plain avail acc rule: less_induct)
  case less
  show ?case
  proof (cases "avail = 0")
    case True
    then show ?thesis using less.prems by (simp add: fill_loop.simps [of bz cap acc 0])
  next
    case False
    then have "plain \<noteq> []" using less.prems(2) by auto
    then obtain bzerr z1 out p1 where s: "bz z avail = (bzerr, z1, out)" "bzerr = BZ_OK \<or> bzerr = BZ_STREAM_END" "w z1 < w z"
        "length out \<le> avail" "plain = out @ p1" "dec z1 p1"
      using deliver_step [OF assms less.prems(1)] False by (metis neq0_conv)
    have "fill_loop bz cap acc avail z = fill_loop bz cap (acc @ out) (avail - length out) z1"
      using False s less.prems(3) by (subst fill_loop.simps) auto
    moreover have "\<exists>z'. fill_loop bz cap (acc @ out) (avail - length out) z1 =
        Some (Done (Some ((acc @ out) @ take (avail - length out) p1), z')) \<and> dec z' (drop (avail - length out) p1)"
      by (rule less.hyps [OF s(3,6)]) (use s(4,5) less.prems in auto)
    ultimately show ?thesis using s(4,5) by simp
  qed
qed

lemma fill_overrun:
  assumes "bz_delivers bz dec w"
  shows "dec z plain \<Longrightarrow> length acc \<le> cap \<Longrightarrow> cap < length acc + avail \<Longrightarrow> cap < length acc + length plain \<Longrightarrow>
    fill_loop bz cap acc avail z = Some Fault"
proof (induction "w z" arbitrary: z plain avail acc rule: less_induct)
  case less
  have n: "0 < avail" "plain \<noteq> []" using less.prems(2-4) by auto
  obtain bzerr z1 out p1 where s: "bz z avail = (bzerr, z1, out)" "bzerr = BZ_OK \<or> bzerr = BZ_STREAM_END" "w z1 < w z"
      "length out \<le> avail" "plain = out @ p1" "dec z1 p1"
    using deliver_step [OF assms less.prems(1) n(2,1)] by metis
  show ?case
  proof (cases "length acc + length out > cap")
    case True
    then show ?thesis using n s by (simp add: fill_loop.simps [of bz cap acc avail z])
  next
    case False
    then have "fill_loop bz cap acc avail z = fill_loop bz cap (acc @ out) (avail - length out) z1"
      using n s by (subst fill_loop.simps) auto
    moreover have "fill_loop bz cap (acc @ out) (avail - length out) z1 = Some Fault"
      by (rule less.hyps [OF s(3,6)]) (use s(4,5) less.prems False in auto)
    ultimately show ?thesis by simp
  qed
qed

lemma nat_size: "0 \<le> sz \<Longrightarrow> sz < 2 ^ 31 \<Longrightarrow> nat (sz mod 2 ^ 32) = nat sz"
  by simp

lemma FillBuffer_sound:
  assumes "bz_decodes bz dec" "FillBuffer bz cap sz z = Some (Done (Some bs, z'))" "dec z plain"
    and "- (2 ^ 31) \<le> sz" "sz < 2 ^ 31" "cap < 2 ^ 31"
  shows "0 \<le> sz \<and> length bs = nat sz \<and> nat sz \<le> cap \<and> (\<exists>plain'. plain = bs @ plain' \<and> dec z' plain')"
proof -
  obtain plain' where p: "plain = bs @ plain'" "dec z' plain'" "length bs = nat (sz mod 2 ^ 32)"
      "nat (sz mod 2 ^ 32) = 0 \<or> length bs \<le> cap"
    using fill_sound [OF assms(1) assms(2) [unfolded FillBuffer_def] assms(3)] by auto
  have "0 \<le> sz"
  proof (rule ccontr)
    assume "\<not> 0 \<le> sz"
    then have "(sz + 2 ^ 32) mod 2 ^ 32 = sz + 2 ^ 32" using assms(4) by (intro mod_pos_pos_trivial) auto
    then have "sz mod 2 ^ 32 = sz + 2 ^ 32" by simp
    then show False using p(3,4) assms(4,6) by simp
  qed
  then show ?thesis using p nat_size [of sz] assms(5) by auto
qed

lemma FillBuffer_complete:
  assumes "bz_delivers bz dec w" "dec z plain" "0 \<le> sz" "sz < 2 ^ 31" "nat sz \<le> length plain" "nat sz \<le> cap"
  shows "\<exists>z'. FillBuffer bz cap sz z = Some (Done (Some (take (nat sz) plain), z')) \<and> dec z' (drop (nat sz) plain)"
  using fill_complete [OF assms(1,2), of "nat sz" "[]" cap] assms(3-6) nat_size [OF assms(3,4)] by (simp add: FillBuffer_def)

section \<open>The reference\<close>

text \<open>
  The format of the comment in the source: a control triple \<open>(x, y, z)\<close> adds \<open>x\<close> bytes of the old file to \<open>x\<close> bytes of
  the diff block, copies \<open>y\<close> bytes of the extra block and seeks forwards in the old file by \<open>z\<close> bytes.
\<close>

definition triple_ok :: "int \<Rightarrow> byte list \<Rightarrow> byte list \<Rightarrow> byte list \<Rightarrow> byte list \<Rightarrow> bool" where
  "triple_ok n ctrl diff extra new \<longleftrightarrow> 24 \<le> length ctrl \<and> 0 \<le> offtin ctrl \<and> 0 \<le> offtin (drop 8 ctrl) \<and>
     int (length new) + offtin ctrl + offtin (drop 8 ctrl) \<le> n \<and> offtin ctrl \<le> int (length diff) \<and>
     offtin (drop 8 ctrl) \<le> int (length extra)"

function bspatch_spec :: "int \<Rightarrow> byte list \<Rightarrow> byte list \<Rightarrow> byte list \<Rightarrow> byte list \<Rightarrow> int \<Rightarrow> byte list \<Rightarrow> byte list option" where
  "bspatch_spec n old ctrl diff extra oldpos new =
     (if int (length new) < n
      then (if triple_ok n ctrl diff extra new
            then let x = offtin ctrl; y = offtin (drop 8 ctrl); z = offtin (drop 16 ctrl)
                 in bspatch_spec n old (drop 24 ctrl) (drop (nat x) diff) (drop (nat y) extra) (s32 (oldpos + x + z))
                      (new @ add_old old oldpos (take (nat x) diff) @ take (nat y) extra)
            else None)
      else Some new)"
  by pat_completeness auto
termination
  by (relation "measure (\<lambda>(n, old, ctrl, diff, extra, oldpos, new). length ctrl)") (auto simp: triple_ok_def)

declare bspatch_spec.simps [simp del]

text \<open>The state of the loop for what remains of the plain streams.\<close>

definition patching :: "('z \<Rightarrow> byte list \<Rightarrow> bool) \<Rightarrow> int \<Rightarrow> 'z bstate \<Rightarrow> byte list \<Rightarrow> byte list \<Rightarrow> byte list \<Rightarrow> int \<Rightarrow> byte list \<Rightarrow> bool" where
  "patching dec n s ctrl diff extra oldpos new \<longleftrightarrow> n < 2 ^ 31 \<and> dec (b_c s) ctrl \<and> dec (b_d s) diff \<and> dec (b_e s) extra \<and>
     b_old s = oldpos \<and> b_new s = int (length new) \<and> int (length (b_mem s)) = n \<and> length new \<le> length (b_mem s) \<and>
     take (length new) (b_mem s) = new"

lemma offtin_cong: "take 8 a = take 8 b \<Longrightarrow> 8 \<le> length a \<Longrightarrow> 8 \<le> length b \<Longrightarrow> offtin a = offtin b"
proof -
  assume t: "take 8 a = take 8 b" and l: "8 \<le> length a" "8 \<le> length b"
  have "a ! i = b ! i" if "i < 8" for i using t that by (metis nth_take)
  then show ?thesis by (simp add: offtin_def)
qed

lemma offtin_take24:
  assumes "24 \<le> length ctrl"
  shows "offtin (take 24 ctrl) = offtin ctrl" "offtin (drop 8 (take 24 ctrl)) = offtin (drop 8 ctrl)"
    "offtin (drop 16 (take 24 ctrl)) = offtin (drop 16 ctrl)"
  by (rule offtin_cong; use assms in \<open>auto simp: drop_take min_def\<close>)+

lemma offtin_range: "- (2 ^ 31) \<le> offtin buf" "offtin buf < 2 ^ 31"
proof -
  have step: "- (2 ^ 31) \<le> offtin_step y b" "offtin_step y b < 2 ^ 31" for y b
    using s32_range unfolding offtin_step_def by auto
  show "- (2 ^ 31) \<le> offtin buf" "offtin buf < 2 ^ 31"
    using s32_range step by (auto simp: offtin_def Let_def simp del: power_numeral power_0 power_Suc)
qed

lemma add_old_length [simp]: "length (add_old old p diff) = length diff"
  by (simp add: add_old_def)

lemma put_at_spec:
  assumes "take (length new) mem = new" "length new + length bs \<le> length mem"
  shows "take (length (new @ bs)) (put_at (int (length new)) bs mem) = new @ bs"
    "length (put_at (int (length new)) bs mem) = length mem"
  using assms by (simp_all add: put_at_def)

lemma patching_store:
  assumes "patching dec n s ctrl diff extra oldpos new" "int (length new) + int (length bs) \<le> n"
  shows "length (put_at (b_new s) bs (b_mem s)) = length (b_mem s)"
    "take (length new + length bs) (put_at (b_new s) bs (b_mem s)) = new @ bs"
    "length new + length bs \<le> length (b_mem s)"
proof -
  have q: "take (length new) (b_mem s) = new" "b_new s = int (length new)" and fit: "length new + length bs \<le> length (b_mem s)"
    using assms by (auto simp: patching_def)
  show "length (put_at (b_new s) bs (b_mem s)) = length (b_mem s)"
    "take (length new + length bs) (put_at (b_new s) bs (b_mem s)) = new @ bs"
    using put_at_spec [OF q(1) fit] q(2) by simp_all
  show "length new + length bs \<le> length (b_mem s)" by (rule fit)
qed

lemma bind_run_Done:
  "bind_run x f = Some (Done y) \<longleftrightarrow> (\<exists>a. x = Some (Done a) \<and> f a = Some (Done y))"
  by (auto simp: bind_run_def split: option.splits outcome.splits)

lemma bs_diff_sound:
  assumes dec: "bz_decodes bz dec" and p: "patching dec n s ctrl diff extra oldpos new"
    and x: "- (2 ^ 31) \<le> x" "x < 2 ^ 31" and run: "bs_diff bz old n x s = Some (Done (True, s'))"
  shows "0 \<le> x \<and> x \<le> int (length diff) \<and> int (length new) + x \<le> n \<and>
    patching dec n s' ctrl (drop (nat x) diff) extra (s32 (oldpos + x)) (new @ add_old old oldpos (take (nat x) diff))"
proof -
  note q = p [unfolded patching_def]
  obtain bs d where f: "FillBuffer bz (nat (n - b_new s)) x (b_d s) = Some (Done (Some bs, d))"
      "s' = s\<lparr>b_d := d, b_mem := put_at (b_new s) (add_old old (b_old s) bs) (b_mem s),
             b_new := s32 (b_new s + x), b_old := s32 (b_old s + x)\<rparr>"
    using run by (auto simp: bs_diff_def bind_run_Done split: if_splits option.splits)
  have cap: "nat (n - b_new s) < 2 ^ 31" using q by auto
  obtain plain' where r: "0 \<le> x" "length bs = nat x" "nat x \<le> nat (n - b_new s)" "diff = bs @ plain'" "dec d plain'"
    using FillBuffer_sound [OF dec f(1) _ x cap] q by blast
  have fit: "int (length new) + x \<le> n" using r(1,3) q by auto
  have bs: "bs = take (nat x) diff" "plain' = drop (nat x) diff" using r(2,4) by simp_all
  have "s32 (b_new s + x) = int (length new) + x" using q fit r(1) by (intro trans [OF s32_small]) auto
  then have "patching dec n s' ctrl plain' extra (s32 (oldpos + x)) (new @ add_old old oldpos bs)"
    using patching_store [OF p, of "add_old old oldpos bs"] q f(2) r(1,2,5) fit unfolding patching_def by simp
  moreover have "x \<le> int (length diff)" using r(1,2,4) by simp
  ultimately show ?thesis using r(1) fit bs by simp
qed

lemma bs_diff_complete:
  assumes bz: "bz_delivers bz dec w" and p: "patching dec n s ctrl diff extra oldpos new"
    and x: "0 \<le> x" "x \<le> int (length diff)" "int (length new) + x \<le> n"
  shows "\<exists>s'. bs_diff bz old n x s = Some (Done (True, s'))"
proof -
  note q = p [unfolded patching_def]
  have "\<exists>z'. FillBuffer bz (nat (n - b_new s)) x (b_d s) = Some (Done (Some (take (nat x) diff), z')) \<and> dec z' (drop (nat x) diff)"
    by (rule FillBuffer_complete [OF bz]) (use q x in auto)
  moreover have "s32 (b_new s + x) = int (length new) + x" using q x by (intro trans [OF s32_small]) auto
  ultimately show ?thesis using x(3) by (auto simp: bs_diff_def bind_run_def)
qed

lemma bs_extra_sound:
  assumes dec: "bz_decodes bz dec" and p: "patching dec n s ctrl diff extra oldpos new"
    and y: "- (2 ^ 31) \<le> y" "y < 2 ^ 31" and run: "bs_extra bz n y z s = Some (Done (True, s'))"
  shows "0 \<le> y \<and> y \<le> int (length extra) \<and> int (length new) + y \<le> n \<and>
    patching dec n s' ctrl diff (drop (nat y) extra) (s32 (oldpos + z)) (new @ take (nat y) extra)"
proof -
  note q = p [unfolded patching_def]
  obtain bs e where f: "FillBuffer bz (nat (n - b_new s)) y (b_e s) = Some (Done (Some bs, e))"
      "s' = s\<lparr>b_e := e, b_mem := put_at (b_new s) bs (b_mem s), b_new := s32 (b_new s + y), b_old := s32 (b_old s + z)\<rparr>"
    using run by (auto simp: bs_extra_def bind_run_Done split: if_splits option.splits)
  have cap: "nat (n - b_new s) < 2 ^ 31" using q by auto
  obtain plain' where r: "0 \<le> y" "length bs = nat y" "nat y \<le> nat (n - b_new s)" "extra = bs @ plain'" "dec e plain'"
    using FillBuffer_sound [OF dec f(1) _ y cap] q by blast
  have fit: "int (length new) + y \<le> n" using r(1,3) q by auto
  have bs: "bs = take (nat y) extra" "plain' = drop (nat y) extra" using r(2,4) by simp_all
  have "s32 (b_new s + y) = int (length new) + y" using q fit r(1) by (intro trans [OF s32_small]) auto
  then have "patching dec n s' ctrl diff plain' (s32 (oldpos + z)) (new @ bs)"
    using patching_store [OF p, of bs] q f(2) r(1,2,5) fit unfolding patching_def by simp
  moreover have "y \<le> int (length extra)" using r(1,2,4) by simp
  ultimately show ?thesis using r(1) fit bs by simp
qed

lemma bs_extra_complete:
  assumes bz: "bz_delivers bz dec w" and p: "patching dec n s ctrl diff extra oldpos new"
    and y: "0 \<le> y" "y \<le> int (length extra)" "int (length new) + y \<le> n"
  shows "\<exists>s'. bs_extra bz n y z s = Some (Done (True, s'))"
proof -
  note q = p [unfolded patching_def]
  have "\<exists>z'. FillBuffer bz (nat (n - b_new s)) y (b_e s) = Some (Done (Some (take (nat y) extra), z')) \<and> dec z' (drop (nat y) extra)"
    by (rule FillBuffer_complete [OF bz]) (use q y in auto)
  moreover have "s32 (b_new s + y) = int (length new) + y" using q y by (intro trans [OF s32_small]) auto
  ultimately show ?thesis using y(3) by (auto simp: bs_extra_def bind_run_def)
qed

text \<open>One iteration does what one triple of the reference says.\<close>

definition after_triple :: "('z \<Rightarrow> byte list \<Rightarrow> bool) \<Rightarrow> int \<Rightarrow> byte list \<Rightarrow> 'z bstate \<Rightarrow> byte list \<Rightarrow> byte list \<Rightarrow> byte list \<Rightarrow> int \<Rightarrow> byte list \<Rightarrow> bool" where
  "after_triple dec n old s ctrl diff extra oldpos new \<longleftrightarrow>
     (let x = offtin ctrl; y = offtin (drop 8 ctrl); z = offtin (drop 16 ctrl)
      in patching dec n s (drop 24 ctrl) (drop (nat x) diff) (drop (nat y) extra) (s32 (oldpos + x + z))
           (new @ add_old old oldpos (take (nat x) diff) @ take (nat y) extra))"

lemma bs_step_sound:
  assumes dec: "bz_decodes bz dec" and p: "patching dec n s ctrl diff extra oldpos new"
    and run: "bs_step bz old n s = Some (Done (True, s'))"
  shows "triple_ok n ctrl diff extra new \<and> after_triple dec n old s' ctrl diff extra oldpos new"
proof -
  obtain buf c s1 where b: "FillBuffer bz 24 24 (b_c s) = Some (Done (Some buf, c))"
      "bs_diff bz old n (offtin buf) (s\<lparr>b_c := c\<rparr>) = Some (Done (True, s1))"
      "bs_extra bz n (offtin (drop 8 buf)) (offtin (drop 16 buf)) s1 = Some (Done (True, s'))"
    using run by (auto simp: bs_step_def bind_run_Done split: option.splits if_splits)
  obtain ctrl' where c: "length buf = 24" "ctrl = buf @ ctrl'" "dec c ctrl'"
    using FillBuffer_sound [OF dec b(1), of ctrl] p by (auto simp: patching_def)
  have len: "24 \<le> length ctrl" "buf = take 24 ctrl" "ctrl' = drop 24 ctrl" using c by simp_all
  note off = offtin_take24 [OF len(1), folded len(2)]
  have p1: "patching dec n (s\<lparr>b_c := c\<rparr>) (drop 24 ctrl) diff extra oldpos new" using p c(3) len(3) by (simp add: patching_def)
  note d = bs_diff_sound [OF dec p1 offtin_range b(2), unfolded off]
  note e = bs_extra_sound [OF dec _ offtin_range b(3), unfolded off]
  have "0 \<le> offtin ctrl" "offtin ctrl \<le> int (length diff)"
      and p2: "patching dec n s1 (drop 24 ctrl) (drop (nat (offtin ctrl)) diff) extra (s32 (oldpos + offtin ctrl))
        (new @ add_old old oldpos (take (nat (offtin ctrl)) diff))"
    using d by blast+
  moreover note e [OF p2]
  ultimately show ?thesis using len(1) by (simp add: triple_ok_def after_triple_def Let_def s32_add)
qed

lemma bs_step_complete:
  assumes bz: "bz_delivers bz dec w" and p: "patching dec n s ctrl diff extra oldpos new" and t: "triple_ok n ctrl diff extra new"
  shows "\<exists>s'. bs_step bz old n s = Some (Done (True, s'))"
proof -
  have dec: "bz_decodes bz dec" using bz by (simp add: bz_delivers_def)
  note t' = t [unfolded triple_ok_def]
  have "\<exists>z'. FillBuffer bz 24 24 (b_c s) = Some (Done (Some (take (nat 24) ctrl), z')) \<and> dec z' (drop (nat 24) ctrl)"
    by (rule FillBuffer_complete [OF bz]) (use p t' in \<open>auto simp: patching_def\<close>)
  then obtain c where c: "FillBuffer bz 24 24 (b_c s) = Some (Done (Some (take 24 ctrl), c))" "dec c (drop 24 ctrl)" by auto
  have off: "offtin (take 24 ctrl) = offtin ctrl" "offtin (drop 8 (take 24 ctrl)) = offtin (drop 8 ctrl)"
      "offtin (drop 16 (take 24 ctrl)) = offtin (drop 16 ctrl)" using offtin_take24 t' by blast+
  have p1: "patching dec n (s\<lparr>b_c := c\<rparr>) (drop 24 ctrl) diff extra oldpos new" using p c(2) by (simp add: patching_def)
  obtain s1 where s1: "bs_diff bz old n (offtin ctrl) (s\<lparr>b_c := c\<rparr>) = Some (Done (True, s1))"
    using bs_diff_complete [OF bz p1] t' by fastforce
  have p2: "patching dec n s1 (drop 24 ctrl) (drop (nat (offtin ctrl)) diff) extra (s32 (oldpos + offtin ctrl))
        (new @ add_old old oldpos (take (nat (offtin ctrl)) diff))"
    using bs_diff_sound [OF dec p1 offtin_range s1] by blast
  obtain s2 where "bs_extra bz n (offtin (drop 8 ctrl)) (offtin (drop 16 ctrl)) s1 = Some (Done (True, s2))"
    using bs_extra_complete [OF bz p2] t' by fastforce
  then show ?thesis using c(1) s1 off by (simp add: bs_step_def bind_run_def)
qed

section \<open>The loop computes the reference\<close>

lemma bspatch_spec_step:
  assumes "int (length new) < n" "triple_ok n ctrl diff extra new"
  shows "bspatch_spec n old ctrl diff extra oldpos new =
    bspatch_spec n old (drop 24 ctrl) (drop (nat (offtin ctrl)) diff) (drop (nat (offtin (drop 8 ctrl))) extra)
      (s32 (oldpos + offtin ctrl + offtin (drop 16 ctrl)))
      (new @ add_old old oldpos (take (nat (offtin ctrl)) diff) @ take (nat (offtin (drop 8 ctrl))) extra)"
  using assms by (subst bspatch_spec.simps) (simp add: Let_def)

lemma patching_done: "patching dec n s ctrl diff extra oldpos new \<Longrightarrow> \<not> b_new s < n \<Longrightarrow> b_mem s = new"
  by (auto simp: patching_def)

lemma bs_loop_sound:
  assumes dec: "bz_decodes bz dec" and run: "bs_loop bz old n s = Some (Done (0, new'))"
    and p: "patching dec n s ctrl diff extra oldpos new"
  shows "bspatch_spec n old ctrl diff extra oldpos new = Some new'"
proof -
  let ?Q = "\<lambda>s r. \<forall>ctrl diff extra oldpos new new'. r = Done (0 :: int, new') \<longrightarrow> patching dec n s ctrl diff extra oldpos new \<longrightarrow>
    bspatch_spec n old ctrl diff extra oldpos new = Some new'"
  have "bz = bz \<longrightarrow> old = old \<longrightarrow> n = n \<longrightarrow> ?Q s (Done (0, new'))"
  proof (rule bs_loop.raw_induct [where P = "\<lambda>b o' m s r. b = bz \<longrightarrow> o' = old \<longrightarrow> m = n \<longrightarrow> ?Q s r", OF _ run], intro impI, goal_cases)
    case (1 loop b o' m s r)
    show ?case
    proof (intro allI impI)
      fix ctrl diff extra oldpos new new'
      assume r: "r = Done (0, new')" and p: "patching dec n s ctrl diff extra oldpos new"
      have bn: "b_new s = int (length new)" using p by (simp add: patching_def)
      show "bspatch_spec n old ctrl diff extra oldpos new = Some new'"
      proof (cases "b_new s < n")
        case False
        then show ?thesis using 1 r patching_done [OF p False] bn by (simp add: bspatch_spec.simps [of n])
      next
        case True
        obtain s1 where s1: "bs_step bz old n s = Some (Done (True, s1))" "loop bz old n s1 = Some r"
          using 1(2) True r unfolding 1(3-5) by (auto split: option.splits outcome.splits if_splits)
        note t = bs_step_sound [OF dec p s1(1)]
        show ?thesis using 1(1) [OF s1(2)] r t True bn
          by (subst bspatch_spec_step) (auto simp: after_triple_def Let_def)
      qed
    qed
  qed
  then show ?thesis using p by blast
qed

lemma bs_loop_complete:
  assumes bz: "bz_delivers bz dec w"
  shows "patching dec n s ctrl diff extra oldpos new \<Longrightarrow> bspatch_spec n old ctrl diff extra oldpos new = Some new' \<Longrightarrow>
    bs_loop bz old n s = Some (Done (0, new'))"
proof (induction n old ctrl diff extra oldpos new arbitrary: s rule: bspatch_spec.induct)
  case (1 n old ctrl diff extra oldpos new)
  have dec: "bz_decodes bz dec" using bz by (simp add: bz_delivers_def)
  have bn: "b_new s = int (length new)" using 1(2) by (simp add: patching_def)
  show ?case
  proof (cases "int (length new) < n")
    case False
    then show ?thesis using 1(3) patching_done [OF 1(2)] bn
      by (simp add: bspatch_spec.simps [of n old ctrl] bs_loop.simps [of bz old n s])
  next
    case True
    have t: "triple_ok n ctrl diff extra new" using 1(3) True by (subst (asm) bspatch_spec.simps) (simp split: if_splits)
    obtain s1 where s1: "bs_step bz old n s = Some (Done (True, s1))" using bs_step_complete [OF bz 1(2) t] by blast
    have a: "after_triple dec n old s1 ctrl diff extra oldpos new" using bs_step_sound [OF dec 1(2) s1] by blast
    have "bs_loop bz old n s1 = Some (Done (0, new'))"
      by (rule 1(1) [OF True t refl refl refl]) (use a 1(3) True t in \<open>simp_all add: after_triple_def Let_def bspatch_spec_step\<close>)
    then show ?thesis using s1 True bn by (subst bs_loop.simps) simp
  qed
qed

text \<open>A patch whose three streams hold the given plain blocks.\<close>

definition patch_form :: "'z bzlib \<Rightarrow> ('z \<Rightarrow> byte list \<Rightarrow> bool) \<Rightarrow> byte list \<Rightarrow> int \<Rightarrow> byte list \<Rightarrow> byte list \<Rightarrow> byte list \<Rightarrow> bool" where
  "patch_form bz dec header n ctrl diff extra \<longleftrightarrow>
     (\<exists>c d e. header = BSDIFF_MAGIC @ offtout (int (length c)) @ offtout (int (length d)) @ offtout n @ c @ d @ e \<and>
        int (length c) < 2 ^ 31 \<and> int (length d) < 2 ^ 31 \<and> 0 \<le> n \<and> n < 2 ^ 31 \<and>
        dec (bz_init bz c) ctrl \<and> dec (bz_init bz d) diff \<and> dec (bz_init bz e) extra)"

lemma offtin_append:
  assumes "- (2 ^ 31) < v" "v < 2 ^ 31"
  shows "offtin (offtout v @ r) = v"
proof -
  have "offtin (offtout v @ r) = offtin (offtout v)" by (rule offtin_cong) (simp_all add: offtout_length)
  then show ?thesis using offtout_read_back [OF assms] by simp
qed

lemma patch_fields:
  assumes "header = BSDIFF_MAGIC @ offtout a @ offtout b @ offtout n @ rest"
    and "0 \<le> a" "a < 2 ^ 31" "0 \<le> b" "b < 2 ^ 31" "0 \<le> n" "n < 2 ^ 31"
  shows "32 \<le> length header" "take 8 header = BSDIFF_MAGIC" "offtin (drop 8 header) = a" "offtin (drop 16 header) = b"
    "offtin (drop 24 header) = n" "drop 32 header = rest" "length header = 32 + length rest"
proof -
  have l: "length BSDIFF_MAGIC = 8" by (simp add: BSDIFF_MAGIC_def)
  note L = l offtout_length
  show "32 \<le> length header" "take 8 header = BSDIFF_MAGIC" "drop 32 header = rest" "length header = 32 + length rest"
    using assms(1) by (simp_all add: L)
  show "offtin (drop 8 header) = a" "offtin (drop 16 header) = b" "offtin (drop 24 header) = n"
    using assms by (simp_all add: L offtin_append)
qed

lemma drop_at: "drop 32 xs = ys \<Longrightarrow> drop (32 + k) xs = drop k ys"
  by (simp add: add.commute drop_drop [symmetric] del: drop_drop)

text \<open>The state the loop starts in.\<close>

lemma patch_start:
  assumes "patch_form bz dec (drop off patch) n ctrl diff extra" "malloc (nat n) = Some mem" "int (length mem) = n"
  shows "\<exists>s. ApplyBSDiffPatchMem bz malloc old patch off = bs_loop (bz_decompress bz) old n s \<and>
    patching dec n s ctrl diff extra 0 []"
proof -
  obtain c d e where h: "drop off patch = BSDIFF_MAGIC @ offtout (int (length c)) @ offtout (int (length d)) @ offtout n @ c @ d @ e"
      and b: "int (length c) < 2 ^ 31" "int (length d) < 2 ^ 31" "0 \<le> n" "n < 2 ^ 31"
      and z: "dec (bz_init bz c) ctrl" "dec (bz_init bz d) diff" "dec (bz_init bz e) extra"
    using assms(1) unfolding patch_form_def by blast
  note f = patch_fields [OF h _ b(1) _ b(2) b(3,4), simplified of_nat_0_le_iff, OF TrueI TrueI]
  let ?s = "\<lparr>b_c = bz_init bz c, b_d = bz_init bz d, b_e = bz_init bz e, b_old = 0, b_new = 0, b_mem = mem\<rparr>"
  have t: "take (length c) (drop 32 (drop off patch)) = c" "take (length d) (drop (32 + length c) (drop off patch)) = d"
      "drop (32 + length c + length d) (drop off patch) = e"
    using drop_at [OF f(6), of "length c"] drop_at [OF f(6), of "length c + length d"] f(6) by (simp_all add: add.assoc del: drop_drop)
  have "ApplyBSDiffPatchMem bz malloc old patch off = bs_loop (bz_decompress bz) old n ?s"
    using b assms(2) f(1-5,7) t unfolding ApplyBSDiffPatchMem_def Let_def by (simp del: drop_drop)
  moreover have "patching dec n ?s ctrl diff extra 0 []" using z b assms(3) by (simp add: patching_def)
  ultimately show ?thesis by blast
qed

lemma patch_run:
  assumes "bz_delivers (bz_decompress bz) dec w" "patch_form bz dec (drop off patch) n ctrl diff extra"
    and "malloc (nat n) = Some mem" "int (length mem) = n"
  shows "ApplyBSDiffPatchMem bz malloc old patch off = Some (Done (0, new)) \<longleftrightarrow>
    bspatch_spec n old ctrl diff extra 0 [] = Some new"
proof -
  obtain s where s: "ApplyBSDiffPatchMem bz malloc old patch off = bs_loop (bz_decompress bz) old n s"
      "patching dec n s ctrl diff extra 0 []"
    using patch_start [OF assms(2), of malloc mem] assms(3,4) by blast
  have "bz_decodes (bz_decompress bz) dec" using assms(1) by (simp add: bz_delivers_def)
  from bs_loop_sound [OF this _ s(2), of old new] bs_loop_complete [OF assms(1) s(2), of old new]
  show ?thesis unfolding s(1) by blast
qed

text \<open>
  C9. Applying a binary patch computes the reference of the format: with a decompressor that delivers the plain control,
  diff and extra blocks, \<^verbatim>\<open>ApplyBSDiffPatchMem\<close> returns 0 with the new data exactly when the triples, taken one by one, produce
  that data; every store of such a run lies in the new file.\<close>

theorem ApplyBSDiffPatchMem_spec:
  assumes "bz_delivers (bz_decompress bz) dec w" "patch_form bz dec (drop off patch) n ctrl diff extra"
    and "malloc (nat n) = Some mem" "int (length mem) = n"
  shows "ApplyBSDiffPatchMem bz malloc old patch off = Some (Done (0, new)) \<longleftrightarrow>
    bspatch_spec n old ctrl diff extra 0 [] = Some new"
  using assms by (rule patch_run)

text \<open>
  C39. The sanity checks of a triple only compare the end of the copy with the size of the new file: a negative
  length passes them, becomes a huge unsigned one, and with more diff data than the new file has room for the decompressor stores behind
  the end of the allocation.\<close>

theorem negative_length_faults:
  assumes "bz_delivers (bz_decompress bz) dec w" "patch_form bz dec (drop off patch) n ctrl diff extra"
    and "malloc (nat n) = Some mem" "int (length mem) = n"
    and "24 \<le> length ctrl" "offtin ctrl < 0" "0 < n" "n < int (length diff)"
  shows "ApplyBSDiffPatchMem bz malloc old patch off = Some Fault"
proof -
  let ?bz = "bz_decompress bz"
  obtain s where s: "ApplyBSDiffPatchMem bz malloc old patch off = bs_loop ?bz old n s"
      "patching dec n s ctrl diff extra 0 []"
    using patch_start [OF assms(2), of malloc mem] assms(3,4) by blast
  note q = s(2) [unfolded patching_def]
  have "\<exists>z'. FillBuffer ?bz 24 24 (b_c s) = Some (Done (Some (take (nat 24) ctrl), z')) \<and> dec z' (drop (nat 24) ctrl)"
    by (rule FillBuffer_complete [OF assms(1)]) (use q assms(5) in auto)
  then obtain c where c: "FillBuffer ?bz 24 24 (b_c s) = Some (Done (Some (take 24 ctrl), c))" by auto
  let ?x = "offtin ctrl"
  have x: "- (2 ^ 31) \<le> ?x" "?x < 0" using offtin_range assms(6) by auto
  have "(?x + 2 ^ 32) mod 2 ^ 32 = ?x + 2 ^ 32" using x by (intro mod_pos_pos_trivial) auto
  then have m: "?x mod 2 ^ 32 = ?x + 2 ^ 32" by simp
  have "fill_loop ?bz (nat n) [] (nat (?x mod 2 ^ 32)) (b_d s) = Some Fault"
    by (rule fill_overrun [OF assms(1), of _ diff]) (use q x m assms(8) in auto)
  moreover have "s32 ?x = ?x" by (rule s32_small) (use x in auto)
  ultimately have "bs_step ?bz old n s = Some Fault"
    using c q x assms(7) offtin_take24 [OF assms(5)] by (simp add: bs_step_def bs_diff_def bind_run_def FillBuffer_def)
  then show ?thesis unfolding s(1) using q assms(7) by (subst bs_loop.simps) simp
qed

section \<open>Instances\<close>

text \<open>A decompressor for stored data that delivers one byte per call.\<close>

definition stored_bz :: "byte list bzlib" where
  "stored_bz = \<lparr>bz_init = (\<lambda>c. c), bz_decompress = (\<lambda>z n. if z = [] then (BZ_STREAM_END, [], []) else (BZ_OK, tl z, [hd z]))\<rparr>"

lemma stored_delivers: "bz_delivers (bz_decompress stored_bz) (=) length"
  unfolding bz_delivers_def bz_decodes_def by (auto simp: stored_bz_def split: if_splits)

theorem offtin_offtout_witness: "offtin (offtout (- 300)) = - 300"
  by (rule offtin_offtout) simp_all

definition sample_ctrl :: "byte list" where
  "sample_ctrl = offtout 2 @ offtout 1 @ offtout (- 1)"

definition sample_patch :: "byte list" where
  "sample_patch = BSDIFF_MAGIC @ offtout 24 @ offtout 2 @ offtout 3 @ sample_ctrl @ [1, 1] @ [7]"

lemma sample_form: "patch_form stored_bz (=) (drop 0 sample_patch) 3 sample_ctrl [1, 1] [7]"
  unfolding patch_form_def sample_patch_def
  by (intro exI [of _ sample_ctrl] exI [of _ "[1, 1]"] exI [of _ "[7]"]) (simp add: stored_bz_def sample_ctrl_def offtout_length)

theorem ApplyBSDiffPatchMem_spec_witness:
  "ApplyBSDiffPatchMem stored_bz (\<lambda>n. Some (replicate n 0)) [10, 20] sample_patch 0 = Some (Done (0, [11, 21, 7]))"
proof -
  have "bspatch_spec 3 [10, 20] sample_ctrl [1, 1] [7] 0 [] = Some [11, 21, 7]" by code_simp
  then show ?thesis
    using ApplyBSDiffPatchMem_spec [OF stored_delivers sample_form, of "\<lambda>n. Some (replicate n 0)" "replicate 3 0" "[10, 20]" "[11, 21, 7]"]
    by simp
qed

definition evil_ctrl :: "byte list" where
  "evil_ctrl = offtout (- 1) @ offtout 0 @ offtout 0"

definition evil_patch :: "byte list" where
  "evil_patch = BSDIFF_MAGIC @ offtout 24 @ offtout 2 @ offtout 1 @ evil_ctrl @ [1, 1] @ []"

lemma evil_form: "patch_form stored_bz (=) (drop 0 evil_patch) 1 evil_ctrl [1, 1] []"
  unfolding patch_form_def evil_patch_def
  by (intro exI [of _ evil_ctrl] exI [of _ "[1, 1]"] exI [of _ "[]"]) (simp add: stored_bz_def evil_ctrl_def offtout_length)

theorem negative_length_faults_witness:
  "ApplyBSDiffPatchMem stored_bz (\<lambda>n. Some (replicate n 0)) [] evil_patch 0 = Some Fault"
proof -
  have "24 \<le> length evil_ctrl" "offtin evil_ctrl < 0" by code_simp+
  then show ?thesis
    using negative_length_faults [OF stored_delivers evil_form, of "\<lambda>n. Some (replicate n 0)" "replicate 1 0" "[]"] by simp
qed

end
