(* ===== verification/Imgpatch.thy ===== *)
theory Imgpatch
  imports Bspatch
begin

text \<open>
  Patches for images, \<^verbatim>\<open>applypatch/imgpatch.c\<close>, with the byte order functions of \<^verbatim>\<open>applypatch/utils.c\<close>.  The
  source is cut into chunks that are patched on their own; the data of a deflated chunk is inflated, patched and
  deflated again.  zlib is a parameter.  A range that is handed to a library function or to a sink has to lie in its
  buffer, otherwise the run is a \<open>Fault\<close>.  Every call of \<^verbatim>\<open>malloc\<close> has a number, three for each chunk.
\<close>

section \<open>Numbers in a file\<close>

definition Write4 :: "int \<Rightarrow> byte list" where
  "Write4 v = [word_of_int (v AND 0xff), word_of_int (drop_bit 8 v AND 0xff), word_of_int (drop_bit 16 v AND 0xff),
               word_of_int (drop_bit 24 v AND 0xff)]"

definition Write8 :: "int \<Rightarrow> byte list" where
  "Write8 v = [word_of_int (v AND 0xff), word_of_int (drop_bit 8 v AND 0xff), word_of_int (drop_bit 16 v AND 0xff),
               word_of_int (drop_bit 24 v AND 0xff), word_of_int (drop_bit 32 v AND 0xff), word_of_int (drop_bit 40 v AND 0xff),
               word_of_int (drop_bit 48 v AND 0xff), word_of_int (drop_bit 56 v AND 0xff)]"

definition Read2 :: "byte list \<Rightarrow> int" where
  "Read2 p = sint (push_bit 8 (ucast (p ! 1)) OR ucast (p ! 0) :: u32)"

definition Read4 :: "byte list \<Rightarrow> int" where
  "Read4 p = sint (push_bit 24 (ucast (p ! 3)) OR push_bit 16 (ucast (p ! 2)) OR push_bit 8 (ucast (p ! 1)) OR ucast (p ! 0) :: u32)"

definition Read8 :: "byte list \<Rightarrow> int" where
  "Read8 p = sint (push_bit 56 (ucast (p ! 7)) OR push_bit 48 (ucast (p ! 6)) OR push_bit 40 (ucast (p ! 5)) OR
                   push_bit 32 (ucast (p ! 4)) OR push_bit 24 (ucast (p ! 3)) OR push_bit 16 (ucast (p ! 2)) OR
                   push_bit 8 (ucast (p ! 1)) OR ucast (p ! 0) :: u64)"

text \<open>The conversion of \<^verbatim>\<open>long long\<close> to \<^verbatim>\<open>size_t\<close>.\<close>

definition size_of :: "int \<Rightarrow> nat" where
  "size_of v = nat (take_bit 32 v)"

section \<open>The libraries\<close>

text \<open>
  zlib: inflating a raw stream into a buffer of the given room with one call gives the result code and the bytes; a
  deflating stream is started with the five parameters and the data, and each call gets the room of its buffer, or
  \<open>None\<close> for a null pointer.
\<close>

record deflate_params =
  dp_level :: int
  dp_method :: int
  dp_windowBits :: int
  dp_memLevel :: int
  dp_strategy :: int

record 'y gzlib =
  gz_inflateInit :: bool
  gz_inflate :: "byte list \<Rightarrow> nat \<Rightarrow> int \<times> byte list"
  gz_deflateInit :: "deflate_params \<Rightarrow> byte list \<Rightarrow> 'y"
  gz_deflate :: "'y \<Rightarrow> nat option \<Rightarrow> int \<times> 'y \<times> byte list"

record ('z, 'y, 'h, 't) imgenv =
  ie_bz :: "'z bzlib"
  ie_gz :: "'y gzlib"
  ie_malloc :: "nat \<Rightarrow> nat \<Rightarrow> byte list option"
  ie_upd :: "'h \<Rightarrow> byte list \<Rightarrow> 'h"
  ie_sink :: "'t sink_fn"

definition CHUNK_NORMAL :: int where "CHUNK_NORMAL = 0"
definition CHUNK_DEFLATE :: int where "CHUNK_DEFLATE = 2"
definition CHUNK_RAW :: int where "CHUNK_RAW = 3"

definition IMGDIFF_MAGIC :: "byte list" where
  "IMGDIFF_MAGIC = [0x49, 0x4d, 0x47, 0x44, 0x49, 0x46, 0x46, 0x32]"

section \<open>Chunks\<close>

text \<open>
  The state of a run is the sink and the hash context; a chunk returns the new position in the patch, or \<open>None\<close> when the
  function returns -1.
\<close>

type_synonym ('t, 'h) chunk_result = "(int option \<times> 't \<times> 'h option) outcome option"

definition img_fail :: "'t \<Rightarrow> 'h option \<Rightarrow> ('t, 'h) chunk_result" where
  "img_fail token ctx = Some (Done (None, token, ctx))"

definition img_bytes :: "byte list \<Rightarrow> int \<Rightarrow> int \<Rightarrow> byte list outcome option" where
  "img_bytes buf pos n =
     (if 0 \<le> pos \<and> 0 \<le> n \<and> pos + n \<le> int (length buf) then Some (Done (take (nat n) (drop (nat pos) buf))) else Some Fault)"

definition img_normal ::
  "('z, 'y, 'h, 't) imgenv \<Rightarrow> byte list \<Rightarrow> byte list \<Rightarrow> nat \<Rightarrow> int \<Rightarrow> 't \<Rightarrow> 'h option \<Rightarrow> ('t, 'h) chunk_result" where
  "img_normal env old patch i pos token ctx =
     (let normal_header = pos; pos = s32 (pos + 24) in
      if pos > int (length patch) then img_fail token ctx
      else bind_run (img_bytes patch normal_header 24) (\<lambda>h.
        let src_start = size_of (Read8 h); src_len = size_of (Read8 (drop 8 h)); patch_offset = size_of (Read8 (drop 16 h)) in
        bind_run (img_bytes old (int src_start) (int src_len)) (\<lambda>src.
          bind_run (ApplyBSDiffPatch (ie_bz env) (ie_malloc env (3 * i + 1)) (ie_upd env) src patch patch_offset (ie_sink env) token ctx)
            (\<lambda>(_, token, ctx). Some (Done (Some pos, token, ctx))))))"

definition img_raw ::
  "('z, 'y, 'h, 't) imgenv \<Rightarrow> byte list \<Rightarrow> int \<Rightarrow> 't \<Rightarrow> 'h option \<Rightarrow> ('t, 'h) chunk_result" where
  "img_raw env patch pos token ctx =
     (let raw_header = pos; pos = s32 (pos + 4) in
      if pos > int (length patch) then img_fail token ctx
      else bind_run (img_bytes patch raw_header 4) (\<lambda>h.
        let data_len = Read4 h in
        if s32 (pos + data_len) > int (length patch) then img_fail token ctx
        else bind_run (img_bytes patch pos data_len) (\<lambda>bytes.
          case ctx of
            None \<Rightarrow> Some Fault
          | Some c \<Rightarrow>
              let c = ie_upd env c bytes; (n, token) = ie_sink env bytes token in
              if n \<noteq> data_len then img_fail token (Some c)
              else Some (Done (Some (s32 (pos + data_len)), token, Some c)))))"

text \<open>Deflating the patched data into the sink; the flag is false when the sink falls short.\<close>

partial_function (option) deflate_loop ::
  "('z, 'y, 'h, 't) imgenv \<Rightarrow> nat option \<Rightarrow> 'y \<Rightarrow> 't \<Rightarrow> 'h option \<Rightarrow> (bool \<times> 't \<times> 'h option) outcome option" where
  [code]: "deflate_loop env room strm token ctx =
     (case gz_deflate (ie_gz env) strm room of
        (ret, strm, out) \<Rightarrow>
          (case ie_sink env out token of
             (n, token) \<Rightarrow>
               if n \<noteq> int (length out) then Some (Done (False, token, ctx))
               else (case ctx of
                       None \<Rightarrow> Some Fault
                     | Some c \<Rightarrow>
                         if ret = Z_STREAM_END then Some (Done (True, token, Some (ie_upd env c out)))
                         else deflate_loop env room strm token (Some (ie_upd env c out)))))"

text \<open>The buffer for the deflated data: the expanded source, or a fresh one when that is small.\<close>

definition temp_room :: "('z, 'y, 'h, 't) imgenv \<Rightarrow> nat \<Rightarrow> nat \<Rightarrow> nat option" where
  "temp_room env i expanded_len =
     (if s32 (int expanded_len) < 32768 then map_option (\<lambda>_. 32768) (ie_malloc env (3 * i + 2) 32768) else Some expanded_len)"

definition img_recompress ::
  "('z, 'y, 'h, 't) imgenv \<Rightarrow> nat \<Rightarrow> nat \<Rightarrow> deflate_params \<Rightarrow> byte list \<Rightarrow> int \<Rightarrow> 't \<Rightarrow> 'h option \<Rightarrow> ('t, 'h) chunk_result" where
  "img_recompress env i expanded_len params target pos token ctx =
     bind_run (deflate_loop env (temp_room env i expanded_len) (gz_deflateInit (ie_gz env) params target) token ctx)
       (\<lambda>(ok, token, ctx). if ok then Some (Done (Some pos, token, ctx)) else img_fail token ctx)"

definition read_params :: "byte list \<Rightarrow> deflate_params" where
  "read_params h = \<lparr>dp_level = Read4 h, dp_method = Read4 (drop 4 h), dp_windowBits = Read4 (drop 8 h),
                    dp_memLevel = Read4 (drop 12 h), dp_strategy = Read4 (drop 16 h)\<rparr>"

definition img_deflate ::
  "('z, 'y, 'h, 't) imgenv \<Rightarrow> byte list \<Rightarrow> byte list \<Rightarrow> nat \<Rightarrow> int \<Rightarrow> 't \<Rightarrow> 'h option \<Rightarrow> ('t, 'h) chunk_result" where
  "img_deflate env old patch i pos token ctx =
     (let deflate_header = pos; pos = s32 (pos + 60) in
      if pos > int (length patch) then img_fail token ctx
      else bind_run (img_bytes patch deflate_header 60) (\<lambda>h.
        let src_start = size_of (Read8 h); src_len = size_of (Read8 (drop 8 h)); patch_offset = size_of (Read8 (drop 16 h));
            expanded_len = size_of (Read8 (drop 24 h)); params = read_params (drop 40 h) in
        if ie_malloc env (3 * i) expanded_len = None then img_fail token ctx
        else bind_run (img_bytes old (int src_start) (int src_len)) (\<lambda>src.
          if \<not> gz_inflateInit (ie_gz env) then img_fail token ctx
          else let (ret, expanded_source) = gz_inflate (ie_gz env) src expanded_len in
          if ret \<noteq> Z_STREAM_END then img_fail token ctx
          else if length expanded_source \<noteq> expanded_len then img_fail token ctx
          else bind_run (ApplyBSDiffPatchMem (ie_bz env) (ie_malloc env (3 * i + 1)) expanded_source patch patch_offset) (\<lambda>(r, target).
            if r \<noteq> 0 then img_fail token ctx
            else img_recompress env i expanded_len params target pos token ctx))))"

definition img_chunk ::
  "('z, 'y, 'h, 't) imgenv \<Rightarrow> byte list \<Rightarrow> byte list \<Rightarrow> nat \<Rightarrow> int \<Rightarrow> 't \<Rightarrow> 'h option \<Rightarrow> ('t, 'h) chunk_result" where
  "img_chunk env old patch i pos token ctx =
     (if s32 (pos + 4) > int (length patch) then img_fail token ctx
      else bind_run (img_bytes patch pos 4) (\<lambda>h.
        let type = Read4 h; pos = s32 (pos + 4) in
        if type = CHUNK_NORMAL then img_normal env old patch i pos token ctx
        else if type = CHUNK_RAW then img_raw env patch pos token ctx
        else if type = CHUNK_DEFLATE then img_deflate env old patch i pos token ctx
        else img_fail token ctx))"

text \<open>The loop over \<open>n\<close> more chunks from chunk \<open>i\<close> on.\<close>

fun img_loop ::
  "('z, 'y, 'h, 't) imgenv \<Rightarrow> byte list \<Rightarrow> byte list \<Rightarrow> nat \<Rightarrow> nat \<Rightarrow> int \<Rightarrow> 't \<Rightarrow> 'h option \<Rightarrow> (int \<times> 't \<times> 'h option) outcome option" where
  "img_loop env old patch 0 i pos token ctx = Some (Done (0, token, ctx))"
| "img_loop env old patch (Suc n) i pos token ctx =
     bind_run (img_chunk env old patch i pos token ctx) (\<lambda>(next_pos, token, ctx).
       case next_pos of
         None \<Rightarrow> Some (Done (-1, token, ctx))
       | Some pos \<Rightarrow> img_loop env old patch n (i + 1) pos token ctx)"

definition ApplyImagePatch ::
  "('z, 'y, 'h, 't) imgenv \<Rightarrow> byte list \<Rightarrow> byte list \<Rightarrow> 't \<Rightarrow> 'h option \<Rightarrow> (int \<times> 't \<times> 'h option) outcome option" where
  "ApplyImagePatch env old patch token ctx =
     (if length patch < 12 then Some (Done (-1, token, ctx))
      else if take 8 patch \<noteq> IMGDIFF_MAGIC then Some (Done (-1, token, ctx))
      else img_loop env old patch (nat (Read4 (drop 8 patch))) 0 12 token ctx)"

section \<open>The numbers are read back\<close>

lemma byte_digit:
  assumes "k + 8 \<le> LENGTH('a::len)"
  shows "(word_of_int (drop_bit k v AND 0xff) :: byte) = ucast (drop_bit k (word_of_int v :: 'a word))"
proof -
  have m: "(0xff :: int) = mask 8" by (simp add: mask_eq_exp_minus_1)
  show ?thesis unfolding m using assms by (intro bit_word_eqI) (auto simp: bit_simps)
qed

lemma Write4_le: "Write4 v = le_bytes 4 (word_of_int v :: u32)"
  using byte_digit [of 0 v, where 'a = 32] byte_digit [of 8 v, where 'a = 32] byte_digit [of 16 v, where 'a = 32]
    byte_digit [of 24 v, where 'a = 32]
  by (simp add: Write4_def numeral_eq_Suc)

lemma Write8_le: "Write8 v = le_bytes 8 (word_of_int v :: u64)"
  using byte_digit [of 0 v, where 'a = 64] byte_digit [of 8 v, where 'a = 64] byte_digit [of 16 v, where 'a = 64]
    byte_digit [of 24 v, where 'a = 64] byte_digit [of 32 v, where 'a = 64] byte_digit [of 40 v, where 'a = 64]
    byte_digit [of 48 v, where 'a = 64] byte_digit [of 56 v, where 'a = 64]
  by (simp add: Write8_def numeral_eq_Suc)

lemma Write_length [simp]: "length (Write4 v) = 4" "length (Write8 v) = 8"
  by (simp_all add: Write4_def Write8_def)

lemma Read4_le: "Read4 ([a, b, c, d] @ r) = sint (le_word [a, b, c, d] :: u32)"
  by (simp add: Read4_def push_bit_or ac_simps)

lemma Read8_le: "Read8 ([a, b, c, d, e, f, g, h] @ r) = sint (le_word [a, b, c, d, e, f, g, h] :: u64)"
  by (simp add: Read8_def push_bit_or ac_simps)

lemma Read4_Write4: "Read4 (Write4 v @ r) = s32 v"
proof -
  have "Read4 (Write4 v @ r) = sint (le_word (Write4 v) :: u32)" unfolding Write4_def by (rule Read4_le)
  then show ?thesis unfolding Write4_le by (simp add: le_word_le_bytes_full sint_sbintrunc')
qed

lemma Read8_Write8: "Read8 (Write8 v @ r) = signed_take_bit 63 v"
proof -
  have "Read8 (Write8 v @ r) = sint (le_word (Write8 v) :: u64)" unfolding Write8_def by (rule Read8_le)
  then show ?thesis unfolding Write8_le by (simp add: le_word_le_bytes_full sint_sbintrunc')
qed

lemma size_of_Write8: "n < 2 ^ 32 \<Longrightarrow> size_of (Read8 (Write8 (int n) @ r)) = n"
  by (simp add: Read8_Write8 size_of_def signed_take_bit_int_eq_self take_bit_int_eq_self)

section \<open>What is hashed is what is written\<close>

text \<open>The context after hashing some bytes in blocks.\<close>

definition hashed :: "('h \<Rightarrow> byte list \<Rightarrow> 'h) \<Rightarrow> 'h \<Rightarrow> 'h option \<Rightarrow> byte list \<Rightarrow> bool" where
  "hashed upd c0 ctx bytes \<longleftrightarrow> (\<exists>blks. ctx = Some (foldl upd c0 blks) \<and> concat blks = bytes)"

lemma hashed_start: "hashed upd c0 (Some c0) []"
  by (auto simp: hashed_def intro!: exI [of _ "[]"])

lemma hashed_add:
  assumes "hashed upd c0 (Some c) bytes"
  shows "hashed upd c0 (Some (upd c bs)) (bytes @ bs)"
proof -
  obtain blks where "c = foldl upd c0 blks" "concat blks = bytes" using assms by (auto simp: hashed_def)
  then show ?thesis by (auto simp: hashed_def intro!: exI [of _ "blks @ [bs]"])
qed

definition covered :: "('t \<Rightarrow> byte list option) \<Rightarrow> ('h \<Rightarrow> byte list \<Rightarrow> 'h) \<Rightarrow> 'h \<Rightarrow> byte list \<Rightarrow> 't \<Rightarrow> 'h option \<Rightarrow> bool" where
  "covered received upd c0 pre t ctx \<longleftrightarrow> (\<exists>bytes. received t = Some (pre @ bytes) \<and> hashed upd c0 ctx bytes)"

text \<open>
  The contract of a sink: \<open>received\<close> is what it has got, when it is ready to take bytes; a call that reports the full length has taken all the bytes.  An atomic sink takes
  nothing in a call that falls short.
\<close>

locale counting_sink =
  fixes sink :: "'t sink_fn" and received :: "'t \<Rightarrow> byte list option"
  assumes complete: "sink bs t = (n, t') \<Longrightarrow> received t = Some d \<Longrightarrow> int (length bs) \<le> n \<Longrightarrow> received t' = Some (d @ bs)"
begin

lemma covered_add: "covered received upd c0 pre t (Some c) \<Longrightarrow> sink bs t = (n, t') \<Longrightarrow> int (length bs) \<le> n \<Longrightarrow> covered received upd c0 pre t' (Some (upd c bs))"
  using complete [of bs t n t'] hashed_add [of upd c0 c _ bs] by (force simp: covered_def)

lemma bsdiff_covered:
  assumes "ApplyBSDiffPatch bz malloc upd old patch off sink t ctx = Some (Done (0, t', ctx'))" "covered received upd c0 pre t ctx"
  shows "covered received upd c0 pre t' ctx'"
proof -
  obtain c where c: "ctx = Some c" using assms(2) by (auto simp: covered_def hashed_def)
  obtain new n where r: "sink new t = (n, t')" "\<not> n < int (length new)" "ctx' = Some (upd c new)"
    using assms(1) c by (auto simp: ApplyBSDiffPatch_def bind_run_Done split: prod.splits if_splits)
  show ?thesis unfolding r(3) by (rule covered_add [OF assms(2) [unfolded c] r(1)]) (use r(2) in simp)
qed

end

locale atomic_sink = counting_sink +
  assumes short: "sink bs t = (n, t') \<Longrightarrow> received t = Some d \<Longrightarrow> n < int (length bs) \<Longrightarrow> received t' = Some d"
begin

lemma bsdiff_covered_any:
  assumes "ApplyBSDiffPatch bz malloc upd old patch off sink t ctx = Some (Done (r, t', ctx'))" "covered received upd c0 pre t ctx"
  shows "covered received upd c0 pre t' ctx'"
proof (cases "r = 0")
  case True
  show ?thesis by (rule bsdiff_covered [OF assms(1) [unfolded True] assms(2)])
next
  case False
  obtain ret new where m: "ApplyBSDiffPatchMem bz malloc old patch off = Some (Done (ret, new))"
      "(if ret \<noteq> 0 then Some (Done (-1, t, ctx)) else let (n, t) = sink new t in
         if n < int (length new) then Some (Done (1, t, ctx)) else Some (Done (0, t, map_option (\<lambda>c. upd c new) ctx))) = Some (Done (r, t', ctx'))"
    using assms(1) by (auto simp: ApplyBSDiffPatch_def bind_run_Done)
  obtain d where d: "received t = Some d" using assms(2) by (auto simp: covered_def)
  have "ctx' = ctx \<and> received t' = received t"
    using m(2) False short [of new t _ _ d] d by (auto split: prod.splits if_splits)
  then show ?thesis using assms(2) by (simp add: covered_def)
qed

lemma deflate_covered:
  assumes run: "deflate_loop env room y t (Some c) = Some (Done (True, t', ctx'))"
    and env: "ie_sink env = sink" and c: "covered received (ie_upd env) c0 pre t (Some c)"
  shows "covered received (ie_upd env) c0 pre t' ctx'"
proof -
  let ?Q = "\<lambda>t x r. \<forall>t' ctx' c. r = Done (True, t', ctx') \<longrightarrow> x = Some c \<longrightarrow> covered received (ie_upd env) c0 pre t (Some c) \<longrightarrow> covered received (ie_upd env) c0 pre t' ctx'"
  have "env = env \<longrightarrow> ?Q t (Some c) (Done (True, t', ctx'))"
  proof (rule deflate_loop.raw_induct [where P = "\<lambda>e room z t x r. e = env \<longrightarrow> ?Q t x r", OF _ run], intro impI, goal_cases)
    case (1 loop e room z t x r)
    show ?case
    proof (intro allI impI)
      fix t' ctx' c
      assume r: "r = Done (True, t', ctx')" and x: "x = Some c" and c: "covered received (ie_upd env) c0 pre t (Some c)"
      obtain ret y out where d: "gz_deflate (ie_gz env) z room = (ret, y, out)" by (metis prod_cases3)
      obtain n t1 where s: "sink out t = (n, t1)" by (cases "sink out t")
      note body = 1(2) [unfolded 1(3) x d env s prod.case option.case r]
      have n: "n = int (length out)" using body by (auto split: if_splits)
      have c1: "covered received (ie_upd env) c0 pre t1 (Some (ie_upd env c out))" by (rule covered_add [OF c s]) (simp add: n)
      show "covered received (ie_upd env) c0 pre t' ctx'"
      proof (cases "ret = Z_STREAM_END")
        case True
        then show ?thesis using body n c1 by auto
      next
        case False
        then have "loop env room y t1 (Some (ie_upd env c out)) = Some (Done (True, t', ctx'))" using body n by simp
        from 1(1) [OF this] show ?thesis using c1 by blast
      qed
    qed
  qed
  then show ?thesis using c by blast
qed

end

lemma img_bytes_length: "img_bytes buf pos n = Some (Done bs) \<Longrightarrow> int (length bs) = n"
  by (auto simp: img_bytes_def split: if_splits)

context atomic_sink
begin

lemma raw_covered:
  assumes run: "img_raw env patch pos t ctx = Some (Done (Some p, t', ctx'))"
    and env: "ie_sink env = sink" and c: "covered received (ie_upd env) c0 pre t ctx"
  shows "covered received (ie_upd env) c0 pre t' ctx'"
proof -
  obtain cx where cx: "ctx = Some cx" using c by (auto simp: covered_def hashed_def)
  obtain bytes where r: "snd (sink bytes t) = t'" "fst (sink bytes t) = int (length bytes)" "ctx' = Some (ie_upd env cx bytes)"
    using run env unfolding cx img_raw_def Let_def
    by (auto simp: bind_run_Done img_bytes_length img_fail_def split_beta split: if_split_asm)
  then have "sink bytes t = (int (length bytes), t')" by (metis prod.collapse)
  then show ?thesis unfolding r(3) by (rule covered_add [OF c [unfolded cx]]) simp
qed

lemma normal_covered:
  assumes run: "img_normal env old patch i pos t ctx = Some (Done (Some p, t', ctx'))"
    and env: "ie_sink env = sink" and c: "covered received (ie_upd env) c0 pre t ctx"
  shows "covered received (ie_upd env) c0 pre t' ctx'"
proof -
  obtain src r off where "ApplyBSDiffPatch (ie_bz env) (ie_malloc env (3 * i + 1)) (ie_upd env) src patch off sink t ctx = Some (Done (r, t', ctx'))"
    using run env unfolding img_normal_def Let_def
    by (auto simp: bind_run_Done img_fail_def split: if_split_asm prod.split_asm)
  then show ?thesis by (rule bsdiff_covered_any [OF _ c])
qed

lemma deflate_chunk_covered:
  assumes run: "img_deflate env old patch i pos t ctx = Some (Done (Some p, t', ctx'))"
    and env: "ie_sink env = sink" and c: "covered received (ie_upd env) c0 pre t ctx"
  shows "covered received (ie_upd env) c0 pre t' ctx'"
proof -
  obtain cx where cx: "ctx = Some cx" using c by (auto simp: covered_def hashed_def)
  obtain n params target q where "img_recompress env i n params target q t ctx = Some (Done (Some p, t', ctx'))"
    using run unfolding img_deflate_def Let_def
    by (auto simp: bind_run_Done img_fail_def split_beta split: if_split_asm)
  then obtain room y where "deflate_loop env room y t (Some cx) = Some (Done (True, t', ctx'))"
    unfolding cx img_recompress_def by (auto simp: bind_run_Done img_fail_def split: if_splits)
  from deflate_covered [OF this env c [unfolded cx]] show ?thesis .
qed

lemma chunk_covered:
  assumes run: "img_chunk env old patch i pos t ctx = Some (Done (Some p, t', ctx'))"
    and env: "ie_sink env = sink" and c: "covered received (ie_upd env) c0 pre t ctx"
  shows "covered received (ie_upd env) c0 pre t' ctx'"
proof -
  have "\<exists>q. img_normal env old patch i q t ctx = Some (Done (Some p, t', ctx')) \<or>
      img_raw env patch q t ctx = Some (Done (Some p, t', ctx')) \<or> img_deflate env old patch i q t ctx = Some (Done (Some p, t', ctx'))"
    using run unfolding img_chunk_def Let_def by (auto simp: bind_run_Done img_fail_def split: if_splits)
  then show ?thesis
    using normal_covered [OF _ env c] raw_covered [OF _ env c] deflate_chunk_covered [OF _ env c] by blast
qed

lemma loop_covered:
  assumes env: "ie_sink env = sink"
  shows "img_loop env old patch n i pos t ctx = Some (Done (0, t', ctx')) \<Longrightarrow> covered received (ie_upd env) c0 pre t ctx \<Longrightarrow>
    covered received (ie_upd env) c0 pre t' ctx'"
proof (induction n arbitrary: i pos t ctx)
  case (Suc n)
  obtain p t1 c1 where s: "img_chunk env old patch i pos t ctx = Some (Done (Some p, t1, c1))"
      "img_loop env old patch n (i + 1) p t1 c1 = Some (Done (0, t', ctx'))"
    using Suc.prems(1) by (auto simp: bind_run_Done split: option.splits)
  show ?case by (rule Suc.IH [OF s(2) chunk_covered [OF s(1) env Suc.prems(2)]])
qed simp

lemma image_covered:
  assumes "ApplyImagePatch env old patch t ctx = Some (Done (0, t', ctx'))" "ie_sink env = sink" "covered received (ie_upd env) c0 pre t ctx"
  shows "covered received (ie_upd env) c0 pre t' ctx'"
  using assms loop_covered [OF assms(2)] by (auto simp: ApplyImagePatch_def split: if_splits)

end

section \<open>What every call of the sink keeps\<close>

locale sink_invariant =
  fixes sink :: "'t sink_fn" and keeps :: "'t \<Rightarrow> bool"
  assumes keep: "keeps t \<Longrightarrow> keeps (snd (sink bs t))"
begin

lemma keep_call: "sink bs t = (n, t') \<Longrightarrow> keeps t \<Longrightarrow> keeps t'"
  using keep [of t bs] by simp

lemma bsdiff_keeps:
  assumes "ApplyBSDiffPatch bz malloc upd old patch off sink t ctx = Some (Done (r, t', ctx'))" "keeps t"
  shows "keeps t'"
proof -
  have "t' = t \<or> (\<exists>new. t' = snd (sink new t))"
    using assms(1) by (auto simp: ApplyBSDiffPatch_def bind_run_Done split_beta split: if_split_asm)
  then show ?thesis using keep assms(2) by auto
qed

lemma deflate_keeps:
  assumes run: "deflate_loop env room y t ctx = Some (Done (ok, t', ctx'))" and env: "ie_sink env = sink" and k: "keeps t"
  shows "keeps t'"
proof -
  let ?Q = "\<lambda>t r. \<forall>ok t' ctx'. r = Done (ok, t', ctx') \<longrightarrow> keeps t \<longrightarrow> keeps t'"
  have "env = env \<longrightarrow> ?Q t (Done (ok, t', ctx'))"
  proof (rule deflate_loop.raw_induct [where P = "\<lambda>e room z t x r. e = env \<longrightarrow> ?Q t r", OF _ run], intro impI, goal_cases)
    case (1 loop e room z t x r)
    show ?case
    proof (intro allI impI)
      fix ok t' ctx'
      assume r: "r = Done (ok, t', ctx')" and k: "keeps t"
      obtain ret y out where d: "gz_deflate (ie_gz env) z room = (ret, y, out)" by (metis prod_cases3)
      obtain n t1 where s: "sink out t = (n, t1)" by (cases "sink out t")
      have k1: "keeps t1" by (rule keep_call [OF s k])
      note body = 1(2) [unfolded 1(3) d env s prod.case r]
      consider "t' = t1" | c where "loop env room y t1 c = Some (Done (ok, t', ctx'))"
        using body by (auto split: if_split_asm option.splits)
      then show "keeps t'"
      proof cases
        case 2
        from 1(1) [OF 2] show ?thesis using k1 by blast
      qed (use k1 in simp)
    qed
  qed
  then show ?thesis using k by blast
qed

lemma raw_keeps:
  assumes "img_raw env patch pos t ctx = Some (Done (p, t', ctx'))" "ie_sink env = sink" "keeps t"
  shows "keeps t'"
proof -
  have "t' = t \<or> (\<exists>bs. t' = snd (ie_sink env bs t))"
    using assms(1) unfolding img_raw_def Let_def
    by (cases ctx) (auto simp: bind_run_Done img_fail_def split_beta split: if_split_asm)
  then show ?thesis using keep assms(2,3) by auto
qed

lemma normal_keeps:
  assumes "img_normal env old patch i pos t ctx = Some (Done (p, t', ctx'))" "ie_sink env = sink" "keeps t"
  shows "keeps t'"
proof -
  have "t' = t \<or> (\<exists>src off r. ApplyBSDiffPatch (ie_bz env) (ie_malloc env (3 * i + 1)) (ie_upd env) src patch off (ie_sink env) t ctx = Some (Done (r, t', ctx')))"
    using assms(1) unfolding img_normal_def Let_def
    by (auto simp: bind_run_Done img_fail_def split_beta split: if_split_asm)
  then show ?thesis using bsdiff_keeps [OF _ assms(3)] assms(2,3) by auto
qed

lemma deflate_chunk_keeps:
  assumes "img_deflate env old patch i pos t ctx = Some (Done (p, t', ctx'))" "ie_sink env = sink" "keeps t"
  shows "keeps t'"
proof -
  have "t' = t \<or> (\<exists>n params target q. img_recompress env i n params target q t ctx = Some (Done (p, t', ctx')))"
    using assms(1) unfolding img_deflate_def Let_def
    by (auto simp: bind_run_Done img_fail_def split_beta split: if_split_asm)
  then have "t' = t \<or> (\<exists>room y ok c. deflate_loop env room y t ctx = Some (Done (ok, t', c)))"
    unfolding img_recompress_def by (auto simp: bind_run_Done img_fail_def split: if_split_asm)
  then show ?thesis using deflate_keeps [OF _ assms(2,3)] assms(3) by auto
qed

lemma chunk_keeps:
  assumes "img_chunk env old patch i pos t ctx = Some (Done (p, t', ctx'))" "ie_sink env = sink" "keeps t"
  shows "keeps t'"
proof -
  have "t' = t \<or> (\<exists>q. img_normal env old patch i q t ctx = Some (Done (p, t', ctx')) \<or>
      img_raw env patch q t ctx = Some (Done (p, t', ctx')) \<or> img_deflate env old patch i q t ctx = Some (Done (p, t', ctx')))"
    using assms(1) unfolding img_chunk_def Let_def by (auto simp: bind_run_Done img_fail_def split: if_splits)
  then show ?thesis
    using assms(3) normal_keeps [OF _ assms(2,3)] raw_keeps [OF _ assms(2,3)] deflate_chunk_keeps [OF _ assms(2,3)] by auto
qed

lemma loop_keeps:
  assumes env: "ie_sink env = sink"
  shows "img_loop env old patch n i pos t ctx = Some (Done (r, t', ctx')) \<Longrightarrow> keeps t \<Longrightarrow> keeps t'"
proof (induction n arbitrary: i pos t ctx)
  case (Suc n)
  obtain p t1 c1 where s: "img_chunk env old patch i pos t ctx = Some (Done (p, t1, c1))"
      "(case p of None \<Rightarrow> Some (Done (-1, t1, c1)) | Some pos \<Rightarrow> img_loop env old patch n (i + 1) pos t1 c1) = Some (Done (r, t', ctx'))"
    using Suc.prems(1) by (auto simp: bind_run_Done)
  have "keeps t1" by (rule chunk_keeps [OF s(1) env Suc.prems(2)])
  then show ?case using s(2) Suc.IH by (auto split: option.splits)
qed simp

lemma image_keeps:
  assumes "ApplyImagePatch env old patch t ctx = Some (Done (r, t', ctx'))" "ie_sink env = sink" "keeps t"
  shows "keeps t'"
  using assms loop_keeps [OF assms(2)] by (auto simp: ApplyImagePatch_def split: if_splits)

end

end
