(* ===== verification/Applypatch_Files.thy ===== *)
theory Applypatch_Files
  imports Imgpatch C_Library
begin

text \<open>
  Files and partitions for patching: the helpers of \<^verbatim>\<open>applypatch/applypatch.c\<close> and \<^verbatim>\<open>applypatch/freecache.c\<close>.  The system calls
  and the interface of the flash layer are parameters, records of functions on an abstract state.  A file that is open for writing
  is represented by its name.  \<^verbatim>\<open>size_t\<close> values are natural numbers below \<open>2 ^ 32\<close>.  Allocations whose result the
  source does not look at succeed.
\<close>

section \<open>The system\<close>

record fstat =
  st_mode :: int
  st_uid :: int
  st_gid :: int

text \<open>
  \<open>fo_stat\<close> gives the size, the owner and mode, and whether the file is regular; \<open>fo_fread\<close> opens a file and reads up to a number
  of bytes from its start; \<open>fo_open\<close> opens for writing, creating or truncating the file.
\<close>

record 's fileops =
  fo_stat :: "string \<Rightarrow> 's \<Rightarrow> (nat \<times> fstat \<times> bool) option"
  fo_fread :: "string \<Rightarrow> nat \<Rightarrow> 's \<Rightarrow> byte list option"
  fo_open :: "string \<Rightarrow> 's \<Rightarrow> bool \<times> 's"
  fo_write :: "string \<Rightarrow> byte list \<Rightarrow> 's \<Rightarrow> int \<times> 's"
  fo_chmod :: "string \<Rightarrow> int \<Rightarrow> 's \<Rightarrow> bool \<times> 's"
  fo_chown :: "string \<Rightarrow> int \<Rightarrow> int \<Rightarrow> 's \<Rightarrow> bool \<times> 's"
  fo_unlink :: "string \<Rightarrow> 's \<Rightarrow> 's"
  fo_rename :: "string \<Rightarrow> string \<Rightarrow> 's \<Rightarrow> bool \<times> 's"
  fo_statfs :: "string \<Rightarrow> 's \<Rightarrow> nat option"
  fo_readdir :: "string \<Rightarrow> 's \<Rightarrow> string list option"
  fo_readlink :: "string \<Rightarrow> 's \<Rightarrow> string option"

text \<open>What is called of \<^verbatim>\<open>mtdutils\<close>; \<open>mi_scanned\<close> is the flag \<^verbatim>\<open>mtd_partitions_scanned\<close>, which \<open>mi_scan\<close> sets.\<close>

record ('s, 'r, 'w) mtd_if =
  mi_scanned :: "'s \<Rightarrow> bool"
  mi_scan :: "'s \<Rightarrow> 's"
  mi_find :: "string \<Rightarrow> 's \<Rightarrow> bool"
  mi_read_partition :: "string \<Rightarrow> 's \<Rightarrow> 'r option \<times> 's"
  mi_read_data :: "nat \<Rightarrow> 'r \<Rightarrow> 's \<Rightarrow> int \<times> byte list \<times> 'r \<times> 's"
  mi_read_close :: "'r \<Rightarrow> 's \<Rightarrow> 's"
  mi_write_partition :: "string \<Rightarrow> 's \<Rightarrow> 'w option \<times> 's"
  mi_write_data :: "byte list \<Rightarrow> 'w \<Rightarrow> 's \<Rightarrow> int \<times> 'w \<times> 's"
  mi_erase_blocks :: "int \<Rightarrow> 'w \<Rightarrow> 's \<Rightarrow> int \<times> 'w \<times> 's"
  mi_write_close :: "'w \<Rightarrow> 's \<Rightarrow> int \<times> 's"

definition CACHE_TEMP_SOURCE :: string where "CACHE_TEMP_SOURCE = ''/cache/saved.file''"
definition SHA_DIGEST_SIZE :: nat where "SHA_DIGEST_SIZE = 20"

section \<open>Digests\<close>

definition hex_digit :: "char \<Rightarrow> nat option" where
  "hex_digit c =
     (if code CHR ''0'' \<le> code c \<and> code c \<le> code CHR ''9'' then Some (code c - code CHR ''0'')
      else if code CHR ''a'' \<le> code c \<and> code c \<le> code CHR ''f'' then Some (code c - code CHR ''a'' + 10)
      else if code CHR ''A'' \<le> code c \<and> code c \<le> code CHR ''F'' then Some (code c - code CHR ''A'' + 10)
      else None)"

text \<open>The loop over two times \<open>n\<close> digits; the end of the string is not a digit.\<close>

fun parse_digits :: "nat \<Rightarrow> string \<Rightarrow> (byte list \<times> string) option" where
  "parse_digits 0 ps = Some ([], ps)"
| "parse_digits (Suc n) (a # b # ps) =
     (case (hex_digit a, hex_digit b) of
        (Some hi, Some lo) \<Rightarrow> map_option (\<lambda>(pd, ps). ((push_bit 4 (of_nat hi) OR of_nat lo) # pd, ps)) (parse_digits n ps)
      | _ \<Rightarrow> None)"
| "parse_digits (Suc n) _ = None"

definition ParseSha1 :: "string \<Rightarrow> byte list option" where
  "ParseSha1 str =
     (case parse_digits SHA_DIGEST_SIZE str of
        None \<Rightarrow> None
      | Some (digest, ps) \<Rightarrow> if ps \<noteq> [] then None else Some digest)"

fun FindMatchingPatch :: "byte list \<Rightarrow> string list \<Rightarrow> nat option" where
  "FindMatchingPatch sha1 [] = None"
| "FindMatchingPatch sha1 (str # strs) =
     (if ParseSha1 str = Some sha1 then Some 0 else map_option Suc (FindMatchingPatch sha1 strs))"

section \<open>Sinks\<close>

function FileSink_loop :: "'s fileops \<Rightarrow> string \<Rightarrow> byte list \<Rightarrow> int \<Rightarrow> 's \<Rightarrow> int \<times> 's" where
  "FileSink_loop fo fd bytes done' s =
     (if bytes = [] then (done', s)
      else let (wrote, s) = fo_write fo fd bytes s
           in if wrote \<le> 0 then (done', s) else FileSink_loop fo fd (drop (nat wrote) bytes) (done' + wrote) s)"
  by pat_completeness auto
termination
  by (relation "measure (\<lambda>(fo, fd, bytes, done', s). length bytes)") (auto simp: diff_less)

declare FileSink_loop.simps [simp del]

definition FileSink :: "'s fileops \<Rightarrow> string \<Rightarrow> 's sink_fn" where
  "FileSink fo fd bytes s = FileSink_loop fo fd bytes 0 s"

record MemorySinkInfo =
  msi_buffer :: "byte list"
  msi_size :: int

text \<open>The buffer holds what has been stored; its length is the position.\<close>

definition MemorySink :: "MemorySinkInfo sink_fn" where
  "MemorySink bytes msi =
     (if msi_size msi - int (length (msi_buffer msi)) < int (length bytes) then (-1, msi)
      else (int (length bytes), msi\<lparr>msi_buffer := msi_buffer msi @ bytes\<rparr>))"

section \<open>Space on the cache partition\<close>

text \<open>An error is the value -1 of an unsigned result.\<close>

definition FreeSpaceForFile :: "'s fileops \<Rightarrow> string \<Rightarrow> 's \<Rightarrow> nat" where
  "FreeSpaceForFile fo filename s = (case fo_statfs fo filename s of None \<Rightarrow> 2 ^ 32 - 1 | Some n \<Rightarrow> n mod 2 ^ 32)"

text \<open>Files that a process has open are removed from the list.\<close>

definition open_links :: "'s fileops \<Rightarrow> 's \<Rightarrow> string \<Rightarrow> string list" where
  "open_links fo s pid =
     (let path = ''/proc/'' @ pid @ ''/fd/'' in
      case fo_readdir fo path s of
        None \<Rightarrow> []
      | Some fds \<Rightarrow> List.map_filter (\<lambda>fd. fo_readlink fo (path @ fd) s) fds)"

definition close_out :: "string \<Rightarrow> string option list \<Rightarrow> string option list" where
  "close_out link files = (if take 7 link = ''/cache/'' then map (\<lambda>f. if f = Some link then None else f) files else files)"

definition EliminateOpenFiles :: "'s fileops \<Rightarrow> string option list \<Rightarrow> 's \<Rightarrow> string option list option" where
  "EliminateOpenFiles fo files s =
     (case fo_readdir fo ''/proc'' s of
        None \<Rightarrow> None
      | Some des \<Rightarrow>
          Some (foldl (\<lambda>files de.
            if \<not> list_all isdigit de then files
            else foldl (\<lambda>files link. close_out link files) files (open_links fo s de)) files des))"

definition expendable_in :: "'s fileops \<Rightarrow> 's \<Rightarrow> string \<Rightarrow> string list" where
  "expendable_in fo s dir =
     (case fo_readdir fo dir s of
        None \<Rightarrow> []
      | Some des \<Rightarrow>
          List.map_filter (\<lambda>de.
            let path = dir @ ''/'' @ de in
            if path = CACHE_TEMP_SOURCE then None
            else case fo_stat fo path s of Some (_, _, regular) \<Rightarrow> if regular then Some path else None | None \<Rightarrow> None) des)"

definition FindExpendableFiles :: "'s fileops \<Rightarrow> 's \<Rightarrow> string option list option" where
  "FindExpendableFiles fo s =
     EliminateOpenFiles fo (map Some (expendable_in fo s ''/cache'' @ expendable_in fo s ''/cache/recovery/otatest'')) s"

fun delete_loop :: "'s fileops \<Rightarrow> nat \<Rightarrow> string option list \<Rightarrow> nat \<Rightarrow> 's \<Rightarrow> nat \<times> 's" where
  "delete_loop fo bytes_needed [] free_now s = (free_now, s)"
| "delete_loop fo bytes_needed (nm # names) free_now s =
     (if free_now < bytes_needed
      then (case nm of
              None \<Rightarrow> delete_loop fo bytes_needed names free_now s
            | Some f \<Rightarrow> let s = fo_unlink fo f s in delete_loop fo bytes_needed names (FreeSpaceForFile fo ''/cache'' s) s)
      else (free_now, s))"

definition MakeFreeSpaceOnCache :: "'s fileops \<Rightarrow> nat \<Rightarrow> 's \<Rightarrow> int \<times> 's" where
  "MakeFreeSpaceOnCache fo bytes_needed s =
     (let free_now = FreeSpaceForFile fo ''/cache'' s in
      if free_now \<ge> bytes_needed then (0, s)
      else (case FindExpendableFiles fo s of
              None \<Rightarrow> (-1, s)
            | Some names \<Rightarrow>
                if names = [] then (-1, s)
                else let (free_now, s) = delete_loop fo bytes_needed names free_now s
                     in (if free_now \<ge> bytes_needed then 0 else -1, s)))"

definition CacheSizeCheck :: "'s fileops \<Rightarrow> nat \<Rightarrow> 's \<Rightarrow> int \<times> 's" where
  "CacheSizeCheck fo bytes s = (let (r, s) = MakeFreeSpaceOnCache fo bytes s in (if r < 0 then 1 else 0, s))"

section \<open>Loading and saving\<close>

record FileContents =
  fc_data :: "byte list"
  fc_sha1 :: "byte list"
  fc_stat :: fstat

record ('s, 'r, 'w, 'h, 'k) apenv =
  ap_files :: "'s fileops"
  ap_mtd :: "('s, 'r, 'w) mtd_if"
  ap_cr :: "('h, byte list, 'k) crypto"

definition is_mtd :: "string \<Rightarrow> bool" where
  "is_mtd filename \<longleftrightarrow> take 4 filename = ''MTD:''"

definition strtok :: "string \<Rightarrow> (string \<times> string) option" where
  "strtok str =
     (let str = dropWhile (\<lambda>c. c = CHR '':'') str in
      if str = [] then None else Some (takeWhile (\<lambda>c. c \<noteq> CHR '':'') str, drop 1 (dropWhile (\<lambda>c. c \<noteq> CHR '':'') str)))"

definition strtok_rest :: "string \<Rightarrow> string" where
  "strtok_rest str = (case strtok str of None \<Rightarrow> [] | Some (_, rest) \<Rightarrow> rest)"

text \<open>
  The pairs of a size and a digest; a missing size is a null pointer for \<^verbatim>\<open>strtol\<close>, a missing digest stays null.
  \<open>Done None\<close> is the result -1.
\<close>

fun mtd_pairs :: "nat \<Rightarrow> string \<Rightarrow> (nat \<times> string option) list option outcome" where
  "mtd_pairs 0 str = Done (Some [])"
| "mtd_pairs (Suc n) str =
     (case strtok str of
        None \<Rightarrow> Fault
      | Some (size_str, rest) \<Rightarrow>
          let sz = nat (fst (strtol size_str 10) mod 2 ^ 32) in
          if sz = 0 then Done None
          else (case mtd_pairs n (strtok_rest rest) of
                  Fault \<Rightarrow> Fault
                | Done r \<Rightarrow> Done (map_option ((#) (sz, map_option fst (strtok rest))) r)))"

text \<open>Reading up to each size in turn, until the digest of what has been read is the one that goes with the size.\<close>

fun mtd_match ::
  "('s, 'r, 'w, 'h, 'k) apenv \<Rightarrow> (nat \<times> string option) list \<Rightarrow> 'r \<Rightarrow> 'h \<Rightarrow> byte list \<Rightarrow> 's \<Rightarrow>
     ((byte list \<times> 'h) option \<times> 's) outcome" where
  "mtd_match env [] ctx sha_ctx bytes s = Done (None, mi_read_close (ap_mtd env) ctx s)"
| "mtd_match env ((sz, sha1sum) # pairs) ctx sha_ctx bytes s =
     (let next = sz - length bytes;
          (read, got, ctx, s) = (if next > 0 then mi_read_data (ap_mtd env) next ctx s else (0, [], ctx, s)) in
      if int next \<noteq> read then Done (None, s)
      else let sha_ctx = (if next > 0 then sha_update (ap_cr env) sha_ctx got else sha_ctx); bytes = bytes @ got in
      (case sha1sum of
         None \<Rightarrow> Fault
       | Some str \<Rightarrow>
           (case ParseSha1 str of
              None \<Rightarrow> Done (None, s)
            | Some parsed_sha \<Rightarrow>
                if sha_final (ap_cr env) sha_ctx = parsed_sha then Done (Some (bytes, sha_ctx), mi_read_close (ap_mtd env) ctx s)
                else mtd_match env pairs ctx sha_ctx bytes s)))"

definition scan_once :: "('s, 'r, 'w) mtd_if \<Rightarrow> 's \<Rightarrow> 's" where
  "scan_once mtd s = (if \<not> mi_scanned mtd s then mi_scan mtd s else s)"

definition LoadMTDContents :: "('s, 'r, 'w, 'h, 'k) apenv \<Rightarrow> string \<Rightarrow> 's \<Rightarrow> (FileContents option \<times> 's) outcome" where
  "LoadMTDContents env filename s =
     (case strtok filename of
        None \<Rightarrow> Fault
      | Some (magic, rest) \<Rightarrow>
          if magic \<noteq> ''MTD'' then Done (None, s)
          else let colons = length (filter (\<lambda>c. c = CHR '':'') filename); n = (colons - 1) div 2 in
          (case mtd_pairs n (strtok_rest rest) of
             Fault \<Rightarrow> Fault
           | Done None \<Rightarrow> Done (None, s)
           | Done (Some pairs) \<Rightarrow>
               let pairs = sort_key fst pairs; s = scan_once (ap_mtd env) s in
               (case strtok rest of
                  None \<Rightarrow> Fault
                | Some (part, _) \<Rightarrow>
                    if \<not> mi_find (ap_mtd env) part s then Done (None, s)
                    else (case mi_read_partition (ap_mtd env) part s of
                            (None, s) \<Rightarrow> Done (None, s)
                          | (Some ctx, s) \<Rightarrow>
                              if pairs = [] then Fault
                              else (case mtd_match env pairs ctx (sha_init (ap_cr env)) [] s of
                                      Fault \<Rightarrow> Fault
                                    | Done (None, s) \<Rightarrow> Done (None, s)
                                    | Done (Some (bytes, sha_ctx), s) \<Rightarrow>
                                        Done (Some \<lparr>fc_data = bytes, fc_sha1 = sha_final (ap_cr env) sha_ctx,
                                                    fc_stat = \<lparr>st_mode = 420, st_uid = 0, st_gid = 0\<rparr>\<rparr>, s))))))"

definition sha_of :: "('h, byte list, 'k) crypto \<Rightarrow> byte list \<Rightarrow> byte list" where
  "sha_of cr bytes = sha_final cr (sha_update cr (sha_init cr) bytes)"

definition LoadFileContents :: "('s, 'r, 'w, 'h, 'k) apenv \<Rightarrow> string \<Rightarrow> 's \<Rightarrow> (FileContents option \<times> 's) outcome" where
  "LoadFileContents env filename s =
     (if is_mtd filename then LoadMTDContents env filename s
      else Done (case fo_stat (ap_files env) filename s of
                   None \<Rightarrow> None
                 | Some (sz, st, _) \<Rightarrow>
                     (case fo_fread (ap_files env) filename sz s of
                        None \<Rightarrow> None
                      | Some bytes \<Rightarrow>
                          if length bytes \<noteq> sz then None
                          else Some \<lparr>fc_data = bytes, fc_sha1 = sha_of (ap_cr env) bytes, fc_stat = st\<rparr>), s))"

definition SaveFileContents :: "'s fileops \<Rightarrow> string \<Rightarrow> FileContents \<Rightarrow> 's \<Rightarrow> int \<times> 's" where
  "SaveFileContents fo filename file s =
     (let (ok, s) = fo_open fo filename s in
      if \<not> ok then (-1, s)
      else let (bytes_written, s) = FileSink fo filename (fc_data file) s in
      if bytes_written \<noteq> int (length (fc_data file)) then (-1, s)
      else let (ok, s) = fo_chmod fo filename (st_mode (fc_stat file)) s in
      if \<not> ok then (-1, s)
      else let (ok, s) = fo_chown fo filename (st_uid (fc_stat file)) (st_gid (fc_stat file)) s in
      if \<not> ok then (-1, s) else (0, s))"

definition WriteToMTDPartition :: "('s, 'r, 'w) mtd_if \<Rightarrow> byte list \<Rightarrow> string \<Rightarrow> 's \<Rightarrow> int \<times> 's" where
  "WriteToMTDPartition mtd bytes target_mtd s =
     (if CHR '':'' \<notin> set target_mtd then (-1, s)
      else let part = takeWhile (\<lambda>c. c \<noteq> CHR '':'') (drop 1 (dropWhile (\<lambda>c. c \<noteq> CHR '':'') target_mtd));
               s = scan_once mtd s in
      if \<not> mi_find mtd part s then (-1, s)
      else (case mi_write_partition mtd part s of
              (None, s) \<Rightarrow> (-1, s)
            | (Some ctx, s) \<Rightarrow>
                let (written, ctx, s) = mi_write_data mtd bytes ctx s in
                if written \<noteq> int (length bytes) then (-1, snd (mi_write_close mtd ctx s))
                else let (erased, ctx, s) = mi_erase_blocks mtd (-1) ctx s in
                if erased < 0 then (-1, snd (mi_write_close mtd ctx s))
                else let (r, s) = mi_write_close mtd ctx s in
                if r \<noteq> 0 then (-1, s) else (0, s)))"

text \<open>Whether a file or its saved copy has one of the digests.\<close>

definition applypatch_check :: "('s, 'r, 'w, 'h, 'k) apenv \<Rightarrow> string \<Rightarrow> string list \<Rightarrow> 's \<Rightarrow> (int \<times> 's) outcome" where
  "applypatch_check env filename patch_sha1_str s =
     (case LoadFileContents env filename s of
        Fault \<Rightarrow> Fault
      | Done (file, s) \<Rightarrow>
          if (case file of None \<Rightarrow> True
              | Some f \<Rightarrow> patch_sha1_str \<noteq> [] \<and> FindMatchingPatch (fc_sha1 f) patch_sha1_str = None)
          then (case LoadFileContents env CACHE_TEMP_SOURCE s of
                  Fault \<Rightarrow> Fault
                | Done (None, s) \<Rightarrow> Done (1, s)
                | Done (Some f, s) \<Rightarrow>
                    if FindMatchingPatch (fc_sha1 f) patch_sha1_str = None then Done (1, s) else Done (0, s))
          else Done (0, s))"

section \<open>Digests are printed and parsed\<close>

definition hex_char :: "nat \<Rightarrow> char" where
  "hex_char n = (if n < 10 then char_of (48 + n) else char_of (87 + n))"

definition show_sha1 :: "byte list \<Rightarrow> string" where
  "show_sha1 digest = concat (map (\<lambda>b. [hex_char (unat b div 16), hex_char (unat b mod 16)]) digest)"

lemma hex_digit_char: "n < 16 \<Longrightarrow> hex_digit (hex_char n) = Some n"
  by (auto simp: hex_digit_def hex_char_def)

lemma hex_digit_range: "hex_digit c = Some n \<Longrightarrow> n < 16"
  by (auto simp: hex_digit_def split: if_splits)

lemma nibbles: "push_bit 4 (of_nat (unat b div 16)) OR of_nat (unat b mod 16) = (b :: byte)"
proof -
  have d: "of_nat (unat b div 16) = drop_bit 4 b" and m: "of_nat (unat b mod 16) = take_bit 4 b"
    by (simp_all add: drop_bit_eq_div take_bit_eq_mod word_arith_nat_div word_arith_nat_mod)
  show ?thesis unfolding d m by (rule bit_word_eqI) (auto simp: bit_simps)
qed

lemma parse_digits_show: "parse_digits (length digest) (show_sha1 digest @ r) = Some (digest, r)"
proof (induction digest)
  case (Cons b digest)
  have "unat b div 16 < 16" "unat b mod 16 < 16" using unsigned_less [of b, where 'a = nat] by auto
  then show ?case using Cons nibbles [of b] by (simp add: show_sha1_def hex_digit_char)
qed (simp add: show_sha1_def)

lemma parse_digits_consumes:
  "parse_digits n str = Some (digest, ps) \<Longrightarrow> length digest = n \<and> length str = 2 * n + length ps"
proof (induction n str arbitrary: digest ps rule: parse_digits.induct)
  case (2 n a b str)
  then show ?case by (auto split: option.splits)
qed auto

text \<open>
  \<^verbatim>\<open>ParseSha1\<close> accepts the 40 digits of every digest and gives the digest back, accepts nothing but strings
  of 40 characters, and rejects a digest that is followed by anything, also by a colon.\<close>

theorem ParseSha1_spec:
  assumes "length digest = SHA_DIGEST_SIZE"
  shows "ParseSha1 (show_sha1 digest @ r) = (if r = [] then Some digest else None) \<and>
    (\<forall>str d. ParseSha1 str = Some d \<longrightarrow> length str = 40 \<and> length d = SHA_DIGEST_SIZE)"
proof (intro conjI allI impI)
  show "ParseSha1 (show_sha1 digest @ r) = (if r = [] then Some digest else None)"
    using parse_digits_show [of digest r] assms by (simp add: ParseSha1_def)
next
  fix str d assume "ParseSha1 str = Some d"
  then have "parse_digits SHA_DIGEST_SIZE str = Some (d, [])" by (auto simp: ParseSha1_def split: option.splits if_splits)
  then show "length str = 40" "length d = SHA_DIGEST_SIZE"
    using parse_digits_consumes [of SHA_DIGEST_SIZE str d "[]"] by (simp_all add: SHA_DIGEST_SIZE_def)
qed

theorem ParseSha1_spec_witness:
  "ParseSha1 (show_sha1 (replicate 20 0xab) @ '':x'') = None"
  using ParseSha1_spec [of "replicate 20 0xab" "'':x''"] by (simp add: SHA_DIGEST_SIZE_def)

lemma FindMatchingPatch_Some:
  "FindMatchingPatch sha1 strs = Some i \<Longrightarrow> i < length strs \<and> ParseSha1 (strs ! i) = Some sha1 \<and> (\<forall>j < i. ParseSha1 (strs ! j) \<noteq> Some sha1)"
proof (induction strs arbitrary: i)
  case (Cons str strs)
  show ?case
  proof (cases "ParseSha1 str = Some sha1")
    case False
    then obtain k where "i = Suc k" "FindMatchingPatch sha1 strs = Some k" using Cons.prems by auto
    then show ?thesis using Cons.IH False by (auto simp: less_Suc_eq_0_disj)
  qed (use Cons.prems in auto)
qed simp

lemma FindMatchingPatch_None: "FindMatchingPatch sha1 strs = None \<longleftrightarrow> (\<forall>str \<in> set strs. ParseSha1 str \<noteq> Some sha1)"
  by (induction strs) auto

section \<open>The documented behaviour of the file system\<close>

text \<open>
  \<open>content\<close> is the data of a file.  Different names are different files.  A call that fails changes nothing; a
  write appends what it reports.
\<close>

definition posix_files :: "'s fileops \<Rightarrow> (string \<Rightarrow> 's \<Rightarrow> byte list option) \<Rightarrow> bool" where
  "posix_files fo content \<longleftrightarrow>
     (\<forall>f s n st r d. fo_stat fo f s = Some (n, st, r) \<and> content f s = Some d \<longrightarrow> n = length d) \<and>
     (\<forall>f s n bs. fo_fread fo f n s = Some bs \<longrightarrow> (\<exists>d. content f s = Some d \<and> bs = take (length bs) d)) \<and>
     (\<forall>f s ok s'. fo_open fo f s = (ok, s') \<longrightarrow> (ok \<longrightarrow> content f s' = Some []) \<and> (\<forall>g. g \<noteq> f \<or> \<not> ok \<longrightarrow> content g s' = content g s)) \<and>
     (\<forall>f s bs w s'. fo_write fo f bs s = (w, s') \<longrightarrow> w \<le> int (length bs) \<and> (\<forall>g. g \<noteq> f \<longrightarrow> content g s' = content g s) \<and>
        (\<forall>d. content f s = Some d \<longrightarrow> content f s' = Some (d @ take (nat w) bs))) \<and>
     (\<forall>f m s ok s' g. fo_chmod fo f m s = (ok, s') \<longrightarrow> content g s' = content g s) \<and>
     (\<forall>f u v s ok s' g. fo_chown fo f u v s = (ok, s') \<longrightarrow> content g s' = content g s) \<and>
     (\<forall>f s g. content g (fo_unlink fo f s) = content g s \<or> g = f \<and> content g (fo_unlink fo f s) = None) \<and>
     (\<forall>a b s ok s'. fo_rename fo a b s = (ok, s') \<longrightarrow> (ok \<longrightarrow> content b s' = content a s) \<and>
        (\<forall>g. \<not> ok \<or> g \<noteq> a \<and> g \<noteq> b \<longrightarrow> content g s' = content g s))"

lemma posix_rules:
  assumes "posix_files fo content"
  shows "fo_stat fo f s = Some (n, st, r) \<Longrightarrow> content f s = Some d \<Longrightarrow> n = length d"
    "fo_fread fo f n s = Some bs \<Longrightarrow> \<exists>d. content f s = Some d \<and> bs = take (length bs) d"
    "fo_open fo f s = (True, s') \<Longrightarrow> content f s' = Some []"
    "fo_open fo f s = (ok, s') \<Longrightarrow> g \<noteq> f \<or> \<not> ok \<Longrightarrow> content g s' = content g s"
    "fo_write fo f bs s = (w, s') \<Longrightarrow> w \<le> int (length bs)"
    "fo_write fo f bs s = (w, s') \<Longrightarrow> g \<noteq> f \<Longrightarrow> content g s' = content g s"
    "fo_write fo f bs s = (w, s') \<Longrightarrow> content f s = Some d \<Longrightarrow> content f s' = Some (d @ take (nat w) bs)"
    "fo_chmod fo f m s = (ok, s') \<Longrightarrow> content g s' = content g s"
    "fo_chown fo f u v s = (ok, s') \<Longrightarrow> content g s' = content g s"
    "g \<noteq> f \<Longrightarrow> content g (fo_unlink fo f s) = content g s"
    "fo_rename fo a b s = (True, s') \<Longrightarrow> content b s' = content a s"
    "fo_rename fo a b s = (ok, s') \<Longrightarrow> \<not> ok \<or> g \<noteq> a \<and> g \<noteq> b \<Longrightarrow> content g s' = content g s"
    "content f (fo_unlink fo f s) = content f s \<or> content f (fo_unlink fo f s) = None"
proof -
  note laws = assms [unfolded posix_files_def]
  note w = laws [THEN conjunct2, THEN conjunct2, THEN conjunct2, THEN conjunct1, rule_format]
  show "fo_stat fo f s = Some (n, st, r) \<Longrightarrow> content f s = Some d \<Longrightarrow> n = length d"
    using laws [THEN conjunct1] by blast
  show "fo_fread fo f n s = Some bs \<Longrightarrow> \<exists>d. content f s = Some d \<and> bs = take (length bs) d"
    using laws [THEN conjunct2, THEN conjunct1] by blast
  show "fo_open fo f s = (True, s') \<Longrightarrow> content f s' = Some []"
      "fo_open fo f s = (ok, s') \<Longrightarrow> g \<noteq> f \<or> \<not> ok \<Longrightarrow> content g s' = content g s"
    using laws [THEN conjunct2, THEN conjunct2, THEN conjunct1] by blast+
  show "fo_write fo f bs s = (w, s') \<Longrightarrow> w \<le> int (length bs)"
      "fo_write fo f bs s = (w, s') \<Longrightarrow> g \<noteq> f \<Longrightarrow> content g s' = content g s"
      "fo_write fo f bs s = (w, s') \<Longrightarrow> content f s = Some d \<Longrightarrow> content f s' = Some (d @ take (nat w) bs)"
    using w by blast+
  note l5 = laws [THEN conjunct2, THEN conjunct2, THEN conjunct2, THEN conjunct2]
  show "fo_chmod fo f m s = (ok, s') \<Longrightarrow> content g s' = content g s" using l5 [THEN conjunct1] by blast
  show "fo_chown fo f u v s = (ok, s') \<Longrightarrow> content g s' = content g s" using l5 [THEN conjunct2, THEN conjunct1] by blast
  show "g \<noteq> f \<Longrightarrow> content g (fo_unlink fo f s) = content g s" using l5 [THEN conjunct2, THEN conjunct2, THEN conjunct1] by blast
  show "fo_rename fo a b s = (True, s') \<Longrightarrow> content b s' = content a s"
      "fo_rename fo a b s = (ok, s') \<Longrightarrow> \<not> ok \<or> g \<noteq> a \<and> g \<noteq> b \<Longrightarrow> content g s' = content g s"
    using l5 [THEN conjunct2, THEN conjunct2, THEN conjunct2] by blast+
  show "content f (fo_unlink fo f s) = content f s \<or> content f (fo_unlink fo f s) = None"
    using l5 [THEN conjunct2, THEN conjunct2, THEN conjunct1, rule_format, of f f s] by argo
qed

text \<open>A file that is there can be read, and a file that is not there has no size.\<close>

definition readable_files :: "'s fileops \<Rightarrow> (string \<Rightarrow> 's \<Rightarrow> byte list option) \<Rightarrow> bool" where
  "readable_files fo content \<longleftrightarrow>
     (\<forall>f s d. content f s = Some d \<longrightarrow> (\<exists>st r. fo_stat fo f s = Some (length d, st, r)) \<and> fo_fread fo f (length d) s = Some d) \<and>
     (\<forall>f s. content f s = None \<longrightarrow> fo_stat fo f s = None)"

text \<open>The flash layer does not change files.\<close>

definition mtd_keeps :: "('s, 'r, 'w) mtd_if \<Rightarrow> (string \<Rightarrow> 's \<Rightarrow> byte list option) \<Rightarrow> bool" where
  "mtd_keeps mtd content \<longleftrightarrow>
     (\<forall>s g. content g (mi_scan mtd s) = content g s) \<and>
     (\<forall>p s g. content g (snd (mi_read_partition mtd p s)) = content g s) \<and>
     (\<forall>n r s g. content g (snd (snd (snd (mi_read_data mtd n r s)))) = content g s) \<and>
     (\<forall>r s g. content g (mi_read_close mtd r s) = content g s)"

section \<open>The sinks\<close>

text \<open>Writing to memory is atomic.\<close>

interpretation memory_sink: atomic_sink MemorySink "\<lambda>msi. Some (msi_buffer msi)"
  by unfold_locales (auto simp: MemorySink_def split: if_splits)

text \<open>Writing to a file takes a first part of the bytes, the one it reports.\<close>

lemma FileSink_loop_content:
  "posix_files fo content \<Longrightarrow> FileSink_loop fo fd bytes k s = (n, s') \<Longrightarrow> content fd s = Some d \<Longrightarrow>
    k \<le> n \<and> n \<le> k + int (length bytes) \<and> content fd s' = Some (d @ take (nat (n - k)) bytes) \<and> (\<forall>g. g \<noteq> fd \<longrightarrow> content g s' = content g s)"
proof (induction fo fd bytes k s arbitrary: d rule: FileSink_loop.induct)
  case (1 fo fd bytes k s)
  show ?case
  proof (cases "bytes = []")
    case True
    then show ?thesis using "1.prems"(2,3) by (simp add: FileSink_loop.simps [of fo fd "[]"])
  next
    case False
    obtain w s1 where w: "fo_write fo fd bytes s = (w, s1)" by (cases "fo_write fo fd bytes s")
    have c: "w \<le> int (length bytes)" "content fd s1 = Some (d @ take (nat w) bytes)" "\<And>g. g \<noteq> fd \<Longrightarrow> content g s1 = content g s"
      using posix_rules(5-7) [OF "1.prems"(1) w] "1.prems"(3) by blast+
    show ?thesis
    proof (cases "w \<le> 0")
      case True
      then show ?thesis using "1.prems"(2) False w c by (auto simp: FileSink_loop.simps [of fo fd bytes])
    next
      case pos: False
      have r: "FileSink_loop fo fd (drop (nat w) bytes) (k + w) s1 = (n, s')"
        using "1.prems"(2) False w pos by (simp add: FileSink_loop.simps [of fo fd bytes k])
      from "1.IH" [OF False w [symmetric] refl pos "1.prems"(1) r c(2)]
      have ih: "k + w \<le> n" "n \<le> k + w + int (length (drop (nat w) bytes))"
          "content fd s' = Some ((d @ take (nat w) bytes) @ take (nat (n - (k + w))) (drop (nat w) bytes))" "\<forall>g. g \<noteq> fd \<longrightarrow> content g s' = content g s1"
        by blast+
      have "nat (n - k) = nat w + nat (n - (k + w))" using ih(1) pos by simp
      then have "take (nat w) bytes @ take (nat (n - (k + w))) (drop (nat w) bytes) = take (nat (n - k)) bytes" by (simp add: take_add)
      then show ?thesis using ih c(1,3) pos by auto
    qed
  qed
qed

lemma FileSink_content:
  assumes "posix_files fo content" "FileSink fo fd bytes s = (n, s')" "content fd s = Some d"
  shows "0 \<le> n" "n \<le> int (length bytes)" "content fd s' = Some (d @ take (nat n) bytes)" "g \<noteq> fd \<Longrightarrow> content g s' = content g s"
  using FileSink_loop_content [OF assms(1) assms(2) [unfolded FileSink_def] assms(3)] by auto

lemma file_sink_counting:
  assumes "posix_files fo content"
  shows "counting_sink (FileSink fo fd) (content fd)"
proof
  fix bs t n t' d
  assume s: "FileSink fo fd bs t = (n, t')" "content fd t = Some d" "int (length bs) \<le> n"
  then have "n = int (length bs)" using FileSink_content(2) [OF assms s(1,2)] by simp
  then show "content fd t' = Some (d @ bs)" using FileSink_content(3) [OF assms s(1,2)] by simp
qed

text \<open>With a file system on which no write fails, a file is an atomic sink as well: short writes are continued.\<close>

definition writes_progress :: "'s fileops \<Rightarrow> bool" where
  "writes_progress fo \<longleftrightarrow> (\<forall>fd bs s. bs \<noteq> [] \<longrightarrow> 0 < fst (fo_write fo fd bs s))"

lemma FileSink_loop_progress:
  "posix_files fo content \<Longrightarrow> writes_progress fo \<Longrightarrow> fst (FileSink_loop fo fd bytes k s) = k + int (length bytes)"
proof (induction fo fd bytes k s rule: FileSink_loop.induct)
  case (1 fo fd bytes k s)
  show ?case
  proof (cases "bytes = []")
    case True
    then show ?thesis by (simp add: FileSink_loop.simps)
  next
    case False
    obtain w s1 where w: "fo_write fo fd bytes s = (w, s1)" by (cases "fo_write fo fd bytes s")
    have pos: "\<not> w \<le> 0" using "1.prems"(2) False w unfolding writes_progress_def by (metis fst_conv not_le)
    have "w \<le> int (length bytes)" by (rule posix_rules(5) [OF "1.prems"(1) w])
    then show ?thesis
      using "1.IH" [OF False w [symmetric] refl pos "1.prems"] False w pos by (simp add: FileSink_loop.simps [of fo fd bytes k] of_nat_diff)
  qed
qed

lemma file_sink_atomic:
  assumes "posix_files fo content" "writes_progress fo"
  shows "atomic_sink (FileSink fo fd) (content fd)"
  using file_sink_counting [OF assms(1)] FileSink_loop_progress [OF assms, of fd]
  unfolding atomic_sink_def atomic_sink_axioms_def FileSink_def by (metis fst_conv less_irrefl add_0)

text \<open>Writing to memory never leaves the buffer.\<close>

interpretation memory_sink_bound: sink_invariant MemorySink "\<lambda>msi. int (length (msi_buffer msi)) \<le> msi_size msi"
  by unfold_locales (simp add: MemorySink_def)

lemma file_sink_keeps:
  assumes "posix_files fo content"
  shows "sink_invariant (FileSink fo fd) (\<lambda>s. (\<exists>d. content fd s = Some d) \<and> (\<forall>g. g \<noteq> fd \<longrightarrow> content g s = content g s0))"
proof
  fix t bs
  assume t: "(\<exists>d. content fd t = Some d) \<and> (\<forall>g. g \<noteq> fd \<longrightarrow> content g t = content g s0)"
  obtain d where d: "content fd t = Some d" using t by blast
  obtain n t' where s: "FileSink fo fd bs t = (n, t')" by (cases "FileSink fo fd bs t")
  show "(\<exists>d. content fd (snd (FileSink fo fd bs t)) = Some d) \<and> (\<forall>g. g \<noteq> fd \<longrightarrow> content g (snd (FileSink fo fd bs t)) = content g s0)"
    using FileSink_content(3,4) [OF assms s d] t s by auto
qed

section \<open>Making room spares other files\<close>

definition spared :: "string \<Rightarrow> bool" where
  "spared g \<longleftrightarrow> take 7 g \<noteq> ''/cache/'' \<or> g = CACHE_TEMP_SOURCE"

lemma map_filter_mem: "y \<in> set (List.map_filter f xs) \<Longrightarrow> \<exists>x \<in> set xs. f x = Some y"
  by (auto simp: List.map_filter_def)

lemma expendable_in_names:
  assumes "f \<in> set (expendable_in fo s dir)"
  shows "f \<noteq> CACHE_TEMP_SOURCE \<and> (\<exists>de. f = dir @ ''/'' @ de)"
  using assms by (auto simp: expendable_in_def Let_def dest!: map_filter_mem split: option.split_asm if_split_asm)

lemma close_out_names: "set (close_out link files) \<subseteq> set files \<union> {None}"
  by (auto simp: close_out_def)

lemma foldl_names:
  assumes "\<And>x files. set (step files x) \<subseteq> set files \<union> {None}"
  shows "set (foldl step files xs) \<subseteq> set files \<union> {None}"
proof (induction xs arbitrary: files)
  case (Cons x xs)
  then show ?case using Cons [of "step files x"] assms [of files x] by auto
qed auto

lemma FindExpendableFiles_names:
  assumes "FindExpendableFiles fo s = Some names" "Some f \<in> set names"
  shows "\<not> spared f"
proof -
  let ?files = "map Some (expendable_in fo s ''/cache'' @ expendable_in fo s ''/cache/recovery/otatest'')"
  define step where "step files de = (if \<not> list_all isdigit de then files
      else foldl (\<lambda>files link. close_out link files) files (open_links fo s de))" for files de
  obtain des where n: "names = foldl step ?files des"
    using assms(1) unfolding FindExpendableFiles_def EliminateOpenFiles_def step_def by (auto split: option.split_asm)
  have "set (step files de) \<subseteq> set files \<union> {None}" for files de
    using foldl_names [of "\<lambda>files link. close_out link files", OF close_out_names] by (auto simp: step_def)
  then have "set names \<subseteq> set ?files \<union> {None}" unfolding n by (rule foldl_names)
  then have "f \<in> set (expendable_in fo s ''/cache'') \<or> f \<in> set (expendable_in fo s ''/cache/recovery/otatest'')" using assms(2) by auto
  then show ?thesis using expendable_in_names by (force simp: spared_def)
qed

lemma delete_loop_keeps:
  "posix_files fo content \<Longrightarrow> \<forall>f. Some f \<in> set names \<longrightarrow> f \<noteq> g \<Longrightarrow> delete_loop fo n names free s = (k, s') \<Longrightarrow> content g s' = content g s"
proof (induction fo n names free s rule: delete_loop.induct)
  case (2 fo n nm names free s)
  show ?case
  proof (cases "free < n")
    case True
    show ?thesis
    proof (cases nm)
      case None
      then show ?thesis using 2(1) [OF True None 2(3)] 2(4,5) True by simp
    next
      case (Some f)
      let ?s = "fo_unlink fo f s"
      have "delete_loop fo n names (FreeSpaceForFile fo ''/cache'' ?s) ?s = (k, s')" using 2(5) True Some by (simp add: Let_def)
      from 2(2) [OF True Some refl 2(3) _ this] have "content g s' = content g ?s" using 2(4) by simp
      moreover have "g \<noteq> f" using 2(4) Some by auto
      then have "content g ?s = content g s" by (rule posix_rules(10) [OF 2(3)])
      ultimately show ?thesis by simp
    qed
  qed (use 2(5) in simp)
qed simp

lemma delete_loop_space:
  "delete_loop fo n names (FreeSpaceForFile fo ''/cache'' s) s = (k, s') \<Longrightarrow> k = FreeSpaceForFile fo ''/cache'' s'"
proof (induction names arbitrary: s)
  case (Cons nm names)
  then show ?case by (auto simp: Let_def split: if_splits option.splits)
qed simp

lemma MakeFreeSpace_keeps:
  assumes "posix_files fo content" "MakeFreeSpaceOnCache fo n s = (r, s')" "spared g"
  shows "content g s' = content g s"
proof -
  have "f \<noteq> g" if "FindExpendableFiles fo s = Some names" "Some f \<in> set names" for f names
    using FindExpendableFiles_names [OF that] assms(3) by auto
  moreover have "s' = s \<or> (\<exists>names k. FindExpendableFiles fo s = Some names \<and> delete_loop fo n names (FreeSpaceForFile fo ''/cache'' s) s = (k, s'))"
    using assms(2) by (auto simp: MakeFreeSpaceOnCache_def Let_def split: if_split_asm option.split_asm prod.split_asm)
  ultimately show ?thesis using delete_loop_keeps [OF assms(1)] by blast
qed

text \<open>
  C19. Making room on the cache partition: with the number of free bytes that \<^verbatim>\<open>statfs\<close> reports in the end, when it fits 32 bits,
  the result is 0 exactly when the needed bytes are free, and otherwise -1; a \<^verbatim>\<open>statfs\<close> that fails counts as room.  Nothing is
  deleted when there was room before, and in any case no file outside the cache partition is touched, and neither is the saved
  copy of a source.\<close>

theorem cache_cleanup:
  assumes "posix_files fo content" "MakeFreeSpaceOnCache fo n s = (r, s')"
  shows "(fo_statfs fo ''/cache'' s' = Some free \<and> free < 2 ^ 32 \<longrightarrow> r = (if n \<le> free then 0 else -1)) \<and>
    (fo_statfs fo ''/cache'' s' = None \<and> n < 2 ^ 32 \<longrightarrow> r = 0) \<and>
    (fo_statfs fo ''/cache'' s = Some before \<and> before < 2 ^ 32 \<and> n \<le> before \<longrightarrow> s' = s) \<and>
    (\<forall>g. spared g \<longrightarrow> content g s' = content g s)"
proof -
  have r: "r = (if n \<le> FreeSpaceForFile fo ''/cache'' s' then 0 else -1)"
    using assms(2) delete_loop_space [of fo n _ s]
    by (auto simp: MakeFreeSpaceOnCache_def Let_def split: if_split_asm option.split_asm prod.split_asm)
  have "s' = s" if "n \<le> FreeSpaceForFile fo ''/cache'' s" using assms(2) that by (simp add: MakeFreeSpaceOnCache_def)
  then show ?thesis using r MakeFreeSpace_keeps [OF assms] by (auto simp: FreeSpaceForFile_def)
qed

section \<open>Saving and loading\<close>

lemma SaveFileContents_spec:
  assumes px: "posix_files fo content" and run: "SaveFileContents fo filename file s = (r, s')"
  shows "\<not> r < 0 \<Longrightarrow> content filename s' = Some (fc_data file)" "g \<noteq> filename \<Longrightarrow> content g s' = content g s"
proof -
  obtain ok s1 where o: "fo_open fo filename s = (ok, s1)" by (cases "fo_open fo filename s")
  obtain n s2 where w: "FileSink fo filename (fc_data file) s1 = (n, s2)" by (cases "FileSink fo filename (fc_data file) s1")
  obtain ok3 s3 where m: "fo_chmod fo filename (st_mode (fc_stat file)) s2 = (ok3, s3)" by (cases "fo_chmod fo filename (st_mode (fc_stat file)) s2")
  obtain ok4 s4 where c: "fo_chown fo filename (st_uid (fc_stat file)) (st_gid (fc_stat file)) s3 = (ok4, s4)"
    by (cases "fo_chown fo filename (st_uid (fc_stat file)) (st_gid (fc_stat file)) s3")
  note b = run [unfolded SaveFileContents_def o Let_def prod.case w m c]
  have k1: "g \<noteq> filename \<or> \<not> ok \<Longrightarrow> content g s1 = content g s" for g by (rule posix_rules(4) [OF px o])
  have e: "ok \<Longrightarrow> content filename s1 = Some []" using posix_rules(3) [OF px] o by simp
  have k2: "ok \<Longrightarrow> g \<noteq> filename \<Longrightarrow> content g s2 = content g s1" for g using FileSink_content(4) [OF px w e] by blast
  have d: "ok \<Longrightarrow> n = int (length (fc_data file)) \<Longrightarrow> content filename s2 = Some (fc_data file)" using FileSink_content(3) [OF px w e] by simp
  have k34: "content g s3 = content g s2" "content g s4 = content g s3" for g
    using posix_rules(8) [OF px m] posix_rules(9) [OF px c] by blast+
  show "content filename s' = Some (fc_data file)" if "\<not> r < 0" using b that d k34 by (auto split: if_splits)
  show "content g s' = content g s" if "g \<noteq> filename" using b that k1 k2 k34 by (auto split: if_splits)
qed

lemma mtd_rules:
  assumes "mtd_keeps mtd content"
  shows "content g (mi_scan mtd s) = content g s" "mi_read_partition mtd p s = (x, s') \<Longrightarrow> content g s' = content g s"
    "mi_read_data mtd n c s = (k, got, c', s') \<Longrightarrow> content g s' = content g s" "content g (mi_read_close mtd c s) = content g s"
  using assms unfolding mtd_keeps_def by (blast, metis snd_conv, metis snd_conv, blast)

lemma mtd_match_keeps:
  assumes "mtd_keeps (ap_mtd env) content"
  shows "mtd_match env pairs ctx sha_ctx bytes s = Done (r, s') \<Longrightarrow> content g s' = content g s"
proof (induction pairs arbitrary: ctx sha_ctx bytes s)
  case Nil
  then show ?case using mtd_rules [OF assms] by auto
next
  case (Cons p pairs)
  obtain sz sha where p: "p = (sz, sha)" by (cases p)
  obtain k got c1 s1 where rd: "(if sz - length bytes > 0 then mi_read_data (ap_mtd env) (sz - length bytes) ctx s else (0, [], ctx, s)) = (k, got, c1, s1)"
    by (metis prod_cases4)
  have s1: "content g s1 = content g s" using rd mtd_rules(3) [OF assms] by (auto split: if_splits)
  show ?case using Cons.prems unfolding p mtd_match.simps Let_def rd prod.case
    using Cons.IH [of c1] s1 mtd_rules(4) [OF assms] by (auto split: if_splits option.splits)
qed

text \<open>The steps of a successful or failed load from a partition.\<close>

lemma LoadMTDContents_cases:
  assumes "LoadMTDContents env f s = Done (r, s')"
  obtains "s' = s" "r = None" | "s' = scan_once (ap_mtd env) s" "r = None"
  | pt x where "mi_read_partition (ap_mtd env) pt (scan_once (ap_mtd env) s) = (x, s')" "r = None"
  | rest pt pairs ctx s1 m where "strtok f = Some (''MTD'', rest)"
      "mtd_pairs ((length (filter (\<lambda>c. c = CHR '':'') f) - 1) div 2) (strtok_rest rest) = Done (Some pairs)"
      "mi_read_partition (ap_mtd env) pt (scan_once (ap_mtd env) s) = (Some ctx, s1)"
      "mtd_match env (sort_key fst pairs) ctx (sha_init (ap_cr env)) [] s1 = Done (m, s')"
      "r = map_option (\<lambda>(bytes, c). \<lparr>fc_data = bytes, fc_sha1 = sha_final (ap_cr env) c, fc_stat = \<lparr>st_mode = 420, st_uid = 0, st_gid = 0\<rparr>\<rparr>) m"
proof -
  obtain magic rest where st: "strtok f = Some (magic, rest)" using assms by (auto simp: LoadMTDContents_def split: option.split_asm)
  show thesis
  proof (cases "magic = ''MTD''")
    case False
    then show thesis using assms st that(1) by (simp add: LoadMTDContents_def)
  next
    case True
    define pr where "pr = mtd_pairs ((length (filter (\<lambda>c. c = CHR '':'') f) - 1) div 2) (strtok_rest rest)"
    note b = assms [unfolded LoadMTDContents_def st option.case prod.case Let_def, folded pr_def]
    consider "pr = Done None" | pairs where "pr = Done (Some pairs)"
      using b True by (auto split: outcome.split_asm option.split_asm)
    then show thesis
    proof cases
      case 1
      then show thesis using b True that(1) by simp
    next
      case 2
      obtain pt w where pt: "strtok rest = Some (pt, w)" using b True 2 by (auto split: option.split_asm)
      obtain x s1 where rp: "mi_read_partition (ap_mtd env) pt (scan_once (ap_mtd env) s) = (x, s1)"
        by (cases "mi_read_partition (ap_mtd env) pt (scan_once (ap_mtd env) s)")
      note b2 = b [unfolded 2 outcome.case option.case pt prod.case rp]
      show thesis
      proof (cases "mi_find (ap_mtd env) pt (scan_once (ap_mtd env) s)")
        case False
        then show thesis using b2 True that(2) by simp
      next
        case found: True
        show thesis
        proof (cases x)
          case None
          then show thesis using b2 True found rp that(3) [of pt None] by simp
        next
          case (Some ctx)
          have "sort_key fst pairs \<noteq> []" using b2 True found Some by auto
          then obtain m where m: "mtd_match env (sort_key fst pairs) ctx (sha_init (ap_cr env)) [] s1 = Done (m, s')"
              "r = map_option (\<lambda>(bytes, c). \<lparr>fc_data = bytes, fc_sha1 = sha_final (ap_cr env) c, fc_stat = \<lparr>st_mode = 420, st_uid = 0, st_gid = 0\<rparr>\<rparr>) m"
            using b2 True found Some by (auto split: outcome.split_asm option.split_asm prod.split_asm)
          show thesis by (rule that(4) [OF _ 2 [unfolded pr_def] rp [unfolded Some] m]) (use st True in simp)
        qed
      qed
    qed
  qed
qed

lemma LoadFileContents_keeps:
  assumes "mtd_keeps (ap_mtd env) content" "LoadFileContents env f s = Done (r, s')"
  shows "content g s' = content g s"
proof -
  have sc: "content g (scan_once (ap_mtd env) s) = content g s" using mtd_rules(1) [OF assms(1)] by (simp add: scan_once_def)
  show ?thesis
  proof (cases "is_mtd f")
    case True
    then have l: "LoadMTDContents env f s = Done (r, s')" using assms(2) by (simp add: LoadFileContents_def)
    show ?thesis
      by (rule LoadMTDContents_cases [OF l]) (use sc mtd_rules(2) [OF assms(1)] mtd_match_keeps [OF assms(1)] in simp_all)
  next
    case False
    then show ?thesis using assms(2) by (simp add: LoadFileContents_def)
  qed
qed

lemma LoadFileContents_file:
  assumes "posix_files (ap_files env) content" "\<not> is_mtd f" "LoadFileContents env f s = Done (Some file, s')"
  shows "s' = s" "content f s = Some (fc_data file)" "fc_sha1 file = sha_of (ap_cr env) (fc_data file)"
proof -
  obtain sz st rg bytes where l: "fo_stat (ap_files env) f s = Some (sz, st, rg)" "fo_fread (ap_files env) f sz s = Some bytes"
      "length bytes = sz" "file = \<lparr>fc_data = bytes, fc_sha1 = sha_of (ap_cr env) bytes, fc_stat = st\<rparr>" "s' = s"
  proof -
    have l: "(case fo_stat (ap_files env) f s of None \<Rightarrow> None | Some (sz, st, _) \<Rightarrow>
        (case fo_fread (ap_files env) f sz s of None \<Rightarrow> None
         | Some bytes \<Rightarrow> if length bytes \<noteq> sz then None
             else Some \<lparr>fc_data = bytes, fc_sha1 = sha_of (ap_cr env) bytes, fc_stat = st\<rparr>)) = Some file" "s' = s"
      using assms(2,3) unfolding LoadFileContents_def by auto
    then obtain sz st rg where st: "fo_stat (ap_files env) f s = Some (sz, st, rg)" by (cases "fo_stat (ap_files env) f s") auto
    obtain bytes where b: "fo_fread (ap_files env) f sz s = Some bytes" using l(1) st by (cases "fo_fread (ap_files env) f sz s") auto
    show thesis by (rule that [OF st b]) (use l st b in \<open>simp_all split: if_split_asm\<close>)
  qed
  obtain d where d: "content f s = Some d" "bytes = take (length bytes) d" using posix_rules(2) [OF assms(1) l(2)] by blast
  have "sz = length d" by (rule posix_rules(1) [OF assms(1) l(1) d(1)])
  then show "s' = s" "content f s = Some (fc_data file)" "fc_sha1 file = sha_of (ap_cr env) (fc_data file)"
    using l d by simp_all
qed

lemma LoadFileContents_readable:
  assumes "readable_files (ap_files env) content" "\<not> is_mtd f"
  shows "content f s = None \<Longrightarrow> LoadFileContents env f s = Done (None, s)"
    "content f s = Some d \<Longrightarrow> \<exists>file. LoadFileContents env f s = Done (Some file, s) \<and> fc_data file = d \<and> fc_sha1 file = sha_of (ap_cr env) d"
proof -
  note r = assms(1) [unfolded readable_files_def]
  show "content f s = None \<Longrightarrow> LoadFileContents env f s = Done (None, s)" using r assms(2) by (simp add: LoadFileContents_def)
  assume "content f s = Some d"
  with r obtain st rg where "fo_stat (ap_files env) f s = Some (length d, st, rg)" "fo_fread (ap_files env) f (length d) s = Some d" by blast
  then show "\<exists>file. LoadFileContents env f s = Done (Some file, s) \<and> fc_data file = d \<and> fc_sha1 file = sha_of (ap_cr env) d"
    using assms(2) by (simp add: LoadFileContents_def)
qed

section \<open>A partition is loaded by its digest\<close>

definition reads_exact :: "('s, 'r, 'w) mtd_if \<Rightarrow> bool" where
  "reads_exact mtd \<longleftrightarrow> (\<forall>n c s k got c' s'. mi_read_data mtd n c s = (k, got, c', s') \<longrightarrow> k = int n \<longrightarrow> length got = n)"

lemma mtd_match_spec:
  assumes ex: "reads_exact (ap_mtd env)"
  shows "mtd_match env pairs ctx (foldl (sha_update (ap_cr env)) (sha_init (ap_cr env)) blks) (concat blks) s = Done (Some (bytes, c), s') \<Longrightarrow>
    sorted (map fst pairs) \<Longrightarrow> \<forall>p \<in> set pairs. length (concat blks) \<le> fst p \<Longrightarrow>
    \<exists>blks' sz str. c = foldl (sha_update (ap_cr env)) (sha_init (ap_cr env)) blks' \<and> concat blks' = bytes \<and>
      (sz, Some str) \<in> set pairs \<and> length bytes = sz \<and> ParseSha1 str = Some (sha_final (ap_cr env) c)"
proof (induction pairs arbitrary: ctx blks s)
  case (Cons p pairs)
  let ?upd = "sha_update (ap_cr env)"
  obtain sz sha where p: "p = (sz, sha)" by (cases p)
  define nx where "nx = sz - length (concat blks)"
  obtain k got c1 s1 where rd: "(if nx > 0 then mi_read_data (ap_mtd env) nx ctx s else (0, [], ctx, s)) = (k, got, c1, s1)"
    by (metis prod_cases4)
  note b = Cons.prems(1) [unfolded p mtd_match.simps Let_def, folded nx_def, unfolded rd prod.case]
  define blks1 where "blks1 = (if nx > 0 then blks @ [got] else blks)"
  have k: "k = int nx" using b by (auto split: if_split_asm)
  have got: "length got = nx" using rd k ex unfolding reads_exact_def by (metis length_0_conv not_gr_zero prod.inject)
  have c1: "(if nx > 0 then ?upd (foldl ?upd (sha_init (ap_cr env)) blks) got else foldl ?upd (sha_init (ap_cr env)) blks) = foldl ?upd (sha_init (ap_cr env)) blks1"
    "concat blks @ got = concat blks1" using got by (auto simp: blks1_def)
  have len: "length (concat blks1) = sz" unfolding c1(2) [symmetric] using got Cons.prems(3) p by (simp add: nx_def del: length_concat)
  obtain str where str: "sha = Some str" using b k by (auto split: option.split_asm)
  obtain d where d: "ParseSha1 str = Some d" using b k str by (auto split: option.split_asm)
  note b2 = b [unfolded str option.case d c1]
  show ?case
  proof (cases "sha_final (ap_cr env) (foldl ?upd (sha_init (ap_cr env)) blks1) = d")
    case True
    then have "c = foldl ?upd (sha_init (ap_cr env)) blks1" "bytes = concat blks1" using b2 k by auto
    then show ?thesis using len d True str p by (intro exI [of _ blks1] exI [of _ sz] exI [of _ str]) simp
  next
    case False
    then have m: "mtd_match env pairs c1 (foldl ?upd (sha_init (ap_cr env)) blks1) (concat blks1) s1 = Done (Some (bytes, c), s')" using b2 k by simp
    have "\<forall>p \<in> set pairs. length (concat blks1) \<le> fst p" using Cons.prems(2) len p by auto
    from Cons.IH [OF m _ this] Cons.prems(2) show ?thesis by auto
  qed
qed simp

text \<open>
  C23. A partition is loaded by its digest: what \<^verbatim>\<open>LoadMTDContents\<close> returns has the length and the digest of one of the pairs in its
  file name.\<close>

theorem mtd_load_matches:
  assumes "reads_exact (ap_mtd env)" "sha_chains (ap_cr env) sha" "LoadMTDContents env f s = Done (Some file, s')"
  shows "fc_sha1 file = sha (fc_data file) \<and>
    (\<exists>rest pairs str. strtok f = Some (''MTD'', rest) \<and>
       mtd_pairs ((length (filter (\<lambda>c. c = CHR '':'') f) - 1) div 2) (strtok_rest rest) = Done (Some pairs) \<and>
       (length (fc_data file), Some str) \<in> set pairs \<and> ParseSha1 str = Some (fc_sha1 file))"
proof (rule LoadMTDContents_cases [OF assms(3)])
  fix rest pt pairs ctx s1 m
  assume l: "strtok f = Some (''MTD'', rest)"
      "mtd_pairs ((length (filter (\<lambda>c. c = CHR '':'') f) - 1) div 2) (strtok_rest rest) = Done (Some pairs)"
      "mtd_match env (sort_key fst pairs) ctx (sha_init (ap_cr env)) [] s1 = Done (m, s')"
      "Some file = map_option (\<lambda>(bytes, c). \<lparr>fc_data = bytes, fc_sha1 = sha_final (ap_cr env) c, fc_stat = \<lparr>st_mode = 420, st_uid = 0, st_gid = 0\<rparr>\<rparr>) m"
  obtain bytes c where m: "m = Some (bytes, c)" "fc_data file = bytes" "fc_sha1 file = sha_final (ap_cr env) c" using l(4) by (cases m) auto
  obtain blks sz str where r: "c = foldl (sha_update (ap_cr env)) (sha_init (ap_cr env)) blks" "concat blks = bytes"
      "(sz, Some str) \<in> set (sort_key fst pairs)" "length bytes = sz" "ParseSha1 str = Some (sha_final (ap_cr env) c)"
    using mtd_match_spec [OF assms(1), of "sort_key fst pairs" ctx "[]" s1 bytes c s'] l(3) m(1) by auto
  have "sha_final (ap_cr env) c = sha bytes" using assms(2) r(1,2) unfolding sha_chains_def by blast
  then show ?thesis using l(1,2) m r(3-5) by auto
qed simp_all

section \<open>Instances\<close>

text \<open>Files as a map, with the answers of the other calls given; a partition that is a list of bytes.\<close>

definition map_files :: "(string \<Rightarrow> nat option) \<Rightarrow> (string \<Rightarrow> string list option) \<Rightarrow> (string \<Rightarrow> byte list option) fileops" where
  "map_files space dirs =
     \<lparr>fo_stat = (\<lambda>f s. map_option (\<lambda>d. (length d, \<lparr>st_mode = 420, st_uid = 0, st_gid = 0\<rparr>, True)) (s f)),
      fo_fread = (\<lambda>f n s. map_option (take n) (s f)),
      fo_open = (\<lambda>f s. (True, s(f \<mapsto> []))),
      fo_write = (\<lambda>f bs s. (int (length bs), s(f := map_option (\<lambda>d. d @ bs) (s f)))),
      fo_chmod = (\<lambda>f m s. (True, s)), fo_chown = (\<lambda>f u v s. (True, s)),
      fo_unlink = (\<lambda>f s. s(f := None)),
      fo_rename = (\<lambda>a b s. (True, (s(a := None))(b := s a))),
      fo_statfs = (\<lambda>f s. space f), fo_readdir = (\<lambda>d s. dirs d), fo_readlink = (\<lambda>f s. None)\<rparr>"

lemma map_files_posix: "posix_files (map_files space dirs) (\<lambda>f s. s f)"
  by (auto simp: posix_files_def map_files_def min_def)

lemma map_files_readable: "readable_files (map_files space dirs) (\<lambda>f s. s f)"
  by (auto simp: readable_files_def map_files_def)

lemma map_files_progress: "writes_progress (map_files space dirs)"
  by (simp add: writes_progress_def map_files_def)

theorem cache_cleanup_witness:
  "let fo = map_files (\<lambda>f. Some 5) (\<lambda>d. if d = ''/cache'' then Some [''a'', ''saved.file''] else if d = ''/proc'' then Some [] else None);
       s = [''/cache/a'' \<mapsto> [1], CACHE_TEMP_SOURCE \<mapsto> [2]];
       (r, s') = MakeFreeSpaceOnCache fo 6 s
   in s' ''/cache/a'' = None \<and> r = -1 \<and> s' CACHE_TEMP_SOURCE = Some [2] \<and> MakeFreeSpaceOnCache fo 5 s = (0, s)"
proof -
  define fo where "fo = map_files (\<lambda>f. Some 5) (\<lambda>d. if d = ''/cache'' then Some [''a'', ''saved.file''] else if d = ''/proc'' then Some [] else None)"
  define s :: "string \<Rightarrow> byte list option" where "s = [''/cache/a'' \<mapsto> [1], CACHE_TEMP_SOURCE \<mapsto> [2]]"
  obtain r s' where m: "MakeFreeSpaceOnCache fo 6 s = (r, s')" by (cases "MakeFreeSpaceOnCache fo 6 s")
  obtain r2 s2 where m2: "MakeFreeSpaceOnCache fo 5 s = (r2, s2)" by (cases "MakeFreeSpaceOnCache fo 5 s")
  have "(snd (MakeFreeSpaceOnCache fo 6 s)) ''/cache/a'' = None" 
    by (simp add: fo_def s_def map_files_def MakeFreeSpaceOnCache_def FreeSpaceForFile_def FindExpendableFiles_def EliminateOpenFiles_def
        expendable_in_def List.map_filter_def CACHE_TEMP_SOURCE_def Let_def)
  then have a: "s' ''/cache/a'' = None" using m by simp
  have px: "posix_files fo (\<lambda>f s. s f)" unfolding fo_def by (rule map_files_posix)
  have sp: "fo_statfs fo ''/cache'' t = Some 5" for t by (simp add: fo_def map_files_def)
  have "spared CACHE_TEMP_SOURCE" "s CACHE_TEMP_SOURCE = Some [2]" by (simp_all add: spared_def s_def)
  moreover have "r2 = 0" "s2 = s" using cache_cleanup [OF px m2, of 5 5] sp by simp_all
  ultimately show ?thesis using cache_cleanup [OF px m, of 5 5] sp a m2 unfolding Let_def fo_def [symmetric] s_def [symmetric] m prod.case by auto
qed

definition sample_sha :: "(byte list, byte list, unit) crypto" where
  "sample_sha = \<lparr>sha_init = [], sha_update = (@), sha_final = (\<lambda>h. take 20 (h @ replicate 20 0)), rsa_verify = (\<lambda>k sig d. True), rsa_bytes = 0\<rparr>"

lemma sample_sha_chains: "sha_chains sample_sha (\<lambda>bs. take 20 (bs @ replicate 20 0))"
proof -
  have "foldl (@) a blks = a @ concat blks" for a :: "byte list" and blks by (induction blks arbitrary: a) simp_all
  then show ?thesis by (simp add: sha_chains_def sample_sha_def)
qed

definition list_mtd :: "byte list \<Rightarrow> ('s, nat, nat) mtd_if" where
  "list_mtd part_data =
     \<lparr>mi_scanned = (\<lambda>s. True), mi_scan = (\<lambda>s. s), mi_find = (\<lambda>p s. p = ''boot''), mi_read_partition = (\<lambda>p s. (Some 0, s)),
      mi_read_data = (\<lambda>n c s. if c + n \<le> length part_data then (int n, take n (drop c part_data), c + n, s) else (-1, [], c, s)),
      mi_read_close = (\<lambda>c s. s), mi_write_partition = (\<lambda>p s. (None, s)), mi_write_data = (\<lambda>bs w s. (-1, w, s)),
      mi_erase_blocks = (\<lambda>n w s. (-1, w, s)), mi_write_close = (\<lambda>w s. (0, s))\<rparr>"

lemma list_mtd_laws: "reads_exact (list_mtd part_data)" "mtd_keeps (list_mtd part_data) content"
  by (auto simp: reads_exact_def mtd_keeps_def list_mtd_def split: if_splits)

definition sample_ap :: "nat \<Rightarrow> ((string \<Rightarrow> byte list option), nat, nat, byte list, unit) apenv" where
  "sample_ap space = \<lparr>ap_files = map_files (\<lambda>f. Some space) (\<lambda>d. Some []), ap_mtd = list_mtd [1, 2, 3, 4], ap_cr = sample_sha\<rparr>"

theorem mtd_load_matches_witness:
  "\<exists>file s'. LoadMTDContents (sample_ap 5) (''MTD:boot:3:'' @ show_sha1 (take 20 ([1, 2, 3] @ replicate 20 0))) Map.empty = Done (Some file, s') \<and>
     fc_sha1 file = take 20 (fc_data file @ replicate 20 0) \<and> fc_data file = [1, 2, 3]"
proof -
  let ?f = "''MTD:boot:3:'' @ show_sha1 (take 20 ([1, 2, 3] @ replicate 20 0))"
  let ?file = "\<lparr>fc_data = [1, 2, 3], fc_sha1 = take 20 ([1, 2, 3] @ replicate 20 0), fc_stat = \<lparr>st_mode = 420, st_uid = 0, st_gid = 0\<rparr>\<rparr>"
  have "map_option fst (case LoadMTDContents (sample_ap 5) ?f Map.empty of Done r \<Rightarrow> Some r | Fault \<Rightarrow> None) = Some (Some ?file)" by code_simp
  then obtain s' where l: "LoadMTDContents (sample_ap 5) ?f Map.empty = Done (Some ?file, s')" by (auto split: outcome.splits)
  then show ?thesis using l mtd_load_matches [OF _ _ l] list_mtd_laws sample_sha_chains by (simp add: sample_ap_def)
qed

end
