(* ===== verification/Applypatch.thy ===== *)
theory Applypatch
  imports Applypatch_Files
begin

text \<open>
  Patching a file, \<^verbatim>\<open>applypatch\<close> of \<^verbatim>\<open>applypatch/applypatch.c\<close>: the source is the file itself or the copy saved on the cache
  partition, the patch is chosen by the digest of the source, the result goes to a file with the suffix \<open>.patch\<close> or to memory and
  replaces the target only when it has the expected digest.  Reading contents that have been freed is a \<open>Fault\<close>; writing from
  the null pointer of a file that was not loaded fails.
\<close>

section \<open>Model\<close>

record ('s, 'r, 'w, 'h, 'k, 'z, 'y) patchenv =
  pe_ap :: "('s, 'r, 'w, 'h, 'k) apenv"
  pe_bz :: "'z bzlib"
  pe_gz :: "'y gzlib"
  pe_malloc :: "nat \<Rightarrow> nat \<Rightarrow> nat \<Rightarrow> byte list option"
  pe_msi_ok :: "nat \<Rightarrow> bool"
  pe_stale :: "int \<times> fstat"

record patch_value =
  pv_blob :: bool
  pv_data :: "byte list"

text \<open>
  The variable \<^verbatim>\<open>source_file\<close>: its data may be null after a failed load, with a size and \<^verbatim>\<open>stat\<close> information left from before
  (\<open>pe_stale\<close>, any values), or freed.
\<close>

datatype fvar = Fv_null int fstat | Fv_freed FileContents | Fv_live FileContents

abbreviation env_files :: "('s, 'r, 'w, 'h, 'k, 'z, 'y) patchenv \<Rightarrow> 's fileops" where
  "env_files env \<equiv> ap_files (pe_ap env)"

abbreviation env_cr :: "('s, 'r, 'w, 'h, 'k, 'z, 'y) patchenv \<Rightarrow> ('h, byte list, 'k) crypto" where
  "env_cr env \<equiv> ap_cr (pe_ap env)"

text \<open>The source and the patch to use.\<close>

datatype chosen = Already_target | Give_up | Use fvar bool FileContents patch_value

definition patch_for :: "FileContents \<Rightarrow> (string \<times> patch_value) list \<Rightarrow> patch_value option" where
  "patch_for file patches = map_option (\<lambda>to_use. snd (patches ! to_use)) (FindMatchingPatch (fc_sha1 file) (map fst patches))"

definition ap_copy :: "('s, 'r, 'w, 'h, 'k, 'z, 'y) patchenv \<Rightarrow> fvar \<Rightarrow> (string \<times> patch_value) list \<Rightarrow> 's \<Rightarrow> (chosen \<times> 's) outcome" where
  "ap_copy env source_file patches s =
     (case LoadFileContents (pe_ap env) CACHE_TEMP_SOURCE s of
        Fault \<Rightarrow> Fault
      | Done (None, s) \<Rightarrow> Done (Give_up, s)
      | Done (Some copy_file, s) \<Rightarrow>
          (case patch_for copy_file patches of
             None \<Rightarrow> Done (Give_up, s)
           | Some p \<Rightarrow> Done (Use source_file False copy_file p, s)))"

definition ap_source :: "('s, 'r, 'w, 'h, 'k, 'z, 'y) patchenv \<Rightarrow> FileContents option \<Rightarrow> (string \<times> patch_value) list \<Rightarrow> 's \<Rightarrow> (chosen \<times> 's) outcome" where
  "ap_source env source_file patches s =
     (case source_file of
        None \<Rightarrow> ap_copy env (Fv_null (fst (pe_stale env)) (snd (pe_stale env))) patches s
      | Some f \<Rightarrow>
          (case patch_for f patches of
             Some p \<Rightarrow> Done (Use (Fv_live f) True f p, s)
           | None \<Rightarrow> ap_copy env (Fv_freed f) patches s))"

definition ap_choose ::
  "('s, 'r, 'w, 'h, 'k, 'z, 'y) patchenv \<Rightarrow> string \<Rightarrow> string \<Rightarrow> byte list \<Rightarrow> (string \<times> patch_value) list \<Rightarrow> 's \<Rightarrow> (chosen \<times> 's) outcome" where
  "ap_choose env source_filename target_filename target_sha1 patches s =
     (case LoadFileContents (pe_ap env) target_filename s of
        Fault \<Rightarrow> Fault
      | Done (source_file, s) \<Rightarrow>
          if (case source_file of Some f \<Rightarrow> fc_sha1 f = target_sha1 | None \<Rightarrow> False) then Done (Already_target, s)
          else if source_file = None \<or> target_filename \<noteq> source_filename
          then (case LoadFileContents (pe_ap env) source_filename s of
                  Fault \<Rightarrow> Fault
                | Done (source_file, s) \<Rightarrow> ap_source env source_file patches s)
          else ap_source env source_file patches s)"

text \<open>
  Saving the source on the cache partition.  The size is passed on as a \<^verbatim>\<open>size_t\<close>.  \<open>save_source\<close> is \<^verbatim>\<open>SaveFileContents\<close> with the
  variable as its argument: the file is truncated first, a size that is not positive makes no call of \<^verbatim>\<open>write\<close>, and a \<^verbatim>\<open>write\<close> from
  a null pointer fails, so that fewer bytes are written than the size says.
\<close>

definition fv_size :: "fvar \<Rightarrow> int" where
  "fv_size source_file = (case source_file of Fv_null n st \<Rightarrow> n | Fv_freed f \<Rightarrow> int (length (fc_data f)) | Fv_live f \<Rightarrow> int (length (fc_data f)))"

definition fv_stat :: "fvar \<Rightarrow> fstat" where
  "fv_stat source_file = (case source_file of Fv_null n st \<Rightarrow> st | Fv_freed f \<Rightarrow> fc_stat f | Fv_live f \<Rightarrow> fc_stat f)"

definition save_source :: "'s fileops \<Rightarrow> string \<Rightarrow> fvar \<Rightarrow> 's \<Rightarrow> (int \<times> 's) outcome" where
  "save_source fo filename source_file s =
     (case source_file of
        Fv_live f \<Rightarrow> Done (SaveFileContents fo filename f s)
      | _ \<Rightarrow>
          if fv_size source_file = 0
          then Done (SaveFileContents fo filename \<lparr>fc_data = [], fc_sha1 = [], fc_stat = fv_stat source_file\<rparr> s)
          else let (ok, s) = fo_open fo filename s in
          if \<not> ok then Done (-1, s)
          else (case source_file of Fv_null n st \<Rightarrow> Done (-1, s) | _ \<Rightarrow> Fault))"

definition ap_backup :: "('s, 'r, 'w, 'h, 'k, 'z, 'y) patchenv \<Rightarrow> fvar \<Rightarrow> 's \<Rightarrow> (bool \<times> 's) outcome" where
  "ap_backup env source_file s =
     (let (r, s) = MakeFreeSpaceOnCache (env_files env) (nat (fv_size source_file mod 2 ^ 32)) s in
      if r < 0 then Done (False, s)
      else (case save_source (env_files env) CACHE_TEMP_SOURCE source_file s of
              Fault \<Rightarrow> Fault
            | Done (r, s) \<Rightarrow> Done (\<not> r < 0, s)))"

definition target_fs :: "string \<Rightarrow> string" where
  "target_fs target_filename = take 1 target_filename @ takeWhile (\<lambda>c. c \<noteq> CHR ''/'') (drop 1 target_filename)"

definition enough_space :: "('s, 'r, 'w, 'h, 'k, 'z, 'y) patchenv \<Rightarrow> string \<Rightarrow> nat \<Rightarrow> nat \<Rightarrow> 's \<Rightarrow> bool" where
  "enough_space env target_filename tsize retry s \<longleftrightarrow>
     retry > 0 \<and>
     (let free_space = FreeSpaceForFile (env_files env) (target_fs target_filename) s
      in free_space > 262144 \<and> free_space > (tsize * 3 mod 2 ^ 32) div 2)"

text \<open>Room for the result: the new values of \<^verbatim>\<open>retry\<close> and \<^verbatim>\<open>made_copy\<close>, or \<open>None\<close> when the function returns 1.\<close>

definition ap_space ::
  "('s, 'r, 'w, 'h, 'k, 'z, 'y) patchenv \<Rightarrow> string \<Rightarrow> string \<Rightarrow> nat \<Rightarrow> nat \<Rightarrow> bool \<Rightarrow> fvar \<Rightarrow> bool \<Rightarrow> 's \<Rightarrow> ((nat \<times> bool) option \<times> 's) outcome" where
  "ap_space env source_filename target_filename tsize retry made_copy source_file use_source s =
     (if is_mtd target_filename
      then (case ap_backup env source_file s of
              Fault \<Rightarrow> Fault
            | Done (ok, s) \<Rightarrow> if \<not> ok then Done (None, s) else Done (Some (0, True), s))
      else let enough = enough_space env target_filename tsize retry s; retry = (if \<not> enough then 0 else retry) in
      if \<not> enough \<and> use_source
      then (if is_mtd source_filename then Done (None, s)
            else (case ap_backup env source_file s of
                    Fault \<Rightarrow> Fault
                  | Done (ok, s) \<Rightarrow>
                      if \<not> ok then Done (None, s)
                      else Done (Some (retry, True), fo_unlink (env_files env) source_filename s)))
      else Done (Some (retry, made_copy), s))"

text \<open>The formats; the outer \<open>None\<close> is an unknown one.\<close>

definition apply_format ::
  "('s, 'r, 'w, 'h, 'k, 'z, 'y) patchenv \<Rightarrow> nat \<Rightarrow> byte list \<Rightarrow> byte list \<Rightarrow> 't sink_fn \<Rightarrow> 't \<Rightarrow> (int \<times> 't \<times> 'h option) outcome option option" where
  "apply_format env retry src patch sink token =
     (let ctx = Some (sha_init (env_cr env)) in
      if length patch \<ge> 8 \<and> take 8 patch = BSDIFF_MAGIC
      then Some (ApplyBSDiffPatch (pe_bz env) (pe_malloc env retry 1) (sha_update (env_cr env)) src patch 0 sink token ctx)
      else if length patch \<ge> 8 \<and> take 8 patch = IMGDIFF_MAGIC
      then Some (ApplyImagePatch \<lparr>ie_bz = pe_bz env, ie_gz = pe_gz env, ie_malloc = pe_malloc env retry,
                                   ie_upd = sha_update (env_cr env), ie_sink = sink\<rparr> src patch token ctx)
      else None)"

definition with_ctx :: "(int \<times> 't \<times> 'h option) outcome option \<Rightarrow> (int \<times> 't \<times> 'h \<Rightarrow> 'a outcome option) \<Rightarrow> 'a outcome option" where
  "with_ctx r f = bind_run r (\<lambda>(result, token, ctx). case ctx of None \<Rightarrow> Some Fault | Some c \<Rightarrow> f (result, token, c))"

text \<open>One attempt: the result, the hash context and what is in memory, or \<open>None\<close> when the function returns 1.\<close>

definition outname :: "string \<Rightarrow> string" where
  "outname target_filename = target_filename @ ''.patch''"

definition ap_attempt ::
  "('s, 'r, 'w, 'h, 'k, 'z, 'y) patchenv \<Rightarrow> nat \<Rightarrow> string \<Rightarrow> nat \<Rightarrow> FileContents \<Rightarrow> patch_value \<Rightarrow> 's \<Rightarrow>
     ((int \<times> 'h \<times> byte list) option \<times> 's) outcome option" where
  "ap_attempt env retry target_filename tsize source_to_use patch s =
     (if \<not> pv_blob patch then Some (Done (None, s))
      else if is_mtd target_filename
      then (if \<not> pe_msi_ok env tsize then Some (Done (None, s))
            else (case apply_format env retry (fc_data source_to_use) (pv_data patch) MemorySink
                         \<lparr>msi_buffer = [], msi_size = s32 (int tsize)\<rparr> of
                    None \<Rightarrow> Some (Done (None, s))
                  | Some r \<Rightarrow> with_ctx r (\<lambda>(result, msi, ctx). Some (Done (Some (result, ctx, msi_buffer msi), s)))))
      else let (ok, s) = fo_open (env_files env) (outname target_filename) s in
      if \<not> ok then Some (Done (None, s))
      else (case apply_format env retry (fc_data source_to_use) (pv_data patch) (FileSink (env_files env) (outname target_filename)) s of
              None \<Rightarrow> Some (Done (None, s))
            | Some r \<Rightarrow> with_ctx r (\<lambda>(result, s, ctx). Some (Done (Some (result, ctx, []), s)))))"

datatype 'h pass = Pass_return int | Pass_again bool | Pass_done 'h "byte list" bool

definition ap_pass ::
  "('s, 'r, 'w, 'h, 'k, 'z, 'y) patchenv \<Rightarrow> string \<Rightarrow> string \<Rightarrow> nat \<Rightarrow> fvar \<Rightarrow> bool \<Rightarrow> FileContents \<Rightarrow> patch_value \<Rightarrow> nat \<Rightarrow> bool \<Rightarrow> 's \<Rightarrow>
     ('h pass \<times> 's) outcome option" where
  "ap_pass env source_filename target_filename tsize source_file use_source source_to_use patch retry made_copy s =
     (case ap_space env source_filename target_filename tsize retry made_copy source_file use_source s of
        Fault \<Rightarrow> Some Fault
      | Done (None, s) \<Rightarrow> Some (Done (Pass_return 1, s))
      | Done (Some (retry, made_copy), s) \<Rightarrow>
          bind_run (ap_attempt env retry target_filename tsize source_to_use patch s) (\<lambda>(r, s).
            case r of
              None \<Rightarrow> Some (Done (Pass_return 1, s))
            | Some (result, ctx, buffer) \<Rightarrow>
                if result \<noteq> 0
                then (if retry = 0 then Some (Done (Pass_return 1, s))
                      else Some (Done (Pass_again made_copy,
                             if is_mtd target_filename then s else fo_unlink (env_files env) (outname target_filename) s)))
                else Some (Done (Pass_done ctx buffer made_copy, s))))"

text \<open>The loop: another pass is only taken while \<^verbatim>\<open>retry\<close> is positive, so that the last pass never asks for one.\<close>

fun ap_loop ::
  "('s, 'r, 'w, 'h, 'k, 'z, 'y) patchenv \<Rightarrow> string \<Rightarrow> string \<Rightarrow> nat \<Rightarrow> fvar \<Rightarrow> bool \<Rightarrow> FileContents \<Rightarrow> patch_value \<Rightarrow> nat \<Rightarrow> bool \<Rightarrow> 's \<Rightarrow>
     ('h pass \<times> 's) outcome option" where
  "ap_loop env source_filename target_filename tsize source_file use_source source_to_use patch 0 made_copy s =
     ap_pass env source_filename target_filename tsize source_file use_source source_to_use patch 0 made_copy s"
| "ap_loop env source_filename target_filename tsize source_file use_source source_to_use patch (Suc retry) made_copy s =
     bind_run (ap_pass env source_filename target_filename tsize source_file use_source source_to_use patch (Suc retry) made_copy s)
       (\<lambda>(p, s). case p of
          Pass_again made_copy \<Rightarrow>
            ap_loop env source_filename target_filename tsize source_file use_source source_to_use patch retry made_copy s
        | _ \<Rightarrow> Some (Done (p, s)))"

definition ap_finish ::
  "('s, 'r, 'w, 'h, 'k, 'z, 'y) patchenv \<Rightarrow> string \<Rightarrow> byte list \<Rightarrow> FileContents \<Rightarrow> 'h \<Rightarrow> byte list \<Rightarrow> bool \<Rightarrow> 's \<Rightarrow> int \<times> 's" where
  "ap_finish env target_filename target_sha1 source_to_use ctx buffer made_copy s =
     (let fo = env_files env; st = fc_stat source_to_use; done_with = (\<lambda>s. (0, if made_copy then fo_unlink fo CACHE_TEMP_SOURCE s else s)) in
      if sha_final (env_cr env) ctx \<noteq> target_sha1 then (1, s)
      else if is_mtd target_filename
      then (let (r, s) = WriteToMTDPartition (ap_mtd (pe_ap env)) buffer target_filename s in if r \<noteq> 0 then (1, s) else done_with s)
      else let (ok, s) = fo_chmod fo (outname target_filename) (st_mode st) s in
      if \<not> ok then (1, s)
      else let (ok, s) = fo_chown fo (outname target_filename) (st_uid st) (st_gid st) s in
      if \<not> ok then (1, s)
      else let (ok, s) = fo_rename fo (outname target_filename) target_filename s in
      if \<not> ok then (1, s) else done_with s)"

definition applypatch ::
  "('s, 'r, 'w, 'h, 'k, 'z, 'y) patchenv \<Rightarrow> string \<Rightarrow> string \<Rightarrow> string \<Rightarrow> nat \<Rightarrow> (string \<times> patch_value) list \<Rightarrow> 's \<Rightarrow> (int \<times> 's) outcome option" where
  "applypatch env source_filename target_filename target_sha1_str tsize patches s =
     (let target_filename = (if target_filename = ''-'' then source_filename else target_filename) in
      case ParseSha1 target_sha1_str of
        None \<Rightarrow> Some (Done (1, s))
      | Some target_sha1 \<Rightarrow>
          (case ap_choose env source_filename target_filename target_sha1 patches s of
             Fault \<Rightarrow> Some Fault
           | Done (Already_target, s) \<Rightarrow> Some (Done (0, s))
           | Done (Give_up, s) \<Rightarrow> Some (Done (1, s))
           | Done (Use source_file use_source source_to_use patch, s) \<Rightarrow>
               if target_filename = [] then Some Fault
               else bind_run (ap_loop env source_filename target_filename tsize source_file use_source source_to_use patch 1 False s)
                 (\<lambda>(p, s). case p of
                    Pass_done ctx buffer made_copy \<Rightarrow>
                      Some (Done (ap_finish env target_filename target_sha1 source_to_use ctx buffer made_copy s))
                  | Pass_return r \<Rightarrow> Some (Done (r, s))
                  | Pass_again _ \<Rightarrow> Some Fault)))"

section \<open>Choosing the source\<close>

lemma ap_copy_cases:
  assumes "ap_copy env sv patches s = Done (c, s')"
  obtains "c = Give_up" | f p where "c = Use sv False f p" "patch_for f patches = Some p"
  using assms by (auto simp: ap_copy_def split: outcome.split_asm option.split_asm prod.split_asm)

lemma ap_source_cases:
  assumes "ap_source env sf patches s = Done (c, s')"
  obtains "c = Give_up" | f p where "c = Use (Fv_live f) True f p" "sf = Some f" "s' = s" "patch_for f patches = Some p"
  | sv f p where "c = Use sv False f p" "\<And>g. sv \<noteq> Fv_live g" "patch_for f patches = Some p"
proof (cases sf)
  case None
  then have "ap_copy env (Fv_null (fst (pe_stale env)) (snd (pe_stale env))) patches s = Done (c, s')" using assms by (simp add: ap_source_def)
  then show thesis by (rule ap_copy_cases) (use that in blast)+
next
  case (Some f)
  show thesis
  proof (cases "patch_for f patches")
    case None
    then have "ap_copy env (Fv_freed f) patches s = Done (c, s')" using assms Some by (simp add: ap_source_def)
    then show thesis by (rule ap_copy_cases) (use that in blast)+
  next
    case (Some p)
    then show thesis using assms \<open>sf = Some f\<close> that(2) by (auto simp: ap_source_def)
  qed
qed

lemma ap_source_keeps:
  assumes "mtd_keeps (ap_mtd (pe_ap env)) content" "ap_source env sf patches s = Done (c, s')"
  shows "content g s' = content g s"
proof -
  have copy: "content g s' = content g s" if "ap_copy env sv patches s = Done (c, s')" for sv
  proof -
    have "\<exists>r. LoadFileContents (pe_ap env) CACHE_TEMP_SOURCE s = Done (r, s')"
      using that by (auto simp: ap_copy_def split: outcome.split_asm option.split_asm prod.split_asm)
    then show ?thesis using LoadFileContents_keeps [OF assms(1)] by blast
  qed
  show ?thesis using assms(2) copy by (auto simp: ap_source_def split: option.split_asm)
qed

text \<open>Which file was loaded for the source.\<close>

lemma ap_choose_cases:
  assumes "ap_choose env source target sha1 patches s = Done (c, s')"
  obtains f where "c = Already_target" "LoadFileContents (pe_ap env) target s = Done (Some f, s')" "fc_sha1 f = sha1"
  | sf r s1 s2 where "ap_source env sf patches s2 = Done (c, s')" "LoadFileContents (pe_ap env) target s = Done (r, s1)"
      "LoadFileContents (pe_ap env) source s1 = Done (sf, s2)"
  | sf s1 where "ap_source env sf patches s1 = Done (c, s')" "LoadFileContents (pe_ap env) target s = Done (sf, s1)" "target = source"
proof -
  obtain sf s1 where l: "LoadFileContents (pe_ap env) target s = Done (sf, s1)"
    using assms by (auto simp: ap_choose_def split: outcome.split_asm)
  note b = assms [unfolded ap_choose_def l outcome.case prod.case]
  show thesis
  proof (cases "\<exists>f. sf = Some f \<and> fc_sha1 f = sha1")
    case True
    then show thesis using b l that(1) by auto
  next
    case False
    then have nf: "\<not> (case sf of Some f \<Rightarrow> fc_sha1 f = sha1 | None \<Rightarrow> False)" by (auto split: option.splits)
    show thesis
    proof (cases "sf = None \<or> target \<noteq> source")
      case True
      obtain sf2 s2 where l2: "LoadFileContents (pe_ap env) source s1 = Done (sf2, s2)"
        using b nf True by (auto split: outcome.split_asm)
      have "ap_source env sf2 patches s2 = Done (c, s')" using b nf True l2 by auto
      then show thesis using that(2) l l2 by blast
    next
      case t: False
      then show thesis using b nf l that(3) by auto
    qed
  qed
qed

lemma ap_choose_spec:
  assumes px: "posix_files (env_files env) content" and mk: "mtd_keeps (ap_mtd (pe_ap env)) content"
    and run: "ap_choose env source target sha1 patches s = Done (c, s')"
  shows "content g s' = content g s"
    "c = Already_target \<Longrightarrow> \<not> is_mtd target \<Longrightarrow> \<exists>d. content target s' = Some d \<and> sha_of (env_cr env) d = sha1"
    "c = Use sv us f p \<Longrightarrow> us \<Longrightarrow> \<not> is_mtd source \<Longrightarrow> sv = Fv_live f \<and> content source s' = Some (fc_data f)"
    "c = Use sv us f p \<Longrightarrow> \<not> us \<Longrightarrow> sv \<noteq> Fv_live h"
    "c = Use sv us f p \<Longrightarrow> patch_for f patches = Some p"
proof -
  note lk = LoadFileContents_keeps [OF mk] and lf = LoadFileContents_file [OF px]
  have all: "content g s' = content g s \<and>
      (c = Already_target \<longrightarrow> \<not> is_mtd target \<longrightarrow> (\<exists>d. content target s' = Some d \<and> sha_of (env_cr env) d = sha1)) \<and>
      (\<forall>sv us f p. c = Use sv us f p \<longrightarrow> patch_for f patches = Some p \<and> (us \<longrightarrow> \<not> is_mtd source \<longrightarrow> sv = Fv_live f \<and> content source s' = Some (fc_data f)) \<and>
         (\<not> us \<longrightarrow> sv \<noteq> Fv_live h))" for g h
  proof (rule ap_choose_cases [OF run], goal_cases)
    case (1 f)
    then show ?thesis using lk [OF 1(2)] lf [OF _ 1(2)] by auto
  next
    case (2 sf r s1 s2)
    have k: "content g s' = content g s" for g using ap_source_keeps [OF mk 2(1)] lk [OF 2(2)] lk [OF 2(3)] by metis
    show ?thesis
    proof (rule ap_source_cases [OF 2(1)], goal_cases)
      case (2 f p)
      have "LoadFileContents (pe_ap env) source s1 = Done (Some f, s')" using \<open>LoadFileContents (pe_ap env) source s1 = Done (sf, s2)\<close> 2 by simp
      then show ?thesis using k 2 lf(1,2) [of source s1 f s'] by auto
    qed (use k in auto)
  next
    case (3 sf s1)
    have k: "content g s' = content g s" for g using ap_source_keeps [OF mk 3(1)] lk [OF 3(2)] by metis
    show ?thesis
    proof (rule ap_source_cases [OF 3(1)], goal_cases)
      case (2 f p)
      have "LoadFileContents (pe_ap env) source s = Done (Some f, s')" using 3 2 by simp
      then show ?thesis using k 2 lf(1,2) [of source s f s'] by auto
    qed (use k in auto)
  qed
  show "content g s' = content g s" using all by blast
  show "c = Already_target \<Longrightarrow> \<not> is_mtd target \<Longrightarrow> \<exists>d. content target s' = Some d \<and> sha_of (env_cr env) d = sha1" using all by blast
  show "c = Use sv us f p \<Longrightarrow> us \<Longrightarrow> \<not> is_mtd source \<Longrightarrow> sv = Fv_live f \<and> content source s' = Some (fc_data f)" using all by blast
  show "c = Use sv us f p \<Longrightarrow> \<not> us \<Longrightarrow> sv \<noteq> Fv_live h" using all by blast
  show "c = Use sv us f p \<Longrightarrow> patch_for f patches = Some p" using all by blast
qed

section \<open>Room for the target\<close>

definition off_cache :: "string \<Rightarrow> bool" where
  "off_cache g \<longleftrightarrow> take 7 g \<noteq> ''/cache/''"

lemma off_cache_ne: "off_cache g \<Longrightarrow> g \<noteq> CACHE_TEMP_SOURCE" "off_cache g \<Longrightarrow> spared g"
  by (auto simp: off_cache_def CACHE_TEMP_SOURCE_def spared_def)

lemma ap_backup_spec:
  assumes px: "posix_files (env_files env) content" and run: "ap_backup env (Fv_live f) s = Done (ok, s')"
  shows "ok \<Longrightarrow> content CACHE_TEMP_SOURCE s' = Some (fc_data f)" "off_cache g \<Longrightarrow> content g s' = content g s"
proof -
  let ?n = "nat (int (length (fc_data f)) mod 2 ^ 32)"
  obtain r1 s1 where m: "MakeFreeSpaceOnCache (env_files env) ?n s = (r1, s1)" by (cases "MakeFreeSpaceOnCache (env_files env) ?n s")
  obtain r2 s2 where w: "SaveFileContents (env_files env) CACHE_TEMP_SOURCE f s1 = (r2, s2)"
    by (cases "SaveFileContents (env_files env) CACHE_TEMP_SOURCE f s1")
  note b = run [unfolded ap_backup_def fv_size_def save_source_def fvar.case m Let_def prod.case w outcome.case]
  show "ok \<Longrightarrow> content CACHE_TEMP_SOURCE s' = Some (fc_data f)"
    using b SaveFileContents_spec(1) [OF px w] by (auto split: if_splits)
  show "off_cache g \<Longrightarrow> content g s' = content g s"
    using b SaveFileContents_spec(2) [OF px w] MakeFreeSpace_keeps [OF px m] off_cache_ne by (auto split: if_splits)
qed

text \<open>
  Either nothing is changed outside the cache partition, or the source was saved and removed; another attempt is only
  possible in the first case.
\<close>

lemma ap_space_spec:
  assumes px: "posix_files (env_files env) content" and t: "\<not> is_mtd target"
    and run: "ap_space env source target tsize retry made_copy sv us s = Done (r, s')"
    and live: "us \<longrightarrow> sv = Fv_live f"
  shows "off_cache g \<Longrightarrow> g \<noteq> source \<Longrightarrow> content g s' = content g s"
    "off_cache source \<Longrightarrow> content source s' = content source s \<or> us \<and> content source s' = None \<and> content CACHE_TEMP_SOURCE s' = Some (fc_data f) \<and> (\<exists>mc. r = Some (0, mc))"
proof -
  have "(s' = s \<and> True) \<or> (\<exists>ok s1. us \<and> ap_backup env sv s = Done (ok, s1) \<and> (\<not> ok \<and> s' = s1 \<or> ok \<and> s' = fo_unlink (env_files env) source s1 \<and> (\<exists>mc. r = Some (0, mc))))"
    using run t unfolding ap_space_def Let_def by (auto split: if_split_asm outcome.split_asm prod.split_asm)
  then consider "s' = s" | ok s1 where "us" "ap_backup env (Fv_live f) s = Done (ok, s1)" "\<not> ok" "s' = s1"
    | s1 mc where "us" "ap_backup env (Fv_live f) s = Done (True, s1)" "s' = fo_unlink (env_files env) source s1" "r = Some (0, mc)"
    using live by auto
  note cs = this
  show "off_cache g \<Longrightarrow> g \<noteq> source \<Longrightarrow> content g s' = content g s"
    by (rule cs) (auto dest: ap_backup_spec(2) [OF px] simp: posix_rules(10) [OF px])
  show "off_cache source \<Longrightarrow> content source s' = content source s \<or> us \<and> content source s' = None \<and> content CACHE_TEMP_SOURCE s' = Some (fc_data f) \<and> (\<exists>mc. r = Some (0, mc))"
    by (rule cs) (use ap_backup_spec [OF px] posix_rules(10,13) [OF px] off_cache_ne(1) in \<open>auto, metis+\<close>)
qed

section \<open>An attempt\<close>

lemma apply_format_covered:
  assumes run: "apply_format env k src patch sink t = Some (Some (Done (0, t', ctx')))"
    and cnt: "counting_sink sink received" and at: "take 8 patch = IMGDIFF_MAGIC \<Longrightarrow> atomic_sink sink received" and start: "received t = Some pre"
  shows "covered received (sha_update (env_cr env)) (sha_init (env_cr env)) pre t' ctx'"
proof -
  have c: "covered received (sha_update (env_cr env)) (sha_init (env_cr env)) pre t (Some (sha_init (env_cr env)))"
    using start hashed_start by (auto simp: covered_def)
  show ?thesis
  proof (cases "length patch \<ge> 8 \<and> take 8 patch = BSDIFF_MAGIC")
    case True
    then have "ApplyBSDiffPatch (pe_bz env) (pe_malloc env k 1) (sha_update (env_cr env)) src patch 0 sink t (Some (sha_init (env_cr env))) = Some (Done (0, t', ctx'))"
      using run by (simp add: apply_format_def)
    then show ?thesis by (rule counting_sink.bsdiff_covered [OF cnt _ c])
  next
    case False
    let ?env = "\<lparr>ie_bz = pe_bz env, ie_gz = pe_gz env, ie_malloc = pe_malloc env k, ie_upd = sha_update (env_cr env), ie_sink = sink\<rparr>"
    have i: "take 8 patch = IMGDIFF_MAGIC" "ApplyImagePatch ?env src patch t (Some (sha_init (env_cr env))) = Some (Done (0, t', ctx'))"
      using run False by (auto simp: apply_format_def Let_def split: if_split_asm)
    show ?thesis using atomic_sink.image_covered [OF at [OF i(1)] i(2)] c by simp
  qed
qed

lemma apply_format_keeps:
  assumes run: "apply_format env k src patch sink t = Some (Some (Done (r, t', ctx')))" and inv: "sink_invariant sink Q" and t: "Q t"
  shows "Q t'"
proof (cases "length patch \<ge> 8 \<and> take 8 patch = BSDIFF_MAGIC")
  case True
  then show ?thesis using run sink_invariant.bsdiff_keeps [OF inv _ t] by (simp add: apply_format_def)
next
  case False
  let ?env = "\<lparr>ie_bz = pe_bz env, ie_gz = pe_gz env, ie_malloc = pe_malloc env k, ie_upd = sha_update (env_cr env), ie_sink = sink\<rparr>"
  have "ApplyImagePatch ?env src patch t (Some (sha_init (env_cr env))) = Some (Done (r, t', ctx'))"
    using run False by (auto simp: apply_format_def Let_def split: if_split_asm)
  from sink_invariant.image_keeps [OF inv this _ t] show ?thesis by simp
qed

lemma with_ctx_Done: "with_ctx r f = Some (Done y) \<longleftrightarrow> (\<exists>res t c. r = Some (Done (res, t, Some c)) \<and> f (res, t, c) = Some (Done y))"
  by (auto simp: with_ctx_def bind_run_Done split: option.split_asm)

text \<open>A failed write goes unnoticed only while an image patch is applied.\<close>

definition noticed_writes :: "('s, 'r, 'w, 'h, 'k, 'z, 'y) patchenv \<Rightarrow> patch_value \<Rightarrow> bool" where
  "noticed_writes env patch \<longleftrightarrow> writes_progress (env_files env) \<or> take 8 (pv_data patch) \<noteq> IMGDIFF_MAGIC"

text \<open>An attempt with a file as target only touches the output file, and when it succeeds the hash is that of the file.\<close>

lemma ap_attempt_spec:
  assumes px: "posix_files (env_files env) content" and t: "\<not> is_mtd target" and ch: "sha_chains (env_cr env) sha"
    and run: "ap_attempt env k target tsize file patch s = Some (Done (r, s'))"
  shows "g \<noteq> outname target \<Longrightarrow> content g s' = content g s"
    "r = Some (0, ctx, buf) \<Longrightarrow> noticed_writes env patch \<Longrightarrow> \<exists>bytes. content (outname target) s' = Some bytes \<and> sha_final (env_cr env) ctx = sha bytes"
proof -
  let ?o = "outname target" and ?fo = "env_files env"
  obtain ok s1 where o: "fo_open ?fo ?o s = (ok, s1)" by (cases "fo_open ?fo ?o s")
  have k1: "g \<noteq> ?o \<or> \<not> ok \<Longrightarrow> content g s1 = content g s" for g by (rule posix_rules(4) [OF px o])
  have e: "ok \<Longrightarrow> content ?o s1 = Some []" using posix_rules(3) [OF px] o by simp
  consider (nothing) "r = None" "s' = s" | (opened) "r = None" "s' = s1" | (ran) res c where "ok" "r = Some (res, c, [])"
      "apply_format env k (fc_data file) (pv_data patch) (FileSink ?fo ?o) s1 = Some (Some (Done (res, s', Some c)))"
    using run t unfolding ap_attempt_def Let_def o by (auto simp: with_ctx_Done split: if_split_asm option.split_asm)
  note cs = this
  show "content g s' = content g s" if g: "g \<noteq> ?o"
  proof (rule cs)
    fix res c assume a: "ok" "apply_format env k (fc_data file) (pv_data patch) (FileSink ?fo ?o) s1 = Some (Some (Done (res, s', Some c)))"
    from apply_format_keeps [OF a(2) file_sink_keeps [OF px, of ?o s1]] e a(1) have "content g s' = content g s1" using g by blast
    then show ?thesis using k1 g by simp
  qed (use k1 g in simp_all)
  show "\<exists>bytes. content ?o s' = Some bytes \<and> sha_final (env_cr env) ctx = sha bytes" if r: "r = Some (0, ctx, buf)" and nw: "noticed_writes env patch"
  proof (rule cs)
    fix res c assume a: "ok" "r = Some (res, c, [])" "apply_format env k (fc_data file) (pv_data patch) (FileSink ?fo ?o) s1 = Some (Some (Done (res, s', Some c)))"
    have z: "apply_format env k (fc_data file) (pv_data patch) (FileSink ?fo ?o) s1 = Some (Some (Done (0, s', Some ctx)))" using a(2,3) r by simp
    have "covered (content ?o) (sha_update (env_cr env)) (sha_init (env_cr env)) [] s' (Some ctx)"
      by (rule apply_format_covered [OF z file_sink_counting [OF px] _ e [OF a(1)]]) (use file_sink_atomic [OF px] nw noticed_writes_def in blast)
    then obtain bytes blks where "content ?o s' = Some bytes" "ctx = foldl (sha_update (env_cr env)) (sha_init (env_cr env)) blks" "concat blks = bytes"
      by (auto simp: covered_def hashed_def)
    then show ?thesis using ch unfolding sha_chains_def by auto
  qed (use r in simp_all)
qed

lemma outname_ne: "outname target \<noteq> target" "outname target \<noteq> CACHE_TEMP_SOURCE"
proof -
  have "last (outname target) \<noteq> last CACHE_TEMP_SOURCE" by (simp add: outname_def CACHE_TEMP_SOURCE_def)
  then show "outname target \<noteq> CACHE_TEMP_SOURCE" by auto
qed (simp add: outname_def)

section \<open>The whole run\<close>

text \<open>
  What a pass, or all of them, keep of the files: only the output and the cache partition change, except that the source may be
  gone when a copy of it is saved; a result has the hash of the output, when no write can go wrong unnoticed (\<open>nw\<close>).
\<close>

definition run_keeps ::
  "(string \<Rightarrow> 's \<Rightarrow> byte list option) \<Rightarrow> ('h, byte list, 'k) crypto \<Rightarrow> (byte list \<Rightarrow> byte list) \<Rightarrow> string \<Rightarrow> string \<Rightarrow> byte list \<Rightarrow> bool \<Rightarrow> bool \<Rightarrow> 's \<Rightarrow> 'h pass \<Rightarrow> 's \<Rightarrow> bool" where
  "run_keeps content cr sha source target d us nw s p s' \<longleftrightarrow>
     (\<forall>g. off_cache g \<and> g \<noteq> source \<and> g \<noteq> outname target \<longrightarrow> content g s' = content g s) \<and>
     (content source s' = content source s \<or>
        us \<and> content source s' = None \<and> content CACHE_TEMP_SOURCE s' = Some d \<and> (\<forall>mc. p \<noteq> Pass_again mc)) \<and>
     (\<forall>ctx buf mc. p = Pass_done ctx buf mc \<and> nw \<longrightarrow> (\<exists>bytes. content (outname target) s' = Some bytes \<and> sha_final cr ctx = sha bytes))"

lemma ap_pass_keeps:
  assumes px: "posix_files (env_files env) content" and t: "\<not> is_mtd target" and ch: "sha_chains (env_cr env) sha"
    and live: "us \<longrightarrow> sv = Fv_live file" and src: "off_cache source" "source \<noteq> outname target"
    and run: "ap_pass env source target tsize sv us file patch retry made_copy s = Some (Done (p, s'))"
  shows "run_keeps content (env_cr env) sha source target (fc_data file) us (noticed_writes env patch) s p s'"
proof -
  obtain r1 s1 where sp: "ap_space env source target tsize retry made_copy sv us s = Done (r1, s1)"
    using run by (auto simp: ap_pass_def split: outcome.split_asm)
  note k1 = ap_space_spec(1) [OF px t sp live] and k2 = ap_space_spec(2) [OF px t sp live src(1)]
  show ?thesis
  proof (cases r1)
    case None
    then have "p = Pass_return 1" "s' = s1" using run sp by (auto simp: ap_pass_def)
    then show ?thesis using k1 k2 by (auto simp: run_keeps_def)
  next
    case (Some rm)
    obtain rt mc where rm: "r1 = Some (rt, mc)" using Some by (cases rm) auto
    obtain r2 s2 where at: "ap_attempt env rt target tsize file patch s1 = Some (Done (r2, s2))"
        and b: "(case r2 of None \<Rightarrow> Some (Done (Pass_return 1, s2)) | Some (result, ctx, buffer) \<Rightarrow>
          if result \<noteq> 0 then (if rt = 0 then Some (Done (Pass_return 1, s2))
            else Some (Done (Pass_again mc, if is_mtd target then s2 else fo_unlink (env_files env) (outname target) s2)))
          else Some (Done (Pass_done ctx buffer mc, s2))) = Some (Done (p, s'))"
      using run sp rm by (auto simp: ap_pass_def bind_run_Done)
    note a1 = ap_attempt_spec(1) [OF px t ch at] and a2 = ap_attempt_spec(2) [OF px t ch at]
    have o: "content g s' = content g s2" if "g \<noteq> outname target" for g
      using b t posix_rules(10) [OF px that] by (auto split: option.split_asm if_split_asm)
    have g: "content g s' = content g s1" if "g \<noteq> outname target" for g using o [OF that] a1 [OF that] by simp
    have again: "rt \<noteq> 0" if "p = Pass_again m" for m using b that by (auto split: option.split_asm if_split_asm)
    have fin: "\<exists>bytes. content (outname target) s' = Some bytes \<and> sha_final (env_cr env) ctx = sha bytes" if "p = Pass_done ctx buf m" "noticed_writes env patch" for ctx buf m
      using b that a2 [of ctx buf] by (auto split: option.split_asm if_split_asm)
    show ?thesis
      unfolding run_keeps_def using g k1 k2 src(2) outname_ne(2) again fin rm by (metis option.inject prod.inject)
  qed
qed

lemma run_keeps_trans:
  assumes "run_keeps content cr sha source target d us nw s (Pass_again mc) s1" "run_keeps content cr sha source target d us nw s1 p s'"
  shows "run_keeps content cr sha source target d us nw s p s'"
  using assms unfolding run_keeps_def by metis

lemma ap_loop_keeps:
  assumes px: "posix_files (env_files env) content" and t: "\<not> is_mtd target" and ch: "sha_chains (env_cr env) sha"
    and live: "us \<longrightarrow> sv = Fv_live file" and src: "off_cache source" "source \<noteq> outname target"
  shows "ap_loop env source target tsize sv us file patch retry made_copy s = Some (Done (p, s')) \<Longrightarrow>
    run_keeps content (env_cr env) sha source target (fc_data file) us (noticed_writes env patch) s p s'"
proof (induction retry arbitrary: made_copy s)
  case 0
  then show ?case using ap_pass_keeps [OF px t ch live src] by simp
next
  case (Suc retry)
  obtain p1 s1 where a: "ap_pass env source target tsize sv us file patch (Suc retry) made_copy s = Some (Done (p1, s1))"
      "(case p1 of Pass_again mc \<Rightarrow> ap_loop env source target tsize sv us file patch retry mc s1 | _ \<Rightarrow> Some (Done (p1, s1))) = Some (Done (p, s'))"
    using Suc.prems by (auto simp: bind_run_Done)
  note k = ap_pass_keeps [OF px t ch live src a(1)]
  show ?case
  proof (cases "\<exists>mc. p1 = Pass_again mc")
    case True
    then obtain mc where mc: "p1 = Pass_again mc" by blast
    have "run_keeps content (env_cr env) sha source target (fc_data file) us (noticed_writes env patch) s1 p s'" by (rule Suc.IH) (use a(2) mc in simp)
    then show ?thesis by (rule run_keeps_trans [OF k [unfolded mc]])
  next
    case False
    then have "p = p1" "s' = s1" using a(2) by (auto split: pass.split_asm)
    then show ?thesis using k by simp
  qed
qed

lemma ap_finish_spec:
  assumes px: "posix_files (env_files env) content" and t: "\<not> is_mtd target" "off_cache target"
    and run: "ap_finish env target sha1 file ctx buf mc s = (r, s')"
  shows "r \<noteq> 0 \<Longrightarrow> content g s' = content g s" "r = 0 \<Longrightarrow> sha_final (env_cr env) ctx = sha1 \<and> content target s' = content (outname target) s"
proof -
  let ?o = "outname target" and ?fo = "env_files env"
  obtain ok1 s1 where c1: "fo_chmod ?fo ?o (st_mode (fc_stat file)) s = (ok1, s1)" by (cases "fo_chmod ?fo ?o (st_mode (fc_stat file)) s")
  obtain ok2 s2 where c2: "fo_chown ?fo ?o (st_uid (fc_stat file)) (st_gid (fc_stat file)) s1 = (ok2, s2)"
    by (cases "fo_chown ?fo ?o (st_uid (fc_stat file)) (st_gid (fc_stat file)) s1")
  obtain ok3 s3 where c3: "fo_rename ?fo ?o target s2 = (ok3, s3)" by (cases "fo_rename ?fo ?o target s2")
  have k: "content g s1 = content g s" "content g s2 = content g s1" for g
    using posix_rules(8) [OF px c1] posix_rules(9) [OF px c2] by blast+
  have k3: "\<not> ok3 \<Longrightarrow> content g s3 = content g s2" for g using posix_rules(12) [OF px c3] by blast
  have n3: "ok3 \<Longrightarrow> content target s3 = content ?o s2" using posix_rules(11) [OF px] c3 by simp
  have u: "content target (fo_unlink ?fo CACHE_TEMP_SOURCE s3) = content target s3" by (rule posix_rules(10) [OF px off_cache_ne(1) [OF t(2)]])
  note b = run [unfolded ap_finish_def Let_def, simplified t(1) if_False, unfolded c1 prod.case c2 c3]
  show "r \<noteq> 0 \<Longrightarrow> content g s' = content g s" using b k k3 by (auto split: if_split_asm)
  show "r = 0 \<Longrightarrow> sha_final (env_cr env) ctx = sha1 \<and> content target s' = content ?o s" using b k n3 u by (auto split: if_split_asm)
qed

text \<open>The files of a run: plain files outside the cache partition, and a source that is not the output.\<close>

definition plain_files :: "string \<Rightarrow> string \<Rightarrow> bool" where
  "plain_files source target \<longleftrightarrow> \<not> is_mtd source \<and> \<not> is_mtd target \<and> off_cache source \<and> off_cache target \<and> source \<noteq> outname target \<and> target \<noteq> ''-''"

definition writes_ok :: "'s fileops \<Rightarrow> (string \<times> patch_value) list \<Rightarrow> bool" where
  "writes_ok fo patches \<longleftrightarrow> writes_progress fo \<or> (\<forall>p \<in> set patches. take 8 (pv_data (snd p)) \<noteq> IMGDIFF_MAGIC)"

lemma patch_for_mem: "patch_for f patches = Some p \<Longrightarrow> \<exists>str. (str, p) \<in> set patches"
  using FindMatchingPatch_Some [of "fc_sha1 f" "map fst patches"] by (auto simp: patch_for_def) (metis nth_mem prod.collapse)

lemma ap_pass_returns: "ap_pass env source target tsize sv us file patch retry mc s = Some (Done (Pass_return r, s')) \<Longrightarrow> r = 1"
  by (auto simp: ap_pass_def bind_run_Done split_beta split: outcome.split_asm option.split_asm if_split_asm prod.split_asm)

lemma ap_loop_returns: "ap_loop env source target tsize sv us file patch retry mc s = Some (Done (Pass_return r, s')) \<Longrightarrow> r = 1"
proof (induction retry arbitrary: mc s)
  case (Suc retry)
  obtain p1 s1 where a: "ap_pass env source target tsize sv us file patch (Suc retry) mc s = Some (Done (p1, s1))"
      "(case p1 of Pass_again mc \<Rightarrow> ap_loop env source target tsize sv us file patch retry mc s1 | _ \<Rightarrow> Some (Done (p1, s1))) = Some (Done (Pass_return r, s'))"
    using Suc.prems by (auto simp: bind_run_Done)
  show ?case using a Suc.IH ap_pass_returns [of env source target tsize sv us "file" patch "Suc retry" mc s r s'] by (cases p1) auto
qed (auto dest: ap_pass_returns)

lemma sha_of_chains: "sha_chains cr sha \<Longrightarrow> sha_of cr d = sha d"
  unfolding sha_chains_def sha_of_def by (metis concat.simps append_Nil2 foldl_Cons foldl_Nil)

text \<open>The possible ends of a run.\<close>

lemma applypatch_cases:
  assumes px: "posix_files (env_files env) content" and mk: "mtd_keeps (ap_mtd (pe_ap env)) content" and ch: "sha_chains (env_cr env) sha"
    and pf: "plain_files source target"
    and run: "applypatch env source target sha1_str tsize patches s = Some (Done (r, s'))"
  obtains "r = 1" "\<And>g. content g s' = content g s"
  | sha1 d where "r = 0" "ParseSha1 sha1_str = Some sha1" "content target s' = Some d" "sha_of (env_cr env) d = sha1" "\<And>g. content g s' = content g s"
  | sha1 us nw fl s1 p s2 where "ParseSha1 sha1_str = Some sha1" "writes_ok (env_files env) patches \<longrightarrow> nw" "\<And>g. content g s1 = content g s" "us \<longrightarrow> content source s = Some (fc_data fl)"
      "run_keeps content (env_cr env) sha source target (fc_data fl) us nw s1 p s2"
      "(\<exists>ctx buf mc. p = Pass_done ctx buf mc \<and> ap_finish env target sha1 fl ctx buf mc s2 = (r, s')) \<or> p = Pass_return r \<and> s' = s2 \<and> r \<noteq> 0"
proof -
  note pf' = pf [unfolded plain_files_def]
  show thesis
  proof (cases "ParseSha1 sha1_str")
    case None
    then show thesis using run that(1) by (simp add: applypatch_def Let_def split: if_split_asm)
  next
    case (Some sha1)
    obtain c s1 where c: "ap_choose env source target sha1 patches s = Done (c, s1)"
      using run Some pf' by (auto simp: applypatch_def Let_def split: outcome.split_asm)
    note cc = ap_choose_spec [OF px mk c]
    show thesis
    proof (cases c)
      case Already_target
      then have "r = 0" "s' = s1" using run Some c pf' by (auto simp: applypatch_def Let_def)
      then show thesis using that(2) [OF _ Some] cc(1,2) Already_target pf' by metis
    next
      case Give_up
      then have "r = 1" "s' = s1" using run Some c pf' by (auto simp: applypatch_def Let_def)
      then show thesis using that(1) cc(1) by metis
    next
      case (Use sv us fl patch)
      obtain p s2 where l: "ap_loop env source target tsize sv us fl patch 1 False s1 = Some (Done (p, s2))"
          "(case p of Pass_done ctx buffer made_copy \<Rightarrow> Some (Done (ap_finish env target sha1 fl ctx buffer made_copy s2))
            | Pass_return r \<Rightarrow> Some (Done (r, s2)) | Pass_again _ \<Rightarrow> Some Fault) = Some (Done (r, s'))"
        using run Some c Use pf' by (auto simp: applypatch_def Let_def bind_run_Done split: if_split_asm)
      have live: "us \<longrightarrow> sv = Fv_live fl" and src: "us \<longrightarrow> content source s = Some (fc_data fl)"
        using cc(1,3) Use pf' by auto
      have nw: "writes_ok (env_files env) patches \<longrightarrow> noticed_writes env patch"
        using patch_for_mem [OF cc(5) [OF Use]] unfolding writes_ok_def noticed_writes_def by fastforce
      have k: "run_keeps content (env_cr env) sha source target (fc_data fl) us (noticed_writes env patch) s1 p s2"
        by (rule ap_loop_keeps [OF px _ ch live _ _ l(1)]) (use pf' in auto)
      have "r \<noteq> 0" if "p = Pass_return r" using ap_loop_returns [OF l(1) [unfolded that]] by simp
      then have "(\<exists>ctx buf mc. p = Pass_done ctx buf mc \<and> ap_finish env target sha1 fl ctx buf mc s2 = (r, s')) \<or> p = Pass_return r \<and> s' = s2 \<and> r \<noteq> 0"
        using l(2) by (cases p) auto
      then show thesis using that(3) [OF Some nw cc(1) src k] by blast
    qed
  qed
qed

text \<open>
  C5. A patched file has the expected digest: when \<^verbatim>\<open>applypatch\<close> returns 0 for plain files outside the cache partition, with a source
  that is not the output file, the target holds data whose digest is the given one, whether it was there already or has just been
  produced.  If one of the patches is an image patch, no \<^verbatim>\<open>write\<close> may fail: the result for a normal chunk is not looked
  at, and a failed write goes unnoticed.  Short writes are always allowed.\<close>

theorem applypatch_target:
  assumes "posix_files (env_files env) content" "mtd_keeps (ap_mtd (pe_ap env)) content" "sha_chains (env_cr env) sha"
    and "plain_files source target"
    and "applypatch env source target sha1_str tsize patches s = Some (Done (0, s'))" "writes_ok (env_files env) patches"
  shows "\<exists>d. content target s' = Some d \<and> ParseSha1 sha1_str = Some (sha d)"
proof (rule applypatch_cases [OF assms(1-5)])
  fix sha1 us nw fl s1 p s2
  assume a: "ParseSha1 sha1_str = Some sha1" "writes_ok (env_files env) patches \<longrightarrow> nw"
      "run_keeps content (env_cr env) sha source target (fc_data fl) us nw s1 p s2"
      "(\<exists>ctx buf mc. p = Pass_done ctx buf mc \<and> ap_finish env target sha1 fl ctx buf mc s2 = (0, s')) \<or> p = Pass_return 0 \<and> s' = s2 \<and> (0 :: int) \<noteq> 0"
  then obtain ctx buf mc where f: "p = Pass_done ctx buf mc" "ap_finish env target sha1 fl ctx buf mc s2 = (0, s')" by auto
  obtain bytes where b: "content (outname target) s2 = Some bytes" "sha_final (env_cr env) ctx = sha bytes"
    using a(2,3) assms(6) f(1) unfolding run_keeps_def by blast
  show ?thesis using ap_finish_spec(2) [OF assms(1) _ _ f(2)] assms(4) b a(1) by (simp add: plain_files_def)
qed (use sha_of_chains [OF assms(3)] in auto)

text \<open>The files after a failed run.\<close>

lemma applypatch_failed:
  assumes "posix_files (env_files env) content" "mtd_keeps (ap_mtd (pe_ap env)) content" "sha_chains (env_cr env) sha"
    and "plain_files source target"
    and "applypatch env source target sha1_str tsize patches s = Some (Done (r, s'))" "r \<noteq> 0" "content source s = Some d"
  shows "(content source s' = Some d \<or> content source s' = None \<and> content CACHE_TEMP_SOURCE s' = Some d) \<and>
    (target \<noteq> source \<longrightarrow> content target s' = content target s)"
proof (rule applypatch_cases [OF assms(1-5)])
  fix sha1 us nw fl s1 p s2
  assume a: "\<And>g. content g s1 = content g s" "us \<longrightarrow> content source s = Some (fc_data fl)"
      "run_keeps content (env_cr env) sha source target (fc_data fl) us nw s1 p s2"
      "(\<exists>ctx buf mc. p = Pass_done ctx buf mc \<and> ap_finish env target sha1 fl ctx buf mc s2 = (r, s')) \<or> p = Pass_return r \<and> s' = s2 \<and> r \<noteq> 0"
  have e: "content g s' = content g s2" for g
    using a(4) ap_finish_spec(1) [OF assms(1), of target sha1 fl _ _ _ s2 r s' g] assms(4,6) by (auto simp: plain_files_def)
  have "content target s2 = content target s" if "target \<noteq> source"
    using a(1,3) that assms(4) outname_ne(1) unfolding run_keeps_def plain_files_def by metis
  moreover have "content source s2 = Some d \<or> content source s2 = None \<and> content CACHE_TEMP_SOURCE s2 = Some d"
    using a(1,2,3) assms(7) unfolding run_keeps_def by auto
  ultimately show ?thesis unfolding e by blast
qed (use assms(6,7) in auto)

lemma ap_choose_readable:
  assumes rd: "readable_files (env_files env) content" and ch: "sha_chains (env_cr env) sha" and pf: "plain_files source target"
    and src: "content source s = Some d \<or> content source s = None \<and> content CACHE_TEMP_SOURCE s = Some d"
    and tgt: "\<And>e. content target s = Some e \<Longrightarrow> sha e \<noteq> sha1" and use: "FindMatchingPatch (sha d) (map fst patches) = Some i"
  shows "\<exists>sv us f. ap_choose env source target sha1 patches s = Done (Use sv us f (snd (patches ! i)), s) \<and> fc_data f = d"
proof -
  note pf' = pf [unfolded plain_files_def] and ld = LoadFileContents_readable [OF rd]
  have one: "sha_of (env_cr env) e = sha e" for e using sha_of_chains [OF ch] .
  have pch: "patch_for f patches = Some (snd (patches ! i))" if "fc_sha1 f = sha d" for f using use that by (simp add: patch_for_def)
  have c: "\<not> is_mtd CACHE_TEMP_SOURCE" by (simp add: is_mtd_def CACHE_TEMP_SOURCE_def)
  obtain sf where sf: "LoadFileContents (pe_ap env) source s = Done (sf, s)" "case sf of None \<Rightarrow> content source s = None | Some f \<Rightarrow> fc_data f = d \<and> fc_sha1 f = sha d"
    using src ld(1) [of source s] ld(2) [of source s d] pf' one by fastforce
  have so: "\<exists>sv us f. ap_source env sf patches s = Done (Use sv us f (snd (patches ! i)), s) \<and> fc_data f = d"
  proof (cases sf)
    case None
    then have "content CACHE_TEMP_SOURCE s = Some d" using sf(2) src by auto
    from ld(2) [OF c this] one obtain f where "LoadFileContents (pe_ap env) CACHE_TEMP_SOURCE s = Done (Some f, s)" "fc_data f = d" "fc_sha1 f = sha d"
      by auto
    then show ?thesis using None pch by (auto simp: ap_source_def ap_copy_def)
  next
    case (Some f)
    then show ?thesis using sf(2) pch [of f] by (auto simp: ap_source_def)
  qed
  obtain tf where tf: "LoadFileContents (pe_ap env) target s = Done (tf, s)" "\<And>f. tf = Some f \<Longrightarrow> fc_sha1 f \<noteq> sha1"
  proof (cases "content target s")
    case None
    then show thesis using that ld(1) pf' by blast
  next
    case (Some e)
    then obtain f where "LoadFileContents (pe_ap env) target s = Done (Some f, s)" "fc_sha1 f = sha e" using ld(2) pf' one by metis
    then show thesis using that [of "Some f"] tgt [OF Some] by simp
  qed
  show ?thesis using so sf(1) tf by (auto simp: ap_choose_def split: option.splits)
qed

text \<open>
  C4. Patching is safe: for plain files outside the cache partition and a source that is not the output file, whenever
  \<^verbatim>\<open>applypatch\<close> returns an error, whichever of its calls failed or wrote too little, the data of the source is still there, as the
  source itself or, when the source is gone, as the saved copy, and a target that is another file is untouched.\<close>

theorem applypatch_recoverable:
  assumes "posix_files (env_files env) content" "mtd_keeps (ap_mtd (pe_ap env)) content" "sha_chains (env_cr env) sha"
    and "plain_files source target"
    and "applypatch env source target sha1_str tsize patches s = Some (Done (r, s'))" "r \<noteq> 0" "content source s = Some d"
  shows "(content source s' = Some d \<or> content source s' = None \<and> content CACHE_TEMP_SOURCE s' = Some d) \<and>
    (target \<noteq> source \<longrightarrow> content target s' = content target s)"
  using assms by (rule applypatch_failed)

text \<open>
  C6. Patching can be run again: for plain files outside the cache partition and a source that is not the output file, after a
  run that returned an error and whose source had a patch, the next run chooses the same patch for the same data, read from the
  source or from the saved copy.  Files that are there must be readable.\<close>

theorem applypatch_resumes:
  assumes "posix_files (env_files env) content" "readable_files (env_files env) content" "mtd_keeps (ap_mtd (pe_ap env)) content" "sha_chains (env_cr env) sha"
    and "plain_files source target" "ParseSha1 sha1_str = Some sha1"
    and "applypatch env source target sha1_str tsize patches s = Some (Done (r, s'))" "r \<noteq> 0"
    and "content source s = Some d" "FindMatchingPatch (sha d) (map fst patches) = Some i"
  shows "\<exists>sv us f. ap_choose env source target sha1 patches s' = Done (Use sv us f (snd (patches ! i)), s') \<and> fc_data f = d"
proof -
  have k: "content source s' = Some d \<or> content source s' = None \<and> content CACHE_TEMP_SOURCE s' = Some d"
      "target \<noteq> source \<longrightarrow> content target s' = content target s"
    using applypatch_failed [OF assms(1,3-5,7-9)] by blast+
  have nt: "sha e \<noteq> sha1" if e: "content target s = Some e" for e
  proof
    assume "sha e = sha1"
    moreover have "\<not> is_mtd target" "target \<noteq> ''-''" using assms(5) by (simp_all add: plain_files_def)
    ultimately show False
      using LoadFileContents_readable(2) [OF assms(2) _ e] sha_of_chains [OF assms(4)] assms(6-8) by (auto simp: applypatch_def ap_choose_def)
  qed
  have "sha e \<noteq> sha1" if "content target s' = Some e" for e
    using nt that k assms(9) by (cases "target = source") auto
  then show ?thesis by (rule ap_choose_readable [OF assms(2,4,5) k(1) _ assms(10)])
qed


section \<open>Instances\<close>

text \<open>A system with little free space, so that the source is saved and removed before the target is written.\<close>

definition no_gz :: "unit gzlib" where
  "no_gz = \<lparr>gz_inflateInit = False, gz_inflate = (\<lambda>src n. (-1, [])), gz_deflateInit = (\<lambda>p t. ()), gz_deflate = (\<lambda>y room. (-1, y, []))\<rparr>"

definition sample_penv :: "((string \<Rightarrow> byte list option), nat, nat, byte list, unit, byte list, unit) patchenv" where
  "sample_penv = \<lparr>pe_ap = sample_ap 5, pe_bz = stored_bz, pe_gz = no_gz, pe_malloc = (\<lambda>r k n. Some (replicate n 0)), pe_msi_ok = (\<lambda>n. True),
     pe_stale = (4, \<lparr>st_mode = 420, st_uid = 0, st_gid = 0\<rparr>)\<rparr>"

definition pad :: "byte list \<Rightarrow> byte list" where
  "pad bs = take 20 (bs @ replicate 20 0)"

lemma sample_digests: "ParseSha1 (show_sha1 (pad bs)) = Some (pad bs)"
proof -
  have "length (pad bs) = SHA_DIGEST_SIZE" by (simp add: pad_def SHA_DIGEST_SIZE_def)
  then show ?thesis using parse_digits_show [of "pad bs" "[]"] by (simp add: ParseSha1_def)
qed

lemma sample_penv_laws:
  "posix_files (env_files sample_penv) (\<lambda>f s. s f)" "mtd_keeps (ap_mtd (pe_ap sample_penv)) content"
  "sha_chains (env_cr sample_penv) pad" "writes_ok (env_files sample_penv) patches"
  using map_files_posix list_mtd_laws(2) sample_sha_chains map_files_progress
  by (simp_all add: sample_penv_def sample_ap_def writes_ok_def pad_def [abs_def])

lemma sample_run: "ApplyBSDiffPatchMem stored_bz (\<lambda>n. Some (replicate n 0)) [10, 20] sample_patch 0 = Some (Done (0, [11, 21, 7]))"
  by code_simp

lemma sample_magic: "take 8 sample_patch = BSDIFF_MAGIC" "8 \<le> length sample_patch"
  by code_simp+

definition sample_state :: "string \<Rightarrow> byte list option" where
  "sample_state = [''/system/a'' \<mapsto> [10, 20]]"

lemma sample_load: "LoadFileContents (sample_ap 5) f s =
  (if is_mtd f then LoadFileContents (sample_ap 5) f s else
   Done (map_option (\<lambda>d. \<lparr>fc_data = d, fc_sha1 = pad d, fc_stat = \<lparr>st_mode = 420, st_uid = 0, st_gid = 0\<rparr>\<rparr>) (s f), s))"
  by (auto simp: LoadFileContents_def sample_ap_def map_files_def sample_sha_def sha_of_def pad_def split: option.split)

lemma sample_backup: "ap_backup sample_penv (Fv_live \<lparr>fc_data = [10, 20], fc_sha1 = h, fc_stat = st\<rparr>) s = Done (True, s(CACHE_TEMP_SOURCE \<mapsto> [10, 20]))"
  by (simp add: ap_backup_def save_source_def fv_size_def sample_penv_def sample_ap_def map_files_def MakeFreeSpaceOnCache_def FreeSpaceForFile_def SaveFileContents_def
      FileSink_def FileSink_loop.simps Let_def fun_eq_iff)

lemma sample_apply:
  "apply_format sample_penv 0 [10, 20] sample_patch (FileSink (env_files sample_penv) f) s =
    Some (Some (Done (0, s(f := map_option (\<lambda>d. d @ [11, 21, 7]) (s f)), Some [11, 21, 7])))"
  by (simp add: apply_format_def sample_magic ApplyBSDiffPatch_def sample_run sample_penv_def sample_ap_def map_files_def sample_sha_def
      FileSink_def FileSink_loop.simps Let_def bind_run_def)

lemma sample_choose:
  "ap_choose sample_penv ''/system/a'' ''/system/a'' (pad [11, 21, 7]) [(show_sha1 (pad [10, 20]), p)] sample_state =
    Done (Use (Fv_live \<lparr>fc_data = [10, 20], fc_sha1 = pad [10, 20], fc_stat = \<lparr>st_mode = 420, st_uid = 0, st_gid = 0\<rparr>\<rparr>) True
      \<lparr>fc_data = [10, 20], fc_sha1 = pad [10, 20], fc_stat = \<lparr>st_mode = 420, st_uid = 0, st_gid = 0\<rparr>\<rparr> p, sample_state)"
proof -
  have "pad [10, 20] \<noteq> pad [11, 21, 7]" by (simp add: pad_def)
  then show ?thesis
    by (simp add: ap_choose_def ap_source_def patch_for_def sample_penv_def sample_load is_mtd_def sample_state_def sample_digests)
qed

lemma sample_space:
  "ap_space sample_penv ''/system/a'' ''/system/a'' 3 1 False (Fv_live \<lparr>fc_data = [10, 20], fc_sha1 = h, fc_stat = st\<rparr>) True s =
    Done (Some (0, True), s(CACHE_TEMP_SOURCE \<mapsto> [10, 20], ''/system/a'' := None))"
  unfolding ap_space_def sample_backup
  by (simp add: is_mtd_def enough_space_def FreeSpaceForFile_def sample_penv_def sample_ap_def map_files_def Let_def)

lemma sample_attempt:
  "ap_attempt sample_penv 0 ''/system/a'' 3 \<lparr>fc_data = [10, 20], fc_sha1 = h, fc_stat = st\<rparr> \<lparr>pv_blob = True, pv_data = sample_patch\<rparr> s =
    Some (Done (Some (0, [11, 21, 7], []), s(outname ''/system/a'' \<mapsto> [11, 21, 7])))"
proof -
  have o: "fo_open (env_files sample_penv) f s = (True, s(f \<mapsto> []))" for f by (simp add: sample_penv_def sample_ap_def map_files_def)
  show ?thesis by (simp add: ap_attempt_def is_mtd_def o sample_apply with_ctx_def bind_run_def)
qed

lemma sample_finish:
  "ap_finish sample_penv f (pad h) file h [] True s = (0, s(outname f := None, f := s (outname f), CACHE_TEMP_SOURCE := None))"
  if "\<not> is_mtd f"
  using that by (simp add: ap_finish_def sample_penv_def sample_ap_def sample_sha_def map_files_def pad_def Let_def)

lemmas sample_steps = applypatch_def sample_digests sample_choose [unfolded sample_state_def] sample_space [simplified] ap_pass_def sample_attempt

lemma sample_applypatch:
  "applypatch sample_penv ''/system/a'' ''/system/a'' (show_sha1 (pad [11, 21, 7])) 3 [(show_sha1 (pad [10, 20]), \<lparr>pv_blob = True, pv_data = sample_patch\<rparr>)] sample_state =
    Some (Done (0, [''/system/a'' \<mapsto> [11, 21, 7]]))"
  by (simp add: sample_steps Let_def bind_run_def sample_finish is_mtd_def sample_state_def outname_def CACHE_TEMP_SOURCE_def fun_eq_iff)

lemma sample_unknown:
  "applypatch sample_penv ''/system/a'' ''/system/a'' (show_sha1 (pad [11, 21, 7])) 3 [(show_sha1 (pad [10, 20]), \<lparr>pv_blob = True, pv_data = []\<rparr>)] sample_state =
    Some (Done (1, [CACHE_TEMP_SOURCE \<mapsto> [10, 20], outname ''/system/a'' \<mapsto> []]))"
proof -
  have a: "ap_attempt sample_penv 0 ''/system/a'' 3 \<lparr>fc_data = [10, 20], fc_sha1 = h, fc_stat = st\<rparr> \<lparr>pv_blob = True, pv_data = []\<rparr> s =
    Some (Done (None, s(outname ''/system/a'' \<mapsto> [])))" for h st s
    by (simp add: ap_attempt_def is_mtd_def sample_penv_def sample_ap_def map_files_def apply_format_def)
  show ?thesis by (simp add: sample_steps a Let_def bind_run_def sample_state_def outname_def CACHE_TEMP_SOURCE_def fun_eq_iff)
qed

lemma sample_plain: "plain_files ''/system/a'' ''/system/a''"
  by (simp add: plain_files_def is_mtd_def off_cache_def outname_def)

theorem applypatch_target_witness:
  "\<exists>s'. applypatch sample_penv ''/system/a'' ''/system/a'' (show_sha1 (pad [11, 21, 7])) 3 [(show_sha1 (pad [10, 20]), \<lparr>pv_blob = True, pv_data = sample_patch\<rparr>)] sample_state =
      Some (Done (0, s')) \<and> (\<exists>d. s' ''/system/a'' = Some d \<and> ParseSha1 (show_sha1 (pad [11, 21, 7])) = Some (pad d))"
  using applypatch_target [OF sample_penv_laws(1-3) sample_plain sample_applypatch sample_penv_laws(4)] sample_applypatch by blast

theorem applypatch_recoverable_witness:
  "\<exists>s'. applypatch sample_penv ''/system/a'' ''/system/a'' (show_sha1 (pad [11, 21, 7])) 3 [(show_sha1 (pad [10, 20]), \<lparr>pv_blob = True, pv_data = []\<rparr>)] sample_state =
      Some (Done (1, s')) \<and> s' ''/system/a'' = None \<and> s' CACHE_TEMP_SOURCE = Some [10, 20]"
  using applypatch_recoverable [OF sample_penv_laws(1-3) sample_plain sample_unknown, of "[10, 20]"] sample_unknown
  by (simp add: sample_state_def CACHE_TEMP_SOURCE_def outname_def)

lemma sample_match: "FindMatchingPatch (pad bs) [show_sha1 (pad bs)] = Some 0"
  by (simp add: sample_digests)

theorem applypatch_resumes_witness:
  "\<exists>s' sv us f. applypatch sample_penv ''/system/a'' ''/system/a'' (show_sha1 (pad [11, 21, 7])) 3 [(show_sha1 (pad [10, 20]), \<lparr>pv_blob = True, pv_data = []\<rparr>)] sample_state =
      Some (Done (1, s')) \<and> s' ''/system/a'' = None \<and>
      ap_choose sample_penv ''/system/a'' ''/system/a'' (pad [11, 21, 7]) [(show_sha1 (pad [10, 20]), \<lparr>pv_blob = True, pv_data = []\<rparr>)] s' =
        Done (Use sv us f \<lparr>pv_blob = True, pv_data = []\<rparr>, s') \<and> fc_data f = [10, 20]"
proof -
  have rd: "readable_files (env_files sample_penv) (\<lambda>f s. s f)" using map_files_readable by (simp add: sample_penv_def sample_ap_def)
  have "\<exists>sv us f. ap_choose sample_penv ''/system/a'' ''/system/a'' (pad [11, 21, 7]) [(show_sha1 (pad [10, 20]), \<lparr>pv_blob = True, pv_data = []\<rparr>)]
      [CACHE_TEMP_SOURCE \<mapsto> [10, 20], outname ''/system/a'' \<mapsto> []] =
        Done (Use sv us f \<lparr>pv_blob = True, pv_data = []\<rparr>, [CACHE_TEMP_SOURCE \<mapsto> [10, 20], outname ''/system/a'' \<mapsto> []]) \<and> fc_data f = [10, 20]"
    using applypatch_resumes [OF sample_penv_laws(1) rd sample_penv_laws(2,3) sample_plain sample_digests sample_unknown, of "[10, 20]" 0]
      sample_match by (simp add: sample_state_def)
  then show ?thesis using sample_unknown by (simp add: CACHE_TEMP_SOURCE_def outname_def)
qed


end
