(* ===== verification/Bsdiff.thy ===== *)
theory Bsdiff
  imports Bspatch
begin

text \<open>
  Creating a binary patch, \<^verbatim>\<open>bsdiff\<close> of \<^verbatim>\<open>applypatch/bsdiff.c\<close>.  The index \<open>I\<close> of the old file belongs to the caller,
  who may pass it in; the order in which \<^verbatim>\<open>qsufsort\<close> puts it only decides how small the patch gets, so that everything here
  holds for any index of positions in the old file.  Positions and lengths are natural numbers, scores
  and offsets are integers, below the bounds of \<^verbatim>\<open>off_t\<close> for files of less than \<open>2 ^ 30\<close> bytes.
\<close>

section \<open>Matching\<close>

fun matchlen :: "byte list \<Rightarrow> byte list \<Rightarrow> nat" where
  "matchlen (x # xs) (y # ys) = (if x \<noteq> y then 0 else Suc (matchlen xs ys))"
| "matchlen _ _ = 0"

text \<open>The result of \<^verbatim>\<open>memcmp\<close> on the common length is negative.\<close>

fun mem_below :: "byte list \<Rightarrow> byte list \<Rightarrow> bool" where
  "mem_below (x # xs) (y # ys) = (if x = y then mem_below xs ys else x < y)"
| "mem_below _ _ = False"

function search :: "nat list \<Rightarrow> byte list \<Rightarrow> byte list \<Rightarrow> nat \<Rightarrow> nat \<Rightarrow> nat \<times> nat" where
  "search I old new st en =
     (if en - st < 2
      then let x = matchlen (drop (I ! st) old) new; y = matchlen (drop (I ! en) old) new
           in if x > y then (I ! st, x) else (I ! en, y)
      else let x = st + (en - st) div 2
           in if mem_below (drop (I ! x) old) new then search I old new x en else search I old new st x)"
  by pat_completeness auto
termination
  by (relation "measure (\<lambda>(I, old, new, st, en). en - st)") auto

declare search.simps [simp del]

section \<open>Finding the next copy\<close>

definition old_hit :: "byte list \<Rightarrow> byte list \<Rightarrow> int \<Rightarrow> nat \<Rightarrow> bool" where
  "old_hit old new lastoffset k \<longleftrightarrow> int k + lastoffset < int (length old) \<and> old ! nat (int k + lastoffset) = new ! k"

function score_loop :: "byte list \<Rightarrow> byte list \<Rightarrow> int \<Rightarrow> nat \<Rightarrow> nat \<Rightarrow> int \<Rightarrow> nat \<times> int" where
  "score_loop old new lastoffset bound scsc oldscore =
     (if scsc < bound
      then score_loop old new lastoffset bound (scsc + 1) (if old_hit old new lastoffset scsc then oldscore + 1 else oldscore)
      else (scsc, oldscore))"
  by pat_completeness auto
termination
  by (relation "measure (\<lambda>(old, new, lastoffset, bound, scsc, oldscore). bound - scsc)") auto

declare score_loop.simps [simp del]

text \<open>The scan: the position, the match and its length, and the score of continuing the last copy.\<close>

function scan_loop :: "nat list \<Rightarrow> byte list \<Rightarrow> byte list \<Rightarrow> int \<Rightarrow> nat \<Rightarrow> nat \<Rightarrow> nat \<Rightarrow> nat \<Rightarrow> int \<Rightarrow> nat \<times> nat \<times> nat \<times> int" where
  "scan_loop I old new lastoffset scan scsc len pos oldscore =
     (if scan < length new
      then let (pos, len) = search I old (drop scan new) 0 (length old);
               (scsc, oldscore) = score_loop old new lastoffset (scan + len) scsc oldscore
           in if int len = oldscore \<and> len \<noteq> 0 \<or> int len > oldscore + 8 then (scan, len, pos, oldscore)
              else scan_loop I old new lastoffset (scan + 1) scsc len pos
                     (if old_hit old new lastoffset scan then oldscore - 1 else oldscore)
      else (scan, len, pos, oldscore))"
  by pat_completeness auto
termination
  by (relation "measure (\<lambda>(I, old, new, lastoffset, scan, scsc, len, pos, oldscore). length new - scan)") auto

declare scan_loop.simps [simp del]

section \<open>Extending the copies\<close>

text \<open>Forwards from the last copy.\<close>

function fwd_loop :: "byte list \<Rightarrow> byte list \<Rightarrow> nat \<Rightarrow> nat \<Rightarrow> nat \<Rightarrow> nat \<Rightarrow> int \<Rightarrow> int \<Rightarrow> nat \<Rightarrow> nat" where
  "fwd_loop old new lastscan lastpos scan i s Sf lenf =
     (if lastscan + i < scan \<and> lastpos + i < length old
      then let s = (if old ! (lastpos + i) = new ! (lastscan + i) then s + 1 else s); i = i + 1
           in if s * 2 - int i > Sf * 2 - int lenf then fwd_loop old new lastscan lastpos scan i s s i
              else fwd_loop old new lastscan lastpos scan i s Sf lenf
      else lenf)"
  by pat_completeness auto
termination
  by (relation "measure (\<lambda>(old, new, lastscan, lastpos, scan, i, s, Sf, lenf). scan - i)") auto

declare fwd_loop.simps [simp del]

text \<open>Backwards from the new match.\<close>

function bwd_loop :: "byte list \<Rightarrow> byte list \<Rightarrow> nat \<Rightarrow> nat \<Rightarrow> nat \<Rightarrow> nat \<Rightarrow> int \<Rightarrow> int \<Rightarrow> nat \<Rightarrow> nat" where
  "bwd_loop old new lastscan scan pos i s Sb lenb =
     (if scan \<ge> lastscan + i \<and> pos \<ge> i
      then let s = (if old ! (pos - i) = new ! (scan - i) then s + 1 else s)
           in if s * 2 - int i > Sb * 2 - int lenb then bwd_loop old new lastscan scan pos (i + 1) s s i
              else bwd_loop old new lastscan scan pos (i + 1) s Sb lenb
      else lenb)"
  by pat_completeness auto
termination
  by (relation "measure (\<lambda>(old, new, lastscan, scan, pos, i, s, Sb, lenb). Suc pos - i)") auto

declare bwd_loop.simps [simp del]

text \<open>Where to cut an overlap of the two; the part starts at \<open>newf\<close> and \<open>oldf\<close> for the copy before it and at \<open>newb\<close> and \<open>oldb\<close> for the one behind it.\<close>

function overlap_loop :: "byte list \<Rightarrow> byte list \<Rightarrow> nat \<Rightarrow> nat \<Rightarrow> nat \<Rightarrow> nat \<Rightarrow> nat \<Rightarrow> nat \<Rightarrow> int \<Rightarrow> int \<Rightarrow> nat \<Rightarrow> nat" where
  "overlap_loop old new newf oldf newb oldb overlap i s Ss lens =
     (if i < overlap
      then let s = (if new ! (newf + i) = old ! (oldf + i) then s + 1 else s);
               s = (if new ! (newb + i) = old ! (oldb + i) then s - 1 else s)
           in if s > Ss then overlap_loop old new newf oldf newb oldb overlap (i + 1) s s (i + 1)
              else overlap_loop old new newf oldf newb oldb overlap (i + 1) s Ss lens
      else lens)"
  by pat_completeness auto
termination
  by (relation "measure (\<lambda>(old, new, newf, oldf, newb, oldb, overlap, i, s, Ss, lens). overlap - i)") auto

declare overlap_loop.simps [simp del]

definition extend_copies :: "byte list \<Rightarrow> byte list \<Rightarrow> nat \<Rightarrow> nat \<Rightarrow> nat \<Rightarrow> nat \<Rightarrow> nat \<times> nat" where
  "extend_copies old new lastscan lastpos scan pos =
     (let lenf = fwd_loop old new lastscan lastpos scan 0 0 0 0;
          lenb = (if scan < length new then bwd_loop old new lastscan scan pos 1 0 0 0 else 0)
      in if lastscan + lenf > scan - lenb
         then let overlap = (lastscan + lenf) - (scan - lenb);
                  lens = overlap_loop old new (lastscan + lenf - overlap) (lastpos + lenf - overlap) (scan - lenb) (pos - lenb) overlap 0 0 0 0
              in (lenf + lens - overlap, lenb - lens)
         else (lenf, lenb))"

section \<open>The patch\<close>

record bsdiff_state =
  bd_scan :: nat
  bd_len :: nat
  bd_pos :: nat
  bd_lastscan :: nat
  bd_lastpos :: nat
  bd_lastoffset :: int
  bd_ctrl :: "byte list"
  bd_db :: "byte list"
  bd_eb :: "byte list"

definition emit :: "byte list \<Rightarrow> byte list \<Rightarrow> bsdiff_state \<Rightarrow> bsdiff_state" where
  "emit old new d =
     (let lastscan = bd_lastscan d; lastpos = bd_lastpos d; scan = bd_scan d; pos = bd_pos d;
          (lenf, lenb) = extend_copies old new lastscan lastpos scan pos; extra = (scan - lenb) - (lastscan + lenf)
      in d\<lparr>bd_db := bd_db d @ map (\<lambda>i. new ! (lastscan + i) - old ! (lastpos + i)) [0..<lenf],
           bd_eb := bd_eb d @ map (\<lambda>i. new ! (lastscan + lenf + i)) [0..<extra],
           bd_ctrl := bd_ctrl d @ offtout (int lenf) @ offtout (int extra) @ offtout (int (pos - lenb) - int (lastpos + lenf)),
           bd_lastscan := scan - lenb, bd_lastpos := pos - lenb, bd_lastoffset := int pos - int scan\<rparr>)"

definition bsdiff_step :: "nat list \<Rightarrow> byte list \<Rightarrow> byte list \<Rightarrow> bsdiff_state \<Rightarrow> bsdiff_state" where
  "bsdiff_step I old new d =
     (let scan = bd_scan d + bd_len d;
          (scan, len, pos, oldscore) = scan_loop I old new (bd_lastoffset d) scan scan (bd_len d) (bd_pos d) 0;
          d = d\<lparr>bd_scan := scan, bd_len := len, bd_pos := pos\<rparr>
      in if int len \<noteq> oldscore \<or> scan = length new then emit old new d else d)"

partial_function (option) bsdiff_loop :: "nat list \<Rightarrow> byte list \<Rightarrow> byte list \<Rightarrow> bsdiff_state \<Rightarrow> bsdiff_state option" where
  [code]: "bsdiff_loop I old new d =
     (if bd_scan d < length new then bsdiff_loop I old new (bsdiff_step I old new d) else Some d)"

text \<open>The file; \<open>bzw\<close> is what the library writes for a block.\<close>

definition bsdiff :: "(byte list \<Rightarrow> byte list) \<Rightarrow> nat list \<Rightarrow> byte list \<Rightarrow> byte list \<Rightarrow> byte list option" where
  "bsdiff bzw I old new =
     map_option (\<lambda>d.
       let c = bzw (bd_ctrl d); b = bzw (bd_db d); e = bzw (bd_eb d)
       in BSDIFF_MAGIC @ offtout (int (length c)) @ offtout (int (length b)) @ offtout (int (length new)) @ c @ b @ e)
       (bsdiff_loop I old new
          \<lparr>bd_scan = 0, bd_len = 0, bd_pos = 0, bd_lastscan = 0, bd_lastpos = 0, bd_lastoffset = 0, bd_ctrl = [], bd_db = [], bd_eb = []\<rparr>)"

section \<open>Bounds of the search\<close>

definition index_of :: "byte list \<Rightarrow> nat list \<Rightarrow> bool" where
  "index_of old I \<longleftrightarrow> length I = length old + 1 \<and> (\<forall>i \<in> set I. i \<le> length old)"

lemma matchlen_le: "matchlen xs ys \<le> length ys"
  by (induction xs ys rule: matchlen.induct) auto

lemma search_bounds:
  "index_of old I \<Longrightarrow> st \<le> en \<Longrightarrow> en \<le> length old \<Longrightarrow> search I old new st en = (pos, len) \<Longrightarrow>
    pos \<le> length old \<and> len \<le> length new"
proof (induction I old new st en rule: search.induct)
  case (1 I old new st en)
  have i: "I ! k \<le> length old" if "k \<le> length old" for k
    using 1(3) that by (auto simp: index_of_def)
  show ?case
  proof (cases "en - st < 2")
    case True
    then show ?thesis using 1(4-6) i [of st] i [of en] matchlen_le [of _ new]
      by (auto simp: search.simps [of I old new st en] Let_def split: if_splits)
  next
    case False
    have s: "search I old new st en = (if mem_below (drop (I ! (st + (en - st) div 2)) old) new
        then search I old new (st + (en - st) div 2) en else search I old new st (st + (en - st) div 2))"
      using False by (subst search.simps) (simp add: Let_def)
    have m: "st \<le> st + (en - st) div 2" "st + (en - st) div 2 \<le> en" using 1(4) by auto
    show ?thesis
      using 1(1) [OF False refl _ 1(3) m(2) 1(5)] 1(2) [OF False refl _ 1(3) m(1)] 1(5,6) m(2) s by (auto split: if_splits)
  qed
qed

lemma score_loop_grows: "oldscore \<le> snd (score_loop old new off bound scsc oldscore)"
proof (induction old new off bound scsc oldscore rule: score_loop.induct)
  case (1 old new off bound scsc oldscore)
  show ?case
  proof (cases "scsc < bound")
    case True
    have "oldscore \<le> (if old_hit old new off scsc then oldscore + 1 else oldscore)" by simp
    also have "\<dots> \<le> snd (score_loop old new off bound (scsc + 1) (if old_hit old new off scsc then oldscore + 1 else oldscore))"
      by (rule 1 [OF True])
    finally show ?thesis using True by (simp add: score_loop.simps [of old new off bound scsc])
  qed (simp add: score_loop.simps [of old new off bound scsc])
qed

text \<open>The scan stops at the end or behind where it started: it finds a match, or has moved.\<close>

lemma scan_loop_bounds:
  "index_of old I \<Longrightarrow> scan_loop I old new off scan scsc len pos oldscore = (scan', len', pos', oldscore') \<Longrightarrow>
    scan \<le> length new \<Longrightarrow> pos \<le> length old \<Longrightarrow>
    scan \<le> scan' \<and> scan' \<le> length new \<and> pos' \<le> length old \<and>
    (scan' < length new \<longrightarrow> scan' + len' \<le> length new \<and> (0 \<le> oldscore \<longrightarrow> scan < scan' \<or> 0 < len'))"
proof (induction I old new off scan scsc len pos oldscore rule: scan_loop.induct)
  case (1 I old new off scan scsc len pos oldscore)
  show ?case
  proof (cases "scan < length new")
    case False
    then have "scan_loop I old new off scan scsc len pos oldscore = (scan, len, pos, oldscore)"
      by (subst scan_loop.simps) simp
    then show ?thesis using "1.prems" False by auto
  next
    case True
    obtain p l where sr: "search I old (drop scan new) 0 (length old) = (p, l)" by (cases "search I old (drop scan new) 0 (length old)")
    obtain c o' where sc: "score_loop old new off (scan + l) scsc oldscore = (c, o')" by (cases "score_loop old new off (scan + l) scsc oldscore")
    have b: "p \<le> length old" "l \<le> length (drop scan new)" using search_bounds [OF "1.prems"(1) _ _ sr] by auto
    have o: "oldscore \<le> o'" using score_loop_grows [of oldscore old new off "scan + l" scsc] sc by simp
    show ?thesis
    proof (cases "int l = o' \<and> l \<noteq> 0 \<or> int l > o' + 8")
      case brk: True
      then have "scan_loop I old new off scan scsc len pos oldscore = (scan, l, p, o')"
        using True sr sc by (subst scan_loop.simps) simp
      then show ?thesis using "1.prems" b True brk o by auto
    next
      case nb: False
      define o2 where "o2 = (if old_hit old new off scan then o' - 1 else o')"
      have "scan_loop I old new off scan scsc len pos oldscore = scan_loop I old new off (scan + 1) c l p o2"
        using True sr sc nb unfolding o2_def by (subst scan_loop.simps) auto
      then have r: "scan_loop I old new off (scan + 1) c l p o2 = (scan', len', pos', oldscore')" using "1.prems"(2) by simp
      have "scan + 1 \<le> scan' \<and> scan' \<le> length new \<and> pos' \<le> length old \<and> (scan' < length new \<longrightarrow> scan' + len' \<le> length new)"
        using "1.IH" [OF True sr [symmetric] refl sc [symmetric] refl nb "1.prems"(1) r [unfolded o2_def]] True b(1) by auto
      then show ?thesis by auto
    qed
  qed
qed

section \<open>Bounds of the extension\<close>

lemma fwd_loop_bounds:
  "lenf \<le> i \<Longrightarrow> lastscan + i \<le> scan \<Longrightarrow> lastpos + i \<le> length old \<Longrightarrow>
    lastscan + fwd_loop old new lastscan lastpos scan i s Sf lenf \<le> scan \<and>
    lastpos + fwd_loop old new lastscan lastpos scan i s Sf lenf \<le> length old"
proof (induction old new lastscan lastpos scan i s Sf lenf rule: fwd_loop.induct)
  case (1 old new lastscan lastpos scan i s Sf lenf)
  show ?case
  proof (cases "lastscan + i < scan \<and> lastpos + i < length old")
    case True
    define s' where "s' = (if old ! (lastpos + i) = new ! (lastscan + i) then s + 1 else s)"
    have "fwd_loop old new lastscan lastpos scan i s Sf lenf =
        (if s' * 2 - int (i + 1) > Sf * 2 - int lenf then fwd_loop old new lastscan lastpos scan (i + 1) s' s' (i + 1)
         else fwd_loop old new lastscan lastpos scan (i + 1) s' Sf lenf)"
      using True unfolding s'_def by (subst fwd_loop.simps) (simp add: Let_def)
    then show ?thesis
      using 1(1) [OF True s'_def refl] 1(2) [OF True s'_def refl] True "1.prems"(1) by auto
  next
    case False
    then show ?thesis using "1.prems" by (subst (1 2) fwd_loop.simps) auto
  qed
qed

lemma bwd_loop_bounds:
  "lenb < i \<Longrightarrow> lenb \<le> pos \<Longrightarrow> lastscan + lenb \<le> scan \<Longrightarrow>
    lastscan + bwd_loop old new lastscan scan pos i s Sb lenb \<le> scan \<and> bwd_loop old new lastscan scan pos i s Sb lenb \<le> pos"
proof (induction old new lastscan scan pos i s Sb lenb rule: bwd_loop.induct)
  case (1 old new lastscan scan pos i s Sb lenb)
  show ?case
  proof (cases "scan \<ge> lastscan + i \<and> pos \<ge> i")
    case True
    define s' where "s' = (if old ! (pos - i) = new ! (scan - i) then s + 1 else s)"
    have "bwd_loop old new lastscan scan pos i s Sb lenb =
        (if s' * 2 - int i > Sb * 2 - int lenb then bwd_loop old new lastscan scan pos (i + 1) s' s' i
         else bwd_loop old new lastscan scan pos (i + 1) s' Sb lenb)"
      using True unfolding s'_def by (subst bwd_loop.simps) (simp add: Let_def)
    then show ?thesis using 1(1) [OF True s'_def] 1(2) [OF True s'_def] True "1.prems" by auto
  next
    case False
    then show ?thesis using "1.prems" by (subst (1 2) bwd_loop.simps) auto
  qed
qed

lemma overlap_loop_bounds: "lens \<le> overlap \<Longrightarrow> overlap_loop old new newf oldf newb oldb overlap i s Ss lens \<le> overlap"
proof (induction old new newf oldf newb oldb overlap i s Ss lens rule: overlap_loop.induct)
  case (1 old new newf oldf newb oldb overlap i s Ss lens)
  show ?case
  proof (cases "i < overlap")
    case True
    define s1 where "s1 = (if new ! (newf + i) = old ! (oldf + i) then s + 1 else s)"
    define s2 where "s2 = (if new ! (newb + i) = old ! (oldb + i) then s1 - 1 else s1)"
    have "overlap_loop old new newf oldf newb oldb overlap i s Ss lens =
        (if s2 > Ss then overlap_loop old new newf oldf newb oldb overlap (i + 1) s2 s2 (i + 1)
         else overlap_loop old new newf oldf newb oldb overlap (i + 1) s2 Ss lens)"
      using True unfolding s2_def s1_def by (subst overlap_loop.simps) (simp add: Let_def)
    then show ?thesis using 1(1) [OF True s1_def s2_def] 1(2) [OF True s1_def s2_def] True "1.prems" by auto
  next
    case False
    then show ?thesis using "1.prems" by (subst overlap_loop.simps) auto
  qed
qed

lemma extend_bounds:
  assumes "extend_copies old new lastscan lastpos scan pos = (lenf, lenb)" "lastscan \<le> scan" "lastpos \<le> length old"
  shows "lenb \<le> pos" "lastscan + lenf + lenb \<le> scan" "lastpos + lenf \<le> length old" "\<not> scan < length new \<Longrightarrow> lenb = 0"
proof -
  define f where "f = fwd_loop old new lastscan lastpos scan 0 0 0 0"
  define b where "b = (if scan < length new then bwd_loop old new lastscan scan pos 1 0 0 0 else 0)"
  define o' where "o' = (lastscan + f) - (scan - b)"
  define l where "l = overlap_loop old new (lastscan + f - o') (lastpos + f - o') (scan - b) (pos - b) o' 0 0 0 0"
  have e: "(lenf, lenb) = (if lastscan + f > scan - b then (f + l - o', b - l) else (f, b))"
    using assms(1) unfolding extend_copies_def Let_def f_def [symmetric] b_def [symmetric] o'_def [symmetric] l_def [symmetric] by simp
  have fb: "lastscan + f \<le> scan" "lastpos + f \<le> length old"
    using fwd_loop_bounds [of 0 0 lastscan scan lastpos old new 0 0] assms(2,3) by (simp_all add: f_def)
  have bb: "lastscan + b \<le> scan" "b \<le> pos"
    using bwd_loop_bounds [of 0 1 pos lastscan scan old new 0 0] assms(2) by (simp_all add: b_def)
  have l: "l \<le> o'" unfolding l_def by (rule overlap_loop_bounds) simp
  show "lenb \<le> pos" using e bb by (auto split: if_splits)
  show "lastscan + lenf + lenb \<le> scan" using e fb bb l by (auto simp: o'_def split: if_splits)
  show "lastpos + lenf \<le> length old" using e fb bb l by (auto simp: o'_def split: if_splits)
  show "lenb = 0" if "\<not> scan < length new" using e that by (auto simp: b_def split: if_splits)
qed

section \<open>Applying what was emitted\<close>

lemma offtout_drop8: "drop 8 (offtout v @ r) = r" "length (offtout v @ r) = 8 + length r"
  by (simp_all add: offtout_length)

lemma add_old_nth:
  "i < length diff \<Longrightarrow> add_old old p diff ! i =
     (let j = s32 (p + int i) in if 0 \<le> j \<and> j < int (length old) then diff ! i + old ! nat j else diff ! i)"
  by (simp add: add_old_def Let_def)

text \<open>One triple, read by the reference: it adds the copied part and the extra part to the new file.\<close>

lemma triple_applied:
  assumes len: "length old < 2 ^ 30" "length new < 2 ^ 30"
    and f: "lastscan + lenf \<le> next" "next \<le> length new" "lastscan < length new" "lastpos + lenf \<le> length old" "np \<le> length old"
  shows "bspatch_spec (int (length new)) old
      ((offtout (int lenf) @ offtout (int (next - (lastscan + lenf))) @ offtout (int np - int (lastpos + lenf))) @ c)
      (map (\<lambda>i. new ! (lastscan + i) - old ! (lastpos + i)) [0..<lenf] @ b)
      (map (\<lambda>i. new ! (lastscan + lenf + i)) [0..<next - (lastscan + lenf)] @ e) (int lastpos) (take lastscan new) =
    bspatch_spec (int (length new)) old c b e (int np) (take next new)"
proof -
  define m where "m = next - (lastscan + lenf)"
  have m: "lastscan + lenf + m = next" using f(1) by (simp add: m_def)
  define x y z where "x = int lenf" and "y = int m" and "z = int np - int (lastpos + lenf)"
  define diff where "diff = map (\<lambda>i. new ! (lastscan + i) - old ! (lastpos + i)) [0..<lenf]"
  define ctrl where "ctrl = (offtout x @ offtout y @ offtout z) @ c"
  have r: "- (2 ^ 31) < x" "x < 2 ^ 31" "- (2 ^ 31) < y" "y < 2 ^ 31" "- (2 ^ 31) < z" "z < 2 ^ 31"
    using len f m by (auto simp: x_def y_def z_def)
  have o: "offtin ctrl = x" "offtin (drop 8 ctrl) = y" "offtin (drop 16 ctrl) = z" "drop 24 ctrl = c" "24 \<le> length ctrl"
    using r by (simp_all add: ctrl_def offtin_append offtout_length)
  have ok: "triple_ok (int (length new)) ctrl (diff @ b) (map (\<lambda>i. new ! (lastscan + lenf + i)) [0..<m] @ e) (take lastscan new)"
    using f m o(5) by (auto simp: triple_ok_def o x_def y_def diff_def)
  have add: "add_old old (int lastpos) diff = map (\<lambda>i. new ! (lastscan + i)) [0..<lenf]"
  proof (rule nth_equalityI)
    fix i assume "i < length (add_old old (int lastpos) diff)"
    then have i: "i < lenf" by (simp add: diff_def)
    have "s32 (int lastpos + int i) = int lastpos + int i" by (rule s32_small) (use i f(4) len(1) in auto)
    then have "add_old old (int lastpos) diff ! i = diff ! i + old ! (lastpos + i)"
      using i f(4) by (subst add_old_nth) (simp_all only: Let_def, simp_all add: diff_def nat_add_distrib)
    then show "add_old old (int lastpos) diff ! i = map (\<lambda>i. new ! (lastscan + i)) [0..<lenf] ! i"
      using i by (simp add: diff_def)
  qed (simp add: diff_def)
  have part: "map (\<lambda>i. new ! (k + i)) [0..<n] = take n (drop k new)" if "k + n \<le> length new" for k n
    using that by (intro nth_equalityI) auto
  have new': "take lastscan new @ take lenf (drop lastscan new) @ take m (drop (lastscan + lenf) new) = take next new"
    unfolding m [symmetric] by (simp add: take_add)
  have s: "s32 (int lastpos + x + z) = int np" by (simp add: x_def z_def) (rule s32_small; use len f in auto)
  show ?thesis
    unfolding m_def [symmetric] x_def [symmetric] y_def [symmetric] z_def [symmetric] ctrl_def [symmetric] diff_def [symmetric]
    using bspatch_spec_step [OF _ ok, of old "int lastpos"] f m add part [of lastscan lenf] part [of "lastscan + lenf" m] new' s
    by (simp add: o x_def y_def diff_def)
qed

text \<open>The invariant of the loop: applying what has been emitted gives the new file up to the last copy.\<close>

definition emitted :: "byte list \<Rightarrow> byte list \<Rightarrow> bsdiff_state \<Rightarrow> bool" where
  "emitted old new d \<longleftrightarrow> bd_lastscan d \<le> bd_scan d \<and> bd_scan d \<le> length new \<and> bd_lastpos d \<le> length old \<and> bd_pos d \<le> length old \<and>
     (bd_scan d = length new \<longrightarrow> bd_lastscan d = length new) \<and> (bd_scan d < length new \<longrightarrow> bd_scan d + bd_len d \<le> length new) \<and>
     (\<forall>c b e. bspatch_spec (int (length new)) old (bd_ctrl d @ c) (bd_db d @ b) (bd_eb d @ e) 0 [] =
              bspatch_spec (int (length new)) old c b e (int (bd_lastpos d)) (take (bd_lastscan d) new))"

lemma emit_applied:
  assumes len: "length old < 2 ^ 30" "length new < 2 ^ 30"
    and d: "bd_lastscan d \<le> bd_scan d" "bd_scan d \<le> length new" "bd_lastpos d \<le> length old" "bd_pos d \<le> length old" "bd_lastscan d < length new"
    and a: "\<forall>c b e. bspatch_spec (int (length new)) old (bd_ctrl d @ c) (bd_db d @ b) (bd_eb d @ e) 0 [] =
              bspatch_spec (int (length new)) old c b e (int (bd_lastpos d)) (take (bd_lastscan d) new)"
  shows "bd_lastscan (emit old new d) \<le> bd_scan d" "bd_lastpos (emit old new d) \<le> length old"
    "bd_scan d = length new \<longrightarrow> bd_lastscan (emit old new d) = length new"
    "\<forall>c b e. bspatch_spec (int (length new)) old (bd_ctrl (emit old new d) @ c) (bd_db (emit old new d) @ b) (bd_eb (emit old new d) @ e) 0 [] =
       bspatch_spec (int (length new)) old c b e (int (bd_lastpos (emit old new d))) (take (bd_lastscan (emit old new d)) new)"
proof -
  obtain lenf lenb where e: "extend_copies old new (bd_lastscan d) (bd_lastpos d) (bd_scan d) (bd_pos d) = (lenf, lenb)"
    by (cases "extend_copies old new (bd_lastscan d) (bd_lastpos d) (bd_scan d) (bd_pos d)")
  note b = extend_bounds [OF e d(1,3)]
  have f: "bd_lastscan d + lenf \<le> bd_scan d - lenb" "bd_scan d - lenb \<le> length new" "bd_lastpos d + lenf \<le> length old"
      "bd_pos d - lenb \<le> length old" using b d by auto
  have l: "bd_lastscan (emit old new d) = bd_scan d - lenb" "bd_lastpos (emit old new d) = bd_pos d - lenb"
    using e by (simp_all add: emit_def Let_def)
  note t = triple_applied [OF len f(1,2) d(5) f(3,4)]
  show "bd_lastscan (emit old new d) \<le> bd_scan d" "bd_lastpos (emit old new d) \<le> length old"
      "bd_scan d = length new \<longrightarrow> bd_lastscan (emit old new d) = length new"
    using l d(4) b(4) by simp_all
  show "\<forall>c b e. bspatch_spec (int (length new)) old (bd_ctrl (emit old new d) @ c) (bd_db (emit old new d) @ b) (bd_eb (emit old new d) @ e) 0 [] =
       bspatch_spec (int (length new)) old c b e (int (bd_lastpos (emit old new d))) (take (bd_lastscan (emit old new d)) new)"
    using a t e by (simp add: emit_def Let_def)
qed

lemma emit_rest: "bd_scan (emit old new d) = bd_scan d" "bd_len (emit old new d) = bd_len d" "bd_pos (emit old new d) = bd_pos d"
  by (simp_all add: emit_def Let_def split: prod.splits)

text \<open>A step keeps the invariant and moves on.\<close>

lemma bsdiff_step_emitted:
  assumes I: "index_of old I" and len: "length old < 2 ^ 30" "length new < 2 ^ 30"
    and d: "emitted old new d" "bd_scan d < length new"
  shows "emitted old new (bsdiff_step I old new d)"
    "bd_scan (bsdiff_step I old new d) < length new \<longrightarrow>
       bd_scan d + bd_len d < bd_scan (bsdiff_step I old new d) + bd_len (bsdiff_step I old new d)"
proof -
  note e = d(1) [unfolded emitted_def]
  obtain scan len' pos oldscore where s: "scan_loop I old new (bd_lastoffset d) (bd_scan d + bd_len d) (bd_scan d + bd_len d) (bd_len d) (bd_pos d) 0 =
      (scan, len', pos, oldscore)" by (metis prod_cases4)
  have b: "bd_scan d + bd_len d \<le> scan" "scan \<le> length new" "pos \<le> length old"
      "scan < length new \<longrightarrow> scan + len' \<le> length new \<and> bd_scan d + bd_len d < scan + len'"
    using scan_loop_bounds [OF I s] e d(2) by auto
  define d1 where "d1 = d\<lparr>bd_scan := scan, bd_len := len', bd_pos := pos\<rparr>"
  have st: "bsdiff_step I old new d = (if int len' \<noteq> oldscore \<or> scan = length new then emit old new d1 else d1)"
    using s by (simp add: bsdiff_step_def Let_def d1_def)
  have d1: "bd_lastscan d1 \<le> bd_scan d1" "bd_scan d1 \<le> length new" "bd_lastpos d1 \<le> length old" "bd_pos d1 \<le> length old" "bd_lastscan d1 < length new"
      "\<forall>c b e. bspatch_spec (int (length new)) old (bd_ctrl d1 @ c) (bd_db d1 @ b) (bd_eb d1 @ e) 0 [] =
              bspatch_spec (int (length new)) old c b e (int (bd_lastpos d1)) (take (bd_lastscan d1) new)"
    using e b d(2) by (auto simp: d1_def)
  note em = emit_applied [OF len d1]
  have d1s: "bd_scan d1 = scan" "bd_len d1 = len'" by (simp_all add: d1_def)
  show "emitted old new (bsdiff_step I old new d)"
  proof (cases "int len' \<noteq> oldscore \<or> scan = length new")
    case True
    then show ?thesis using em d1(2,4) b(4) unfolding st emitted_def by (simp add: emit_rest d1s)
  next
    case False
    then show ?thesis using d1 b(4) unfolding st emitted_def by (simp add: d1s)
  qed
  show "bd_scan (bsdiff_step I old new d) < length new \<longrightarrow>
       bd_scan d + bd_len d < bd_scan (bsdiff_step I old new d) + bd_len (bsdiff_step I old new d)"
    using b(4) unfolding st by (simp add: emit_rest d1s)
qed

lemma bsdiff_loop_ends:
  assumes I: "index_of old I" and len: "length old < 2 ^ 30" "length new < 2 ^ 30"
  shows "emitted old new d \<Longrightarrow> \<exists>d'. bsdiff_loop I old new d = Some d' \<and> emitted old new d' \<and> bd_scan d' = length new"
proof (induction "length new - (bd_scan d + bd_len d) + (if bd_scan d < length new then 1 else 0)" arbitrary: d rule: less_induct)
  case less
  show ?case
  proof (cases "bd_scan d < length new")
    case False
    then show ?thesis using less.prems by (auto simp: bsdiff_loop.simps [of I old new d] emitted_def)
  next
    case True
    let ?d = "bsdiff_step I old new d"
    note s = bsdiff_step_emitted [OF I len less.prems True]
    have "bd_scan d + bd_len d \<le> length new" using less.prems True by (simp add: emitted_def)
    then have "length new - (bd_scan ?d + bd_len ?d) + (if bd_scan ?d < length new then 1 else 0) <
        length new - (bd_scan d + bd_len d) + (if bd_scan d < length new then 1 else 0)"
      using s True by (auto simp: emitted_def)
    from less.hyps [OF this s(1)] show ?thesis using True by (simp add: bsdiff_loop.simps [of I old new d])
  qed
qed

section \<open>A patch produces the new file\<close>

lemma bsdiff_blocks:
  assumes "index_of old I" "length old < 2 ^ 30" "length new < 2 ^ 30"
  shows "\<exists>ctrl db eb. bsdiff bzw I old new =
      Some (BSDIFF_MAGIC @ offtout (int (length (bzw ctrl))) @ offtout (int (length (bzw db))) @ offtout (int (length new)) @ bzw ctrl @ bzw db @ bzw eb) \<and>
    bspatch_spec (int (length new)) old ctrl db eb 0 [] = Some new"
proof -
  let ?d = "\<lparr>bd_scan = 0, bd_len = 0, bd_pos = 0, bd_lastscan = 0, bd_lastpos = 0, bd_lastoffset = 0, bd_ctrl = [], bd_db = [], bd_eb = []\<rparr>"
  have "emitted old new ?d" by (simp add: emitted_def)
  then obtain d where d: "bsdiff_loop I old new ?d = Some d" "emitted old new d" "bd_scan d = length new"
    using bsdiff_loop_ends [OF assms] by blast
  have "bspatch_spec (int (length new)) old [] [] [] (int (bd_lastpos d)) new = Some new" by (simp add: bspatch_spec.simps)
  then have "bspatch_spec (int (length new)) old (bd_ctrl d) (bd_db d) (bd_eb d) 0 [] = Some new"
    using d(2,3) unfolding emitted_def by (metis append_Nil2 order_refl take_all)
  then show ?thesis using d(1) by (auto simp: bsdiff_def Let_def)
qed

text \<open>
  The documented behaviour of libbz2: the decompressor delivers what was compressed and stops at the end of it, whatever
  follows.
\<close>

definition bz_round_trip :: "(byte list \<Rightarrow> byte list) \<Rightarrow> 'z bzlib \<Rightarrow> ('z \<Rightarrow> byte list \<Rightarrow> bool) \<Rightarrow> ('z \<Rightarrow> nat) \<Rightarrow> bool" where
  "bz_round_trip bzw bz dec w \<longleftrightarrow> bz_delivers (bz_decompress bz) dec w \<and> (\<forall>plain rest. dec (bz_init bz (bzw plain @ rest)) plain)"

lemma bsdiff_form:
  assumes bz: "bz_round_trip bzw bz dec w" and I: "index_of old I" and len: "length old < 2 ^ 30" "length new < 2 ^ 30"
    and p: "bsdiff bzw I old new = Some patch" "int (length patch) < 2 ^ 31"
  shows "\<exists>ctrl db eb. patch_form bz dec (patch @ rest) (int (length new)) ctrl db eb \<and>
    bspatch_spec (int (length new)) old ctrl db eb 0 [] = Some new"
proof -
  obtain ctrl db eb where b: "patch = BSDIFF_MAGIC @ offtout (int (length (bzw ctrl))) @ offtout (int (length (bzw db))) @
        offtout (int (length new)) @ bzw ctrl @ bzw db @ bzw eb"
      "bspatch_spec (int (length new)) old ctrl db eb 0 [] = Some new"
    using bsdiff_blocks [OF I len, of bzw] p(1) by auto
  have d: "dec (bz_init bz (bzw ctrl)) ctrl" "dec (bz_init bz (bzw db)) db" "dec (bz_init bz (bzw eb @ rest)) eb"
    using bz unfolding bz_round_trip_def by (metis append_Nil2)+
  have "patch_form bz dec (patch @ rest) (int (length new)) ctrl db eb"
    unfolding patch_form_def
    by (rule exI [of _ "bzw ctrl"], rule exI [of _ "bzw db"], rule exI [of _ "bzw eb @ rest"])
      (use b(1) d p(2) len(2) in simp)
  then show ?thesis using b(2) by blast
qed

text \<open>
  C7. Patches are complete: for every index of the old file \<^verbatim>\<open>bsdiff\<close> ends with a patch, and applying that patch to
  the old file with \<^verbatim>\<open>bspatch\<close> gives exactly the new file, wherever the patch stands in a larger file.\<close>

theorem bsdiff_bspatch:
  assumes "bz_round_trip bzw bz dec w" "index_of old I" "length old < 2 ^ 30" "length new < 2 ^ 30"
    and "malloc (length new) = Some mem" "length mem = length new"
  shows "\<exists>patch. bsdiff bzw I old new = Some patch \<and>
    (int (length patch) < 2 ^ 31 \<longrightarrow>
       ApplyBSDiffPatchMem bz malloc old (pre @ patch @ rest) (length pre) = Some (Done (0, new)))"
proof -
  obtain patch where p: "bsdiff bzw I old new = Some patch"
    using bsdiff_blocks [OF assms(2-4), of bzw] by blast
  have bz: "bz_delivers (bz_decompress bz) dec w" using assms(1) by (simp add: bz_round_trip_def)
  have "ApplyBSDiffPatchMem bz malloc old (pre @ patch @ rest) (length pre) = Some (Done (0, new))"
    if small: "int (length patch) < 2 ^ 31"
  proof -
    obtain ctrl db eb where f: "patch_form bz dec (drop (length pre) (pre @ patch @ rest)) (int (length new)) ctrl db eb"
        "bspatch_spec (int (length new)) old ctrl db eb 0 [] = Some new"
      using bsdiff_form [OF assms(1-4) p small, of rest] by auto
    show ?thesis using patch_run [OF bz f(1), of malloc mem old new] f(2) assms(5,6) by simp
  qed
  with p show ?thesis by blast
qed

section \<open>An instance\<close>

text \<open>A compressor that writes a tag before each byte and one at the end.\<close>

definition tag_write :: "byte list \<Rightarrow> byte list" where
  "tag_write plain = concat (map (\<lambda>b. [1, b]) plain) @ [0]"

definition tag_bz :: "byte list bzlib" where
  "tag_bz = \<lparr>bz_init = (\<lambda>c. c), bz_decompress = (\<lambda>z n. case z of t # b # r \<Rightarrow> if t = 1 then (BZ_OK, r, [b]) else (BZ_STREAM_END, z, [])
     | _ \<Rightarrow> (BZ_STREAM_END, z, []))\<rparr>"

lemma tag_round_trip: "bz_round_trip tag_write tag_bz (\<lambda>z plain. \<exists>rest. z = tag_write plain @ rest) length"
proof -
  have "bz_delivers (bz_decompress tag_bz) (\<lambda>z plain. \<exists>rest. z = tag_write plain @ rest) length"
    unfolding bz_delivers_def bz_decodes_def
  proof (intro conjI allI impI, goal_cases)
    case (1 z plain n bzerr z' out)
    then show ?case by (cases plain) (auto simp: tag_bz_def tag_write_def split: list.splits)
  next
    case (2 z plain n bzerr z' out)
    then show ?case by (cases plain) (auto simp: tag_bz_def tag_write_def split: list.splits)
  next
    case (3 z plain n)
    then show ?case by (cases plain) (auto simp: tag_bz_def tag_write_def)
  qed
  then show ?thesis by (simp add: bz_round_trip_def tag_bz_def)
qed

theorem bsdiff_bspatch_witness:
  "\<exists>patch. bsdiff tag_write [2, 0, 1] [10, 20] [20, 10, 20] = Some patch \<and>
     (int (length patch) < 2 ^ 31 \<longrightarrow>
        ApplyBSDiffPatchMem tag_bz (\<lambda>n. Some (replicate n 0)) [10, 20] ([9] @ patch @ [8]) (length [9 :: byte]) = Some (Done (0, [20, 10, 20])))"
proof -
  have m: "Some (replicate (length [20 :: byte, 10, 20]) (0 :: byte)) = Some [0, 0, 0]"
    and l: "length [0 :: byte, 0, 0] = length [20 :: byte, 10, 20]" and I: "index_of [10, 20] [2, 0, 1]" by code_simp+
  have b: "length [10 :: byte, 20] < 2 ^ 30" "length [20 :: byte, 10, 20] < 2 ^ 30" by simp_all
  show ?thesis by (rule bsdiff_bspatch [where malloc = "\<lambda>n. Some (replicate n 0)", OF tag_round_trip I b m l])
qed

end
