(* ===== verification/Imgdiff.thy ===== *)
theory Imgdiff
  imports Imgpatch Bsdiff
begin

text \<open>
  The writer of image patches, the end of \<^verbatim>\<open>main\<close> in \<^verbatim>\<open>applypatch/imgdiff.c\<close>, and that \<^verbatim>\<open>ApplyImagePatch\<close> reads back what
  it writes: chunk by chunk the output is the target.
\<close>

section \<open>Chunks\<close>

record ImageChunk =
  ic_type :: int
  ic_start :: nat
  ic_len :: nat
  ic_source_start :: nat
  ic_source_len :: nat
  ic_deflate_len :: nat
  ic_params :: deflate_params
  ic_source_uncompressed_len :: nat

text \<open>The size of the header of a chunk, and the whole header section.\<close>

definition chunk_header_size :: "ImageChunk \<times> byte list \<Rightarrow> nat" where
  "chunk_header_size = (\<lambda>(c, patch_data).
     4 + (if ic_type c = CHUNK_NORMAL then 8 * 3
          else if ic_type c = CHUNK_DEFLATE then 8 * 5 + 4 * 5
          else if ic_type c = CHUNK_RAW then 4 + length patch_data
          else 0))"

definition total_header_size :: "(ImageChunk \<times> byte list) list \<Rightarrow> nat" where
  "total_header_size cs = foldl (\<lambda>n c. n + chunk_header_size c) 12 cs"

text \<open>The header of one chunk with the offset of its patch.\<close>

definition write_params :: "deflate_params \<Rightarrow> byte list" where
  "write_params p = Write4 (dp_level p) @ Write4 (dp_method p) @ Write4 (dp_windowBits p) @ Write4 (dp_memLevel p) @ Write4 (dp_strategy p)"

definition write_chunk :: "nat \<Rightarrow> ImageChunk \<Rightarrow> byte list \<Rightarrow> byte list" where
  "write_chunk off c patch_data =
     Write4 (ic_type c) @
     (if ic_type c = CHUNK_NORMAL
      then Write8 (int (ic_source_start c)) @ Write8 (int (ic_source_len c)) @ Write8 (int off)
      else if ic_type c = CHUNK_DEFLATE
      then Write8 (int (ic_source_start c)) @ Write8 (int (ic_source_len c)) @ Write8 (int off) @
           Write8 (int (ic_source_uncompressed_len c)) @ Write8 (int (ic_len c)) @ write_params (ic_params c)
      else if ic_type c = CHUNK_RAW then Write4 (int (length patch_data)) @ patch_data
      else [])"

fun write_headers :: "nat \<Rightarrow> (ImageChunk \<times> byte list) list \<Rightarrow> byte list" where
  "write_headers off [] = []"
| "write_headers off ((c, patch_data) # cs) =
     write_chunk off c patch_data @
     write_headers (if ic_type c = CHUNK_NORMAL \<or> ic_type c = CHUNK_DEFLATE then off + length patch_data else off) cs"

definition appended :: "(ImageChunk \<times> byte list) list \<Rightarrow> byte list" where
  "appended cs = concat (map snd (filter (\<lambda>(c, _). ic_type c \<noteq> CHUNK_RAW) cs))"

definition write_patch :: "(ImageChunk \<times> byte list) list \<Rightarrow> byte list" where
  "write_patch cs = IMGDIFF_MAGIC @ Write4 (int (length cs)) @ write_headers (total_header_size cs) cs @ appended cs"

section \<open>Hypotheses on the libraries\<close>

text \<open>A sink that takes everything; \<open>content\<close> is what it has received.\<close>

definition sink_appends :: "'t sink_fn \<Rightarrow> ('t \<Rightarrow> byte list) \<Rightarrow> bool" where
  "sink_appends sink content \<longleftrightarrow> (\<forall>bs t. fst (sink bs t) = int (length bs) \<and> content (snd (sink bs t)) = content t @ bs)"

text \<open>
  The documented behaviour of \<^verbatim>\<open>deflate\<close> with \<^verbatim>\<open>Z_FINISH\<close>, for a relation between a stream and the compressed bytes still to
  come: a call with room for output delivers the next part of them, at most as much as fits; it says that the stream has ended
  only when nothing is left; otherwise the rest is still to come, possibly no more bytes, and the call has made progress.
\<close>

definition deflates :: "'y gzlib \<Rightarrow> ('y \<Rightarrow> byte list \<Rightarrow> bool) \<Rightarrow> ('y \<Rightarrow> nat) \<Rightarrow> bool" where
  "deflates gz enc w \<longleftrightarrow>
     (\<forall>y raw n. enc y raw \<and> 0 < n \<longrightarrow>
        (\<exists>ret y' out raw'. gz_deflate gz y (Some n) = (ret, y', out) \<and> raw = out @ raw' \<and> length out \<le> n \<and>
           (ret = Z_STREAM_END \<longrightarrow> raw' = []) \<and> (ret \<noteq> Z_STREAM_END \<longrightarrow> enc y' raw' \<and> w y' < w y)))"

section \<open>Deflating\<close>

lemma deflate_loop_delivers:
  assumes gz: "deflates (ie_gz env) enc w" and sink: "sink_appends (ie_sink env) content" and n: "0 < n"
  shows "enc y raw \<Longrightarrow> \<exists>token' blks. deflate_loop env (Some n) y token (Some c) = Some (Done (True, token', Some (foldl (ie_upd env) c blks))) \<and>
    content token' = content token @ raw \<and> concat blks = raw"
proof (induction "w y" arbitrary: y raw token c rule: less_induct)
  case less
  obtain ret y' out raw' where s: "gz_deflate (ie_gz env) y (Some n) = (ret, y', out)" "raw = out @ raw'"
      "ret = Z_STREAM_END \<longrightarrow> raw' = []" "ret \<noteq> Z_STREAM_END \<longrightarrow> enc y' raw' \<and> w y' < w y"
    using gz less.prems n unfolding deflates_def by blast
  obtain k t where t: "ie_sink env out token = (k, t)" by (cases "ie_sink env out token")
  have k: "k = int (length out)" "content t = content token @ out" using sink t unfolding sink_appends_def by (metis fst_conv, metis snd_conv)
  show ?case
  proof (cases "ret = Z_STREAM_END")
    case True
    then have "deflate_loop env (Some n) y token (Some c) = Some (Done (True, t, Some (foldl (ie_upd env) c [out])))"
      using s t k by (subst deflate_loop.simps) simp
    then show ?thesis using True s(2,3) k(2) by (metis append_Nil2 concat.simps)
  next
    case False
    then obtain token' blks where r: "deflate_loop env (Some n) y' t (Some (ie_upd env c out)) = Some (Done (True, token', Some (foldl (ie_upd env) (ie_upd env c out) blks)))"
        "content token' = content t @ raw'" "concat blks = raw'"
      using less.hyps [of y' raw' t "ie_upd env c out"] s(4) by blast
    have "deflate_loop env (Some n) y token (Some c) = deflate_loop env (Some n) y' t (Some (ie_upd env c out))"
      using s t k False by (subst deflate_loop.simps) simp
    then show ?thesis using r k(2) s(2) by (intro exI [of _ token'] exI [of _ "out # blks"]) simp
  qed
qed

section \<open>Chunks that produce a part of the target\<close>

text \<open>How the generator makes the patch data of a chunk that stands for the bytes \<open>raw\<close> of the target.\<close>

definition makes :: "('z, 'y, 'h, 't) imgenv \<Rightarrow> ('y \<Rightarrow> byte list \<Rightarrow> bool) \<Rightarrow> (byte list \<Rightarrow> byte list) \<Rightarrow> byte list \<Rightarrow>
    ImageChunk \<times> byte list \<Rightarrow> byte list \<Rightarrow> bool" where
  "makes env enc bzw old = (\<lambda>(c, patch_data) raw.
     let src = take (ic_source_len c) (drop (ic_source_start c) old) in
     if ic_type c = CHUNK_RAW then patch_data = raw
     else ic_source_start c + ic_source_len c \<le> length old \<and>
       (if ic_type c = CHUNK_NORMAL
        then \<exists>I. index_of src I \<and> length raw < 2 ^ 30 \<and> bsdiff bzw I src raw = Some patch_data
        else ic_type c = CHUNK_DEFLATE \<and>
          (\<exists>I plain target. gz_inflate (ie_gz env) src (ic_source_uncompressed_len c) = (Z_STREAM_END, plain) \<and>
             length plain = ic_source_uncompressed_len c \<and> length plain < 2 ^ 30 \<and> length target < 2 ^ 30 \<and> index_of plain I \<and>
             bsdiff bzw I plain target = Some patch_data \<and> enc (gz_deflateInit (ie_gz env) (ic_params c) target) raw)))"

definition params_small :: "deflate_params \<Rightarrow> bool" where
  "params_small p \<longleftrightarrow> (\<forall>v \<in> {dp_level p, dp_method p, dp_windowBits p, dp_memLevel p, dp_strategy p}. - (2 ^ 31) \<le> v \<and> v < 2 ^ 31)"

text \<open>Memory: every request is granted.\<close>

definition grants :: "(nat \<Rightarrow> nat \<Rightarrow> byte list option) \<Rightarrow> bool" where
  "grants malloc \<longleftrightarrow> (\<forall>k n. \<exists>mem. malloc k n = Some mem \<and> length mem = n)"

lemma img_bytes_at:
  assumes "drop pos buf = h @ rest" "pos \<le> length buf" "length h = n"
  shows "img_bytes buf (int pos) (int n) = Some (Done h)"
proof -
  have "length h + length rest + pos = length buf" using arg_cong [OF assms(1), of length] assms(2) by simp
  then show ?thesis using assms by (simp add: img_bytes_def)
qed

lemma img_bytes_range: "a + n \<le> length buf \<Longrightarrow> img_bytes buf (int a) (int n) = Some (Done (take n (drop a buf)))"
  by (simp add: img_bytes_def)

lemma s32_pos: "a < 2 ^ 31 \<Longrightarrow> s32 (int a) = int a"
  by (rule s32_small) simp_all

lemma at_offset:
  assumes "drop pos patch = h @ rest" "h \<noteq> [] \<or> pos \<le> length patch"
  shows "pos + length h \<le> length patch" "drop (pos + length h) patch = rest"
proof -
  have "length h + length rest = length patch - pos" using arg_cong [OF assms(1), of length] by simp
  then show "pos + length h \<le> length patch" using assms(2) by (cases h) auto
  have "drop (length h) (drop pos patch) = rest" using assms(1) by simp
  then show "drop (pos + length h) patch = rest" by (simp add: add.commute)
qed

lemma Write_ne [simp]: "Write4 v \<noteq> []" "Write8 v \<noteq> []"
  by (simp_all add: Write4_def Write8_def)

lemma read_params_written: "params_small p \<Longrightarrow> read_params (write_params p @ r) = p"
  by (simp add: read_params_def write_params_def Read4_Write4 s32_small params_small_def)

lemma ApplyBSDiffPatch_appends:
  assumes "ApplyBSDiffPatchMem bz malloc old patch off = Some (Done (0, new))" "sink_appends sink content"
  shows "\<exists>token'. ApplyBSDiffPatch bz malloc upd old patch off sink token (Some c) = Some (Done (0, token', Some (upd c new))) \<and>
    content token' = content token @ new"
proof -
  obtain k t where t: "sink new token = (k, t)" by (cases "sink new token")
  have "k = int (length new)" "content t = content token @ new" using assms(2) t unfolding sink_appends_def by (metis fst_conv, metis snd_conv)
  then show ?thesis using assms(1) t by (simp add: ApplyBSDiffPatch_def bind_run_def)
qed

text \<open>Applying the generated patch where it stands in the file.\<close>

lemma bsdiff_at:
  assumes bz: "bz_round_trip bzw bz dec w" and I: "index_of src I" "length src < 2 ^ 30" "length raw < 2 ^ 30"
    and p: "bsdiff bzw I src raw = Some patch_data" and at: "drop off patch = patch_data @ rest" "off \<le> length patch"
    and m: "grants malloc" and l: "int (length patch) < 2 ^ 31"
  shows "ApplyBSDiffPatchMem bz (malloc k) src patch off = Some (Done (0, raw))"
proof -
  obtain mem where mem: "malloc k (length raw) = Some mem" "length mem = length raw" using m unfolding grants_def by blast
  have small: "int (length patch_data) < 2 ^ 31" using l arg_cong [OF at(1), of length] at(2) by simp
  obtain ctrl db eb where f: "patch_form bz dec (drop off patch) (int (length raw)) ctrl db eb"
      "bspatch_spec (int (length raw)) src ctrl db eb 0 [] = Some raw"
    using bsdiff_form [OF bz I p small, of rest] at(1) by auto
  have "bz_delivers (bz_decompress bz) dec w" using bz by (simp add: bz_round_trip_def)
  from patch_run [OF this f(1), of "malloc k" mem src raw] show ?thesis using f(2) mem by simp
qed

section \<open>Reading a chunk back\<close>

definition produces :: "('z, 'y, 'h, 't) imgenv \<Rightarrow> ('t \<Rightarrow> byte list) \<Rightarrow> 't \<Rightarrow> 'h \<Rightarrow> byte list \<Rightarrow> int \<Rightarrow> ('t, 'h) chunk_result \<Rightarrow> bool" where
  "produces env content token ctx raw pos r \<longleftrightarrow>
     (\<exists>token' blks. r = Some (Done (Some pos, token', Some (foldl (ie_upd env) ctx blks))) \<and>
        content token' = content token @ raw \<and> concat blks = raw)"

lemma bind_run_Some: "bind_run (Some (Done a)) f = f a"
  by (simp add: bind_run_def)

lemma read_type:
  assumes at: "drop pos patch = Write4 ty @ body" and l: "length patch < 2 ^ 31" and ty: "0 \<le> ty" "ty < 2 ^ 31"
  shows "img_chunk env old patch i (int pos) token ctx =
      (if ty = CHUNK_NORMAL then img_normal env old patch i (int (pos + 4)) token ctx
       else if ty = CHUNK_RAW then img_raw env patch (int (pos + 4)) token ctx
       else if ty = CHUNK_DEFLATE then img_deflate env old patch i (int (pos + 4)) token ctx
       else img_fail token ctx)"
    "drop (pos + 4) patch = body" "pos + 4 \<le> length patch"
proof -
  have o: "pos + 4 \<le> length patch" "drop (pos + 4) patch = body"
    using at_offset [OF at] by simp_all
  have b: "img_bytes patch (int pos) 4 = Some (Done (Write4 ty))"
    using img_bytes_at [OF at, of 4] o(1) by simp
  have s: "s32 (int pos + 4) = int (pos + 4)" using s32_pos [of "pos + 4"] o(1) l by simp
  have t: "Read4 (Write4 ty) = ty" using Read4_Write4 [of ty "[]"] ty s32_small [of ty] by simp
  show "img_chunk env old patch i (int pos) token ctx =
      (if ty = CHUNK_NORMAL then img_normal env old patch i (int (pos + 4)) token ctx
       else if ty = CHUNK_RAW then img_raw env patch (int (pos + 4)) token ctx
       else if ty = CHUNK_DEFLATE then img_deflate env old patch i (int (pos + 4)) token ctx
       else img_fail token ctx)"
    using o(1) unfolding img_chunk_def s b bind_run_Some t Let_def by simp
  show "drop (pos + 4) patch = body" "pos + 4 \<le> length patch" by (rule o(2), rule o(1))
qed

lemma raw_read_back:
  assumes at: "drop pos patch = (Write4 (int (length raw)) @ raw) @ rest" and pl: "length patch < 2 ^ 31"
    and sink: "sink_appends (ie_sink env) content"
  shows "produces env content token c raw (int (pos + (4 + length raw))) (img_raw env patch (int pos) token (Some c))"
proof -
  have at': "drop pos patch = Write4 (int (length raw)) @ raw @ rest" using at by simp
  have p4: "pos + 4 \<le> length patch" "drop (pos + 4) patch = raw @ rest"
    using at_offset [OF at'] by simp_all
  have p: "pos + (4 + length raw) \<le> length patch" using at_offset [OF at] by simp
  have b: "img_bytes patch (int pos) 4 = Some (Done (Write4 (int (length raw))))"
    using img_bytes_at [OF at', of 4] p4(1) by simp
  have d: "img_bytes patch (int (pos + 4)) (int (length raw)) = Some (Done raw)"
    using img_bytes_at [OF p4(2)] p4(1) by simp
  have s: "s32 (int pos + 4) = int (pos + 4)" "s32 (int (pos + 4) + int (length raw)) = int (pos + (4 + length raw))"
    using s32_pos [of "pos + 4"] s32_pos [of "pos + (4 + length raw)"] p p4(1) pl by (simp_all add: add.assoc)
  have t: "Read4 (Write4 (int (length raw))) = int (length raw)"
    using Read4_Write4 [of _ "[]"] s32_pos [of "length raw"] p pl by simp
  obtain k tk where tk: "ie_sink env raw token = (k, tk)" by (cases "ie_sink env raw token")
  have k: "k = int (length raw)" "content tk = content token @ raw" using sink tk unfolding sink_appends_def by (metis fst_conv, metis snd_conv)
  have "img_raw env patch (int pos) token (Some c) = Some (Done (Some (int (pos + (4 + length raw))), tk, Some (foldl (ie_upd env) c [raw])))"
    using p4(1) p tk k(1) unfolding img_raw_def Let_def s b bind_run_Some t d by (simp add: img_fail_def)
  moreover have "concat [raw] = raw" by simp
  ultimately show ?thesis using k(2) unfolding produces_def by blast
qed

lemma normal_read_back:
  assumes at: "drop pos patch = (Write8 (int a) @ Write8 (int n) @ Write8 (int off)) @ rest" and pl: "length patch < 2 ^ 31"
    and src: "a + n \<le> length old" "length old < 2 ^ 30" and off: "off \<le> length patch"
    and run: "ApplyBSDiffPatchMem (ie_bz env) (ie_malloc env (3 * i + 1)) (take n (drop a old)) patch off = Some (Done (0, raw))"
    and sink: "sink_appends (ie_sink env) content"
  shows "produces env content token c raw (int (pos + 24)) (img_normal env old patch i (int pos) token (Some c))"
proof -
  define h where "h = Write8 (int a) @ Write8 (int n) @ Write8 (int off)"
  have p: "pos + 24 \<le> length patch" using at_offset [OF at] by simp
  have b: "img_bytes patch (int pos) 24 = Some (Done h)"
    using img_bytes_at [OF at, of 24] p by (simp add: h_def)
  have s: "s32 (int pos + 24) = int (pos + 24)" using s32_pos [of "pos + 24"] p pl by simp
  have f: "size_of (Read8 h) = a" "size_of (Read8 (drop 8 h)) = n" "size_of (Read8 (drop 16 h)) = off"
    using size_of_Write8 [of a] size_of_Write8 [of n] size_of_Write8 [of off "[]"] src off pl by (simp_all add: h_def)
  obtain token' where t: "ApplyBSDiffPatch (ie_bz env) (ie_malloc env (3 * i + 1)) (ie_upd env) (take n (drop a old)) patch off (ie_sink env) token (Some c) =
      Some (Done (0, token', Some (ie_upd env c raw)))" "content token' = content token @ raw"
    using ApplyBSDiffPatch_appends [OF run sink, of "ie_upd env" token c] by blast
  have "img_normal env old patch i (int pos) token (Some c) = Some (Done (Some (int (pos + 24)), token', Some (foldl (ie_upd env) c [raw])))"
    using p unfolding img_normal_def Let_def s b bind_run_Some f img_bytes_range [OF src(1)] t(1) by simp
  moreover have "concat [raw] = raw" by simp
  ultimately show ?thesis using t(2) unfolding produces_def by blast
qed

lemma deflate_read_back:
  assumes at: "drop pos patch = (Write8 (int a) @ Write8 (int n) @ Write8 (int off) @ Write8 (int (length plain)) @ Write8 (int len) @ write_params ps) @ rest"
    and pl: "length patch < 2 ^ 31" and ps: "params_small ps" and small: "length plain < 2 ^ 30"
    and src: "a + n \<le> length old" "length old < 2 ^ 30" and off: "off \<le> length patch"
    and inf: "gz_inflateInit (ie_gz env)" "gz_inflate (ie_gz env) (take n (drop a old)) (length plain) = (Z_STREAM_END, plain)"
    and run: "ApplyBSDiffPatchMem (ie_bz env) (ie_malloc env (3 * i + 1)) plain patch off = Some (Done (0, target))"
    and enc: "deflates (ie_gz env) enc w" "enc (gz_deflateInit (ie_gz env) ps target) raw"
    and sink: "sink_appends (ie_sink env) content" and m: "grants (ie_malloc env)"
  shows "produces env content token c raw (int (pos + 60)) (img_deflate env old patch i (int pos) token (Some c))"
proof -
  define h where "h = Write8 (int a) @ Write8 (int n) @ Write8 (int off) @ Write8 (int (length plain)) @ Write8 (int len) @ write_params ps"
  have pw: "length (write_params ps) = 20" by (simp add: write_params_def)
  have p: "pos + 60 \<le> length patch" using at_offset [OF at] pw by simp
  have b: "img_bytes patch (int pos) 60 = Some (Done h)"
    using img_bytes_at [OF at, of 60] p pw by (simp add: h_def)
  have s: "s32 (int pos + 60) = int (pos + 60)" using s32_pos [of "pos + 60"] p pl by simp
  have f: "size_of (Read8 h) = a" "size_of (Read8 (drop 8 h)) = n" "size_of (Read8 (drop 16 h)) = off"
      "size_of (Read8 (drop 24 h)) = length plain" "read_params (drop 40 h) = ps"
    using size_of_Write8 [of a] size_of_Write8 [of n] size_of_Write8 [of off] size_of_Write8 [of "length plain"] src off pl small
      read_params_written [OF ps, of "[]"] by (simp_all add: h_def)
  obtain mem where mem: "ie_malloc env (3 * i) (length plain) = Some mem" using m unfolding grants_def by blast
  obtain mem2 where mem2: "ie_malloc env (3 * i + 2) 32768 = Some mem2" using m unfolding grants_def by blast
  have r: "\<exists>n>0. temp_room env i (length plain) = Some n"
    using mem2 s32_pos [of "length plain"] small by (auto simp: temp_room_def)
  then obtain room where room: "0 < room" "temp_room env i (length plain) = Some room" by blast
  obtain token' blks where t: "deflate_loop env (Some room) (gz_deflateInit (ie_gz env) ps target) token (Some c) =
      Some (Done (True, token', Some (foldl (ie_upd env) c blks)))" "content token' = content token @ raw" "concat blks = raw"
    using deflate_loop_delivers [OF enc(1) sink room(1) enc(2)] by blast
  have "img_deflate env old patch i (int pos) token (Some c) = Some (Done (Some (int (pos + 60)), token', Some (foldl (ie_upd env) c blks)))"
    using p inf(1) mem unfolding img_deflate_def Let_def s b bind_run_Some f img_bytes_range [OF src(1)] inf(2) run
    by (simp add: run [simplified] bind_run_Some img_recompress_def room(2) t(1))
  then show ?thesis using t(2,3) unfolding produces_def by blast
qed

section \<open>Reading a patch back\<close>

text \<open>The documented behaviour of the libraries, and memory, together.\<close>

definition img_libs :: "('z, 'y, 'h, 't) imgenv \<Rightarrow> (byte list \<Rightarrow> byte list) \<Rightarrow> ('y \<Rightarrow> byte list \<Rightarrow> bool) \<Rightarrow> ('t \<Rightarrow> byte list) \<Rightarrow> bool" where
  "img_libs env bzw enc content \<longleftrightarrow>
     (\<exists>dec w. bz_round_trip bzw (ie_bz env) dec w) \<and> (\<exists>w. deflates (ie_gz env) enc w) \<and> gz_inflateInit (ie_gz env) \<and>
     grants (ie_malloc env) \<and> sink_appends (ie_sink env) content"

lemmas chunk_types = CHUNK_NORMAL_def CHUNK_DEFLATE_def CHUNK_RAW_def

lemma chunk_read_back:
  assumes lib: "img_libs env bzw enc content" and mk: "makes env enc bzw old (c, patch_data) raw" and ps: "params_small (ic_params c)"
    and len: "length old < 2 ^ 30" "length patch < 2 ^ 31"
    and at: "drop pos patch = write_chunk off c patch_data @ rest"
    and data: "ic_type c \<noteq> CHUNK_RAW \<longrightarrow> drop off patch = patch_data @ rest' \<and> off \<le> length patch"
  shows "produces env content token ctx raw (int (pos + length (write_chunk off c patch_data))) (img_chunk env old patch i (int pos) token (Some ctx))"
proof -
  obtain dec w where bz: "bz_round_trip bzw (ie_bz env) dec w" using lib unfolding img_libs_def by blast
  obtain w' where df: "deflates (ie_gz env) enc w'" using lib unfolding img_libs_def by blast
  have l: "gz_inflateInit (ie_gz env)" "grants (ie_malloc env)" "sink_appends (ie_sink env) content"
    using lib by (auto simp: img_libs_def)
  let ?src = "take (ic_source_len c) (drop (ic_source_start c) old)"
  have pl: "int (length patch) < 2 ^ 31" using len(2) by simp
  consider (raw) "ic_type c = CHUNK_RAW" | (normal) "ic_type c = CHUNK_NORMAL" | (deflate) "ic_type c = CHUNK_DEFLATE"
    using mk by (auto simp: makes_def Let_def split: if_splits)
  then show ?thesis
  proof cases
    case raw
    then have r: "patch_data = raw" and wc: "write_chunk off c patch_data = Write4 CHUNK_RAW @ Write4 (int (length raw)) @ raw"
      using mk by (auto simp: makes_def write_chunk_def chunk_types)
    note t = read_type [OF at [unfolded wc append_assoc] len(2), unfolded chunk_types, simplified]
    show ?thesis using raw_read_back [of "pos + 4" patch raw rest env content token ctx] t(2) l(3) len(2) wc
      by (simp add: t(1) chunk_types add.assoc)
  next
    case normal
    obtain I where b: "index_of ?src I" "length raw < 2 ^ 30" "bsdiff bzw I ?src raw = Some patch_data"
        and s: "ic_source_start c + ic_source_len c \<le> length old"
      using mk normal by (auto simp: makes_def Let_def chunk_types)
    have d: "drop off patch = patch_data @ rest'" "off \<le> length patch" using data normal by (simp_all add: chunk_types)
    have ls: "length ?src < 2 ^ 30" using s len(1) by simp
    note run = bsdiff_at [OF bz b(1) ls b(2,3) d l(2) pl]
    have wc: "write_chunk off c patch_data = Write4 CHUNK_NORMAL @ Write8 (int (ic_source_start c)) @ Write8 (int (ic_source_len c)) @ Write8 (int off)"
      using normal by (simp add: write_chunk_def)
    note t = read_type [OF at [unfolded wc append_assoc] len(2), unfolded chunk_types, simplified]
    show ?thesis using normal_read_back [of "pos + 4" patch "ic_source_start c" "ic_source_len c" off rest old env i raw content token ctx]
        t(2) l(3) len s d(2) run wc by (simp add: t(1) chunk_types ac_simps)
  next
    case deflate
    obtain I plain target where b: "gz_inflate (ie_gz env) ?src (ic_source_uncompressed_len c) = (Z_STREAM_END, plain)"
        "length plain = ic_source_uncompressed_len c" "length plain < 2 ^ 30" "length target < 2 ^ 30" "index_of plain I"
        "bsdiff bzw I plain target = Some patch_data" "enc (gz_deflateInit (ie_gz env) (ic_params c) target) raw"
        and s: "ic_source_start c + ic_source_len c \<le> length old"
      using mk deflate by (auto simp: makes_def Let_def chunk_types)
    have d: "drop off patch = patch_data @ rest'" "off \<le> length patch" using data deflate by (simp_all add: chunk_types)
    note run = bsdiff_at [OF bz b(5,3,4,6) d l(2) pl]
    have wc: "write_chunk off c patch_data = Write4 CHUNK_DEFLATE @ Write8 (int (ic_source_start c)) @ Write8 (int (ic_source_len c)) @ Write8 (int off) @
        Write8 (int (length plain)) @ Write8 (int (ic_len c)) @ write_params (ic_params c)"
      using deflate b(2) by (simp add: write_chunk_def chunk_types)
    have pw: "length (write_params (ic_params c)) = 20" by (simp add: write_params_def)
    note t = read_type [OF at [unfolded wc append_assoc] len(2), unfolded chunk_types, simplified]
    have "produces env content token ctx raw (int (pos + 4 + 60)) (img_deflate env old patch i (int (pos + 4)) token (Some ctx))"
      by (rule deflate_read_back [OF _ len(2) ps b(3) s len(1) d(2) l(1) _ run df b(7) l(3,2)]) (use t(2) b(1,2) in simp_all)
    then show ?thesis using wc pw by (simp add: t(1) chunk_types ac_simps)
  qed
qed

text \<open>The rest of the headers and the rest of the appended patches.\<close>

lemma loop_read_back:
  assumes lib: "img_libs env bzw enc content" and len: "length old < 2 ^ 30" "length patch < 2 ^ 31"
  shows "list_all2 (makes env enc bzw old) cs raws \<Longrightarrow> \<forall>c \<in> set cs. params_small (ic_params (fst c)) \<Longrightarrow>
    drop pos patch = write_headers off cs @ rest \<Longrightarrow> drop off patch = appended cs \<Longrightarrow> off \<le> length patch \<Longrightarrow>
    \<exists>token' blks. img_loop env old patch (length cs) i (int pos) token (Some ctx) =
        Some (Done (0, token', Some (foldl (ie_upd env) ctx blks))) \<and>
      content token' = content token @ concat raws \<and> concat blks = concat raws"
proof (induction cs arbitrary: raws pos off i token ctx)
  case Nil
  then show ?case by (auto intro: exI [of _ "[]"])
next
  case (Cons cd cs)
  obtain c d where cd: "cd = (c, d)" by (cases cd)
  obtain raw raws' where r: "raws = raw # raws'" "makes env enc bzw old (c, d) raw" "list_all2 (makes env enc bzw old) cs raws'"
    using Cons.prems(1) cd by (auto simp: list_all2_Cons1)
  have ty: "ic_type c = CHUNK_RAW \<or> ic_type c = CHUNK_NORMAL \<or> ic_type c = CHUNK_DEFLATE"
    using r(2) by (auto simp: makes_def Let_def split: if_splits)
  define off' where "off' = (if ic_type c = CHUNK_NORMAL \<or> ic_type c = CHUNK_DEFLATE then off + length d else off)"
  have at: "drop pos patch = write_chunk off c d @ write_headers off' cs @ rest"
    using Cons.prems(3) by (simp add: cd off'_def)
  have ne: "write_chunk off c d \<noteq> []" by (simp add: write_chunk_def)
  have at': "drop (pos + length (write_chunk off c d)) patch = write_headers off' cs @ rest"
    using at_offset [OF at] ne by simp
  have ap: "appended (cd # cs) = (if ic_type c = CHUNK_RAW then appended cs else d @ appended cs)"
    by (simp add: appended_def cd)
  have off': "drop off' patch = appended cs" "off' \<le> length patch"
    using Cons.prems(4,5) ty ap at_offset [of off patch d "appended cs"] by (auto simp: off'_def chunk_types split: if_splits)
  have data: "ic_type c \<noteq> CHUNK_RAW \<longrightarrow> drop off patch = d @ appended cs \<and> off \<le> length patch"
    using Cons.prems(4,5) ap by simp
  have ps: "params_small (ic_params c)" "\<forall>c \<in> set cs. params_small (ic_params (fst c))" using Cons.prems(2) cd by auto
  obtain t b where p: "img_chunk env old patch i (int pos) token (Some ctx) =
        Some (Done (Some (int (pos + length (write_chunk off c d))), t, Some (foldl (ie_upd env) ctx b)))"
      "content t = content token @ raw" "concat b = raw"
    using chunk_read_back [OF lib r(2) ps(1) len at data] unfolding produces_def by blast
  obtain t' b' where q: "img_loop env old patch (length cs) (i + 1) (int (pos + length (write_chunk off c d))) t (Some (foldl (ie_upd env) ctx b)) =
        Some (Done (0, t', Some (foldl (ie_upd env) (foldl (ie_upd env) ctx b) b')))" "content t' = content t @ concat raws'" "concat b' = concat raws'"
    using Cons.IH [OF r(3) ps(2) at' off'] by blast
  have "img_loop env old patch (length (cd # cs)) i (int pos) token (Some ctx) = Some (Done (0, t', Some (foldl (ie_upd env) ctx (b @ b'))))"
    using p(1) q(1) by (simp add: bind_run_Some)
  then show ?case using p(2,3) q(2,3) r(1) by (intro exI [of _ t'] exI [of _ "b @ b'"]) simp
qed

lemma total_header_size_sum: "total_header_size cs = 12 + sum_list (map chunk_header_size cs)"
proof -
  have "foldl (\<lambda>n c. n + chunk_header_size c) a cs = a + sum_list (map chunk_header_size cs)" for a
    by (induction cs arbitrary: a) simp_all
  then show ?thesis by (simp add: total_header_size_def)
qed

lemma write_headers_length: "length (write_headers off cs) = sum_list (map chunk_header_size cs)"
  by (induction off cs rule: write_headers.induct) (simp_all add: write_chunk_def write_params_def chunk_header_size_def chunk_types)

text \<open>
  C8. An image patch produces the target: for chunks whose patches were made by \<^verbatim>\<open>bsdiff\<close> from ranges of the source (for
  deflated chunks from the inflated ranges, where deflating the target with the recorded parameters gives the chunk),
  \<^verbatim>\<open>ApplyImagePatch\<close> on the file that \<^verbatim>\<open>imgdiff\<close> writes returns 0, has sent exactly the concatenated target chunks to the sink, and
  has hashed exactly these bytes.  Memory is granted, the sink takes everything, sizes are below \<open>2 ^ 30\<close>.\<close>

theorem image_patch_target:
  assumes "img_libs env bzw enc content" "list_all2 (makes env enc bzw old) cs raws"
    and "\<forall>c \<in> set cs. params_small (ic_params (fst c))" "length old < 2 ^ 30" "length (write_patch cs) < 2 ^ 31"
  shows "\<exists>token' blks. ApplyImagePatch env old (write_patch cs) token (Some ctx) =
      Some (Done (0, token', Some (foldl (ie_upd env) ctx blks))) \<and>
    content token' = content token @ concat raws \<and> concat blks = concat raws"
proof -
  let ?p = "write_patch cs"
  have m: "length IMGDIFF_MAGIC = 8" by (simp add: IMGDIFF_MAGIC_def)
  have hd: "drop 12 ?p = write_headers (total_header_size cs) cs @ appended cs"
    by (simp add: write_patch_def m)
  have len: "length ?p = total_header_size cs + length (appended cs)"
    by (simp add: write_patch_def m total_header_size_sum write_headers_length)
  have ap: "drop (total_header_size cs) ?p = appended cs" "total_header_size cs \<le> length ?p"
    using len by (simp_all add: write_patch_def m total_header_size_sum write_headers_length)
  have "length cs \<le> sum_list (map chunk_header_size cs)"
    by (induction cs) (auto simp: chunk_header_size_def)
  then have n: "length cs < 2 ^ 31" using assms(5) len by (simp add: total_header_size_sum)
  have k: "nat (Read4 (drop 8 ?p)) = length cs"
    using Read4_Write4 [of "int (length cs)"] s32_pos [OF n] by (simp add: write_patch_def m)
  have "ApplyImagePatch env old ?p token (Some ctx) = img_loop env old ?p (length cs) 0 (int 12) token (Some ctx)"
    using len k by (simp add: ApplyImagePatch_def total_header_size_sum) (simp add: write_patch_def m)
  then show ?thesis using loop_read_back [OF assms(1,4,5,2,3) hd ap, of 0 token ctx] by simp
qed

section \<open>Errors\<close>

text \<open>
  C40. The result of patching a normal chunk is not looked at: when the patch of the only chunk of an image is corrupt,
  \<^verbatim>\<open>ApplyImagePatch\<close> writes nothing and still returns 0.\<close>

theorem failed_chunk_ignored:
  assumes "ic_type c = CHUNK_NORMAL" "ic_source_start c + ic_source_len c \<le> length old" "length old < 2 ^ 30"
    and "length (write_patch [(c, d)]) < 2 ^ 31" "8 \<le> length d" "take 8 d \<noteq> BSDIFF_MAGIC"
  shows "ApplyImagePatch env old (write_patch [(c, d)]) token ctx = Some (Done (0, token, ctx))"
proof -
  let ?p = "write_patch [(c, d)]"
  define h where "h = Write8 (int (ic_source_start c)) @ Write8 (int (ic_source_len c)) @ Write8 (int 40)"
  have m: "length IMGDIFF_MAGIC = 8" by (simp add: IMGDIFF_MAGIC_def)
  have p: "?p = IMGDIFF_MAGIC @ Write4 1 @ (Write4 CHUNK_NORMAL @ h) @ d"
    using assms(1) by (simp add: h_def write_patch_def appended_def write_chunk_def total_header_size_def chunk_header_size_def chunk_types)
  have l: "length ?p = 40 + length d" unfolding p by (simp add: m h_def)
  have at: "drop 12 ?p = Write4 CHUNK_NORMAL @ h @ d" unfolding p by (simp add: m)
  note t = read_type [OF at assms(4), unfolded chunk_types, simplified]
  have b: "img_bytes ?p 16 24 = Some (Done h)"
    using img_bytes_at [of 16 ?p h d 24] t(2) l by (simp add: h_def)
  have f: "size_of (Read8 h) = ic_source_start c" "size_of (Read8 (drop 8 h)) = ic_source_len c" "size_of (Read8 (drop 16 h)) = 40"
    using size_of_Write8 [of "ic_source_start c"] size_of_Write8 [of "ic_source_len c"] size_of_Write8 [of 40 "[]"] assms(2,3) by (simp_all add: h_def)
  have "drop 40 ?p = d" unfolding p by (simp add: m h_def)
  then have bad: "ApplyBSDiffPatchMem (ie_bz env) malloc src ?p 40 = Some (Done (1, []))" for malloc src
    using assms(5,6) by (simp add: ApplyBSDiffPatchMem_def)
  have "img_normal env old ?p 0 16 token ctx = Some (Done (Some 40, token, ctx))"
    using l s32_pos [of 40] unfolding img_normal_def Let_def
    by (simp add: b bind_run_Some f img_bytes_range [OF assms(2)] ApplyBSDiffPatch_def bad)
  then have "img_chunk env old ?p 0 12 token ctx = Some (Done (Some 40, token, ctx))" using t(1) [of env old 0 token ctx] by simp
  moreover have "Read4 (drop 8 ?p) = 1" unfolding p using Read4_Write4 [of 1] by (simp add: m s32_small)
  moreover have "take 8 ?p = IMGDIFF_MAGIC" unfolding p by (simp add: m)
  ultimately show ?thesis using l by (simp add: ApplyImagePatch_def bind_run_Some)
qed

text \<open>
  The result of \<^verbatim>\<open>deflateInit2\<close> is not looked at and the loop only ends at the end of the stream: with parameters that zlib
  rejects, so that every call of \<^verbatim>\<open>deflate\<close> fails without output, the function never returns.\<close>

theorem rejected_parameters_loop:
  assumes "\<forall>room. gz_deflate (ie_gz env) (gz_deflateInit (ie_gz env) params target) room = (err, gz_deflateInit (ie_gz env) params target, [])"
    and "err \<noteq> Z_STREAM_END" "\<forall>t. ie_sink env [] t = (0, t)"
  shows "img_recompress env i expanded_len params target pos token (Some c) = None"
proof -
  define y where "y = gz_deflateInit (ie_gz env) params target"
  have "deflate_loop env room y token (Some c) = None" for room
  proof (rule ccontr)
    assume "deflate_loop env room y token (Some c) \<noteq> None"
    then obtain r where r: "deflate_loop env room y token (Some c) = Some r" by blast
    have "env = env \<longrightarrow> y = y \<longrightarrow> (\<exists>c'. Some c = Some c') \<longrightarrow> False"
    proof (rule deflate_loop.raw_induct [where P = "\<lambda>e room z t x r. e = env \<longrightarrow> z = y \<longrightarrow> (\<exists>c'. x = Some c') \<longrightarrow> False", OF _ r], goal_cases)
      case (1 loop e room z t x r)
      show ?case
      proof (intro impI, elim exE)
        fix c' assume e: "e = env" "z = y" "x = Some c'"
        have "loop env room y t (Some (ie_upd env c' [])) = Some r"
          using 1(2) assms unfolding e y_def [symmetric] by simp
        from 1(1) [OF this] show False by simp
      qed
    qed
    then show False by simp
  qed
  then show ?thesis by (simp add: img_recompress_def y_def [symmetric] bind_run_def)
qed

section \<open>Instances\<close>

text \<open>
  A zlib that stores the data, and only ends the stream in a call that had room for more, and a sink and a hash context that collect the bytes.
\<close>

definition stored_gz :: "byte list gzlib" where
  "stored_gz = \<lparr>gz_inflateInit = True, gz_inflate = (\<lambda>src n. (Z_STREAM_END, src)), gz_deflateInit = (\<lambda>p t. t),
     gz_deflate = (\<lambda>y room. case room of
       None \<Rightarrow> (Z_STREAM_END, [], y)
     | Some n \<Rightarrow> if length y < n then (Z_STREAM_END, [], y) else (0, drop n y, take n y))\<rparr>"

definition sample_env :: "(byte list, byte list, byte list, byte list) imgenv" where
  "sample_env = \<lparr>ie_bz = tag_bz, ie_gz = stored_gz, ie_malloc = (\<lambda>k n. Some (replicate n 0)), ie_upd = (@),
     ie_sink = (\<lambda>bs t. (int (length bs), t @ bs))\<rparr>"

lemma sample_libs: "img_libs sample_env tag_write (=) (\<lambda>t. t)"
  unfolding img_libs_def
proof (intro conjI)
  show "\<exists>dec w. bz_round_trip tag_write (ie_bz sample_env) dec w"
    using tag_round_trip by (auto simp: sample_env_def)
  show "\<exists>w. deflates (ie_gz sample_env) (=) w"
    by (rule exI [of _ length]) (auto simp: deflates_def sample_env_def stored_gz_def Z_STREAM_END_def)
qed (simp_all add: sample_env_def stored_gz_def grants_def sink_appends_def)

definition sample_chunk :: "int \<Rightarrow> ImageChunk" where
  "sample_chunk ty = \<lparr>ic_type = ty, ic_start = 0, ic_len = 3, ic_source_start = 1, ic_source_len = 2, ic_deflate_len = 3,
     ic_params = \<lparr>dp_level = 6, dp_method = 8, dp_windowBits = -15, dp_memLevel = 8, dp_strategy = 0\<rparr>, ic_source_uncompressed_len = 2\<rparr>"

definition sample_bsdiff :: "byte list" where
  "sample_bsdiff = the (bsdiff tag_write [2, 0, 1] [10, 20] [20, 10, 20])"

definition sample_chunks :: "(ImageChunk \<times> byte list) list" where
  "sample_chunks = [(sample_chunk CHUNK_RAW, [1, 2, 3]), (sample_chunk CHUNK_NORMAL, sample_bsdiff), (sample_chunk CHUNK_DEFLATE, sample_bsdiff)]"

lemma sample_bsdiff: "bsdiff tag_write [2, 0, 1] [10, 20] [20, 10, 20] = Some sample_bsdiff"
proof -
  have i: "index_of [10, 20] [2, 0, 1]" by code_simp
  have "\<exists>p. bsdiff tag_write [2, 0, 1] [10, 20] [20, 10, 20] = Some p"
    using bsdiff_blocks [OF i, of "[20, 10, 20]" tag_write] by auto
  then show ?thesis by (auto simp: sample_bsdiff_def)
qed

lemma sample_makes:
  "list_all2 (makes sample_env (=) tag_write [9, 10, 20, 9]) sample_chunks [[1, 2, 3], [20, 10, 20], [20, 10, 20]]"
proof -
  have i: "index_of [10, 20] [2, 0, 1]" by code_simp
  have "makes sample_env (=) tag_write [9, 10, 20, 9] (sample_chunk ty, sample_bsdiff) [20, 10, 20]" if "ty \<in> {CHUNK_NORMAL, CHUNK_DEFLATE}" for ty
    using that sample_bsdiff i
    by (auto simp: makes_def sample_chunk_def sample_env_def stored_gz_def chunk_types Let_def intro!: exI [of _ "[2, 0, 1]"])
  then show ?thesis by (simp add: sample_chunks_def) (simp add: makes_def sample_chunk_def)
qed

theorem image_patch_target_witness:
  "\<exists>token' blks. ApplyImagePatch sample_env [9, 10, 20, 9] (write_patch sample_chunks) [] (Some []) =
      Some (Done (0, token', Some (foldl (ie_upd sample_env) [] blks))) \<and>
    token' = [] @ concat [[1, 2, 3], [20, 10, 20], [20, 10, 20]] \<and> concat blks = concat [[1, 2, 3], [20, 10, 20], [20, 10, 20]]"
proof -
  have "length (write_patch sample_chunks) < 1000" by code_simp
  then have l: "length (write_patch sample_chunks) < 2 ^ 31" by simp
  have p: "\<forall>c \<in> set sample_chunks. params_small (ic_params (fst c))"
    by (simp add: sample_chunks_def sample_chunk_def params_small_def)
  show ?thesis by (rule image_patch_target [OF sample_libs sample_makes p _ l]) simp
qed

theorem failed_chunk_ignored_witness:
  "ApplyImagePatch sample_env [9, 10, 20, 9] (write_patch [(sample_chunk CHUNK_NORMAL, [0, 0, 0, 0, 0, 0, 0, 0])]) [] (Some []) =
     Some (Done (0, [], Some []))"
proof -
  let ?d = "[0, 0, 0, 0, 0, 0, 0, 0] :: byte list"
  have "length (write_patch [(sample_chunk CHUNK_NORMAL, ?d)]) < 100" "take 8 ?d \<noteq> BSDIFF_MAGIC" by code_simp+
  then show ?thesis
    using failed_chunk_ignored [of "sample_chunk CHUNK_NORMAL" "[9, 10, 20, 9]" ?d sample_env "[]" "Some []"]
    by (simp add: sample_chunk_def)
qed

definition rejecting_env :: "(byte list, byte list, byte list, byte list) imgenv" where
  "rejecting_env = sample_env\<lparr>ie_gz := stored_gz\<lparr>gz_deflate := (\<lambda>y room. (-2, y, []))\<rparr>\<rparr>"

theorem rejected_parameters_loop_witness:
  "img_recompress rejecting_env 0 2 (ic_params (sample_chunk CHUNK_DEFLATE)) [1] 72 [] (Some []) = None"
  by (rule rejected_parameters_loop [where err = "-2"])
    (simp_all add: rejecting_env_def sample_env_def stored_gz_def Z_STREAM_END_def)

end
