(* ===== verification/Minzip_DirUtil.thy ===== *)
theory Minzip_DirUtil
  imports C_Library "HOL-Library.Sublist"
begin

text \<open>
  Directory trees, \<^verbatim>\<open>minzip/DirUtil.c\<close>.  The system calls are a parameter: a record of functions on an
  abstract file system state.  Calls that only look return a value, calls that change the file
  system return whether they succeeded together with the new state.  An open directory is
  represented by the names that \<^verbatim>\<open>readdir\<close> will deliver and a flag for an error at their end.
\<close>

section \<open>System calls\<close>

datatype file_kind = K_dir | K_link | K_other

datatype stat_result = St file_kind | St_err int

record 's dirops =
  px_stat :: "string \<Rightarrow> 's \<Rightarrow> stat_result"
  px_lstat :: "string \<Rightarrow> 's \<Rightarrow> stat_result"
  px_mkdir :: "string \<Rightarrow> int \<Rightarrow> 's \<Rightarrow> bool \<times> 's"
  px_utime :: "string \<Rightarrow> int \<Rightarrow> 's \<Rightarrow> bool \<times> 's"
  px_unlink :: "string \<Rightarrow> 's \<Rightarrow> bool \<times> 's"
  px_rmdir :: "string \<Rightarrow> 's \<Rightarrow> bool \<times> 's"
  px_opendir :: "string \<Rightarrow> 's \<Rightarrow> (string list \<times> bool) option"
  px_closedir :: "string \<Rightarrow> 's \<Rightarrow> bool"
  px_chown :: "string \<Rightarrow> int \<Rightarrow> int \<Rightarrow> 's \<Rightarrow> bool \<times> 's"
  px_chmod :: "string \<Rightarrow> int \<Rightarrow> 's \<Rightarrow> bool \<times> 's"

definition ENOENT :: int where "ENOENT = 2"

definition DN_MAX :: nat where "DN_MAX = 4096"

section \<open>Creating a hierarchy\<close>

datatype DirStatus = DMISSING | DDIR | DILLEGAL

definition getPathDirStatus :: "'s dirops \<Rightarrow> string \<Rightarrow> 's \<Rightarrow> DirStatus" where
  "getPathDirStatus px path s =
     (case px_stat px path s of
        St k \<Rightarrow> if k = K_dir then DDIR else DILLEGAL
      | St_err e \<Rightarrow> if e \<noteq> ENOENT then DILLEGAL else DMISSING)"

text \<open>The index of the last slash at or before \<open>i\<close>; reaching the start of the path is \<open>None\<close>.\<close>

fun strip_index :: "string \<Rightarrow> nat \<Rightarrow> nat option" where
  "strip_index path 0 = None"
| "strip_index path (Suc i) = (if path ! Suc i = CHR ''/'' then Some (Suc i) else strip_index path i)"

text \<open>Checking one component and making it if it is missing.\<close>

definition make_level :: "'s dirops \<Rightarrow> int \<Rightarrow> int option \<Rightarrow> string \<Rightarrow> 's \<Rightarrow> bool \<times> 's" where
  "make_level px mode timestamp cpath s =
     (case getPathDirStatus px cpath s of
        DILLEGAL \<Rightarrow> (False, s)
      | DDIR \<Rightarrow> (True, s)
      | DMISSING \<Rightarrow>
          (let (ok, s) = px_mkdir px cpath mode s
           in if \<not> ok then (False, s)
              else (case timestamp of None \<Rightarrow> (True, s) | Some t \<Rightarrow> px_utime px cpath t s)))"

text \<open>
  The walk from the root: \<open>pre\<close> is the part of the path before the pointer, \<open>rest\<close> the part from it.
  \<open>None\<close> is a component without a slash behind it, where the search would run past the end.
\<close>

lemma dropWhile_component:
  "dropWhile (\<lambda>c. c = a) xs \<noteq> [] \<Longrightarrow> length (dropWhile (\<lambda>c. c \<noteq> a) (dropWhile (\<lambda>c. c = a) xs)) < length xs"
proof (induction xs)
  case (Cons x xs)
  then show ?case using length_dropWhile_le [of "\<lambda>c. c \<noteq> a" xs] by (cases "x = a") (auto simp: less_Suc_eq_le)
qed simp

function make_levels :: "'s dirops \<Rightarrow> int \<Rightarrow> int option \<Rightarrow> string \<Rightarrow> string \<Rightarrow> 's \<Rightarrow> (bool \<times> 's) option" where
  "make_levels px mode timestamp pre rest s =
     (let slashes = takeWhile (\<lambda>c. c = CHR ''/'') rest; rest = dropWhile (\<lambda>c. c = CHR ''/'') rest
      in if rest = [] then Some (True, s)
         else let cpath = pre @ slashes @ takeWhile (\<lambda>c. c \<noteq> CHR ''/'') rest;
                  rest = dropWhile (\<lambda>c. c \<noteq> CHR ''/'') rest
              in if rest = [] then None
                 else (let (ok, s) = make_level px mode timestamp cpath s
                       in if \<not> ok then Some (False, s) else make_levels px mode timestamp cpath rest s))"
  by pat_completeness auto
termination
  by (relation "measure (\<lambda>(px, mode, timestamp, pre, rest, s). length rest)") (simp_all add: dropWhile_component)

declare make_levels.simps [simp del]

text \<open>The copy of the path that is walked: up to the last slash, or with a slash added.\<close>

definition hierarchy_path :: "string \<Rightarrow> bool \<Rightarrow> string option" where
  "hierarchy_path path stripFileName =
     (if stripFileName then map_option (\<lambda>i. take (Suc i) path) (strip_index path (length path - 1))
      else Some (path @ ''/''))"

definition dirCreateHierarchy ::
  "'s dirops \<Rightarrow> bool \<Rightarrow> string \<Rightarrow> int \<Rightarrow> int option \<Rightarrow> bool \<Rightarrow> 's \<Rightarrow> (int \<times> 's) option" where
  "dirCreateHierarchy px malloc_ok path mode timestamp stripFileName s =
     (if path = [] then Some (-1, s)
      else if \<not> malloc_ok then Some (-1, s)
      else (case hierarchy_path path stripFileName of
              None \<Rightarrow> Some (-1, s)
            | Some cpath \<Rightarrow>
                (case getPathDirStatus px cpath s of
                   DDIR \<Rightarrow> Some (0, s)
                 | DILLEGAL \<Rightarrow> Some (-1, s)
                 | DMISSING \<Rightarrow>
                     map_option (\<lambda>(ok, s). (if ok then 0 else -1, s)) (make_levels px mode timestamp [] cpath s))))"

section \<open>Removing a hierarchy\<close>

text \<open>
  The loop over the names of a directory, with the action for one path: \<^verbatim>\<open>dn\<close> is cut to the size
  of its buffer.  The boolean says whether a call failed.
\<close>

definition entry_path :: "string \<Rightarrow> string \<Rightarrow> string" where
  "entry_path path d_name = take (DN_MAX - 1) (path @ ''/'' @ d_name)"

fun for_entries :: "(string \<Rightarrow> 's \<Rightarrow> (bool \<times> 's) option) \<Rightarrow> string \<Rightarrow> string list \<Rightarrow> 's \<Rightarrow> (bool \<times> 's) option" where
  "for_entries act path [] s = Some (False, s)"
| "for_entries act path (d_name # names) s =
     (if d_name = ''..'' \<or> d_name = ''.'' then for_entries act path names s
      else do {
        (ok, s) \<leftarrow> act (entry_path path d_name) s;
        if \<not> ok then Some (True, s) else for_entries act path names s })"

lemma for_entries_mono [partial_function_mono]:
  assumes "\<And>p s. mono_option (\<lambda>f. act f p s)"
  shows "mono_option (\<lambda>f. for_entries (act f) path names s)"
proof (induction names arbitrary: s)
  case Nil
  then show ?case by (simp add: monotone_def fun_ord_def flat_ord_def)
next
  case (Cons n names)
  show ?case
  proof (cases "n = ''..'' \<or> n = ''.''")
    case False
    have "mono_option (\<lambda>f. case y of (ok, s) \<Rightarrow> if \<not> ok then Some (True, s) else for_entries (act f) path names s)" for y
      using Cons by (cases y) (auto simp: monotone_def fun_ord_def flat_ord_def)
    then have "mono_option (\<lambda>f. act f (entry_path path n) s \<bind>
        (\<lambda>(ok, s). if \<not> ok then Some (True, s) else for_entries (act f) path names s))"
      by (rule bind_mono [OF assms])
    then show ?thesis using False by simp
  qed (use Cons in simp)
qed

text \<open>
  The recursion is not bounded in the code; \<open>None\<close> is a walk that does not end.  The test \<^verbatim>\<open>errno < 0\<close> after the
  loop never holds, as the error numbers are positive, so an error of \<^verbatim>\<open>readdir\<close> has no effect.
\<close>

partial_function (option) dirUnlinkHierarchy :: "'s dirops \<Rightarrow> string \<Rightarrow> 's \<Rightarrow> (bool \<times> 's) option" where
  [code]: "dirUnlinkHierarchy px path s =
     (case px_lstat px path s of
        St_err _ \<Rightarrow> Some (False, s)
      | St k \<Rightarrow>
          if k \<noteq> K_dir then Some (px_unlink px path s)
          else (case px_opendir px path s of
                  None \<Rightarrow> Some (False, s)
                | Some (names, _) \<Rightarrow> do {
                    (fail, s) \<leftarrow> for_entries (\<lambda>dn s. dirUnlinkHierarchy px dn s) path names s;
                    if fail then Some (False, s)
                    else if \<not> px_closedir px path s then Some (False, s)
                    else Some (px_rmdir px path s) }))"

section \<open>Setting permissions\<close>

text \<open>The loop ends at the first failure, or with the error of \<^verbatim>\<open>readdir\<close>.\<close>

partial_function (option) dirSetHierarchyPermissions ::
  "'s dirops \<Rightarrow> int \<Rightarrow> int \<Rightarrow> int \<Rightarrow> int \<Rightarrow> string \<Rightarrow> 's \<Rightarrow> (bool \<times> 's) option" where
  [code]: "dirSetHierarchyPermissions px uid gid dirMode fileMode path s =
     (case px_lstat px path s of
        St_err _ \<Rightarrow> Some (False, s)
      | St k \<Rightarrow>
          if k = K_link then Some (True, s)
          else (let (ok, s) = px_chown px path uid gid s in
            if \<not> ok then Some (False, s)
            else (let (ok, s) = px_chmod px path (if k = K_dir then dirMode else fileMode) s in
              if \<not> ok then Some (False, s)
              else if k = K_dir
              then (case px_opendir px path s of
                      None \<Rightarrow> Some (False, s)
                    | Some (names, readdir_err) \<Rightarrow> do {
                        (fail, s) \<leftarrow> for_entries (\<lambda>dn s. dirSetHierarchyPermissions px uid gid dirMode fileMode dn s) path names s;
                        if fail \<or> readdir_err then Some (False, s)
                        else Some (px_closedir px path s, s) })
              else Some (True, s))))"

section \<open>Confinement\<close>

text \<open>A path in the tree at \<open>path\<close>: followed by proper names, none of which leads back up.\<close>

definition proper_name :: "string \<Rightarrow> bool" where
  "proper_name n \<longleftrightarrow> n \<noteq> [] \<and> n \<noteq> ''.'' \<and> n \<noteq> ''..'' \<and> CHR ''/'' \<notin> set n"

definition inside :: "string \<Rightarrow> string \<Rightarrow> bool" where
  "inside path p \<longleftrightarrow> (\<exists>ns. p = path @ concat (map ((#) CHR ''/'') ns) \<and> list_all proper_name ns)"

lemma inside_refl: "inside path path"
  by (auto simp: inside_def intro: exI [of _ "[]"])

lemma inside_entry: "inside path p \<Longrightarrow> proper_name n \<Longrightarrow> inside path (p @ ''/'' @ n)"
proof -
  assume "inside path p" "proper_name n"
  then obtain ns where "p = path @ concat (map ((#) CHR ''/'') ns)" "list_all proper_name (ns @ [n])" by (auto simp: inside_def)
  then show ?thesis unfolding inside_def by (intro exI [of _ "ns @ [n]"]) simp
qed

text \<open>
  What directories in the tree list: names without slashes, whose path fits the buffer \<^verbatim>\<open>dn\<close>.  \<open>Q\<close> are
  the states in question.
\<close>

definition names_fit :: "'s dirops \<Rightarrow> string \<Rightarrow> ('s \<Rightarrow> bool) \<Rightarrow> bool" where
  "names_fit px path Q \<longleftrightarrow>
     (\<forall>p s names e n. inside path p \<and> Q s \<and> px_lstat px p s = St K_dir \<and> px_opendir px p s = Some (names, e) \<and> n \<in> set names \<longrightarrow>
        n \<noteq> [] \<and> CHR ''/'' \<notin> set n \<and> length p + 1 + length n < DN_MAX)"

lemma names_fit_entry:
  assumes "names_fit px path Q" "inside path p" "Q s" "px_lstat px p s = St K_dir" "px_opendir px p s = Some (names, e)"
    and "n \<in> set names" "n \<noteq> ''.''" "n \<noteq> ''..''"
  shows "inside path (entry_path p n)" "DN_MAX - length (entry_path p n) < DN_MAX - length p"
proof -
  have f: "n \<noteq> []" "CHR ''/'' \<notin> set n" "length p + 1 + length n < DN_MAX"
    using assms(1-6) unfolding names_fit_def by blast+
  then have "entry_path p n = p @ ''/'' @ n" by (simp add: entry_path_def)
  then show "inside path (entry_path p n)" "DN_MAX - length (entry_path p n) < DN_MAX - length p"
    using inside_entry [OF assms(2)] f assms(7,8) by (simp_all add: proper_name_def)
qed

lemma ex_Not [simp]: "Ex Not"
  by (rule exI [of _ False]) simp

text \<open>The loop over a directory ends and keeps what the action for each of its entries keeps.\<close>

lemma for_entries_keeps:
  assumes "\<And>n s. n \<in> set names \<Longrightarrow> n \<noteq> ''.'' \<Longrightarrow> n \<noteq> ''..'' \<Longrightarrow> Q s \<Longrightarrow> \<exists>ok s'. act (entry_path path n) s = Some (ok, s') \<and> Q s'"
  shows "Q s \<Longrightarrow> \<exists>fail s'. for_entries act path names s = Some (fail, s') \<and> Q s'"
  using assms
proof (induction names arbitrary: s)
  case (Cons n names)
  have ih: "Q s' \<Longrightarrow> \<exists>fail s''. for_entries act path names s' = Some (fail, s'') \<and> Q s''" for s'
    by (rule Cons.IH) (use Cons.prems in simp_all)
  show ?case
  proof (cases "n = ''..'' \<or> n = ''.''")
    case False
    then obtain ok s1 where "act (entry_path path n) s = Some (ok, s1)" "Q s1" using Cons.prems(2) [of n s] Cons.prems(1) by auto
    then show ?thesis using False ih [of s1] by auto
  qed (use ih Cons.prems(1) in simp)
qed simp

text \<open>
  C25. Removing a tree ends and removes nothing outside it: when the paths of all entries below the given
  path fit the buffer of \<^verbatim>\<open>PATH_MAX\<close> bytes (a longer one would be cut), the removal returns, and every property
  of the file system is kept that is kept by unlinking what is not a directory, and by removing directories, at
  paths that continue the given one with names other than \<open>.\<close> and \<open>..\<close>.\<close>

theorem unlink_confined:
  assumes "\<And>p s. inside path p \<Longrightarrow> Q s \<Longrightarrow> px_lstat px p s \<noteq> St K_dir \<Longrightarrow> Q (snd (px_unlink px p s))"
    and "\<And>p s. inside path p \<Longrightarrow> Q s \<Longrightarrow> Q (snd (px_rmdir px p s))"
    and "names_fit px path Q" "Q s"
  shows "\<exists>ok s'. dirUnlinkHierarchy px path s = Some (ok, s') \<and> Q s'"
proof -
  have "inside path p \<Longrightarrow> Q s \<Longrightarrow> \<exists>ok s'. dirUnlinkHierarchy px p s = Some (ok, s') \<and> Q s'" for p s
  proof (induction "DN_MAX - length p" arbitrary: p s rule: less_induct)
    case less
    consider (gone) e where "px_lstat px p s = St_err e" | (other) k where "px_lstat px p s = St k" "k \<noteq> K_dir"
      | (closed) "px_lstat px p s = St K_dir" "px_opendir px p s = None"
      | (dir) names e where "px_lstat px p s = St K_dir" "px_opendir px p s = Some (names, e)"
      by (cases "px_lstat px p s"; cases "px_opendir px p s") auto
    then show ?case
    proof cases
      case other
      then show ?thesis using assms(1) [OF less.prems] by (cases "px_unlink px p s") (simp add: dirUnlinkHierarchy.simps [of px p])
    next
      case dir
      have "\<exists>ok s'. dirUnlinkHierarchy px (entry_path p n) s1 = Some (ok, s') \<and> Q s'"
        if n: "n \<in> set names" "n \<noteq> ''.''" "n \<noteq> ''..''" and q: "Q s1" for n s1
        by (rule less.hyps [OF names_fit_entry(2,1) [OF assms(3) less.prems dir n] q])
      then obtain fail s1 where l: "for_entries (dirUnlinkHierarchy px) p names s = Some (fail, s1)" "Q s1"
        using for_entries_keeps [of names Q "dirUnlinkHierarchy px" p s] less.prems(2) by blast
      show ?thesis using dir l less.prems(1) assms(2) [of p s1]
        by (cases "px_rmdir px p s1") (simp add: dirUnlinkHierarchy.simps [of px p])
    qed (use less.prems in \<open>simp_all add: dirUnlinkHierarchy.simps [of px p]\<close>)
  qed
  then show ?thesis using inside_refl assms(4) by blast
qed

text \<open>The change of permissions ends and is confined in the same way, and passes over symbolic links.\<close>

lemma permissions_confined:
  assumes own: "\<And>p s. inside path p \<Longrightarrow> Q s \<Longrightarrow> px_lstat px p s \<noteq> St K_link \<Longrightarrow>
      Q (snd (px_chown px p uid gid s)) \<and> px_lstat px p (snd (px_chown px p uid gid s)) = px_lstat px p s"
    and mode: "\<And>p s m. inside path p \<Longrightarrow> Q s \<Longrightarrow> px_lstat px p s \<noteq> St K_link \<Longrightarrow>
      Q (snd (px_chmod px p m s)) \<and> px_lstat px p (snd (px_chmod px p m s)) = px_lstat px p s"
    and fit: "names_fit px path Q" and Q: "Q s"
  shows "\<exists>ok s'. dirSetHierarchyPermissions px uid gid dirMode fileMode path s = Some (ok, s') \<and> Q s'"
proof -
  let ?f = "dirSetHierarchyPermissions px uid gid dirMode fileMode"
  have "inside path p \<Longrightarrow> Q s \<Longrightarrow> \<exists>ok s'. ?f p s = Some (ok, s') \<and> Q s'" for p s
  proof (induction "DN_MAX - length p" arbitrary: p s rule: less_induct)
    case less
    consider (gone) e where "px_lstat px p s = St_err e" | (link) "px_lstat px p s = St K_link"
      | (here) k where "px_lstat px p s = St k" "k \<noteq> K_link"
      by (cases "px_lstat px p s") auto
    then show ?case
    proof cases
      case here
      obtain b1 s1 where s1: "px_chown px p uid gid s = (b1, s1)" by (metis surj_pair)
      obtain b2 s2 where s2: "px_chmod px p (if k = K_dir then dirMode else fileMode) s1 = (b2, s2)" by (metis surj_pair)
      have q1: "Q s1" "px_lstat px p s1 = St k" using own [OF less.prems] here s1 by simp_all
      have q2: "Q s2" "px_lstat px p s2 = St k"
        using mode [OF less.prems(1) q1(1), of "if k = K_dir then dirMode else fileMode"] q1(2) here(2) s2 by simp_all
      show ?thesis
      proof (cases "b1 \<and> b2 \<and> k = K_dir \<and> px_opendir px p s2 \<noteq> None")
        case True
        then obtain names e where dir: "px_lstat px p s2 = St K_dir" "px_opendir px p s2 = Some (names, e)" using q2 by auto
        have "\<exists>ok s'. ?f (entry_path p n) t = Some (ok, s') \<and> Q s'"
          if n: "n \<in> set names" "n \<noteq> ''.''" "n \<noteq> ''..''" and q: "Q t" for n t
          by (rule less.hyps [OF names_fit_entry(2,1) [OF fit less.prems(1) q2(1) dir n] q])
        then obtain fail s3 where "for_entries ?f p names s2 = Some (fail, s3)" "Q s3"
          using for_entries_keeps [of names Q ?f p s2] q2(1) by blast
        then show ?thesis using here True s1 s2 dir(2) by (simp add: dirSetHierarchyPermissions.simps [of px uid gid dirMode fileMode p])
      next
        case False
        then show ?thesis using here s1 s2 q1 q2
          by (auto simp: dirSetHierarchyPermissions.simps [of px uid gid dirMode fileMode p] split: option.splits)
      qed
    qed (use less.prems in \<open>auto simp: dirSetHierarchyPermissions.simps [of px uid gid dirMode fileMode p]\<close>)
  qed
  then show ?thesis using inside_refl Q by blast
qed

section \<open>Creation\<close>

text \<open>
  The documented behaviour of the calls: a directory that was made is there, directories do not
  disappear, a slash at the end of the name of a directory makes no difference and the root exists.
\<close>

definition posix_dirs :: "'s dirops \<Rightarrow> bool" where
  "posix_dirs px \<longleftrightarrow>
     (\<forall>p m s s'. px_mkdir px p m s = (True, s') \<longrightarrow> px_stat px p s' = St K_dir) \<and>
     (\<forall>p m s b s' q. px_mkdir px p m s = (b, s') \<and> px_stat px q s = St K_dir \<longrightarrow> px_stat px q s' = St K_dir) \<and>
     (\<forall>p t s b s' q. px_utime px p t s = (b, s') \<and> px_stat px q s = St K_dir \<longrightarrow> px_stat px q s' = St K_dir) \<and>
     (\<forall>p s. px_stat px (p @ ''/'') s = St K_dir \<longleftrightarrow> p = [] \<or> px_stat px p s = St K_dir)"

lemma posix_slashes:
  assumes "posix_dirs px" "pre = [] \<or> px_stat px pre s = St K_dir" "pre @ sl \<noteq> []"
  shows "\<forall>c \<in> set sl. c = CHR ''/'' \<Longrightarrow> px_stat px (pre @ sl) s = St K_dir"
  using assms(3)
proof (induction sl rule: rev_induct)
  case (snoc c sl)
  have "px_stat px ((pre @ sl) @ ''/'') s = St K_dir \<longleftrightarrow> pre @ sl = [] \<or> px_stat px (pre @ sl) s = St K_dir"
    using assms(1) unfolding posix_dirs_def by blast
  moreover have "c = CHR ''/''" using snoc.prems(1) by simp
  moreover have "pre @ sl \<noteq> [] \<Longrightarrow> px_stat px (pre @ sl) s = St K_dir" using snoc by simp
  ultimately show ?case by auto
qed (use assms in auto)

lemma last_dropWhile: "dropWhile P xs \<noteq> [] \<Longrightarrow> last (dropWhile P xs) = last xs"
  by (induction xs) auto

lemma dropWhile_last: "xs \<noteq> [] \<Longrightarrow> \<not> P (last xs) \<Longrightarrow> dropWhile P xs \<noteq> []"
  by (auto simp: dropWhile_eq_Nil_conv)

text \<open>One level of the walk: the component is a directory afterwards and no directory is lost.\<close>

lemma make_level_spec:
  assumes "posix_dirs px" "make_level px mode ts cpath s = (ok, s')"
  shows "\<forall>q. px_stat px q s = St K_dir \<longrightarrow> px_stat px q s' = St K_dir" "ok \<Longrightarrow> px_stat px cpath s' = St K_dir"
proof -
  obtain b1 s1 where mk: "px_mkdir px cpath mode s = (b1, s1)" by (metis surj_pair)
  note laws = assms(1) [unfolded posix_dirs_def]
  have s1: "b1 \<Longrightarrow> px_stat px cpath s1 = St K_dir" "px_stat px q s = St K_dir \<Longrightarrow> px_stat px q s1 = St K_dir" for q
    using laws [THEN conjunct1] laws [THEN conjunct2, THEN conjunct1] mk by auto
  have ut: "px_utime px cpath t s1 = (b, s2) \<Longrightarrow> px_stat px q s1 = St K_dir \<Longrightarrow> px_stat px q s2 = St K_dir" for t b s2 q
    using laws [THEN conjunct2, THEN conjunct2, THEN conjunct1] by auto
  have "getPathDirStatus px cpath s = DDIR \<Longrightarrow> px_stat px cpath s = St K_dir"
    by (auto simp: getPathDirStatus_def split: stat_result.splits if_splits)
  moreover have "s' = s \<or> s' = s1 \<or> (\<exists>t. px_utime px cpath t s1 = (ok, s'))"
      "ok \<Longrightarrow> s' = s \<and> getPathDirStatus px cpath s = DDIR \<or> b1 \<and> (s' = s1 \<or> (\<exists>t. px_utime px cpath t s1 = (ok, s')))"
    using assms(2) mk by (auto simp: make_level_def split: DirStatus.splits option.splits if_splits)
  ultimately show "\<forall>q. px_stat px q s = St K_dir \<longrightarrow> px_stat px q s' = St K_dir" "ok \<Longrightarrow> px_stat px cpath s' = St K_dir"
    using s1 ut by metis+
qed

text \<open>The walk itself.\<close>

lemma make_levels_spec:
  assumes px: "posix_dirs px"
  shows "rest = [] \<or> last rest = CHR ''/'' \<Longrightarrow> pre = [] \<or> px_stat px pre s = St K_dir \<Longrightarrow>
    \<exists>ok s'. make_levels px mode ts pre rest s = Some (ok, s') \<and>
      (\<forall>q. px_stat px q s = St K_dir \<longrightarrow> px_stat px q s' = St K_dir) \<and>
      (ok \<and> pre @ rest \<noteq> [] \<longrightarrow> px_stat px (pre @ rest) s' = St K_dir)"
proof (induction "length rest" arbitrary: rest pre s rule: less_induct)
  case less
  let ?sl = "takeWhile (\<lambda>c. c = CHR ''/'') rest" and ?r = "dropWhile (\<lambda>c. c = CHR ''/'') rest"
  let ?cpath = "pre @ ?sl @ takeWhile (\<lambda>c. c \<noteq> CHR ''/'') ?r" and ?r2 = "dropWhile (\<lambda>c. c \<noteq> CHR ''/'') ?r"
  show ?case
  proof (cases "?r = []")
    case True
    then have "rest = ?sl" by (metis append_Nil2 takeWhile_dropWhile_id)
    moreover have "make_levels px mode ts pre rest s = Some (True, s)" using True by (simp add: make_levels.simps [of px mode ts pre rest])
    moreover have "\<forall>c \<in> set ?sl. c = CHR ''/''" by (auto dest: set_takeWhileD)
    ultimately show ?thesis using posix_slashes [OF px less.prems(2), of ?sl] by auto
  next
    case False
    have lr: "last ?r = CHR ''/''" using less.prems(1) False last_dropWhile [OF False] by auto
    have r2: "?r2 \<noteq> []" by (rule dropWhile_last [OF False]) (simp add: lr)
    have lr2: "last ?r2 = CHR ''/''" using last_dropWhile [OF r2] lr by simp
    have sm: "length ?r2 < length rest" by (rule dropWhile_component [OF False])
    have whole: "?cpath @ ?r2 = pre @ rest" by simp
    obtain ok s1 where s1: "make_level px mode ts ?cpath s = (ok, s1)" by (metis surj_pair)
    have step: "make_levels px mode ts pre rest s = (if \<not> ok then Some (False, s1) else make_levels px mode ts ?cpath ?r2 s1)"
      by (subst make_levels.simps) (simp only: Let_def False r2 if_False s1 prod.case)
    note lvl = make_level_spec [OF px s1]
    show ?thesis
    proof (cases ok)
      case True
      then have "\<exists>ok s'. make_levels px mode ts ?cpath ?r2 s1 = Some (ok, s') \<and>
        (\<forall>q. px_stat px q s1 = St K_dir \<longrightarrow> px_stat px q s' = St K_dir) \<and>
        (ok \<and> pre @ rest \<noteq> [] \<longrightarrow> px_stat px (pre @ rest) s' = St K_dir)"
        using less.hyps [OF sm, of ?cpath s1] lr2 lvl(2) unfolding whole by blast
      then show ?thesis using step True lvl(1) by auto
    qed (use step lvl(1) in auto)
  qed
qed

lemma strip_index_Some: "strip_index path i = Some j \<Longrightarrow> 0 < j \<and> j \<le> i \<and> path ! j = CHR ''/''"
  by (induction i) (auto split: if_splits)

lemma strip_index_None: "strip_index path i = None \<longleftrightarrow> (\<forall>j. 0 < j \<and> j \<le> i \<longrightarrow> path ! j \<noteq> CHR ''/'')"
  by (induction i) (auto simp: le_Suc_eq)

lemma hierarchy_path_last:
  assumes "path \<noteq> []" "hierarchy_path path strip = Some cpath"
  shows "cpath \<noteq> []" "last cpath = CHR ''/''"
proof -
  have "cpath \<noteq> [] \<and> last cpath = CHR ''/''"
  proof (cases strip)
    case True
    then obtain i where i: "strip_index path (length path - 1) = Some i" "cpath = take (Suc i) path"
      using assms(2) by (auto simp: hierarchy_path_def)
    have j: "i < length path" "path ! i = CHR ''/''" using strip_index_Some [OF i(1)] assms(1) by (auto simp: le_less_trans)
    then show ?thesis using i(2) by (simp add: take_Suc_conv_app_nth)
  qed (use assms in \<open>auto simp: hierarchy_path_def\<close>)
  then show "cpath \<noteq> []" "last cpath = CHR ''/''" by blast+
qed

text \<open>
  Creating a hierarchy always returns, never loses a directory, and when it reports success the
  requested directory, or the one that contains the requested file, exists.\<close>

theorem hierarchy_created:
  assumes "posix_dirs px"
  shows "\<exists>ret s'. dirCreateHierarchy px malloc_ok path mode ts strip s = Some (ret, s') \<and>
    (\<forall>q. px_stat px q s = St K_dir \<longrightarrow> px_stat px q s' = St K_dir) \<and>
    (ret = 0 \<longrightarrow> (\<exists>cpath. hierarchy_path path strip = Some cpath \<and> px_stat px cpath s' = St K_dir))"
proof (cases "path = [] \<or> \<not> malloc_ok \<or> hierarchy_path path strip = None")
  case True
  then show ?thesis by (auto simp: dirCreateHierarchy_def)
next
  case False
  then obtain cpath where c: "hierarchy_path path strip = Some cpath" "path \<noteq> []" malloc_ok by auto
  note l = hierarchy_path_last [OF c(2,1)]
  obtain ok s' where "make_levels px mode ts [] cpath s = Some (ok, s')"
      "\<forall>q. px_stat px q s = St K_dir \<longrightarrow> px_stat px q s' = St K_dir" "ok \<longrightarrow> px_stat px cpath s' = St K_dir"
    using make_levels_spec [OF assms, of cpath "[]" s mode ts] l by auto
  then show ?thesis using c
    by (cases "getPathDirStatus px cpath s")
      (auto simp: dirCreateHierarchy_def getPathDirStatus_def split: stat_result.splits if_splits)
qed

text \<open>
  A file directly in the root directory cannot have its directory created: without a slash after
  the first character the path is treated as having no directory, although the root exists.\<close>

theorem root_file_refused:
  assumes "CHR ''/'' \<notin> set name"
  shows "dirCreateHierarchy px malloc_ok (CHR ''/'' # name) mode ts True s = Some (-1, s)"
proof -
  have "\<forall>j. 0 < j \<and> j \<le> length name \<longrightarrow> (CHR ''/'' # name) ! j \<noteq> CHR ''/''"
    using assms by (auto simp: nth_Cons' in_set_conv_nth)
  then have "hierarchy_path (CHR ''/'' # name) True = None" by (simp add: hierarchy_path_def strip_index_None)
  then show ?thesis by (simp add: dirCreateHierarchy_def)
qed

section \<open>A sample file system\<close>

text \<open>The state is the list of the directories, named without slashes at the end; \<^verbatim>\<open>d\<close> lists itself and a file.\<close>

definition trim :: "string \<Rightarrow> string" where
  "trim p = rev (dropWhile (\<lambda>c. c = CHR ''/'') (rev p))"

definition is_dir :: "string \<Rightarrow> string list \<Rightarrow> stat_result" where
  "is_dir p s = (if trim p = [] \<or> trim p \<in> set s then St K_dir else St_err ENOENT)"

definition sample_px :: "string list dirops" where
  "sample_px = \<lparr>px_stat = is_dir, px_lstat = is_dir, px_mkdir = (\<lambda>p m s. (True, trim p # s)),
     px_utime = (\<lambda>p t s. (True, s)), px_unlink = (\<lambda>p s. (True, s)), px_rmdir = (\<lambda>p s. (True, removeAll p s)),
     px_opendir = (\<lambda>p s. if p = ''d'' then Some ([''.'', ''e''], False) else Some ([], False)),
     px_closedir = (\<lambda>p s. True), px_chown = (\<lambda>p u g s. (True, s)), px_chmod = (\<lambda>p m s. (True, s))\<rparr>"

lemma sample_posix: "posix_dirs sample_px"
  by (auto simp: posix_dirs_def sample_px_def is_dir_def trim_def split: if_splits)

text \<open>A file system that is a list of paths with their kinds.\<close>

definition names_in :: "string \<Rightarrow> (string \<times> file_kind) list \<Rightarrow> string list" where
  "names_in p s = filter (\<lambda>n. n \<noteq> [] \<and> CHR ''/'' \<notin> set n)
     (map (\<lambda>q. drop (length p + 1) (fst q)) (filter (\<lambda>q. take (length p + 1) (fst q) = p @ ''/'') s))"

definition tree_px :: "(string \<times> file_kind) list dirops" where
  "tree_px =
     (let look = (\<lambda>p s. case map_of s p of None \<Rightarrow> St_err ENOENT | Some k \<Rightarrow> St k);
          drop_path = (\<lambda>p s. (True, filter (\<lambda>q. fst q \<noteq> p) s))
      in \<lparr>px_stat = look, px_lstat = look, px_mkdir = (\<lambda>p m s. (True, (p, K_dir) # s)),
          px_utime = (\<lambda>p t s. (True, s)), px_unlink = drop_path, px_rmdir = drop_path,
          px_opendir = (\<lambda>p s. Some (''.'' # ''..'' # names_in p s, False)),
          px_closedir = (\<lambda>p s. True), px_chown = (\<lambda>p u g s. (True, s)), px_chmod = (\<lambda>p m s. (True, s))\<rparr>)"

lemma names_in_fit:
  assumes "n \<in> set (names_in p s)" "\<forall>q \<in> set s. length (fst q) < 99"
  shows "n \<noteq> [] \<and> CHR ''/'' \<notin> set n \<and> length p + 1 + length n < 99"
proof -
  obtain q where q: "q \<in> set s" "take (length p + 1) (fst q) = p @ ''/''" "n = drop (length p + 1) (fst q)" "n \<noteq> []" "CHR ''/'' \<notin> set n"
    using assms(1) by (auto simp: names_in_def)
  then have "length n = length (fst q) - (length p + 1)" "length p + 1 \<le> length (fst q)" by auto
  then show ?thesis using q assms(2) by auto
qed

theorem unlink_confined_witness:
  "\<exists>ok s'. dirUnlinkHierarchy tree_px ''d'' [(''d'', K_dir), (''d/e'', K_dir), (''d/e/f'', K_link), (''x'', K_other)] = Some (ok, s') \<and>
     map_of s' ''d'' = None \<and> (''x'', K_other) \<in> set s'"
proof -
  let ?s = "[(''d'', K_dir), (''d/e'', K_dir), (''d/e/f'', K_link), (''x'', K_other)]"
  let ?Q = "\<lambda>s. (''x'', K_other) \<in> set s \<and> (\<forall>q \<in> set s. length (fst q) < 99)"
  have ne: "\<not> inside ''d'' ''x''" by (auto simp: inside_def)
  have fit: "names_fit tree_px ''d'' ?Q"
  proof (unfold names_fit_def, intro allI impI)
    fix p s names e n
    assume "inside ''d'' p \<and> ?Q s \<and> px_lstat tree_px p s = St K_dir \<and> px_opendir tree_px p s = Some (names, e) \<and> n \<in> set names"
    then have "length p < 99" "n = ''.'' \<or> n = ''..'' \<or> n \<in> set (names_in p s)" "\<forall>q \<in> set s. length (fst q) < 99"
      by (auto simp: tree_px_def Let_def dest!: map_of_SomeD split: option.splits)
    then show "n \<noteq> [] \<and> CHR ''/'' \<notin> set n \<and> length p + 1 + length n < DN_MAX"
      using names_in_fit [of n p s] by (auto simp: DN_MAX_def)
  qed
  have "\<exists>ok s'. dirUnlinkHierarchy tree_px ''d'' ?s = Some (ok, s') \<and> ?Q s'"
    by (rule unlink_confined [OF _ _ fit]) (use ne in \<open>auto simp: tree_px_def Let_def\<close>)
  moreover have "map_option (\<lambda>r. map_of (snd r) ''d'') (dirUnlinkHierarchy tree_px ''d'' ?s) = Some None" by code_simp
  ultimately show ?thesis by auto
qed

theorem hierarchy_created_witness:
  "\<exists>ret s'. dirCreateHierarchy sample_px True ''/a/b'' 493 None True [] = Some (ret, s')"
  using hierarchy_created [OF sample_posix, of True "''/a/b''" 493 None True "[]"] by blast

theorem root_file_refused_witness:
  "dirCreateHierarchy sample_px True ''/f'' 493 None True [] = Some (-1, [])"
  by (rule root_file_refused) simp

end
