(* ===== verification/Minzip_Tree.thy ===== *)
theory Minzip_Tree
  imports Minzip_Extract Minzip_DirUtil
begin

text \<open>
  Extracting a tree, \<^verbatim>\<open>targetEntryPath\<close> and \<^verbatim>\<open>mzExtractRecursive\<close> of \<^verbatim>\<open>minzip/Zip.c\<close>: the paths of the files
  to create and the walk over the sorted entries.  The file system is the parameter of
  \<open>Minzip_DirUtil\<close> with the calls for links and files.
\<close>

section \<open>Paths\<close>

record MzPathHelper =
  h_targetDir :: string
  h_zipDir :: string
  h_buf :: "string option"
  h_targetDirLen :: nat
  h_zipDirLen :: nat
  h_bufLen :: int

text \<open>Storing characters in a buffer; \<open>None\<close> is a store outside it.\<close>

definition poke :: "nat \<Rightarrow> string \<Rightarrow> string \<Rightarrow> string option" where
  "poke off cs buf =
     (if off + length cs \<le> length buf then Some (take off buf @ cs @ drop (off + length cs) buf) else None)"

definition c_string :: "string \<Rightarrow> string" where
  "c_string buf = takeWhile (\<lambda>c. c \<noteq> CHR 0x00) buf"

text \<open>The start of the path, written by the first call.\<close>

definition target_start :: "MzPathHelper \<Rightarrow> string \<Rightarrow> (nat \<times> string) option" where
  "target_start helper buf = do {
     buf \<leftarrow> poke 0 (h_targetDir helper) buf;
     if h_targetDir helper = [] \<or> last (h_targetDir helper) \<noteq> CHR ''/''
     then do { buf \<leftarrow> poke (h_targetDirLen helper) ''/'' buf; Some (Suc (h_targetDirLen helper), buf) }
     else Some (h_targetDirLen helper, buf) }"

text \<open>
  The result is the path, \<open>None\<close> for the null pointer.  Bytes that \<^verbatim>\<open>realloc\<close> adds are not read before
  they are written.
\<close>

definition targetEntryPath :: "bool \<Rightarrow> MzPathHelper \<Rightarrow> string \<Rightarrow> (string option \<times> MzPathHelper) option" where
  "targetEntryPath realloc_ok helper name =
     (let firstTime = (h_buf helper = None);
          needLen = int (h_targetDirLen helper) + 1 + int (length name) - int (h_zipDirLen helper) + 1;
          grown = needLen > h_bufLen helper;
          size = (if grown then nat (needLen * 2) else nat (h_bufLen helper));
          old = (case h_buf helper of None \<Rightarrow> [] | Some b \<Rightarrow> b)
      in if grown \<and> \<not> realloc_ok then Some (None, helper)
         else do {
           (dirLen, buf) \<leftarrow>
             (if firstTime then target_start helper (take size (old @ replicate size (CHR 0x00)))
              else Some (h_targetDirLen helper, take size (old @ replicate size (CHR 0x00))));
           buf \<leftarrow> poke dirLen (drop (h_zipDirLen helper) name) buf;
           buf \<leftarrow> poke (dirLen + length name - h_zipDirLen helper) [CHR 0x00] buf;
           Some (Some (c_string buf),
                 helper\<lparr>h_buf := Some buf, h_targetDirLen := dirLen, h_bufLen := int size\<rparr>) })"

section \<open>The entries of a tree\<close>

text \<open>
  The calls of the extraction: making a link, creating a file, what closing it leaves in the file
  system, and the allocations.
\<close>

record 's extops =
  x_dir :: "'s dirops"
  x_symlink :: "string \<Rightarrow> string \<Rightarrow> 's \<Rightarrow> bool \<times> 's"
  x_creat :: "string \<Rightarrow> int \<Rightarrow> 's \<Rightarrow> wfile option \<times> 's"
  x_close :: "string \<Rightarrow> wfile \<Rightarrow> 's \<Rightarrow> 's"
  x_malloc :: "nat \<Rightarrow> byte list option"
  x_malloc_ok :: bool
  x_realloc_ok :: bool

record 's xstate =
  x_fs :: 's
  x_fd :: ofile
  x_help :: MzPathHelper
  x_calls :: "string list"
  x_seen :: bool

text \<open>How an iteration ends: the loop goes on, or breaks with the value of the outer \<^verbatim>\<open>ok\<close>.\<close>

datatype 's xnext = Go "'s xstate" | Stop bool "'s xstate"

definition UNZIP_DIRMODE :: int where "UNZIP_DIRMODE = 493"
definition UNZIP_FILEMODE :: int where "UNZIP_FILEMODE = 420"

definition MZ_EXTRACT_FILES_ONLY :: nat where "MZ_EXTRACT_FILES_ONLY = 0"
definition MZ_EXTRACT_DRY_RUN :: nat where "MZ_EXTRACT_DRY_RUN = 1"

definition extract_link ::
  "'z zlib \<Rightarrow> 's extops \<Rightarrow> string \<Rightarrow> ZipEntry \<Rightarrow> 's xstate \<Rightarrow> 's xnext outcome option" where
  "extract_link zl ops targetFile e st =
     (if uncompLen e = 0 then Some (Done (Stop False st))
      else (case x_malloc ops (unat (uncompLen e + 1)) of
              None \<Rightarrow> Some (Done (Stop False st))
            | Some linkTarget \<Rightarrow>
                (case mzReadZipEntry zl e (x_fd st) linkTarget (sint (uncompLen e)) of
                   None \<Rightarrow> None
                 | Some Fault \<Rightarrow> Some Fault
                 | Some (Done (ok, fd, linkTarget)) \<Rightarrow>
                     (let st = st\<lparr>x_fd := fd\<rparr> in
                      if \<not> ok then Some (Done (Stop False st))
                      else if \<not> unat (uncompLen e) < length linkTarget then Some Fault
                      else (let (ok, fs) = x_symlink ops
                                (c_string (map (\<lambda>b. char_of (unat b)) (linkTarget[unat (uncompLen e) := 0]))) targetFile (x_fs st);
                                st = st\<lparr>x_fs := fs\<rparr>
                            in Some (Done (if ok then Go st else Stop False st)))))))"

text \<open>
  The variable \<^verbatim>\<open>ok\<close> declared for the result of the extraction hides the outer one, which is still
  true when the loop is left.
\<close>

definition extract_file ::
  "'z zlib \<Rightarrow> 's extops \<Rightarrow> int option \<Rightarrow> string \<Rightarrow> ZipEntry \<Rightarrow> 's xstate \<Rightarrow> 's xnext outcome option" where
  "extract_file zl ops timestamp targetFile e st =
     (case x_creat ops targetFile UNZIP_FILEMODE (x_fs st) of
        (None, fs) \<Rightarrow> Some (Done (Stop False (st\<lparr>x_fs := fs\<rparr>)))
      | (Some w, fs) \<Rightarrow>
          (case mzExtractZipEntryToFile zl e (x_fd st) w of
             None \<Rightarrow> None
           | Some Fault \<Rightarrow> Some Fault
           | Some (Done (ok, fd, w)) \<Rightarrow>
               (let st = st\<lparr>x_fs := x_close ops targetFile w fs, x_fd := fd\<rparr> in
                if \<not> ok then Some (Done (Stop True st))
                else (case timestamp of
                        None \<Rightarrow> Some (Done (Go st))
                      | Some t \<Rightarrow>
                          (let (ok, fs) = px_utime (x_dir ops) targetFile t (x_fs st); st = st\<lparr>x_fs := fs\<rparr>
                           in Some (Done (if ok then Go st else Stop True st)))))))"

definition with_dirs ::
  "'s extops \<Rightarrow> int option \<Rightarrow> string \<Rightarrow> bool \<Rightarrow> 's xstate \<Rightarrow> ('s xstate \<Rightarrow> 's xnext outcome option) \<Rightarrow> 's xnext outcome option" where
  "with_dirs ops timestamp targetFile stripFileName st cont =
     (case dirCreateHierarchy (x_dir ops) (x_malloc_ok ops) targetFile UNZIP_DIRMODE timestamp stripFileName (x_fs st) of
        None \<Rightarrow> Some Fault
      | Some (ret, fs) \<Rightarrow> if ret \<noteq> 0 then Some (Done (Stop False (st\<lparr>x_fs := fs\<rparr>))) else cont (st\<lparr>x_fs := fs\<rparr>))"

definition call_back :: "bool \<Rightarrow> string \<Rightarrow> 's xstate \<Rightarrow> 's xstate" where
  "call_back callback targetFile st = (if callback then st\<lparr>x_calls := x_calls st @ [targetFile]\<rparr> else st)"

text \<open>Creating the directory, the link or the file of a matching entry.\<close>

definition create_entry ::
  "'z zlib \<Rightarrow> 's extops \<Rightarrow> region \<Rightarrow> u32 \<Rightarrow> int option \<Rightarrow> string \<Rightarrow> ZipEntry \<Rightarrow> 's xstate \<Rightarrow> 's xnext outcome option" where
  "create_entry zl ops r flags timestamp targetFile e st =
     (case load r (fileName e + fileNameLen e - 1) of
        None \<Rightarrow> Some Fault
      | Some c \<Rightarrow>
          if char_of (unat c) = CHR ''/''
          then (if \<not> bit flags MZ_EXTRACT_FILES_ONLY
                then with_dirs ops timestamp targetFile False st (\<lambda>st. Some (Done (Go st)))
                else Some (Done (Go st)))
          else with_dirs ops timestamp targetFile True st (\<lambda>st.
                 if \<not> bit flags MZ_EXTRACT_FILES_ONLY \<and> mzIsZipEntrySymlink e
                 then extract_link zl ops targetFile e st
                 else extract_file zl ops timestamp targetFile e st))"

definition extract_entry ::
  "'z zlib \<Rightarrow> 's extops \<Rightarrow> region \<Rightarrow> u32 \<Rightarrow> int option \<Rightarrow> bool \<Rightarrow> string \<Rightarrow> ZipEntry \<Rightarrow> 's xstate \<Rightarrow> 's xnext outcome option" where
  "extract_entry zl ops r flags timestamp callback zpath e st =
     (if length (entry_name r e) < length zpath \<or> strncmp (entry_name r e) zpath (length zpath) \<noteq> 0
      then Some (Done (if x_seen st then Stop True st else Go st))
      else (let st = st\<lparr>x_seen := True\<rparr> in
        (case targetEntryPath (x_realloc_ok ops) (x_help st) (entry_name r e) of
           None \<Rightarrow> Some Fault
         | Some (None, help) \<Rightarrow> Some (Done (Stop False (st\<lparr>x_help := help\<rparr>)))
         | Some (Some targetFile, help) \<Rightarrow>
             (let st = st\<lparr>x_help := help\<rparr> in
              if bit flags MZ_EXTRACT_DRY_RUN then Some (Done (Go (call_back callback targetFile st)))
              else map_option (map_outcome (\<lambda>x. case x of Go st \<Rightarrow> Go (call_back callback targetFile st) | Stop ok st \<Rightarrow> Stop ok st))
                     (create_entry zl ops r flags timestamp targetFile e st)))))"

fun extract_loop ::
  "(ZipEntry \<Rightarrow> 's xstate \<Rightarrow> 's xnext outcome option) \<Rightarrow> ZipEntry list \<Rightarrow> 's xstate \<Rightarrow> (bool \<times> 's xstate) outcome option" where
  "extract_loop f [] st = Some (Done (True, st))"
| "extract_loop f (e # es) st =
     (case f e st of
        None \<Rightarrow> None
      | Some Fault \<Rightarrow> Some Fault
      | Some (Done (Stop ok st)) \<Rightarrow> Some (Done (ok, st))
      | Some (Done (Go st)) \<Rightarrow> extract_loop f es st)"

text \<open>The relative directory in the archive, with a slash unless it is empty.\<close>

definition zip_path :: "string \<Rightarrow> string" where
  "zip_path zipDir = (if zipDir \<noteq> [] \<and> last zipDir \<noteq> CHR ''/'' then zipDir @ ''/'' else zipDir)"

definition mzExtractRecursive ::
  "'z zlib \<Rightarrow> 's extops \<Rightarrow> ZipArchive \<Rightarrow> string \<Rightarrow> string \<Rightarrow> u32 \<Rightarrow> int option \<Rightarrow> bool \<Rightarrow> ofile \<Rightarrow> 's \<Rightarrow>
     (bool \<times> 's xstate) outcome option" where
  "mzExtractRecursive zl ops z zipDir targetDir flags timestamp callback fd fs =
     (let st = \<lparr>x_fs = fs, x_fd = fd,
                x_help = \<lparr>h_targetDir = targetDir, h_zipDir = zip_path zipDir, h_buf = None,
                          h_targetDirLen = length targetDir, h_zipDirLen = length (zip_path zipDir), h_bufLen = 0\<rparr>,
                x_calls = [], x_seen = False\<rparr>
      in if zipDir \<noteq> [] \<and> hd zipDir = CHR ''/'' then Some (Done (False, st))
         else if targetDir = [] \<or> hd targetDir \<noteq> CHR ''/'' then Some (Done (False, st))
         else if \<not> x_malloc_ok ops then Some (Done (False, st))
         else extract_loop (extract_entry zl ops (z_map z) flags timestamp callback (zip_path zipDir)) (z_pEntries z) st)"

section \<open>The path of an entry\<close>

definition start_path :: "string \<Rightarrow> string" where
  "start_path td = (if td = [] \<or> last td \<noteq> CHR ''/'' then td @ ''/'' else td)"

text \<open>The state of the helper between calls: the buffer starts with the target directory.\<close>

definition helper_ok :: "string \<Rightarrow> nat \<Rightarrow> MzPathHelper \<Rightarrow> bool" where
  "helper_ok td zl h \<longleftrightarrow> h_targetDir h = td \<and> h_zipDirLen h = zl \<and>
     (case h_buf h of
        None \<Rightarrow> h_targetDirLen h = length td \<and> h_bufLen h = 0
      | Some b \<Rightarrow> h_bufLen h = int (length b) \<and> h_targetDirLen h = length (start_path td) \<and>
                  take (length (start_path td)) b = start_path td)"

lemma c_string_0: "CHR 0x00 \<notin> set s \<Longrightarrow> c_string (s @ CHR 0x00 # t) = s"
  by (induction s) (auto simp: c_string_def)

lemma target_start_ok:
  assumes "h_targetDir h = td" "h_targetDirLen h = length td" "length td < length b"
  shows "target_start h b = Some (length (start_path td), start_path td @ drop (length (start_path td)) b)"
  using assms by (auto simp: target_start_def poke_def start_path_def)

text \<open>Writing a name behind a start that is in place, with its terminator.\<close>

lemma poke_name:
  assumes "take (length s) buf = s" "length s + length nm < length buf" "CHR 0x00 \<notin> set s \<union> set nm"
  shows "\<exists>b1 b2. poke (length s) nm buf = Some b1 \<and> poke (length s + length nm) [CHR 0x00] b1 = Some b2 \<and>
    c_string b2 = s @ nm \<and> take (length s) b2 = s \<and> length b2 = length buf"
proof -
  let ?b1 = "s @ nm @ drop (length s + length nm) buf"
  have b1: "poke (length s) nm buf = Some ?b1" using assms(1,2) by (simp add: poke_def)
  let ?b2 = "(s @ nm) @ CHR 0x00 # drop (Suc (length s + length nm)) buf"
  have b2: "poke (length s + length nm) [CHR 0x00] ?b1 = Some ?b2"
    using assms(2) by (simp add: poke_def)
  have "c_string ?b2 = s @ nm" using assms(3) by (intro c_string_0) auto
  moreover have "length ?b2 = length buf" using assms(2) by simp
  ultimately show ?thesis using b1 b2 by (metis append_assoc append_eq_conv_conj)
qed

lemma targetEntryPath_ok:
  assumes h: "helper_ok td zl h" and name: "zl \<le> length name" and nul: "CHR 0x00 \<notin> set td \<union> set name"
  shows "\<exists>h'. targetEntryPath True h name = Some (Some (start_path td @ drop zl name), h') \<and> helper_ok td zl h'"
proof -
  let ?s = "start_path td" and ?nm = "drop zl name"
  define need where "need = int (h_targetDirLen h) + 1 + int (length name) - int zl + 1"
  define size where "size = (if need > h_bufLen h then nat (need * 2) else nat (h_bufLen h))"
  define b0 where "b0 = take size ((case h_buf h of None \<Rightarrow> [] | Some b \<Rightarrow> b) @ replicate size (CHR 0x00))"
  have len: "length b0 = size" by (simp add: b0_def)
  have need: "need = int (h_targetDirLen h + length ?nm) + 2" using h name by (simp add: need_def helper_ok_def)
  have size: "int size \<ge> need" using need by (auto simp: size_def)
  have nuls: "CHR 0x00 \<notin> set ?s \<union> set ?nm" using nul by (auto simp: start_path_def dest: in_set_dropD)
  obtain buf where buf: "(if h_buf h = None then target_start h b0 else Some (h_targetDirLen h, b0)) = Some (length ?s, buf)"
      "take (length ?s) buf = ?s" "length buf = size" "length ?s + length ?nm < size"
  proof (cases "h_buf h")
    case None
    have td: "h_targetDir h = td" "h_targetDirLen h = length td" using h None by (auto simp: helper_ok_def)
    have l: "length ?s \<le> Suc (length td)" by (simp add: start_path_def)
    have "length td < length b0" using size need len td by simp
    then have "target_start h b0 = Some (length ?s, ?s @ drop (length ?s) b0)" by (rule target_start_ok [OF td])
    then show thesis using that [of "?s @ drop (length ?s) b0"] None l size need len td by auto
  next
    case (Some b)
    have s: "h_bufLen h = int (length b)" "h_targetDirLen h = length ?s" "take (length ?s) b = ?s"
      using h Some by (auto simp: helper_ok_def)
    have "length ?s \<le> length b" using s(3) by (metis length_take min.cobounded1)
    moreover have "length b \<le> size" using s(1) by (auto simp: size_def)
    ultimately have "take (length ?s) b0 = ?s" using s(3) Some by (simp add: b0_def min_def)
    then show thesis using that [of b0] Some s(2) size need len by auto
  qed
  obtain b1 b2 where b: "poke (length ?s) ?nm buf = Some b1" "poke (length ?s + length ?nm) [CHR 0x00] b1 = Some b2"
      "c_string b2 = ?s @ ?nm" "take (length ?s) b2 = ?s" "length b2 = size"
    using poke_name [OF buf(2) _ nuls] buf(3,4) by auto
  have idx: "length ?s + length name - zl = length ?s + length ?nm" using name by simp
  let ?h = "h\<lparr>h_buf := Some b2, h_targetDirLen := length ?s, h_bufLen := int size\<rparr>"
  have zl: "h_zipDirLen h = zl" using h by (simp add: helper_ok_def)
  have "targetEntryPath True h name = Some (Some (?s @ ?nm), ?h)"
    unfolding targetEntryPath_def Let_def zl
    unfolding need_def [symmetric]
    unfolding size_def [symmetric]
    unfolding b0_def [symmetric]
    using buf(1) b idx by (simp only: bind.bind_lunit prod.case simp_thms if_False)
  moreover have "helper_ok td zl ?h" using h b by (simp add: helper_ok_def)
  ultimately show ?thesis by blast
qed

section \<open>The walk over sorted entries\<close>

lemma strncmp_prefix: "length zp \<le> length n \<Longrightarrow> strncmp n zp (length zp) = 0 \<longleftrightarrow> prefix zp n"
proof (induction zp arbitrary: n)
  case (Cons x zp)
  then show ?case by (cases n) auto
qed simp

lemma name_matches:
  "(length n < length zp \<or> strncmp n zp (length zp) \<noteq> 0) = (\<not> prefix zp n)"
  using strncmp_prefix [of zp n] by (auto dest: prefix_length_le)

text \<open>In the order of names the ones with a common prefix are next to each other.\<close>

lemma prefix_between:
  "strcmp a b \<le> 0 \<Longrightarrow> strcmp b c \<le> 0 \<Longrightarrow> prefix p a \<Longrightarrow> prefix p c \<Longrightarrow> prefix p b"
proof (induction p arbitrary: a b c)
  case (Cons x p)
  obtain a' c' where ac: "a = x # a'" "c = x # c'" "prefix p a'" "prefix p c'"
    using Cons.prems(3,4) by (auto simp: prefix_def)
  obtain b' where b: "b = x # b'" "strcmp a' b' \<le> 0" "strcmp b' c' \<le> 0"
    using Cons.prems(1,2) ac(1,2) by (cases b) (auto split: if_splits)
  then show ?case using Cons.IH ac(3,4) by simp
qed simp

text \<open>The paths of the entries under a directory of the archive, in the order of the entries.\<close>

definition target_paths :: "string \<Rightarrow> string \<Rightarrow> string list \<Rightarrow> string list" where
  "target_paths zp td names = map (\<lambda>n. start_path td @ drop (length zp) n) (filter (prefix zp) names)"

lemma dry_run_entry:
  assumes "bit flags MZ_EXTRACT_DRY_RUN" "prefix zpath (entry_name r e)" "helper_ok td (length zpath) (x_help st)"
    and "CHR 0x00 \<notin> set td \<union> set (entry_name r e)" "x_realloc_ok ops"
  shows "\<exists>h. extract_entry zl ops r flags ts True zpath e st =
      Some (Done (Go (st\<lparr>x_seen := True, x_help := h,
        x_calls := x_calls st @ [start_path td @ drop (length zpath) (entry_name r e)]\<rparr>))) \<and>
      helper_ok td (length zpath) h"
proof -
  obtain h where h: "targetEntryPath True (x_help st) (entry_name r e) =
      Some (Some (start_path td @ drop (length zpath) (entry_name r e)), h)" "helper_ok td (length zpath) h"
    using targetEntryPath_ok [OF assms(3) prefix_length_le [OF assms(2)] assms(4)] by blast
  have "\<not> (length (entry_name r e) < length zpath \<or> strncmp (entry_name r e) zpath (length zpath) \<noteq> 0)"
    using assms(2) by (simp only: name_matches not_not)
  then show ?thesis using h assms(1,5) by (auto simp: extract_entry_def Let_def call_back_def)
qed

lemma dry_run_loop:
  assumes flags: "bit flags MZ_EXTRACT_DRY_RUN" and ops: "x_realloc_ok ops" and td: "CHR 0x00 \<notin> set td"
  shows "sorted_wrt (\<lambda>a b. strcmp a b \<le> 0) (map (entry_name r) es) \<Longrightarrow>
    (\<forall>e \<in> set es. CHR 0x00 \<notin> set (entry_name r e)) \<Longrightarrow> helper_ok td (length zpath) (x_help st) \<Longrightarrow>
    (x_seen st \<longrightarrow> (\<exists>a. prefix zpath a \<and> (\<forall>e \<in> set es. strcmp a (entry_name r e) \<le> 0))) \<Longrightarrow>
    \<exists>st'. extract_loop (extract_entry zl ops r flags ts True zpath) es st = Some (Done (True, st')) \<and>
      x_calls st' = x_calls st @ target_paths zpath td (map (entry_name r) es) \<and> x_fs st' = x_fs st \<and> x_fd st' = x_fd st"
proof (induction es arbitrary: st)
  case (Cons e es)
  let ?f = "extract_entry zl ops r flags ts True zpath"
  have sorted: "sorted_wrt (\<lambda>a b. strcmp a b \<le> 0) (map (entry_name r) es)"
      "\<forall>c \<in> set es. strcmp (entry_name r e) (entry_name r c) \<le> 0" using Cons.prems(1) by auto
  show ?case
  proof (cases "prefix zpath (entry_name r e)")
    case True
    obtain h where h: "?f e st = Some (Done (Go (st\<lparr>x_seen := True, x_help := h,
        x_calls := x_calls st @ [start_path td @ drop (length zpath) (entry_name r e)]\<rparr>)))" "helper_ok td (length zpath) h"
      using dry_run_entry [OF flags True Cons.prems(3) _ ops] Cons.prems(2) td by (metis UnE list.set_intros(1))
    let ?st = "st\<lparr>x_seen := True, x_help := h,
        x_calls := x_calls st @ [start_path td @ drop (length zpath) (entry_name r e)]\<rparr>"
    obtain st' where "extract_loop ?f es ?st = Some (Done (True, st'))"
      "x_calls st' = x_calls ?st @ target_paths zpath td (map (entry_name r) es)" "x_fs st' = x_fs ?st" "x_fd st' = x_fd ?st"
      using Cons.IH [OF sorted(1), of ?st] Cons.prems(2) h(2) True sorted(2) by auto
    then show ?thesis using h(1) True by (simp add: target_paths_def)
  next
    case False
    have miss: "?f e st = Some (Done (if x_seen st then Stop True st else Go st))"
      unfolding extract_entry_def name_matches using False by simp
    show ?thesis
    proof (cases "x_seen st")
      case True
      then obtain a where a: "prefix zpath a" "strcmp a (entry_name r e) \<le> 0" using Cons.prems(4) by auto
      have "\<not> prefix zpath (entry_name r c)" if "c \<in> set es" for c
        using prefix_between [OF a(2) _ a(1), of "entry_name r c"] sorted(2) that False by blast
      then have "target_paths zpath td (map (entry_name r) (e # es)) = []"
        using False by (auto simp: target_paths_def filter_empty_conv)
      then show ?thesis using miss True by simp
    next
      case unseen: False
      then show ?thesis using Cons.IH [OF sorted(1), of st] Cons.prems(2,3) miss False by (auto simp: target_paths_def)
    qed
  qed
qed (simp add: target_paths_def)

text \<open>
  C17. A dry run over an opened archive calls the callback with exactly the target paths of the
  entries under the given directory, in the order of the entries, and changes nothing: giving up at the
  first mismatch after a match loses no entry, because the table is sorted by name.\<close>

theorem dry_run_paths:
  assumes "parseZipArchive entries_ok calloc safe_addu safe_adds fdn r = Parsed z"
    and "safe_iop safe_addu safe_adds" "region_ok r" "calloc_fits calloc"
    and "bit flags MZ_EXTRACT_DRY_RUN" "x_malloc_ok ops" "x_realloc_ok ops"
    and "zipDir = [] \<or> hd zipDir \<noteq> CHR ''/''" "td \<noteq> []" "hd td = CHR ''/''" "CHR 0x00 \<notin> set td"
  shows "\<exists>st. mzExtractRecursive zl ops z zipDir td flags ts True fd fs = Some (Done (True, st)) \<and> x_fs st = fs \<and> x_fd st = fd \<and>
    x_calls st = target_paths (zip_path zipDir) td (map (z_name z) [0..<mzZipEntryCount z])"
proof -
  note pe = parsed_entries [OF assms(1-3)]
  have names: "map (entry_name (z_map z)) (z_pEntries z) = map (z_name z) [0..<mzZipEntryCount z]"
    using pe(2) by (intro nth_equalityI) (auto simp: z_name_def mzZipEntryCount_def)
  have "sorted_names (z_name z) (mzZipEntryCount z)" using parsed_sorted [OF assms(1-3)] .
  then have sorted: "sorted_wrt (\<lambda>a b. strcmp a b \<le> 0) (map (entry_name (z_map z)) (z_pEntries z))"
    unfolding names by (auto simp: sorted_names_def sorted_wrt_iff_nth_less)
  have nul: "\<forall>e \<in> set (z_pEntries z). CHR 0x00 \<notin> set (entry_name (z_map z) e)"
  proof
    fix e assume "e \<in> set (z_pEntries z)"
    then have "list_all printable (entry_name (z_map z) e)" using pe(1,3) by (simp add: entry_ok_def)
    moreover have "\<not> printable (CHR 0x00)" by (simp add: printable_def)
    ultimately show "CHR 0x00 \<notin> set (entry_name (z_map z) e)" by (auto simp: list_all_iff)
  qed
  have "helper_ok td (length (zip_path zipDir)) \<lparr>h_targetDir = td, h_zipDir = zip_path zipDir, h_buf = None,
      h_targetDirLen = length td, h_zipDirLen = length (zip_path zipDir), h_bufLen = 0\<rparr>" by (simp add: helper_ok_def)
  then show ?thesis using dry_run_loop [OF assms(5,7,11) sorted nul, of "zip_path zipDir"
        "\<lparr>x_fs = fs, x_fd = fd, x_help = \<lparr>h_targetDir = td, h_zipDir = zip_path zipDir, h_buf = None,
          h_targetDirLen = length td, h_zipDirLen = length (zip_path zipDir), h_bufLen = 0\<rparr>, x_calls = [], x_seen = False\<rparr>" zl ts]
      assms(6,8-10) unfolding names by (auto simp: mzExtractRecursive_def)
qed

text \<open>
  A failed extraction of a file is reported as success: when the contents of a regular file cannot
  be extracted, the loop is left with the outer \<^verbatim>\<open>ok\<close> still true and the function returns true, with the
  incomplete file in place and the remaining entries untouched.\<close>

theorem failed_file_reported_ok:
  assumes "z_pEntries z = e # es" "prefix (zip_path zipDir) (entry_name (z_map z) e)"
    and "CHR 0x00 \<notin> set td \<union> set (entry_name (z_map z) e)"
    and "load (z_map z) (fileName e + fileNameLen e - 1) = Some c" "char_of (unat c) \<noteq> CHR ''/''"
    and "\<not> bit flags MZ_EXTRACT_DRY_RUN" "bit flags MZ_EXTRACT_FILES_ONLY"
    and "x_malloc_ok ops" "x_realloc_ok ops" "zipDir = [] \<or> hd zipDir \<noteq> CHR ''/''" "td \<noteq> []" "hd td = CHR ''/''"
    and "target = start_path td @ drop (length (zip_path zipDir)) (entry_name (z_map z) e)"
    and "dirCreateHierarchy (x_dir ops) True target UNZIP_DIRMODE ts True fs = Some (0, fs1)"
    and "x_creat ops target UNZIP_FILEMODE fs1 = (Some w, fs2)"
    and "mzExtractZipEntryToFile zl e fd w = Some (Done (False, fd', w'))"
  shows "\<exists>st. mzExtractRecursive zl ops z zipDir td flags ts cb fd fs = Some (Done (True, st)) \<and>
    x_fs st = x_close ops target w' fs2 \<and> x_calls st = []"
proof -
  let ?h = "\<lparr>h_targetDir = td, h_zipDir = zip_path zipDir, h_buf = None,
      h_targetDirLen = length td, h_zipDirLen = length (zip_path zipDir), h_bufLen = 0\<rparr>"
  have "helper_ok td (length (zip_path zipDir)) ?h" by (simp add: helper_ok_def)
  then obtain h where h: "targetEntryPath True ?h (entry_name (z_map z) e) = Some (Some target, h)"
    using targetEntryPath_ok [OF _ prefix_length_le [OF assms(2)] assms(3)] assms(13) by blast
  have m: "\<not> (length (entry_name (z_map z) e) < length (zip_path zipDir) \<or>
      strncmp (entry_name (z_map z) e) (zip_path zipDir) (length (zip_path zipDir)) \<noteq> 0)"
    using assms(2) by (simp only: name_matches not_not)
  have "extract_entry zl ops (z_map z) flags ts cb (zip_path zipDir) e
      \<lparr>x_fs = fs, x_fd = fd, x_help = ?h, x_calls = [], x_seen = False\<rparr> =
    Some (Done (Stop True \<lparr>x_fs = x_close ops target w' fs2, x_fd = fd', x_help = h, x_calls = [], x_seen = True\<rparr>))"
    using m h assms(4-9,14-16)
    by (simp add: extract_entry_def create_entry_def with_dirs_def extract_file_def Let_def)
  then show ?thesis using assms(1,8,10-12) by (auto simp: mzExtractRecursive_def Let_def)
qed

section \<open>Samples\<close>

text \<open>A file system that records the directories and never refuses a call.\<close>

definition sample_ops :: "string list extops" where
  "sample_ops = \<lparr>x_dir = sample_px, x_symlink = (\<lambda>t p s. (True, s)), x_creat = (\<lambda>p m s. (Some \<lparr>w_data = [], w_sched = []\<rparr>, p # s)),
     x_close = (\<lambda>p w s. s), x_malloc = (\<lambda>n. None), x_malloc_ok = True, x_realloc_ok = True\<rparr>"

theorem dry_run_paths_witness:
  "\<exists>z st. parseZipArchive True calloc_model safe_addu_model safe_adds_model 3 sample_region = Parsed z \<and>
     mzExtractRecursive sample_zlib sample_ops z [] ''/t'' 2 None True (sample_file []) [] = Some (Done (True, st)) \<and>
     x_calls st = target_paths [] ''/t'' (map (z_name z) [0..<mzZipEntryCount z])"
proof -
  obtain z where z: "parseZipArchive True calloc_model safe_addu_model safe_adds_model 3 sample_region = Parsed z"
    using sample_parsed by blast
  have "bit (2 :: u32) MZ_EXTRACT_DRY_RUN" "x_malloc_ok sample_ops" "x_realloc_ok sample_ops"
    by code_simp+
  from dry_run_paths [OF z safe_iop_model sample_region_ok calloc_model_fits this, of "[]" "''/t''" sample_zlib None "sample_file []" "[]"]
  show ?thesis using z by (auto simp: zip_path_def)
qed

definition broken_zip :: ZipArchive where
  "broken_zip = \<lparr>z_fd = 3, z_numEntries = 1,
     z_pEntries = [(sample_entry STORED 2)\<lparr>fileName := 0x1000, fileNameLen := 1\<rparr>],
     z_pHash = \<lparr>tableSize = 1, numEntries = 0, numDeadEntries = 0, pEntries = [empty_entry], freeFunc = False\<rparr>,
     z_map = \<lparr>r_base = 0x1000, r_bytes = [0x61]\<rparr>\<rparr>"

theorem failed_file_reported_ok_witness:
  "\<exists>st. mzExtractRecursive sample_zlib sample_ops broken_zip [] ''/t'' 1 None False (sample_file [True]) [''/t''] = Some (Done (True, st)) \<and>
     x_fs st = [''/t/a'', ''/t''] \<and> x_calls st = []"
proof -
  define e where "e = (sample_entry STORED 2)\<lparr>fileName := 0x1000, fileNameLen := 1\<rparr>"
  have z: "z_pEntries broken_zip = [e]" by (simp add: broken_zip_def e_def)
  have n: "entry_name (z_map broken_zip) e = ''a''" unfolding e_def by code_simp
  have c: "load (z_map broken_zip) (fileName e + fileNameLen e - 1) = Some 0x61" unfolding e_def by code_simp
  have a: "char_of (unat (0x61 :: byte)) \<noteq> CHR ''/''" by code_simp
  have d: "dirCreateHierarchy (x_dir sample_ops) True ''/t/a'' UNZIP_DIRMODE None True [''/t''] = Some (0, [''/t''])" by code_simp
  have x: "mzExtractZipEntryToFile sample_zlib e (sample_file [True]) \<lparr>w_data = [], w_sched = []\<rparr> =
      Some (Done (False, sample_file [], \<lparr>w_data = [], w_sched = []\<rparr>))" unfolding e_def by code_simp
  have "\<exists>st. mzExtractRecursive sample_zlib sample_ops broken_zip [] ''/t'' 1 None False (sample_file [True]) [''/t''] = Some (Done (True, st)) \<and>
     x_fs st = x_close sample_ops ''/t/a'' \<lparr>w_data = [], w_sched = []\<rparr> [''/t/a'', ''/t''] \<and> x_calls st = []"
    by (rule failed_file_reported_ok [OF z _ _ c a _ _ _ _ _ _ _ _ d _ x])
      (simp_all add: n zip_path_def start_path_def sample_ops_def MZ_EXTRACT_DRY_RUN_def MZ_EXTRACT_FILES_ONLY_def bit_1_iff)
  then show ?thesis by (simp add: sample_ops_def)
qed

end
