(* ===== verification/Edify_Expr.thy ===== *)
theory Edify_Expr
  imports C_Library
begin

text \<open>
  The expression language of update scripts, \<^verbatim>\<open>edify/expr.c\<close> and \<^verbatim>\<open>edify/expr.h\<close>: values, the
  evaluation functions behind the operators and builtins, the argument helpers and the function
  table.  A function receives its unevaluated arguments; an argument is modelled by what it does
  when evaluated (\<open>a_fn\<close>, a state transformer) and its source range.  A null \<^verbatim>\<open>Value*\<close> or
  \<^verbatim>\<open>char*\<close> is \<open>None\<close> in the result; an outer \<open>None\<close> is undefined behaviour (an argument index
  beyond \<^verbatim>\<open>argc\<close>, a source range outside the script).  The text written by \<^verbatim>\<open>stdout()\<close> and the
  arguments of \<^verbatim>\<open>sleep\<close> are part of the state.  Memory management (\<^verbatim>\<open>malloc\<close>, \<^verbatim>\<open>free\<close>) and the
  diagnostics on \<^verbatim>\<open>stderr\<close> are not modelled.
\<close>

section \<open>Data\<close>

record State =
  script :: string
  errmsg :: "string option"
  stdout_text :: string
  slept :: "int list"

record Value =
  vtype :: int
  vsize :: int
  vdata :: string

definition VAL_STRING :: int where "VAL_STRING = 1"
definition VAL_BLOB :: int where "VAL_BLOB = 2"

type_synonym thunk = "State \<Rightarrow> (Value option \<times> State) option"

record Arg =
  a_fn :: thunk
  a_start :: int
  a_end :: int

type_synonym Function = "string \<Rightarrow> Arg list \<Rightarrow> State \<Rightarrow> (Value option \<times> State) option"

datatype Expr = Expr (fn: Function) (name: string) (argv: "Expr list") (e_start: int) (e_end: int)

record YYLTYPE =
  l_start :: int
  l_end :: int

section \<open>Evaluation\<close>

definition BooleanString :: "string \<Rightarrow> bool" where
  "BooleanString s \<longleftrightarrow> s \<noteq> []"

text \<open>\<^verbatim>\<open>ErrorAbort\<close> formats into a buffer of 4096 bytes; the message is given already formatted.\<close>

definition ErrorAbort :: "string \<Rightarrow> State \<Rightarrow> Value option \<times> State" where
  "ErrorAbort msg state = (None, state\<lparr>errmsg := Some (take 4095 msg)\<rparr>)"

definition StringValue :: "string option \<Rightarrow> Value option" where
  "StringValue str =
     (case str of None \<Rightarrow> None
      | Some s \<Rightarrow> Some \<lparr>vtype = VAL_STRING, vsize = int (length s), vdata = s\<rparr>)"

definition Evaluate :: "Arg \<Rightarrow> State \<Rightarrow> (string option \<times> State) option" where
  "Evaluate expr state = do {
     (v, state) \<leftarrow> a_fn expr state;
     case v of
       None \<Rightarrow> Some (None, state)
     | Some v \<Rightarrow>
         if vtype v \<noteq> VAL_STRING
         then let (_, state) =
                ErrorAbort (''expecting string, got value type '' @ show_int (vtype v)) state
              in Some (None, state)
         else Some (Some (vdata v), state) }"

fun EvaluateValue :: "Expr \<Rightarrow> State \<Rightarrow> (Value option \<times> State) option" where
  "EvaluateValue (Expr f nm args st en) state =
     f nm (map (\<lambda>e. \<lparr>a_fn = EvaluateValue e, a_start = e_start e, a_end = e_end e\<rparr>) args) state"

definition to_arg :: "Expr \<Rightarrow> Arg" where
  "to_arg e = \<lparr>a_fn = EvaluateValue e, a_start = e_start e, a_end = e_end e\<rparr>"

definition nth_arg :: "Arg list \<Rightarrow> nat \<Rightarrow> Arg option" where
  "nth_arg args i = (if i < length args then Some (args ! i) else None)"

section \<open>Argument helpers\<close>

text \<open>
  \<open>ReadArgs\<close> and \<open>ReadValueArgs\<close> evaluate the first \<open>count\<close> arguments in order and stop at the
  first null (result \<open>None\<close>, the return value -1); \<open>ReadVarArgs\<close> and \<open>ReadValueVarArgs\<close>
  evaluate all of them.
\<close>

fun ReadArgs :: "Arg list \<Rightarrow> nat \<Rightarrow> State \<Rightarrow> (string list option \<times> State) option" where
  "ReadArgs args 0 state = Some (Some [], state)"
| "ReadArgs [] (Suc count) state = None"
| "ReadArgs (a # args) (Suc count) state = do {
     (v, state) \<leftarrow> Evaluate a state;
     case v of
       None \<Rightarrow> Some (None, state)
     | Some v \<Rightarrow> do {
         (vs, state) \<leftarrow> ReadArgs args count state;
         Some (map_option ((#) v) vs, state) } }"

fun ReadValueArgs :: "Arg list \<Rightarrow> nat \<Rightarrow> State \<Rightarrow> (Value list option \<times> State) option" where
  "ReadValueArgs args 0 state = Some (Some [], state)"
| "ReadValueArgs [] (Suc count) state = None"
| "ReadValueArgs (a # args) (Suc count) state = do {
     (v, state) \<leftarrow> a_fn a state;
     case v of
       None \<Rightarrow> Some (None, state)
     | Some v \<Rightarrow> do {
         (vs, state) \<leftarrow> ReadValueArgs args count state;
         Some (map_option ((#) v) vs, state) } }"

definition ReadVarArgs :: "Arg list \<Rightarrow> State \<Rightarrow> (string list option \<times> State) option" where
  "ReadVarArgs args state = ReadArgs args (length args) state"

definition ReadValueVarArgs :: "Arg list \<Rightarrow> State \<Rightarrow> (Value list option \<times> State) option" where
  "ReadValueVarArgs args state = ReadValueArgs args (length args) state"

section \<open>The functions\<close>

text \<open>The first loop of \<open>ConcatFn\<close>: evaluate the arguments until one is null.\<close>

fun concat_loop :: "Arg list \<Rightarrow> State \<Rightarrow> (string list option \<times> State) option" where
  "concat_loop [] state = Some (Some [], state)"
| "concat_loop (a # args) state = do {
     (v, state) \<leftarrow> Evaluate a state;
     case v of
       None \<Rightarrow> Some (None, state)
     | Some v \<Rightarrow> do {
         (vs, state) \<leftarrow> concat_loop args state;
         Some (map_option ((#) v) vs, state) } }"

definition ConcatFn :: Function where
  "ConcatFn nm args state =
     (if length args = 0 then Some (StringValue (Some ''''), state)
      else do {
        (strings, state) \<leftarrow> concat_loop args state;
        Some (StringValue (map_option concat strings), state) })"

definition IfElseFn :: Function where
  "IfElseFn nm args state =
     (if length args \<noteq> 2 \<and> length args \<noteq> 3
      then Some (None, state\<lparr>errmsg := Some ''ifelse expects 2 or 3 arguments''\<rparr>)
      else do {
        a0 \<leftarrow> nth_arg args 0;
        (cond, state) \<leftarrow> Evaluate a0 state;
        case cond of
          None \<Rightarrow> Some (None, state)
        | Some cond \<Rightarrow>
            if BooleanString cond then do { a1 \<leftarrow> nth_arg args 1; a_fn a1 state }
            else if length args = 3 then do { a2 \<leftarrow> nth_arg args 2; a_fn a2 state }
            else Some (StringValue (Some cond), state) })"

definition AbortFn :: Function where
  "AbortFn nm args state = do {
     (msg, state) \<leftarrow> (if length args > 0 then do { a0 \<leftarrow> nth_arg args 0; Evaluate a0 state }
                      else Some (None, state));
     Some (None, state\<lparr>errmsg := (case msg of Some m \<Rightarrow> Some m | None \<Rightarrow> Some ''called abort()'')\<rparr>) }"

text \<open>The source text of an argument, \<^verbatim>\<open>script + start\<close> for \<^verbatim>\<open>end - start\<close> bytes.\<close>

definition source_text :: "string \<Rightarrow> Arg \<Rightarrow> string option" where
  "source_text sc a =
     (if 0 \<le> a_start a \<and> a_start a \<le> a_end a \<and> a_end a \<le> int (length sc)
      then Some (take (nat (a_end a - a_start a)) (drop (nat (a_start a)) sc)) else None)"

fun assert_loop :: "Arg list \<Rightarrow> State \<Rightarrow> (Value option \<times> State) option" where
  "assert_loop [] state = Some (StringValue (Some ''''), state)"
| "assert_loop (a # args) state = do {
     (v, state) \<leftarrow> Evaluate a state;
     case v of
       None \<Rightarrow> Some (None, state)
     | Some v \<Rightarrow>
         if \<not> BooleanString v then do {
           src \<leftarrow> source_text (script state) a;
           Some (None, state\<lparr>errmsg := Some (''assert failed: '' @ src)\<rparr>) }
         else assert_loop args state }"

definition AssertFn :: Function where
  "AssertFn nm args state = assert_loop args state"

definition SleepFn :: Function where
  "SleepFn nm args state = do {
     a0 \<leftarrow> nth_arg args 0;
     (val, state) \<leftarrow> Evaluate a0 state;
     case val of
       None \<Rightarrow> Some (None, state)
     | Some val \<Rightarrow>
         Some (StringValue (Some val), state\<lparr>slept := slept state @ [fst (strtol val 10)]\<rparr>) }"

fun stdout_loop :: "Arg list \<Rightarrow> State \<Rightarrow> (Value option \<times> State) option" where
  "stdout_loop [] state = Some (StringValue (Some ''''), state)"
| "stdout_loop (a # args) state = do {
     (v, state) \<leftarrow> Evaluate a state;
     case v of
       None \<Rightarrow> Some (None, state)
     | Some v \<Rightarrow> stdout_loop args (state\<lparr>stdout_text := stdout_text state @ v\<rparr>) }"

definition StdoutFn :: Function where
  "StdoutFn nm args state = stdout_loop args state"

definition LogicalAndFn :: Function where
  "LogicalAndFn nm args state = do {
     a0 \<leftarrow> nth_arg args 0;
     (left, state) \<leftarrow> Evaluate a0 state;
     case left of
       None \<Rightarrow> Some (None, state)
     | Some left \<Rightarrow>
         if BooleanString left then do { a1 \<leftarrow> nth_arg args 1; a_fn a1 state }
         else Some (StringValue (Some left), state) }"

definition LogicalOrFn :: Function where
  "LogicalOrFn nm args state = do {
     a0 \<leftarrow> nth_arg args 0;
     (left, state) \<leftarrow> Evaluate a0 state;
     case left of
       None \<Rightarrow> Some (None, state)
     | Some left \<Rightarrow>
         if \<not> BooleanString left then do { a1 \<leftarrow> nth_arg args 1; a_fn a1 state }
         else Some (StringValue (Some left), state) }"

definition LogicalNotFn :: Function where
  "LogicalNotFn nm args state = do {
     a0 \<leftarrow> nth_arg args 0;
     (val, state) \<leftarrow> Evaluate a0 state;
     case val of
       None \<Rightarrow> Some (None, state)
     | Some val \<Rightarrow> Some (StringValue (Some (if BooleanString val then '''' else ''t'')), state) }"

text \<open>The shape shared by the two-argument string tests.\<close>

definition two_strings :: "(string \<Rightarrow> string \<Rightarrow> bool) \<Rightarrow> Function" where
  "two_strings test nm args state = do {
     a0 \<leftarrow> nth_arg args 0;
     (left, state) \<leftarrow> Evaluate a0 state;
     case left of
       None \<Rightarrow> Some (None, state)
     | Some left \<Rightarrow> do {
         a1 \<leftarrow> nth_arg args 1;
         (right, state) \<leftarrow> Evaluate a1 state;
         case right of
           None \<Rightarrow> Some (None, state)
         | Some right \<Rightarrow> Some (StringValue (Some (if test left right then ''t'' else '''')), state) } }"

definition SubstringFn :: Function where
  "SubstringFn = two_strings (\<lambda>needle haystack. strstr haystack needle \<noteq> None)"

definition EqualityFn :: Function where
  "EqualityFn = two_strings (\<lambda>left right. strcmp left right = 0)"

definition InequalityFn :: Function where
  "InequalityFn = two_strings (\<lambda>left right. strcmp left right \<noteq> 0)"

definition SequenceFn :: Function where
  "SequenceFn nm args state = do {
     a0 \<leftarrow> nth_arg args 0;
     (left, state) \<leftarrow> a_fn a0 state;
     case left of
       None \<Rightarrow> Some (None, state)
     | Some _ \<Rightarrow> do { a1 \<leftarrow> nth_arg args 1; a_fn a1 state } }"

definition less_than_strings :: "string \<Rightarrow> string \<Rightarrow> bool" where
  "less_than_strings left right =
     (let (l_int, lend) = strtol left 10; (r_int, rend) = strtol right 10
      in if left = [] \<or> lend \<noteq> [] then False
         else if right = [] \<or> rend \<noteq> [] then False
         else l_int < r_int)"

definition LessThanIntFn :: Function where
  "LessThanIntFn nm args state =
     (if length args \<noteq> 2
      then Some (None, state\<lparr>errmsg := Some ''less_than_int expects 2 arguments''\<rparr>)
      else do {
        (r, state) \<leftarrow> ReadArgs args 2 state;
        case r of
          Some [left, right] \<Rightarrow>
            Some (StringValue (Some (if less_than_strings left right then ''t'' else '''')), state)
        | _ \<Rightarrow> Some (None, state) })"

definition GreaterThanIntFn :: Function where
  "GreaterThanIntFn nm args state =
     (if length args \<noteq> 2
      then Some (None, state\<lparr>errmsg := Some ''greater_than_int expects 2 arguments''\<rparr>)
      else do {
        a0 \<leftarrow> nth_arg args 0;
        a1 \<leftarrow> nth_arg args 1;
        LessThanIntFn nm [a1, a0] state })"

definition Literal :: Function where
  "Literal nm args state = Some (StringValue (Some nm), state)"

definition Build :: "Function \<Rightarrow> YYLTYPE \<Rightarrow> Expr list \<Rightarrow> Expr" where
  "Build f loc args = Expr f ''(operator)'' args (l_start loc) (l_end loc)"

section \<open>The function table\<close>

text \<open>\<open>fn_entries\<close> is the length of \<open>fn_table\<close>; \<open>fn_size\<close> is the number of slots allocated.\<close>

record FnTable =
  fn_size :: nat
  fn_table :: "(string \<times> Function) list"

definition empty_fn_table :: FnTable where
  "empty_fn_table = \<lparr>fn_size = 0, fn_table = []\<rparr>"

text \<open>Writing slot \<open>fn_entries\<close> is undefined (\<open>None\<close>) when it is not allocated.\<close>

definition RegisterFunction :: "string \<Rightarrow> Function \<Rightarrow> FnTable \<Rightarrow> FnTable option" where
  "RegisterFunction nm f t =
     (let t = (if length (fn_table t) \<ge> fn_size t then t\<lparr>fn_size := fn_size t * 2 + 1\<rparr> else t)
      in if length (fn_table t) < fn_size t
         then Some (t\<lparr>fn_table := fn_table t @ [(nm, f)]\<rparr>) else None)"

definition fn_entry_compare :: "string \<times> Function \<Rightarrow> string \<times> Function \<Rightarrow> int" where
  "fn_entry_compare a b = strcmp (fst a) (fst b)"

definition FinishRegistration :: "FnTable \<Rightarrow> FnTable" where
  "FinishRegistration t = t\<lparr>fn_table := qsort fn_entry_compare (fn_table t)\<rparr>"

definition FindFunction :: "string \<Rightarrow> FnTable \<Rightarrow> Function option" where
  "FindFunction nm t =
     (case bsearch (\<lambda>e. strcmp nm (fst e)) (fn_table t) of
        None \<Rightarrow> None | Some nf \<Rightarrow> Some (snd nf))"

definition builtins :: "(string \<times> Function) list" where
  "builtins =
     [(''ifelse'', IfElseFn), (''abort'', AbortFn), (''assert'', AssertFn), (''concat'', ConcatFn),
      (''is_substring'', SubstringFn), (''stdout'', StdoutFn), (''sleep'', SleepFn),
      (''less_than_int'', LessThanIntFn), (''greater_than_int'', GreaterThanIntFn)]"

fun register_all :: "(string \<times> Function) list \<Rightarrow> FnTable \<Rightarrow> FnTable option" where
  "register_all [] t = Some t"
| "register_all ((nm, f) # fs) t = do { t \<leftarrow> RegisterFunction nm f t; register_all fs t }"

definition RegisterBuiltins :: "FnTable \<Rightarrow> FnTable option" where
  "RegisterBuiltins t = register_all builtins t"

section \<open>The reference semantics\<close>

text \<open>
  What a function of the language means, free of the evaluator's state: an error message or a
  string, the text it prints and the sleeps it makes, as a function of what its arguments mean.
  \<open>outv\<close> and \<open>run\<close> read a meaning back as the value and the state change of the evaluator.
\<close>

type_synonym meaning = "(string + string) \<times> string \<times> int list"

definition ret :: "string \<Rightarrow> meaning" where
  "ret v = (Inr v, '''', [])"

definition err :: "string \<Rightarrow> meaning" where
  "err m = (Inl m, '''', [])"

definition also_do :: "string \<Rightarrow> int list \<Rightarrow> meaning \<Rightarrow> meaning" where
  "also_do out sl m = (fst m, out @ fst (snd m), sl @ snd (snd m))"

definition bind_m :: "meaning \<Rightarrow> (string \<Rightarrow> meaning) \<Rightarrow> meaning" where
  "bind_m m k =
     (case fst m of Inl e \<Rightarrow> m | Inr v \<Rightarrow> also_do (fst (snd m)) (snd (snd m)) (k v))"

definition outv :: "meaning \<Rightarrow> string option" where
  "outv m = (case fst m of Inl _ \<Rightarrow> None | Inr v \<Rightarrow> Some v)"

definition run :: "meaning \<Rightarrow> State \<Rightarrow> State" where
  "run m st = st\<lparr>stdout_text := stdout_text st @ fst (snd m), slept := slept st @ snd (snd m),
     errmsg := (case fst m of Inl e \<Rightarrow> Some e | Inr _ \<Rightarrow> errmsg st)\<rparr>"

definition meets :: "string \<Rightarrow> thunk \<Rightarrow> meaning \<Rightarrow> bool" where
  "meets sc t m \<longleftrightarrow> (\<forall>st. script st = sc \<longrightarrow> t st = Some (StringValue (outv m), run m st))"

text \<open>The meaning of a function applied to arguments with given meanings and source texts.\<close>

type_synonym den = "(meaning \<times> string) list \<Rightarrow> meaning"

fun all_m :: "(meaning \<times> string) list \<Rightarrow> (string list \<Rightarrow> meaning) \<Rightarrow> meaning" where
  "all_m [] k = k []"
| "all_m (d # ds) k = bind_m (fst d) (\<lambda>v. all_m ds (\<lambda>vs. k (v # vs)))"

definition arg_m :: "(meaning \<times> string) list \<Rightarrow> nat \<Rightarrow> meaning" where
  "arg_m ds i = fst (ds ! i)"

definition truth :: "bool \<Rightarrow> meaning" where
  "truth b = ret (if b then ''t'' else '''')"

definition concat_den :: den where
  "concat_den ds = all_m ds (\<lambda>vs. ret (concat vs))"

definition ifelse_den :: den where
  "ifelse_den ds =
     (if length ds = 2 \<or> length ds = 3
      then bind_m (arg_m ds 0) (\<lambda>c. if c = '''' then if length ds = 3 then arg_m ds 2 else ret ''''
             else arg_m ds 1)
      else err ''ifelse expects 2 or 3 arguments'')"

definition abort_den :: den where
  "abort_den ds =
     (case ds of [] \<Rightarrow> err ''called abort()''
      | d # _ \<Rightarrow> also_do (fst (snd (fst d))) (snd (snd (fst d)))
                  (err (case fst (fst d) of Inl _ \<Rightarrow> ''called abort()'' | Inr v \<Rightarrow> v)))"

fun assert_den :: den where
  "assert_den [] = ret ''''"
| "assert_den (d # ds) =
     bind_m (fst d) (\<lambda>v. if v = '''' then err (''assert failed: '' @ snd d) else assert_den ds)"

definition sleep_den :: den where
  "sleep_den ds = bind_m (arg_m ds 0) (\<lambda>v. also_do '''' [fst (strtol v 10)] (ret v))"

fun stdout_den :: den where
  "stdout_den [] = ret ''''"
| "stdout_den (d # ds) = bind_m (fst d) (\<lambda>v. also_do v [] (stdout_den ds))"

definition and_den :: den where
  "and_den ds = bind_m (arg_m ds 0) (\<lambda>l. if l = '''' then ret '''' else arg_m ds 1)"

definition or_den :: den where
  "or_den ds = bind_m (arg_m ds 0) (\<lambda>l. if l = '''' then arg_m ds 1 else ret l)"

definition not_den :: den where
  "not_den ds = bind_m (arg_m ds 0) (\<lambda>v. truth (v = ''''))"

definition test_den :: "(string \<Rightarrow> string \<Rightarrow> bool) \<Rightarrow> den" where
  "test_den t ds = bind_m (arg_m ds 0) (\<lambda>l. bind_m (arg_m ds 1) (\<lambda>r. truth (t l r)))"

definition seq_den :: den where
  "seq_den ds = bind_m (arg_m ds 0) (\<lambda>_. arg_m ds 1)"

definition less_den :: den where
  "less_den ds =
     (if length ds = 2 then test_den less_than_strings ds
      else err ''less_than_int expects 2 arguments'')"

definition greater_den :: den where
  "greater_den ds =
     (if length ds = 2 then test_den less_than_strings [ds ! 1, ds ! 0]
      else err ''greater_than_int expects 2 arguments'')"

subsection \<open>Laws of meanings\<close>

lemma meets_run:
  "meets sc t m \<Longrightarrow> script st = sc \<Longrightarrow> t st = Some (StringValue (outv m), run m st)"
  by (simp add: meets_def)

lemma script_run [simp]: "script (run m st) = script st"
  by (simp add: run_def)

lemma run_ret [simp]: "run (ret v) st = st" 
  by (simp add: run_def ret_def)

lemma outv_ret [simp]: "outv (ret v) = Some v"
  by (simp add: ret_def outv_def)

lemma run_err [simp]: "run (err m) st = st\<lparr>errmsg := Some m\<rparr>"
  by (simp add: run_def err_def)

lemma outv_err [simp]: "outv (err m) = None"
  by (simp add: err_def outv_def)

lemma outv_also_do [simp]: "outv (also_do out sl m) = outv m"
  by (simp add: outv_def also_do_def)

lemma run_also_do [simp]:
  "run (also_do out sl m) st =
     run m (st\<lparr>stdout_text := stdout_text st @ out, slept := slept st @ sl\<rparr>)"
  by (simp add: run_def also_do_def split: sum.split)

lemma bind_m_None: "outv m = None \<Longrightarrow> bind_m m k = m"
  by (auto simp: outv_def bind_m_def split: sum.splits)

lemma bind_m_Some:
  assumes "outv m = Some v"
  shows "outv (bind_m m k) = outv (k v)" "run (bind_m m k) st = run (k v) (run m st)"
proof -
  have v: "fst m = Inr v" using assms by (auto simp: outv_def split: sum.splits)
  then show "outv (bind_m m k) = outv (k v)" by (simp add: bind_m_def)
  have "run m st = st\<lparr>stdout_text := stdout_text st @ fst (snd m), slept := slept st @ snd (snd m)\<rparr>"
    using v by (simp add: run_def)
  with v show "run (bind_m m k) st = run (k v) (run m st)" by (simp add: bind_m_def)
qed

lemma StringValue_None [simp]: "StringValue None = None"
  by (simp add: StringValue_def)

lemma StringValue_Some: "\<exists>v. StringValue (Some s) = Some v \<and> vtype v = VAL_STRING \<and> vdata v = s"
  by (simp add: StringValue_def)

lemma Evaluate_meets:
  assumes "meets sc (a_fn a) m" "script st = sc"
  shows "Evaluate a st = Some (outv m, run m st)"
  using meets_run [OF assms] by (cases "outv m") (simp_all add: Evaluate_def StringValue_def)

section \<open>The contract of a function\<close>

text \<open>
  An argument means \<open>d\<close> when evaluating it does what \<open>d\<close> says and \<open>snd d\<close> is its source text.
  A function implements a meaning transformer on the argument counts of \<open>arity\<close> when, given
  arguments that mean something, calling it means what the transformer says.  Every operator
  and builtin is an instance; expressions are composed with this contract alone.
\<close>

definition means :: "string \<Rightarrow> Arg \<Rightarrow> meaning \<times> string \<Rightarrow> bool" where
  "means sc a d \<longleftrightarrow> meets sc (a_fn a) (fst d) \<and> source_text sc a = Some (snd d)"

locale edify_function =
  fixes f :: Function and arity :: "nat \<Rightarrow> bool" and den :: den
  assumes implements: "arity (length args) \<Longrightarrow> list_all2 (means sc) args ds \<Longrightarrow>
    script st = sc \<Longrightarrow> f nm args st = Some (StringValue (outv (den ds)), run (den ds) st)"
begin

lemma expr_means:
  assumes "arity (length args)" "list_all2 (means sc) (map to_arg args) ds"
    and "source_text sc (to_arg (Expr f nm args st en)) = Some txt"
  shows "means sc (to_arg (Expr f nm args st en)) (den ds, txt)"
proof -
  have "meets sc (f nm (map to_arg args)) (den ds)"
    using assms(1,2) implements by (simp add: meets_def)
  then have "meets sc (EvaluateValue (Expr f nm args st en)) (den ds)"
    by (simp add: meets_def to_arg_def [abs_def])
  then show ?thesis using assms(3) by (simp add: means_def to_arg_def)
qed

end

lemma means_Evaluate:
  "means sc a d \<Longrightarrow> script st = sc \<Longrightarrow> Evaluate a st = Some (outv (fst d), run (fst d) st)"
  by (auto simp: means_def intro: Evaluate_meets)

lemma means_value:
  "means sc a d \<Longrightarrow> script st = sc \<Longrightarrow> a_fn a st = Some (StringValue (outv (fst d)), run (fst d) st)"
  by (auto simp: means_def intro: meets_run)

lemma nth_arg_means:
  assumes "list_all2 (means sc) args ds" "i < length args"
  shows "nth_arg args i = Some (args ! i) \<and> means sc (args ! i) (ds ! i)"
  using assms by (auto simp: nth_arg_def list_all2_conv_all_nth)

lemma length_means: "list_all2 (means sc) args ds \<Longrightarrow> length ds = length args"
  by (simp add: list_all2_lengthD)

section \<open>The instances\<close>

text \<open>Evaluating the first argument, as every operator does.\<close>

lemma first_arg:
  assumes "list_all2 (means sc) args ds" "0 < length args" "script st = sc"
  obtains a0 where "nth_arg args 0 = Some a0"
    and "Evaluate a0 st = Some (outv (arg_m ds 0), run (arg_m ds 0) st)"
    and "a_fn a0 st = Some (StringValue (outv (arg_m ds 0)), run (arg_m ds 0) st)"
  using nth_arg_means [OF assms(1,2)] means_Evaluate means_value assms(3) by (metis arg_m_def)

lemma later_arg:
  assumes "list_all2 (means sc) args ds" "i < length args"
  obtains a where "nth_arg args i = Some a"
    and "\<And>st. script st = sc \<Longrightarrow> Evaluate a st = Some (outv (arg_m ds i), run (arg_m ds i) st)"
    and "\<And>st. script st = sc \<Longrightarrow> a_fn a st = Some (StringValue (outv (arg_m ds i)), run (arg_m ds i) st)"
  using nth_arg_means [OF assms] means_Evaluate means_value by (metis arg_m_def)

lemma ReadArgs_means:
  assumes "list_all2 (means sc) args ds" "script st = sc"
  shows "ReadArgs args (length args) st = Some (None, run (all_m ds k) st) \<and> outv (all_m ds k) = None \<or>
    (\<exists>vs st'. ReadArgs args (length args) st = Some (Some vs, st') \<and> length vs = length args \<and>
       script st' = sc \<and> outv (all_m ds k) = outv (k vs) \<and> run (all_m ds k) st = run (k vs) st')"
  using assms
proof (induction args ds arbitrary: st k rule: list_all2_induct)
  case Nil
  then show ?case by simp
next
  case (Cons a args d ds)
  note e = means_Evaluate [OF Cons.hyps(1) Cons.prems(1)]
  show ?case
  proof (cases "outv (fst d)")
    case None
    then show ?thesis by (simp add: e bind_m_None)
  next
    case (Some v)
    have "script (run (fst d) st) = sc" using Cons.prems by simp
    from Cons.IH [OF this, of "\<lambda>vs. k (v # vs)"] Some
    show ?thesis by (auto simp: e bind_m_Some [OF Some])
  qed
qed

lemma concat_loop_ReadArgs: "concat_loop args st = ReadArgs args (length args) st"
proof (induction args arbitrary: st)
  case (Cons a args)
  then show ?case by (auto split: option.splits bind_splits)
qed simp

interpretation concat_fn: edify_function ConcatFn "\<lambda>_. True" concat_den
proof unfold_locales
  fix args sc ds nm and st :: State
  assume m: "list_all2 (means sc) args ds" and sc: "script st = sc"
  show "ConcatFn nm args st = Some (StringValue (outv (concat_den ds)), run (concat_den ds) st)"
    using ReadArgs_means [OF m sc, of "\<lambda>vs. ret (concat vs)"] m
    by (cases "args = []") (auto simp: ConcatFn_def concat_loop_ReadArgs concat_den_def)
qed

interpretation ifelse_fn: edify_function IfElseFn "\<lambda>_. True" ifelse_den
proof unfold_locales
  fix args sc ds nm and st :: State
  assume m: "list_all2 (means sc) args ds" and sc: "script st = sc"
  have l: "length ds = length args" using m by (rule length_means)
  show "IfElseFn nm args st = Some (StringValue (outv (ifelse_den ds)), run (ifelse_den ds) st)"
  proof (cases "length args = 2 \<or> length args = 3")
    case True
    then have n: "0 < length args" "1 < length args" by auto
    obtain a0 where a0: "nth_arg args 0 = Some a0"
        "Evaluate a0 st = Some (outv (arg_m ds 0), run (arg_m ds 0) st)"
      using first_arg [OF m n(1) sc] by metis
    obtain a1 where a1: "nth_arg args (Suc 0) = Some a1"
        "\<And>st. script st = sc \<Longrightarrow> a_fn a1 st = Some (StringValue (outv (arg_m ds 1)), run (arg_m ds 1) st)"
      using later_arg [OF m n(2)] by (metis One_nat_def)
    show ?thesis
    proof (cases "outv (arg_m ds 0)")
      case None
      then show ?thesis using True l by (auto simp: IfElseFn_def ifelse_den_def a0 bind_m_None)
    next
      case (Some c)
      show ?thesis
      proof (cases "length args = 3 \<and> c = ''''")
        case True
        obtain a2 where "nth_arg args 2 = Some a2"
            "\<And>st. script st = sc \<Longrightarrow> a_fn a2 st = Some (StringValue (outv (arg_m ds 2)), run (arg_m ds 2) st)"
          using later_arg [OF m, of 2] True by (metis lessI numeral_3_eq_3 numeral_2_eq_2)
        then show ?thesis using True l sc
          by (simp add: IfElseFn_def ifelse_den_def a0 Some bind_m_Some BooleanString_def)
      next
        case False
        then show ?thesis using True l sc
          by (auto simp: IfElseFn_def ifelse_den_def a0 a1 Some bind_m_Some BooleanString_def)
      qed
    qed
  qed (auto simp: IfElseFn_def ifelse_den_def l)
qed

interpretation abort_fn: edify_function AbortFn "\<lambda>_. True" abort_den
proof unfold_locales
  fix args sc ds nm and st :: State
  assume m: "list_all2 (means sc) args ds" and sc: "script st = sc"
  show "AbortFn nm args st = Some (StringValue (outv (abort_den ds)), run (abort_den ds) st)"
  proof (cases args)
    case Nil
    then show ?thesis using m by (simp add: AbortFn_def abort_den_def)
  next
    case (Cons a as)
    then obtain d ds' where d: "ds = d # ds'" "means sc a d" using m by (auto simp: list_all2_Cons1)
    show ?thesis using means_Evaluate [OF d(2) sc] Cons d(1)
      by (cases "fst (fst d)") (auto simp: AbortFn_def abort_den_def nth_arg_def outv_def run_def also_do_def err_def)
  qed
qed

interpretation assert_fn: edify_function AssertFn "\<lambda>_. True" assert_den
proof unfold_locales
  fix args sc ds nm and st :: State
  assume "list_all2 (means sc) args ds" and "script st = sc"
  then show "AssertFn nm args st = Some (StringValue (outv (assert_den ds)), run (assert_den ds) st)"
    unfolding AssertFn_def
  proof (induction args ds arbitrary: st rule: list_all2_induct)
    case (Cons a args d ds)
    note e = means_Evaluate [OF Cons.hyps(1) Cons.prems(1)]
    have src: "source_text sc a = Some (snd d)" using Cons.hyps(1) by (simp add: means_def)
    show ?case using Cons.IH [of "run (fst d) st"] Cons.prems src
      by (cases "outv (fst d)") (auto simp: e bind_m_None bind_m_Some BooleanString_def)
  qed simp
qed

interpretation stdout_fn: edify_function StdoutFn "\<lambda>_. True" stdout_den
proof unfold_locales
  fix args sc ds nm and st :: State
  assume "list_all2 (means sc) args ds" and "script st = sc"
  then show "StdoutFn nm args st = Some (StringValue (outv (stdout_den ds)), run (stdout_den ds) st)"
    unfolding StdoutFn_def
  proof (induction args ds arbitrary: st rule: list_all2_induct)
    case (Cons a args d ds)
    note e = means_Evaluate [OF Cons.hyps(1) Cons.prems(1)]
    show ?case using Cons.IH Cons.prems
      by (cases "outv (fst d)") (auto simp: e bind_m_None bind_m_Some)
  qed simp
qed

interpretation sleep_fn: edify_function SleepFn "\<lambda>n. 1 \<le> n" sleep_den
proof unfold_locales
  fix args sc ds nm and st :: State
  assume m: "list_all2 (means sc) args ds" "1 \<le> length args" and sc: "script st = sc"
  from m(2) have n: "0 < length args" by linarith
  obtain a0 where a0: "nth_arg args 0 = Some a0"
      "Evaluate a0 st = Some (outv (arg_m ds 0), run (arg_m ds 0) st)"
    using first_arg [OF m(1) n sc] by metis
  show "SleepFn nm args st = Some (StringValue (outv (sleep_den ds)), run (sleep_den ds) st)"
    by (cases "outv (arg_m ds 0)") (simp_all add: SleepFn_def sleep_den_def a0 bind_m_None bind_m_Some)
qed

interpretation not_fn: edify_function LogicalNotFn "\<lambda>n. 1 \<le> n" not_den
proof unfold_locales
  fix args sc ds nm and st :: State
  assume m: "list_all2 (means sc) args ds" "1 \<le> length args" and sc: "script st = sc"
  from m(2) have n: "0 < length args" by linarith
  obtain a0 where a0: "nth_arg args 0 = Some a0"
      "Evaluate a0 st = Some (outv (arg_m ds 0), run (arg_m ds 0) st)"
    using first_arg [OF m(1) n sc] by metis
  show "LogicalNotFn nm args st = Some (StringValue (outv (not_den ds)), run (not_den ds) st)"
    by (cases "outv (arg_m ds 0)")
      (simp_all add: LogicalNotFn_def not_den_def a0 bind_m_None bind_m_Some truth_def BooleanString_def)
qed

text \<open>Two arguments: what evaluating each of them does.\<close>

lemma two_args:
  assumes "list_all2 (means sc) args ds" "2 \<le> length args" "script st = sc"
  obtains a0 a1 where "nth_arg args 0 = Some a0" "nth_arg args 1 = Some a1"
    and "Evaluate a0 st = Some (outv (arg_m ds 0), run (arg_m ds 0) st)"
    and "a_fn a0 st = Some (StringValue (outv (arg_m ds 0)), run (arg_m ds 0) st)"
    and "\<And>st. script st = sc \<Longrightarrow> Evaluate a1 st = Some (outv (arg_m ds 1), run (arg_m ds 1) st)"
    and "\<And>st. script st = sc \<Longrightarrow> a_fn a1 st = Some (StringValue (outv (arg_m ds 1)), run (arg_m ds 1) st)"
proof -
  have n: "0 < length args" "1 < length args" using assms(2) by auto
  show thesis
    by (rule first_arg [OF assms(1) n(1) assms(3)], rule later_arg [OF assms(1) n(2)])
      (rule that; assumption)
qed

interpretation and_fn: edify_function LogicalAndFn "\<lambda>n. 2 \<le> n" and_den
proof unfold_locales
  fix args sc ds nm and st :: State
  assume m: "list_all2 (means sc) args ds" "2 \<le> length args" and sc: "script st = sc"
  show "LogicalAndFn nm args st = Some (StringValue (outv (and_den ds)), run (and_den ds) st)"
    using sc by (rule_tac two_args [OF m sc], cases "outv (arg_m ds 0)")
      (auto simp: LogicalAndFn_def and_den_def bind_m_None bind_m_Some BooleanString_def)
qed

interpretation or_fn: edify_function LogicalOrFn "\<lambda>n. 2 \<le> n" or_den
proof unfold_locales
  fix args sc ds nm and st :: State
  assume m: "list_all2 (means sc) args ds" "2 \<le> length args" and sc: "script st = sc"
  show "LogicalOrFn nm args st = Some (StringValue (outv (or_den ds)), run (or_den ds) st)"
    using sc by (rule_tac two_args [OF m sc], cases "outv (arg_m ds 0)")
      (auto simp: LogicalOrFn_def or_den_def bind_m_None bind_m_Some BooleanString_def)
qed

interpretation seq_fn: edify_function SequenceFn "\<lambda>n. 2 \<le> n" seq_den
proof unfold_locales
  fix args sc ds nm and st :: State
  assume m: "list_all2 (means sc) args ds" "2 \<le> length args" and sc: "script st = sc"
  show "SequenceFn nm args st = Some (StringValue (outv (seq_den ds)), run (seq_den ds) st)"
    using sc by (rule_tac two_args [OF m sc], cases "outv (arg_m ds 0)")
      (auto simp: SequenceFn_def seq_den_def bind_m_None bind_m_Some StringValue_def [of "Some _"])
qed

lemma two_strings_function: "edify_function (two_strings t) (\<lambda>n. 2 \<le> n) (test_den t)"
proof unfold_locales
  fix args sc ds nm and st :: State
  assume m: "list_all2 (means sc) args ds" "2 \<le> length args" and sc: "script st = sc"
  show "two_strings t nm args st = Some (StringValue (outv (test_den t ds)), run (test_den t ds) st)"
    using sc by (rule_tac two_args [OF m sc], cases "outv (arg_m ds 0)"; cases "outv (arg_m ds 1)")
      (auto simp: two_strings_def test_den_def bind_m_None bind_m_Some truth_def)
qed

interpretation substring_fn: edify_function SubstringFn "\<lambda>n. 2 \<le> n"
    "test_den (\<lambda>needle haystack. \<exists>a b. haystack = a @ needle @ b)"
  using two_strings_function [of "\<lambda>needle haystack. strstr haystack needle \<noteq> None"]
  by (simp only: SubstringFn_def strstr_iff)

interpretation equality_fn: edify_function EqualityFn "\<lambda>n. 2 \<le> n" "test_den (\<lambda>l r. l = r)"
  using two_strings_function [of "\<lambda>left right. strcmp left right = 0"]
  by (simp only: EqualityFn_def strcmp_eq_0)

interpretation inequality_fn: edify_function InequalityFn "\<lambda>n. 2 \<le> n" "test_den (\<lambda>l r. l \<noteq> r)"
  using two_strings_function [of "\<lambda>left right. strcmp left right \<noteq> 0"]
  by (simp only: InequalityFn_def strcmp_eq_0)

lemma LessThanIntFn_two:
  assumes "length args = 2"
  shows "LessThanIntFn nm args st = two_strings less_than_strings nm args st"
proof -
  obtain a b where "args = [a, b]" using assms by (auto simp: numeral_2_eq_2 length_Suc_conv)
  then show ?thesis
    by (auto simp: LessThanIntFn_def two_strings_def nth_arg_def numeral_2_eq_2 split: option.splits bind_splits)
qed

interpretation less_fn: edify_function LessThanIntFn "\<lambda>_. True" less_den
proof unfold_locales
  fix args sc ds nm and st :: State
  assume m: "list_all2 (means sc) args ds" and sc: "script st = sc"
  show "LessThanIntFn nm args st = Some (StringValue (outv (less_den ds)), run (less_den ds) st)"
    using edify_function.implements [OF two_strings_function _ m sc, of less_than_strings nm] length_means [OF m]
    by (cases "length args = 2") (simp_all add: LessThanIntFn_two less_den_def, simp add: LessThanIntFn_def)
qed

interpretation greater_fn: edify_function GreaterThanIntFn "\<lambda>_. True" greater_den
proof unfold_locales
  fix args sc ds nm and st :: State
  assume m: "list_all2 (means sc) args ds" and sc: "script st = sc"
  note l = length_means [OF m]
  show "GreaterThanIntFn nm args st = Some (StringValue (outv (greater_den ds)), run (greater_den ds) st)"
  proof (cases "length args = 2")
    case True
    have "list_all2 (means sc) [args ! 1, args ! 0] [ds ! 1, ds ! 0]"
      using nth_arg_means [OF m] True by simp
    from less_fn.implements [OF TrueI this sc] True l
    show ?thesis by (simp add: GreaterThanIntFn_def nth_arg_def less_den_def greater_den_def)
  qed (simp add: GreaterThanIntFn_def greater_den_def l)
qed

section \<open>The function table, proved\<close>

definition table_ok :: "FnTable \<Rightarrow> bool" where
  "table_ok t \<longleftrightarrow> length (fn_table t) \<le> fn_size t"

lemma RegisterFunction_ok:
  assumes "table_ok t"
  obtains t' where "RegisterFunction nm f t = Some t'" "table_ok t'"
    and "fn_table t' = fn_table t @ [(nm, f)]"
  using assms by (cases "fn_size t \<le> length (fn_table t)")
    (auto simp: RegisterFunction_def table_ok_def Let_def)

lemma register_all_ok:
  assumes "table_ok t"
  shows "\<exists>t'. register_all fs t = Some t' \<and> table_ok t' \<and> fn_table t' = fn_table t @ fs"
  using assms
proof (induction fs arbitrary: t)
  case (Cons nf fs)
  obtain t1 where t1: "RegisterFunction (fst nf) (snd nf) t = Some t1" "table_ok t1"
      "fn_table t1 = fn_table t @ [nf]"
    using RegisterFunction_ok [OF Cons.prems, of "fst nf" "snd nf"] by auto
  then show ?case using Cons.IH [OF t1(2)] by (cases nf) auto
qed simp

lemma distinct_names_qsort:
  assumes "distinct (map fst xs)"
  shows "distinct (map fst (qsort cmp xs))"
proof (rule card_distinct)
  have "card (set (map fst (qsort cmp xs))) = card (set (map fst xs))" by simp
  also have "\<dots> = length (map fst xs)" using assms by (rule distinct_card)
  finally show "card (set (map fst (qsort cmp xs))) = length (map fst (qsort cmp xs))" by simp
qed

lemma sorted_fn_table: "sorted_by fn_entry_compare (qsort fn_entry_compare xs)"
  by (rule sorted_by_qsort; unfold fn_entry_compare_def)
    (fact strcmp_le_trans strcmp_le_total)+

lemma bsearch_named:
  assumes "sorted_by fn_entry_compare xs" "distinct (map fst xs)"
  shows "map_option snd (bsearch (\<lambda>e. strcmp nm (fst e)) xs) = map_of xs nm"
proof (cases "nm \<in> fst ` set xs")
  case True
  then obtain k where k: "k < length xs" "fst (xs ! k) = nm" by (auto simp: in_set_conv_nth)
  have mono: "strcmp nm (fst (xs ! j)) < 0"
    if ij: "i < j" "j < length xs" "strcmp nm (fst (xs ! i)) \<le> 0" for i j
  proof -
    have le: "strcmp (fst (xs ! i)) (fst (xs ! j)) \<le> 0"
      using assms(1) ij by (auto simp: sorted_by_def fn_entry_compare_def sorted_wrt_iff_nth_less)
    have "fst (xs ! i) \<noteq> fst (xs ! j)"
      using assms(2) ij by (auto simp: distinct_conv_nth)
    then have "strcmp (fst (xs ! i)) (fst (xs ! j)) < 0" using le by (simp add: order_le_less)
    then show ?thesis using ij(3) strcmp_trans by (metis order_le_less strcmp_eq_0)
  qed
  have "bsearch (\<lambda>e. strcmp nm (fst e)) xs = Some (xs ! k)"
    unfolding bsearch_def by (rule bsearch_loop_complete) (use mono k in auto)
  moreover have "map_of xs nm = Some (snd (xs ! k))"
    using assms(2) k by (metis map_of_is_SomeI nth_mem prod.collapse)
  ultimately show ?thesis by simp
next
  case False
  have "bsearch (\<lambda>e. strcmp nm (fst e)) xs = None"
  proof (rule ccontr)
    assume "bsearch (\<lambda>e. strcmp nm (fst e)) xs \<noteq> None"
    then obtain x where "bsearch_loop (\<lambda>e. strcmp nm (fst e)) xs 0 (length xs) = Some x"
      by (auto simp: bsearch_def)
    from bsearch_loop_sound [OF _ this] False show False by force
  qed
  moreover have "map_of xs nm = None" using False by (simp add: map_of_eq_None_iff)
  ultimately show ?thesis by simp
qed

lemma FindFunction_Finish:
  assumes "distinct (map fst (fn_table t))"
  shows "FindFunction nm (FinishRegistration t) = map_of (fn_table t) nm"
proof -
  let ?xs = "qsort fn_entry_compare (fn_table t)"
  have "FindFunction nm (FinishRegistration t) = map_option snd (bsearch (\<lambda>e. strcmp nm (fst e)) ?xs)"
    by (simp add: FindFunction_def FinishRegistration_def split: option.split)
  also have "\<dots> = map_of ?xs nm"
    by (rule bsearch_named [OF sorted_fn_table distinct_names_qsort [OF assms]])
  also have "\<dots> = map_of (fn_table t) nm"
  proof -
    have "map_of ?xs = map_of (fn_table t)"
      by (rule map_of_inject_set [THEN iffD2]) (use assms in \<open>auto simp: distinct_names_qsort\<close>)
    then show ?thesis by simp
  qed
  finally show ?thesis .
qed

text \<open>The table the updater works with when it registers the functions \<open>extra\<close> after the builtins.\<close>

definition function_table :: "(string \<times> Function) list \<Rightarrow> FnTable option" where
  "function_table extra = do {
     t \<leftarrow> RegisterBuiltins empty_fn_table;
     t \<leftarrow> register_all extra t;
     Some (FinishRegistration t) }"

text \<open>
  Registration and lookup of functions: registering any functions with names that are
  distinct, after the builtins, never writes outside the table, and after \<open>FinishRegistration\<close>
  looking a name up returns exactly the function registered under it, and null for a name that
  was not registered.\<close>

theorem FindFunction_registered:
  assumes "distinct (map fst (builtins @ extra))"
  shows "\<exists>t. function_table extra = Some t \<and> table_ok t \<and>
    (\<forall>nm. FindFunction nm t = map_of (builtins @ extra) nm)"
proof -
  have "table_ok empty_fn_table" by (simp add: table_ok_def empty_fn_table_def)
  then obtain t1 where t1: "RegisterBuiltins empty_fn_table = Some t1" "table_ok t1" "fn_table t1 = builtins"
    using register_all_ok [of empty_fn_table builtins] by (auto simp: RegisterBuiltins_def empty_fn_table_def)
  then obtain t2 where t2: "register_all extra t1 = Some t2" "table_ok t2" "fn_table t2 = builtins @ extra"
    using register_all_ok [of t1 extra] by auto
  have "FindFunction nm (FinishRegistration t2) = map_of (builtins @ extra) nm" for nm
    using FindFunction_Finish [of t2 nm] t2(3) assms by simp
  moreover have "table_ok (FinishRegistration t2)"
    using t2(2) by (simp add: table_ok_def FinishRegistration_def)
  ultimately show ?thesis using t1 t2 by (simp add: function_table_def)
qed

theorem FindFunction_registered_witness:
  "distinct (map fst (builtins @ [(''mount'', AbortFn)])) \<and>
   (\<exists>t. function_table [(''mount'', AbortFn)] = Some t \<and> FindFunction ''mount'' t = Some AbortFn \<and>
      FindFunction ''sleep'' t = Some SleepFn \<and> FindFunction ''umount'' t = None)"
proof -
  have "distinct (map fst (builtins @ [(''mount'', AbortFn)]))" by (simp add: builtins_def)
  then show ?thesis using FindFunction_registered [of "[(''mount'', AbortFn)]"]
    by (auto simp: builtins_def)
qed

end
