(* ===== verification/Edify_Script.thy ===== *)
theory Edify_Script
  imports Edify_Expr
begin

text \<open>
  From a parsed script to its evaluation.  \<open>Ast\<close> has one constructor per production of
  \<^verbatim>\<open>edify/parser.y\<close>; \<open>build\<close> is the semantic action of each production, which makes the \<open>Expr\<close>
  tree, resolving the names of called functions in the function table.  \<open>ast_meaning\<close> is the
  reference semantics of a script, by recursion over the same syntax.  The main theorem says
  that evaluating the tree built from a script does what the script means; the cases of the
  test program \<^verbatim>\<open>edify/main.c\<close> are its witnesses.
\<close>

section \<open>Syntax and semantic actions\<close>

datatype Ast =
    A_String YYLTYPE string
  | A_Paren YYLTYPE Ast
  | A_SeqEnd YYLTYPE Ast
  | A_Seq YYLTYPE Ast Ast
  | A_Cat YYLTYPE Ast Ast
  | A_Eq YYLTYPE Ast Ast
  | A_Ne YYLTYPE Ast Ast
  | A_And YYLTYPE Ast Ast
  | A_Or YYLTYPE Ast Ast
  | A_Not YYLTYPE Ast
  | A_If YYLTYPE Ast Ast
  | A_IfElse YYLTYPE Ast Ast Ast
  | A_Call YYLTYPE string "Ast list"

definition relocate :: "YYLTYPE \<Rightarrow> Expr \<Rightarrow> Expr" where
  "relocate loc e = Expr (fn e) (name e) (argv e) (l_start loc) (l_end loc)"

text \<open>\<open>None\<close> is a call of an unknown function, which makes the parser report an error.\<close>

fun build :: "FnTable \<Rightarrow> Ast \<Rightarrow> Expr option" where
  "build t (A_String loc s) = Some (Expr Literal s [] (l_start loc) (l_end loc))"
| "build t (A_Paren loc a) = map_option (relocate loc) (build t a)"
| "build t (A_SeqEnd loc a) = map_option (relocate loc) (build t a)"
| "build t (A_Seq loc a b) = do { x \<leftarrow> build t a; y \<leftarrow> build t b; Some (Build SequenceFn loc [x, y]) }"
| "build t (A_Cat loc a b) = do { x \<leftarrow> build t a; y \<leftarrow> build t b; Some (Build ConcatFn loc [x, y]) }"
| "build t (A_Eq loc a b) = do { x \<leftarrow> build t a; y \<leftarrow> build t b; Some (Build EqualityFn loc [x, y]) }"
| "build t (A_Ne loc a b) = do { x \<leftarrow> build t a; y \<leftarrow> build t b; Some (Build InequalityFn loc [x, y]) }"
| "build t (A_And loc a b) = do { x \<leftarrow> build t a; y \<leftarrow> build t b; Some (Build LogicalAndFn loc [x, y]) }"
| "build t (A_Or loc a b) = do { x \<leftarrow> build t a; y \<leftarrow> build t b; Some (Build LogicalOrFn loc [x, y]) }"
| "build t (A_Not loc a) = do { x \<leftarrow> build t a; Some (Build LogicalNotFn loc [x]) }"
| "build t (A_If loc a b) = do { x \<leftarrow> build t a; y \<leftarrow> build t b; Some (Build IfElseFn loc [x, y]) }"
| "build t (A_IfElse loc a b c) =
     do { x \<leftarrow> build t a; y \<leftarrow> build t b; z \<leftarrow> build t c; Some (Build IfElseFn loc [x, y, z]) }"
| "build t (A_Call loc nm args) = do {
     es \<leftarrow> those (map (build t) args);
     f \<leftarrow> FindFunction nm t;
     Some (Expr f nm es (l_start loc) (l_end loc)) }"

section \<open>Reference semantics of scripts\<close>

fun loc_of :: "Ast \<Rightarrow> YYLTYPE" where
  "loc_of (A_String loc _) = loc"
| "loc_of (A_Paren loc _) = loc"
| "loc_of (A_SeqEnd loc _) = loc"
| "loc_of (A_Seq loc _ _) = loc"
| "loc_of (A_Cat loc _ _) = loc"
| "loc_of (A_Eq loc _ _) = loc"
| "loc_of (A_Ne loc _ _) = loc"
| "loc_of (A_And loc _ _) = loc"
| "loc_of (A_Or loc _ _) = loc"
| "loc_of (A_Not loc _) = loc"
| "loc_of (A_If loc _ _) = loc"
| "loc_of (A_IfElse loc _ _ _) = loc"
| "loc_of (A_Call loc _ _) = loc"

definition slice :: "string \<Rightarrow> YYLTYPE \<Rightarrow> string" where
  "slice sc loc = take (nat (l_end loc - l_start loc)) (drop (nat (l_start loc)) sc)"

definition loc_in :: "string \<Rightarrow> YYLTYPE \<Rightarrow> bool" where
  "loc_in sc loc \<longleftrightarrow> 0 \<le> l_start loc \<and> l_start loc \<le> l_end loc \<and> l_end loc \<le> int (length sc)"

text \<open>
  The meaning and the least number of arguments of each builtin.  Only \<^verbatim>\<open>is_substring\<close> and
  \<^verbatim>\<open>sleep\<close> need a minimum: the other builtins check their argument count or take any.
\<close>

definition builtin_den :: "string \<Rightarrow> (nat \<times> den) option" where
  "builtin_den = map_of
     [(''ifelse'', 0, ifelse_den), (''abort'', 0, abort_den), (''assert'', 0, assert_den),
      (''concat'', 0, concat_den),
      (''is_substring'', 2, test_den (\<lambda>needle haystack. \<exists>a b. haystack = a @ needle @ b)),
      (''stdout'', 0, stdout_den), (''sleep'', 1, sleep_den),
      (''less_than_int'', 0, less_den), (''greater_than_int'', 0, greater_den)]"

fun ast_meaning :: "string \<Rightarrow> Ast \<Rightarrow> meaning" where
  "ast_meaning sc (A_String loc s) = ret s"
| "ast_meaning sc (A_Paren loc a) = ast_meaning sc a"
| "ast_meaning sc (A_SeqEnd loc a) = ast_meaning sc a"
| "ast_meaning sc (A_Seq loc a b) = bind_m (ast_meaning sc a) (\<lambda>_. ast_meaning sc b)"
| "ast_meaning sc (A_Cat loc a b) =
     bind_m (ast_meaning sc a) (\<lambda>x. bind_m (ast_meaning sc b) (\<lambda>y. ret (x @ y)))"
| "ast_meaning sc (A_Eq loc a b) =
     bind_m (ast_meaning sc a) (\<lambda>x. bind_m (ast_meaning sc b) (\<lambda>y. truth (x = y)))"
| "ast_meaning sc (A_Ne loc a b) =
     bind_m (ast_meaning sc a) (\<lambda>x. bind_m (ast_meaning sc b) (\<lambda>y. truth (x \<noteq> y)))"
| "ast_meaning sc (A_And loc a b) =
     bind_m (ast_meaning sc a) (\<lambda>x. if x = '''' then ret '''' else ast_meaning sc b)"
| "ast_meaning sc (A_Or loc a b) =
     bind_m (ast_meaning sc a) (\<lambda>x. if x = '''' then ast_meaning sc b else ret x)"
| "ast_meaning sc (A_Not loc a) = bind_m (ast_meaning sc a) (\<lambda>x. truth (x = ''''))"
| "ast_meaning sc (A_If loc a b) =
     bind_m (ast_meaning sc a) (\<lambda>x. if x = '''' then ret '''' else ast_meaning sc b)"
| "ast_meaning sc (A_IfElse loc a b c) =
     bind_m (ast_meaning sc a) (\<lambda>x. if x = '''' then ast_meaning sc c else ast_meaning sc b)"
| "ast_meaning sc (A_Call loc nm args) =
     (case builtin_den nm of
        Some (_, d) \<Rightarrow> d (map (\<lambda>a. (ast_meaning sc a, slice sc (loc_of a))) args)
      | None \<Rightarrow> err '''')"

text \<open>
  A script that fits its text: every part has a source range inside the script, and calls are of
  builtins, with enough arguments for \<^verbatim>\<open>is_substring\<close> and \<^verbatim>\<open>sleep\<close>.
\<close>

fun ast_ok :: "string \<Rightarrow> Ast \<Rightarrow> bool" where
  "ast_ok sc (A_String loc s) = loc_in sc loc"
| "ast_ok sc (A_Paren loc a) = (loc_in sc loc \<and> ast_ok sc a)"
| "ast_ok sc (A_SeqEnd loc a) = (loc_in sc loc \<and> ast_ok sc a)"
| "ast_ok sc (A_Seq loc a b) = (loc_in sc loc \<and> ast_ok sc a \<and> ast_ok sc b)"
| "ast_ok sc (A_Cat loc a b) = (loc_in sc loc \<and> ast_ok sc a \<and> ast_ok sc b)"
| "ast_ok sc (A_Eq loc a b) = (loc_in sc loc \<and> ast_ok sc a \<and> ast_ok sc b)"
| "ast_ok sc (A_Ne loc a b) = (loc_in sc loc \<and> ast_ok sc a \<and> ast_ok sc b)"
| "ast_ok sc (A_And loc a b) = (loc_in sc loc \<and> ast_ok sc a \<and> ast_ok sc b)"
| "ast_ok sc (A_Or loc a b) = (loc_in sc loc \<and> ast_ok sc a \<and> ast_ok sc b)"
| "ast_ok sc (A_Not loc a) = (loc_in sc loc \<and> ast_ok sc a)"
| "ast_ok sc (A_If loc a b) = (loc_in sc loc \<and> ast_ok sc a \<and> ast_ok sc b)"
| "ast_ok sc (A_IfElse loc a b c) = (loc_in sc loc \<and> ast_ok sc a \<and> ast_ok sc b \<and> ast_ok sc c)"
| "ast_ok sc (A_Call loc nm args) =
     (loc_in sc loc \<and> list_all (ast_ok sc) args \<and>
      (case builtin_den nm of None \<Rightarrow> False | Some (n, _) \<Rightarrow> n \<le> length args))"

section \<open>Evaluation agrees with the reference semantics\<close>

definition builtin_table :: "FnTable \<Rightarrow> bool" where
  "builtin_table t \<longleftrightarrow>
     (\<forall>nm f. map_of builtins nm = Some f \<longrightarrow> FindFunction nm t = Some f)"

text \<open>What is promised of the tree built from a script.\<close>

definition built_right :: "string \<Rightarrow> FnTable \<Rightarrow> Ast \<Rightarrow> bool" where
  "built_right sc t a \<longleftrightarrow>
     (\<exists>e. build t a = Some e \<and> means sc (to_arg e) (ast_meaning sc a, slice sc (loc_of a)))"

lemma source_text_loc:
  "loc_in sc loc \<Longrightarrow> source_text sc (to_arg (Expr f nm args (l_start loc) (l_end loc))) = Some (slice sc loc)"
  by (simp add: loc_in_def source_text_def slice_def to_arg_def)

lemma means_relocate:
  assumes "means sc (to_arg e) (m, txt)" "loc_in sc loc"
  shows "means sc (to_arg (relocate loc e)) (m, slice sc loc)"
  using assms source_text_loc [OF assms(2)]
  by (cases e) (simp add: relocate_def means_def to_arg_def meets_def)

lemma those_build:
  assumes "\<And>a. a \<in> set args \<Longrightarrow> built_right sc t a"
  shows "\<exists>es. those (map (build t) args) = Some es \<and> length es = length args \<and>
    list_all2 (means sc) (map to_arg es) (map (\<lambda>a. (ast_meaning sc a, slice sc (loc_of a))) args)"
  using assms
proof (induction args)
  case (Cons a args)
  then obtain e es where "build t a = Some e" "means sc (to_arg e) (ast_meaning sc a, slice sc (loc_of a))"
      "those (map (build t) args) = Some es" "length es = length args"
      "list_all2 (means sc) (map to_arg es) (map (\<lambda>a. (ast_meaning sc a, slice sc (loc_of a))) args)"
    unfolding built_right_def by fastforce
  then show ?case by simp
qed simp

text \<open>Each builtin found in the table implements its reference meaning.\<close>

lemma map_of_builtins:
  "map_of builtins ''ifelse'' = Some IfElseFn" "map_of builtins ''abort'' = Some AbortFn"
  "map_of builtins ''assert'' = Some AssertFn" "map_of builtins ''concat'' = Some ConcatFn"
  "map_of builtins ''is_substring'' = Some SubstringFn" "map_of builtins ''stdout'' = Some StdoutFn"
  "map_of builtins ''sleep'' = Some SleepFn" "map_of builtins ''less_than_int'' = Some LessThanIntFn"
  "map_of builtins ''greater_than_int'' = Some GreaterThanIntFn"
  by (simp_all add: builtins_def)

lemma found_function:
  "builtin_table t \<Longrightarrow> map_of builtins nm = Some f \<Longrightarrow> edify_function f ar d \<Longrightarrow>
     \<exists>f. FindFunction nm t = Some f \<and> edify_function f ar d"
  by (simp add: builtin_table_def)

lemma builtin_function:
  assumes t: "builtin_table t" and "builtin_den nm = Some (n, d)"
  shows "\<exists>f. FindFunction nm t = Some f \<and> edify_function f (\<lambda>k. n \<le> k) d"
proof -
  note found = found_function [OF t]
  note facts =
    found [OF map_of_builtins(1) ifelse_fn.edify_function_axioms]
    found [OF map_of_builtins(2) abort_fn.edify_function_axioms]
    found [OF map_of_builtins(3) assert_fn.edify_function_axioms]
    found [OF map_of_builtins(4) concat_fn.edify_function_axioms]
    found [OF map_of_builtins(5) substring_fn.edify_function_axioms]
    found [OF map_of_builtins(6) stdout_fn.edify_function_axioms]
    found [OF map_of_builtins(7) sleep_fn.edify_function_axioms]
    found [OF map_of_builtins(8) less_fn.edify_function_axioms]
    found [OF map_of_builtins(9) greater_fn.edify_function_axioms]
  from map_of_SomeD [OF assms(2) [unfolded builtin_den_def]] show ?thesis
    unfolding set_simps insert_iff empty_iff prod.inject
    by (elim disjE conjE FalseE) (simp_all only: facts le0)
qed

abbreviation arg_den :: "string \<Rightarrow> Ast \<Rightarrow> meaning \<times> string" where
  "arg_den sc a \<equiv> (ast_meaning sc a, slice sc (loc_of a))"

lemma Build_means:
  assumes "edify_function f ar d" "ar (length es)" "list_all2 (means sc) (map to_arg es) ds"
    and "loc_in sc loc"
  shows "means sc (to_arg (Build f loc es)) (d ds, slice sc loc)"
  unfolding Build_def
  by (rule edify_function.expr_means [OF assms(1,2,3) source_text_loc [OF assms(4)]])

lemma built_one:
  assumes "edify_function f ar d" "ar 1" "built_right sc t a" "loc_in sc loc"
  shows "\<exists>e. (do { x \<leftarrow> build t a; Some (Build f loc [x]) }) = Some e \<and>
    means sc (to_arg e) (d [arg_den sc a], slice sc loc)"
  using assms by (auto simp: built_right_def intro!: Build_means)

lemma built_two:
  assumes "edify_function f ar d" "ar 2" "built_right sc t a" "built_right sc t b" "loc_in sc loc"
  shows "\<exists>e. (do { x \<leftarrow> build t a; y \<leftarrow> build t b; Some (Build f loc [x, y]) }) = Some e \<and>
    means sc (to_arg e) (d [arg_den sc a, arg_den sc b], slice sc loc)"
  using assms by (auto simp: built_right_def numeral_2_eq_2 intro!: Build_means)

lemma built_three:
  assumes "edify_function f ar d" "ar 3" "built_right sc t a" "built_right sc t b"
    "built_right sc t c" "loc_in sc loc"
  shows "\<exists>e. (do { x \<leftarrow> build t a; y \<leftarrow> build t b; z \<leftarrow> build t c; Some (Build f loc [x, y, z]) }) =
      Some e \<and> means sc (to_arg e) (d [arg_den sc a, arg_den sc b, arg_den sc c], slice sc loc)"
  using assms by (auto simp: built_right_def numeral_3_eq_3 intro!: Build_means)

lemma built_relocate:
  assumes "built_right sc t a" "loc_in sc loc"
  shows "\<exists>e. map_option (relocate loc) (build t a) = Some e \<and>
    means sc (to_arg e) (ast_meaning sc a, slice sc loc)"
  using assms by (auto simp: built_right_def intro: means_relocate)

lemma built_call:
  assumes t: "builtin_table t" and "builtin_den nm = Some (n, d)" and n: "n \<le> length args"
    and args: "\<And>a. a \<in> set args \<Longrightarrow> built_right sc t a" and loc: "loc_in sc loc"
  shows "\<exists>e. build t (A_Call loc nm args) = Some e \<and>
    means sc (to_arg e) (d (map (arg_den sc) args), slice sc loc)"
proof -
  obtain f where f: "FindFunction nm t = Some f" "edify_function f (\<lambda>k. n \<le> k) d"
    using builtin_function [OF t assms(2)] by blast
  obtain es where es: "those (map (build t) args) = Some es" "length es = length args"
      "list_all2 (means sc) (map to_arg es) (map (arg_den sc) args)"
    using those_build [OF args] by blast
  have "means sc (to_arg (Expr f nm es (l_start loc) (l_end loc))) (d (map (arg_den sc) args), slice sc loc)"
    using n es by (intro edify_function.expr_means [OF f(2)] source_text_loc [OF loc]) auto
  then show ?thesis using f es by simp
qed

lemmas den_simps = seq_den_def concat_den_def and_den_def or_den_def not_den_def test_den_def
  ifelse_den_def arg_m_def

lemma built_literal:
  assumes "loc_in sc loc"
  shows "means sc (to_arg (Expr Literal s [] (l_start loc) (l_end loc))) (ret s, slice sc loc)"
proof -
  have "meets sc (a_fn (to_arg (Expr Literal s [] (l_start loc) (l_end loc)))) (ret s)"
    by (simp add: to_arg_def meets_def Literal_def)
  then show ?thesis using source_text_loc [OF assms] by (simp add: means_def)
qed

lemma build_right:
  assumes "builtin_table t"
  shows "ast_ok sc a \<Longrightarrow> built_right sc t a"
proof (induction a)
  case (A_String loc s)
  then show ?case using built_literal by (simp add: built_right_def)
next
  case (A_Paren loc a)
  then show ?case using built_relocate [of sc t a loc] by (simp add: built_right_def)
next
  case (A_SeqEnd loc a)
  then show ?case using built_relocate [of sc t a loc] by (simp add: built_right_def)
next
  case (A_Seq loc a b)
  then have "built_right sc t a" "built_right sc t b" "loc_in sc loc" by simp_all
  from built_two [OF seq_fn.edify_function_axioms _ this] show ?case
    by (simp add: built_right_def den_simps cong: if_cong)
next
  case (A_Cat loc a b)
  then have "built_right sc t a" "built_right sc t b" "loc_in sc loc" by simp_all
  from built_two [OF concat_fn.edify_function_axioms _ this] show ?case
    by (simp add: built_right_def den_simps cong: if_cong)
next
  case (A_Eq loc a b)
  then have "built_right sc t a" "built_right sc t b" "loc_in sc loc" by simp_all
  from built_two [OF equality_fn.edify_function_axioms _ this] show ?case
    by (simp add: built_right_def den_simps cong: if_cong)
next
  case (A_Ne loc a b)
  then have "built_right sc t a" "built_right sc t b" "loc_in sc loc" by simp_all
  from built_two [OF inequality_fn.edify_function_axioms _ this] show ?case
    by (simp add: built_right_def den_simps cong: if_cong)
next
  case (A_And loc a b)
  then have "built_right sc t a" "built_right sc t b" "loc_in sc loc" by simp_all
  from built_two [OF and_fn.edify_function_axioms _ this] show ?case
    by (simp add: built_right_def den_simps cong: if_cong)
next
  case (A_Or loc a b)
  then have "built_right sc t a" "built_right sc t b" "loc_in sc loc" by simp_all
  from built_two [OF or_fn.edify_function_axioms _ this] show ?case
    by (simp add: built_right_def den_simps cong: if_cong)
next
  case (A_Not loc a)
  then have "built_right sc t a" "loc_in sc loc" by simp_all
  from built_one [OF not_fn.edify_function_axioms _ this] show ?case
    by (simp add: built_right_def den_simps cong: if_cong)
next
  case (A_If loc a b)
  then have "built_right sc t a" "built_right sc t b" "loc_in sc loc" by simp_all
  from built_two [OF ifelse_fn.edify_function_axioms _ this] show ?case
    by (simp add: built_right_def den_simps cong: if_cong)
next
  case (A_IfElse loc a b c)
  then have "built_right sc t a" "built_right sc t b" "built_right sc t c" "loc_in sc loc" by simp_all
  from built_three [OF ifelse_fn.edify_function_axioms _ this] show ?case
    by (simp add: built_right_def den_simps cong: if_cong)
next
  case (A_Call loc nm args)
  then obtain n d where nd: "builtin_den nm = Some (n, d)" "n \<le> length args"
    by (auto split: option.splits)
  have "built_right sc t a" if "a \<in> set args" for a
    using A_Call that by (simp add: list_all_iff)
  from built_call [OF assms nd this] A_Call.prems nd show ?case
    by (simp add: built_right_def)
qed

section \<open>Properties\<close>

text \<open>The table of an interpreter that registered the functions \<open>extra\<close> besides the builtins.\<close>

definition interpreter :: "(string \<times> Function) list \<Rightarrow> FnTable \<Rightarrow> bool" where
  "interpreter extra t \<longleftrightarrow> distinct (map fst (builtins @ extra)) \<and> function_table extra = Some t"

lemma interpreter_builtins:
  assumes "interpreter extra t"
  shows "builtin_table t"
proof -
  obtain t1 t2 where t: "RegisterBuiltins empty_fn_table = Some t1" "register_all extra t1 = Some t2"
      "t = FinishRegistration t2"
    using assms by (auto simp: interpreter_def function_table_def split: bind_splits)
  have "table_ok empty_fn_table" by (simp add: table_ok_def empty_fn_table_def)
  then have t1: "table_ok t1" "fn_table t1 = builtins" using t(1)
    using register_all_ok [of empty_fn_table builtins] by (auto simp: RegisterBuiltins_def empty_fn_table_def)
  then have "fn_table t2 = builtins @ extra" using register_all_ok [of t1 extra] t(2) by auto
  then show ?thesis using FindFunction_Finish [of t2] assms t(3)
    by (auto simp: interpreter_def builtin_table_def)
qed

text \<open>
  C1. Evaluation of update scripts: for a script over the operators and builtins of the language
  whose parts have source ranges inside the text and that gives \<^verbatim>\<open>is_substring\<close> at least two and
  \<^verbatim>\<open>sleep\<close> at least one argument (the parser accepts fewer, and then the behaviour is undefined),
  the parser's actions build an expression, and evaluating it terminates without undefined behaviour with the value, the printed text, the
  sleeps and the error message of the reference semantics (short-circuit operators, strict
  functions, the source text of a failed assertion); a null result always comes with an error
  message, and the script text is unchanged.\<close>

theorem script_evaluates:
  assumes "interpreter extra t" "ast_ok (script st) a" "m = ast_meaning (script st) a"
  shows "\<exists>e. build t a = Some e \<and> Evaluate (to_arg e) st = Some (outv m, run m st) \<and>
    (outv m = None \<longrightarrow> errmsg (run m st) \<noteq> None) \<and> script (run m st) = script st"
proof -
  obtain e where e: "build t a = Some e" "means (script st) (to_arg e) (arg_den (script st) a)"
    using build_right [OF interpreter_builtins [OF assms(1)] assms(2)] by (auto simp: built_right_def)
  have "outv m = None \<longrightarrow> errmsg (run m st) \<noteq> None"
    by (auto simp: outv_def run_def split: sum.splits)
  then show ?thesis using e(1) means_Evaluate [OF e(2) refl] assms(3) by simp
qed

text \<open>The witness script, from the tests in \<^verbatim>\<open>main.c\<close>, with a failing assertion.\<close>

definition sample_script :: string where
  "sample_script = ''stdout(x); assert(a == b)''"

definition at :: "int \<Rightarrow> int \<Rightarrow> YYLTYPE" where
  "at s e = \<lparr>l_start = s, l_end = e\<rparr>"

definition sample_ast :: Ast where
  "sample_ast = A_Seq (at 0 25)
     (A_Call (at 0 9) ''stdout'' [A_String (at 7 8) ''x''])
     (A_Call (at 11 25) ''assert'' [A_Eq (at 18 24) (A_String (at 18 19) ''a'') (A_String (at 23 24) ''b'')])"

definition sample_state :: State where
  "sample_state = \<lparr>script = sample_script, errmsg = None, stdout_text = '''', slept = []\<rparr>"

lemma sample_interpreter: "\<exists>t. interpreter [] t"
proof -
  have "distinct (map fst (builtins @ []))" by (simp add: builtins_def)
  moreover obtain t1 where "RegisterBuiltins empty_fn_table = Some t1"
    using register_all_ok [of empty_fn_table builtins]
    by (auto simp: RegisterBuiltins_def table_ok_def empty_fn_table_def)
  ultimately show ?thesis by (auto simp: interpreter_def function_table_def)
qed

lemma builtin_den_sample:
  "builtin_den ''stdout'' = Some (0, stdout_den)" "builtin_den ''assert'' = Some (0, assert_den)"
  "builtin_den ''less_than_int'' = Some (0, less_den)"
  by (simp_all add: builtin_den_def)

lemma sample_ast_ok: "ast_ok (script sample_state) sample_ast"
  by (simp add: sample_ast_def sample_state_def sample_script_def loc_in_def at_def builtin_den_sample)

lemma sample_meaning:
  "ast_meaning (script sample_state) sample_ast = (Inl ''assert failed: a == b'', ''x'', [])"
  by (simp add: sample_ast_def sample_state_def sample_script_def at_def builtin_den_sample
      slice_def bind_m_def also_do_def ret_def err_def truth_def)

theorem script_evaluates_witness:
  "\<exists>t e. interpreter [] t \<and> build t sample_ast = Some e \<and>
     Evaluate (to_arg e) sample_state =
       Some (None, sample_state\<lparr>errmsg := Some ''assert failed: a == b'', stdout_text := ''x''\<rparr>)"
proof -
  obtain t where t: "interpreter [] t" using sample_interpreter by blast
  from script_evaluates [OF t sample_ast_ok refl, unfolded sample_meaning] t show ?thesis
    by (auto simp: outv_def run_def sample_state_def)
qed

text \<open>
  Calls of \<^verbatim>\<open>is_substring\<close> with fewer than two arguments and of \<^verbatim>\<open>sleep\<close> with none, which the
  parser accepts like any other call, read the argument array out of bounds: neither function
  looks at \<^verbatim>\<open>argc\<close>.\<close>

theorem missing_arguments_undefined:
  assumes "interpreter extra t"
  shows "(\<exists>e. build t (A_Call loc ''is_substring'' []) = Some e \<and> EvaluateValue e st = None) \<and>
    (\<exists>e. build t (A_Call loc ''is_substring'' [A_String loc' s]) = Some e \<and> EvaluateValue e st = None) \<and>
    (\<exists>e. build t (A_Call loc ''sleep'' []) = Some e \<and> EvaluateValue e st = None)"
proof -
  have f: "FindFunction ''is_substring'' t = Some SubstringFn" "FindFunction ''sleep'' t = Some SleepFn"
    using interpreter_builtins [OF assms] map_of_builtins by (simp_all add: builtin_table_def)
  show ?thesis
    by (simp add: f SubstringFn_def SleepFn_def two_strings_def nth_arg_def Literal_def
        Evaluate_def StringValue_def)
qed

theorem missing_arguments_undefined_witness:
  "\<exists>t e. interpreter [] t \<and> build t (A_Call (at 0 7) ''sleep'' []) = Some e \<and>
     EvaluateValue e sample_state = None"
  using sample_interpreter missing_arguments_undefined by blast

text \<open>
  Integer comparison: on the decimal representations of two 32-bit integers
  \<^verbatim>\<open>less_than_int\<close> and \<^verbatim>\<open>greater_than_int\<close> decide the order of the integers; with an
  operand that is empty or has anything but a number in it, the result of \<^verbatim>\<open>less_than_int\<close> is
  false (the empty string).\<close>

theorem int_comparison:
  assumes "interpreter extra t" "script st = sc" "loc_in sc loc" "loc_in sc la" "loc_in sc lb"
    and "- (2 ^ 31) \<le> i" "i < 2 ^ 31" "- (2 ^ 31) \<le> j" "j < 2 ^ 31"
  shows "(\<exists>e. build t (A_Call loc ''less_than_int'' [A_String la (show_int i), A_String lb (show_int j)]) = Some e \<and>
      Evaluate (to_arg e) st = Some (Some (if i < j then ''t'' else ''''), st)) \<and>
    (\<exists>e. build t (A_Call loc ''greater_than_int'' [A_String la (show_int i), A_String lb (show_int j)]) = Some e \<and>
      Evaluate (to_arg e) st = Some (Some (if i > j then ''t'' else ''''), st)) \<and>
    (\<forall>x. (x = '''' \<or> snd (strtol x 10) \<noteq> '''') \<longrightarrow>
      (\<exists>e. build t (A_Call loc ''less_than_int'' [A_String la x, A_String lb (show_int j)]) = Some e \<and>
      Evaluate (to_arg e) st = Some (Some '''', st)))"
proof -
  have n: "show_int k \<noteq> ''''" for k using show_nat_Cons [of "nat \<bar>k\<bar>"] by (auto simp: show_int_def)
  have d: "builtin_den ''less_than_int'' = Some (0, less_den)"
      "builtin_den ''greater_than_int'' = Some (0, greater_den)" by (simp_all add: builtin_den_def)
  have less: "less_than_strings (show_int i) (show_int j) = (i < j)"
      "less_than_strings (show_int j) (show_int i) = (j < i)"
    using assms(6-) n by (simp_all add: less_than_strings_def strtol_show_int)
  have bad: "\<not> less_than_strings x (show_int j)" if "x = '''' \<or> snd (strtol x 10) \<noteq> ''''" for x
    using that by (auto simp: less_than_strings_def split: prod.splits)
  let ?call = "\<lambda>nm x y. A_Call loc nm [A_String la x, A_String lb y]"
  have m: "ast_meaning sc (?call ''less_than_int'' x y) = truth (less_than_strings x y)"
      "ast_meaning sc (?call ''greater_than_int'' x y) = truth (less_than_strings y x)" for x y
    by (simp_all add: d less_den_def greater_den_def test_den_def arg_m_def bind_m_def ret_def also_do_def)
  have ok: "ast_ok sc (?call ''less_than_int'' x y)" "ast_ok sc (?call ''greater_than_int'' x y)" for x y
    using assms(3-5) by (simp_all add: d)
  have ev: "\<exists>e. build t a = Some e \<and> Evaluate (to_arg e) st = Some (Some (if b then ''t'' else ''''), st)"
    if "ast_ok sc a" "ast_meaning sc a = truth b" for a b
    using build_right [OF interpreter_builtins [OF assms(1)] that(1)] that(2) assms(2)
    by (auto simp: built_right_def truth_def dest!: means_Evaluate)
  show ?thesis
  proof (intro conjI allI impI)
    fix x assume "x = '''' \<or> snd (strtol x 10) \<noteq> ''''"
    then show "\<exists>e. build t (?call ''less_than_int'' x (show_int j)) = Some e \<and>
        Evaluate (to_arg e) st = Some (Some '''', st)"
      using ev [OF ok(1) m(1), of x "show_int j"] bad by (simp del: build.simps)
  qed (use ev [OF ok(1) m(1), of "show_int i" "show_int j"]
      ev [OF ok(2) m(2), of "show_int i" "show_int j"] less in \<open>simp_all del: build.simps\<close>)
qed

theorem int_comparison_witness:
  "\<exists>t e. interpreter [] t \<and>
     build t (A_Call (at 0 9) ''less_than_int'' [A_String (at 0 1) (show_int 3), A_String (at 1 2) (show_int 14)]) = Some e \<and>
     Evaluate (to_arg e) sample_state = Some (Some ''t'', sample_state)"
proof -
  obtain t where t: "interpreter [] t" using sample_interpreter by blast
  have "loc_in sample_script (at 0 9)" "loc_in sample_script (at 0 1)" "loc_in sample_script (at 1 2)"
    by (simp_all add: loc_in_def at_def sample_script_def)
  from int_comparison [OF t _ this, of sample_state 3 14] t show ?thesis
    by (auto simp: sample_state_def)
qed

end
