(* ===== verification/At_Tok.thy ===== *)
theory At_Tok
  imports C_Library
begin

text \<open>
  The tokenizer for AT response lines, \<^verbatim>\<open>hardware/ril/reference-ril/at_tok.c\<close>, and the prefix test
  of \<^verbatim>\<open>misc.c\<close>.  The cursor \<^verbatim>\<open>char **p_cur\<close> is a \<^typ>\<open>string option\<close>: \<open>None\<close> is the null
  pointer, \<open>Some s\<close> a pointer at the string \<open>s\<close>.  Every function returns its C result and the
  new cursor; an \<open>int *p_out\<close> that is written is a \<open>Some\<close> in the result.
\<close>

section \<open>The tokenizer\<close>

type_synonym cursor = "string option"

definition at_tok_start :: "cursor \<Rightarrow> int \<times> cursor" where
  "at_tok_start p_cur =
     (case p_cur of
        None \<Rightarrow> (-1, None)
      | Some s \<Rightarrow> (case strchr s (CHR '':'') of None \<Rightarrow> (-1, None) | Some t \<Rightarrow> (0, Some (tl t))))"

fun skip_space :: "string \<Rightarrow> string" where
  "skip_space [] = []"
| "skip_space (c # cs) = (if isspace c then skip_space cs else c # cs)"

definition skipWhiteSpace :: "cursor \<Rightarrow> cursor" where
  "skipWhiteSpace p_cur = map_option skip_space p_cur"

fun skip_comma :: "string \<Rightarrow> string" where
  "skip_comma [] = []"
| "skip_comma (c # cs) = (if c \<noteq> CHR '','' then skip_comma cs else cs)"

definition skipNextComma :: "cursor \<Rightarrow> cursor" where
  "skipNextComma p_cur = map_option skip_comma p_cur"

definition nextTok :: "cursor \<Rightarrow> string option \<times> cursor" where
  "nextTok p_cur =
     (case skipWhiteSpace p_cur of
        None \<Rightarrow> (None, None)
      | Some s \<Rightarrow>
          if s \<noteq> [] \<and> hd s = CHR 0x22
          then let (tok, rest) = strsep (tl s) (CHR 0x22) in (Some tok, skipNextComma rest)
          else let (tok, rest) = strsep s (CHR '','') in (Some tok, rest))"

text \<open>The end pointer of \<^verbatim>\<open>strtol\<close> is the start of the token exactly when nothing was consumed.\<close>

definition at_tok_nextint_base :: "cursor \<Rightarrow> nat \<Rightarrow> bool \<Rightarrow> int \<times> int option \<times> cursor" where
  "at_tok_nextint_base p_cur base uns =
     (if p_cur = None then (-1, None, p_cur)
      else case nextTok p_cur of
        (None, p_cur) \<Rightarrow> (-1, None, p_cur)
      | (Some ret, p_cur) \<Rightarrow>
          let (l, end) = (if uns then let (w, e) = strtoul ret base in (sint w, e) else strtol ret base)
          in if length end = length ret then (-1, Some l, p_cur) else (0, Some l, p_cur))"

definition at_tok_nextint :: "cursor \<Rightarrow> int \<times> int option \<times> cursor" where
  "at_tok_nextint p_cur = at_tok_nextint_base p_cur 10 False"

definition at_tok_nexthexint :: "cursor \<Rightarrow> int \<times> int option \<times> cursor" where
  "at_tok_nexthexint p_cur = at_tok_nextint_base p_cur 16 True"

definition at_tok_nextbool :: "cursor \<Rightarrow> int \<times> int option \<times> cursor" where
  "at_tok_nextbool p_cur =
     (let (ret, result, p_cur) = at_tok_nextint p_cur
      in if ret < 0 then (-1, None, p_cur)
         else if \<not> (result = Some 0 \<or> result = Some 1) then (-1, None, p_cur)
         else (ret, result, p_cur))"

definition at_tok_nextstr :: "cursor \<Rightarrow> int \<times> string option \<times> cursor" where
  "at_tok_nextstr p_cur =
     (if p_cur = None then (-1, None, p_cur)
      else let (tok, p_cur) = nextTok p_cur in (0, tok, p_cur))"

definition at_tok_hasmore :: "cursor \<Rightarrow> bool" where
  "at_tok_hasmore p_cur \<longleftrightarrow> \<not> (p_cur = None \<or> p_cur = Some [])"

text \<open>\<^verbatim>\<open>misc.c\<close>\<close>

fun strStartsWith :: "string \<Rightarrow> string \<Rightarrow> bool" where
  "strStartsWith (l # ls) (p # ps) = (if l \<noteq> p then False else strStartsWith ls ps)"
| "strStartsWith line prefix = (prefix = [])"

lemma strStartsWith_iff: "strStartsWith line prefix \<longleftrightarrow> (\<exists>t. line = prefix @ t)"
  by (induction line prefix rule: strStartsWith.induct) auto

section \<open>Fields of a response\<close>

text \<open>
  The fields of a response as a modem prints them: decimal integers and quoted strings,
  separated by commas, after a prefix that ends in a colon.
\<close>

datatype field = F_int int | F_str string

definition field_ok :: "field \<Rightarrow> bool" where
  "field_ok f = (case f of F_int i \<Rightarrow> - (2 ^ 31) \<le> i \<and> i < 2 ^ 31 | F_str s \<Rightarrow> CHR 0x22 \<notin> set s)"

definition field_text :: "field \<Rightarrow> string" where
  "field_text f = (case f of F_int i \<Rightarrow> show_int i | F_str s \<Rightarrow> CHR 0x22 # s @ [CHR 0x22])"

fun fields_text :: "field list \<Rightarrow> string" where
  "fields_text [] = []"
| "fields_text [f] = field_text f"
| "fields_text (f # fs) = field_text f @ '','' @ fields_text fs"

text \<open>Reading one field of a given kind (as the kind of \<open>f\<close>), and reading fields in order.\<close>

definition read_field :: "field \<Rightarrow> cursor \<Rightarrow> field option \<times> cursor" where
  "read_field f p_cur =
     (case f of
        F_int _ \<Rightarrow> (let (ret, out, p_cur) = at_tok_nextint p_cur
                   in (if ret < 0 then None else map_option F_int out, p_cur))
      | F_str _ \<Rightarrow> (let (ret, out, p_cur) = at_tok_nextstr p_cur
                   in (if ret < 0 then None else map_option F_str out, p_cur)))"

fun read_fields :: "field list \<Rightarrow> cursor \<Rightarrow> field list option \<times> cursor" where
  "read_fields [] p_cur = (Some [], p_cur)"
| "read_fields (f # fs) p_cur =
     (case read_field f p_cur of
        (None, p_cur) \<Rightarrow> (None, p_cur)
      | (Some g, p_cur) \<Rightarrow>
          (let (gs, p_cur) = read_fields fs p_cur in (map_option ((#) g) gs, p_cur)))"

section \<open>Facts\<close>

lemma show_nat_chars: "c \<in> set (show_nat n) \<Longrightarrow> is_base_digit 10 c"
  using show_nat_digits [of n] by (simp add: list_all_iff)

lemma show_int_no_comma: "CHR '','' \<notin> set (show_int i)"
proof -
  have "\<not> is_base_digit 10 (CHR '','')" by (simp add: is_base_digit_def digit_val_def)
  then show ?thesis using show_nat_chars by (auto simp: show_int_def)
qed

lemma show_int_start:
  "\<exists>c cs. show_int i = c # cs \<and> \<not> isspace c \<and> c \<noteq> CHR 0x22"
proof -
  obtain d ds where d: "show_nat (nat \<bar>i\<bar>) = digit_char d # ds" "d < 10"
    using show_nat_Cons by blast
  have "\<not> isspace (CHR ''-'')" by (simp add: isspace_def)
  moreover have "digit_char d \<noteq> CHR 0x22" using code_digit_char [OF d(2)] by auto
  ultimately show ?thesis using d digit_char_props [OF d(2)] by (auto simp: show_int_def)
qed

lemma strsep_found: "d \<notin> set tok \<Longrightarrow> strsep (tok @ d # rest) d = (tok, Some rest)"
  by (induction tok) auto

lemma strsep_last: "d \<notin> set tok \<Longrightarrow> strsep tok d = (tok, None)"
  by (induction tok) auto

lemma skip_space_stop: "\<not> isspace c \<Longrightarrow> skip_space (c # cs) = c # cs"
  by simp

lemma nextTok_int:
  "nextTok (Some (show_int i @ CHR '','' # rest)) = (Some (show_int i), Some rest)"
  "nextTok (Some (show_int i)) = (Some (show_int i), None)"
proof -
  obtain c cs where c: "show_int i = c # cs" "\<not> isspace c" "c \<noteq> CHR 0x22" using show_int_start by blast
  have n: "CHR '','' \<notin> set (c # cs)" using show_int_no_comma [of i] c(1) by simp
  show "nextTok (Some (show_int i @ CHR '','' # rest)) = (Some (show_int i), Some rest)"
    using c(2,3) strsep_found [OF n, of rest] by (simp add: nextTok_def skipWhiteSpace_def c(1))
  show "nextTok (Some (show_int i)) = (Some (show_int i), None)"
    using c(2,3) strsep_last [OF n] by (simp add: nextTok_def skipWhiteSpace_def c(1))
qed

lemma nextTok_quoted:
  assumes "CHR 0x22 \<notin> set s"
  shows "nextTok (Some (CHR 0x22 # s @ CHR 0x22 # rest)) = (Some s, Some (skip_comma rest))"
proof -
  have "\<not> isspace (CHR 0x22)" by (simp add: isspace_def)
  then show ?thesis using strsep_found [OF assms]
    by (simp add: nextTok_def skipWhiteSpace_def skipNextComma_def)
qed

lemma read_field_text:
  assumes "field_ok f"
  shows "read_field f (Some (field_text f @ CHR '','' # rest)) = (Some f, Some rest)"
    and "\<exists>p. read_field f (Some (field_text f)) = (Some f, p) \<and> \<not> at_tok_hasmore p"
proof -
  have ne: "show_int i \<noteq> []" for i using show_int_start [of i] by auto
  show "read_field f (Some (field_text f @ CHR '','' # rest)) = (Some f, Some rest)"
    using assms ne
    by (cases f) (simp_all add: field_ok_def read_field_def field_text_def at_tok_nextint_def
        at_tok_nextint_base_def at_tok_nextstr_def nextTok_int nextTok_quoted strtol_show_int)
  show "\<exists>p. read_field f (Some (field_text f)) = (Some f, p) \<and> \<not> at_tok_hasmore p"
    using assms ne
    by (cases f) (simp_all add: field_ok_def read_field_def field_text_def at_tok_nextint_def
        at_tok_nextint_base_def at_tok_nextstr_def nextTok_int nextTok_quoted strtol_show_int
        at_tok_hasmore_def)
qed

lemma read_fields_text:
  "fs \<noteq> [] \<Longrightarrow> list_all field_ok fs \<Longrightarrow>
     \<exists>p. read_fields fs (Some (fields_text fs)) = (Some fs, p) \<and> \<not> at_tok_hasmore p"
proof (induction fs rule: fields_text.induct)
  case (2 f)
  then show ?case using read_field_text(2) [of f] by auto
next
  case (3 f g fs)
  then show ?case using read_field_text(1) [of f "fields_text (g # fs)"] by auto
qed simp

section \<open>Properties\<close>

text \<open>Leading blanks before a token are skipped.\<close>

lemma skip_space_blanks: "list_all isspace bs \<Longrightarrow> skip_space (bs @ s) = skip_space s"
  by (induction bs) auto

lemma nextTok_blanks: "list_all isspace bs \<Longrightarrow> nextTok (Some (bs @ s)) = nextTok (Some s)"
  by (simp add: nextTok_def skipWhiteSpace_def skip_space_blanks)

lemma read_fields_blanks:
  "fs \<noteq> [] \<Longrightarrow> list_all isspace bs \<Longrightarrow> read_fields fs (Some (bs @ s)) = read_fields fs (Some s)"
proof (cases fs)
  case (Cons f fs')
  assume "list_all isspace bs"
  then have "read_field f (Some (bs @ s)) = read_field f (Some s)"
    by (cases f) (simp_all add: read_field_def at_tok_nextint_def at_tok_nextint_base_def
        at_tok_nextstr_def nextTok_blanks)
  then show ?thesis using Cons by simp
qed simp

text \<open>
  C28. Round trip of a response line: a line made of a prefix without a colon, a colon, blanks,
  and decimal 32-bit integers and quoted strings separated by commas is read back field by
  field by \<open>at_tok_start\<close>, \<open>at_tok_nextint\<close> and \<open>at_tok_nextstr\<close>, and nothing is left.\<close>

theorem response_round_trip:
  assumes "CHR '':'' \<notin> set prefix" "list_all isspace blanks" "fs \<noteq> []" "list_all field_ok fs"
  shows "\<exists>p p'. at_tok_start (Some (prefix @ '':'' @ blanks @ fields_text fs)) = (0, p) \<and>
    read_fields fs p = (Some fs, p') \<and> \<not> at_tok_hasmore p'"
proof -
  let ?line = "prefix @ '':'' @ blanks @ fields_text fs"
  have "strchr ?line (CHR '':'') = Some ('':'' @ blanks @ fields_text fs)"
    using assms(1) by (induction prefix) auto
  then have "at_tok_start (Some ?line) = (0, Some (blanks @ fields_text fs))"
    by (simp add: at_tok_start_def)
  then show ?thesis using read_fields_text [OF assms(3,4)] read_fields_blanks [OF assms(3,2)] by simp
qed

theorem response_round_trip_witness:
  "\<exists>p p'. at_tok_start (Some (''+CREG'' @ '':'' @ '' '' @ fields_text [F_int 2, F_int (-1), F_str ''00A3,x''])) = (0, p) \<and>
    read_fields [F_int 2, F_int (-1), F_str ''00A3,x''] p = (Some [F_int 2, F_int (-1), F_str ''00A3,x''], p') \<and>
    \<not> at_tok_hasmore p'"
  by (rule response_round_trip) (simp_all add: field_ok_def isspace_def)

lemma length_skip_space: "length (skip_space s) \<le> length s"
  by (induction s) auto

lemma length_skip_comma: "length (skip_comma s) \<le> length s"
  by (induction s) auto

lemma strsep_shorter: "strsep s d = (tok, Some rest) \<Longrightarrow> length rest < length s"
  using strsep_spec [of s d tok "Some rest"] by auto

definition remaining :: "cursor \<Rightarrow> nat" where
  "remaining p = (case p of None \<Rightarrow> 0 | Some s \<Rightarrow> Suc (length s))"

text \<open>
  Progress of the tokenizer: on any string whatsoever, taking a token returns a token and
  leaves the cursor null or strictly further on, so that a loop that takes tokens until the
  cursor is null or at the end terminates; on the null cursor every function fails without
  changing it; \<open>at_tok_nextbool\<close> succeeds only with 0 or 1, and an integer that is returned
  fits 32 bits.\<close>

theorem tokenizer_progress:
  "(\<exists>tok p. nextTok (Some s) = (Some tok, p) \<and> remaining p < remaining (Some s)) \<and>
   nextTok None = (None, None) \<and> at_tok_start None = (-1, None) \<and>
   at_tok_nextint None = (-1, None, None) \<and> at_tok_nexthexint None = (-1, None, None) \<and>
   at_tok_nextbool None = (-1, None, None) \<and> at_tok_nextstr None = (-1, None, None) \<and>
   (case at_tok_nextbool c of (r, v, _) \<Rightarrow> if r = 0 then v = Some 0 \<or> v = Some 1 else r = -1) \<and>
   (case at_tok_nextint c of (r, v, _) \<Rightarrow>
      if r = 0 then \<exists>i. v = Some i \<and> - (2 ^ 31) \<le> i \<and> i < 2 ^ 31 else r = -1)"
proof -
  have less: "length (skip_comma r) < length s" if "strsep (tl (skip_space s)) (CHR 0x22) = (tok, Some r)" for tok r
    using strsep_shorter [OF that] length_skip_comma [of r] length_skip_space [of s] by simp
  have less': "length r < length s" if "strsep (skip_space s) (CHR '','') = (tok, Some r)" for tok r
    using strsep_shorter [OF that] length_skip_space [of s] by simp
  have p: "\<exists>tok p. nextTok (Some s) = (Some tok, p) \<and> remaining p < remaining (Some s)"
    using less less'
    by (auto simp: nextTok_def skipWhiteSpace_def skipNextComma_def remaining_def
        split: prod.splits option.splits)
  have nulls: "nextTok None = (None, None)" "at_tok_start None = (-1, None)"
    "at_tok_nextint None = (-1, None, None)" "at_tok_nexthexint None = (-1, None, None)"
    "at_tok_nextbool None = (-1, None, None)" "at_tok_nextstr None = (-1, None, None)"
    by (simp_all add: nextTok_def skipWhiteSpace_def at_tok_start_def at_tok_nextint_def
        at_tok_nexthexint_def at_tok_nextint_base_def at_tok_nextbool_def at_tok_nextstr_def)
  have rng: "- (2 ^ 31) \<le> fst (strtol t b) \<and> fst (strtol t b) < 2 ^ 31" for t b
    by (auto simp: strtol_def split: option.splits)
  have i: "case at_tok_nextint c of (r, v, _) \<Rightarrow>
      if r = 0 then \<exists>i. v = Some i \<and> - (2 ^ 31) \<le> i \<and> i < 2 ^ 31 else r = -1" for c
    using rng [of _ 10]
    by (auto simp: at_tok_nextint_def at_tok_nextint_base_def split: prod.splits option.splits)
      (metis fst_conv)+
  have "case at_tok_nextbool c of (r, v, _) \<Rightarrow> if r = 0 then v = Some 0 \<or> v = Some 1 else r = -1"
    using i [of c] by (auto simp: at_tok_nextbool_def split: prod.splits if_splits)
  with p nulls i [of c] show ?thesis by blast
qed

end
