(* ===== verification/At_Reader.thy ===== *)
theory At_Reader
  imports C_Library
begin

text \<open>
  The line reader of the AT channel, \<^verbatim>\<open>findNextEOL\<close> and \<^verbatim>\<open>readline\<close> of
  \<^verbatim>\<open>hardware/ril/reference-ril/atchannel.c\<close>.  The array \<^verbatim>\<open>s_ATBuffer\<close> is a function from
  indices to characters with explicit bounds: reading or writing past index
  \<open>MAX_AT_RESPONSE\<close> is the outcome \<open>Fault\<close>.  The modem is a list of events, what successive
  calls of \<^verbatim>\<open>read\<close> find on the descriptor; when the list is exhausted the call blocks.
\<close>

section \<open>Model\<close>

definition MAX_AT_RESPONSE :: nat where
  "MAX_AT_RESPONSE = 8 * 1024"

abbreviation NUL :: char where "NUL \<equiv> CHR 0x00"

type_synonym buffer = "nat \<Rightarrow> char"

record reader =
  s_ATBuffer :: buffer
  s_ATBufferCur :: nat
  s_readCount :: int

definition reader_init :: reader where
  "reader_init = \<lparr>s_ATBuffer = (\<lambda>_. NUL), s_ATBufferCur = 0, s_readCount = 0\<rparr>"

definition is_eol :: "char \<Rightarrow> bool" where
  "is_eol c \<longleftrightarrow> c = CHR 0x0D \<or> c = CHR 0x0A"

datatype event = R_data string | R_eof | R_error | R_eintr

datatype outcome = Fault | Blocked | Closed | Line string

definition char_at :: "buffer \<Rightarrow> nat \<Rightarrow> char option" where
  "char_at b i = (if i \<le> MAX_AT_RESPONSE then Some (b i) else None)"

text \<open>The loops over the buffer; \<open>None\<close> is running past the end of the array.\<close>

function skip_newlines :: "buffer \<Rightarrow> nat \<Rightarrow> nat option" where
  "skip_newlines b i =
     (if MAX_AT_RESPONSE < i then None
      else if is_eol (b i) then skip_newlines b (i + 1) else Some i)"
  by pat_completeness auto
termination by (relation "measure (\<lambda>(b, i). MAX_AT_RESPONSE + 1 - i)") auto

function scan_eol :: "buffer \<Rightarrow> nat \<Rightarrow> nat option option" where
  "scan_eol b i =
     (if MAX_AT_RESPONSE < i then None
      else if b i = NUL then Some None
      else if is_eol (b i) then Some (Some i) else scan_eol b (i + 1))"
  by pat_completeness auto
termination by (relation "measure (\<lambda>(b, i). MAX_AT_RESPONSE + 1 - i)") auto

function cstring :: "buffer \<Rightarrow> nat \<Rightarrow> string option" where
  "cstring b i =
     (if MAX_AT_RESPONSE < i then None
      else if b i = NUL then Some [] else map_option ((#) (b i)) (cstring b (i + 1)))"
  by pat_completeness auto
termination by (relation "measure (\<lambda>(b, i). MAX_AT_RESPONSE + 1 - i)") auto

definition findNextEOL :: "buffer \<Rightarrow> nat \<Rightarrow> nat option option" where
  "findNextEOL b cur = do {
     c0 \<leftarrow> char_at b cur;
     prompt \<leftarrow> (if c0 = CHR ''>'' then do {
                  c1 \<leftarrow> char_at b (cur + 1);
                  if c1 = CHR '' '' then do { c2 \<leftarrow> char_at b (cur + 2); Some (c2 = NUL) }
                  else Some False }
                else Some False);
     if prompt then Some (Some (cur + 2)) else scan_eol b cur }"

text \<open>
  \<^verbatim>\<open>read(fd, p, n)\<close> with \<open>n > 0\<close>, retried on \<^verbatim>\<open>EINTR\<close>: at most \<open>n\<close> bytes, the rest of the data
  stays for the next call.  The result is the data (\<open>Some []\<close> is end of file), or \<open>None\<close> for an
  error; no event is blocking.
\<close>

fun read_fd :: "nat \<Rightarrow> event list \<Rightarrow> (string option \<times> event list) option" where
  "read_fd n [] = None"
| "read_fd n (R_eintr # ev) = read_fd n ev"
| "read_fd n (R_error # ev) = Some (None, ev)"
| "read_fd n (R_eof # ev) = Some (Some [], ev)"
| "read_fd n (R_data s # ev) =
     (if length s \<le> n then Some (Some s, ev) else Some (Some (take n s), R_data (drop n s) # ev))"

definition store_data :: "buffer \<Rightarrow> nat \<Rightarrow> string \<Rightarrow> buffer" where
  "store_data b p s =
     (\<lambda>i. if p \<le> i \<and> i < p + length s then s ! (i - p) else if i = p + length s then NUL else b i)"

definition move_up :: "buffer \<Rightarrow> nat \<Rightarrow> nat \<Rightarrow> buffer" where
  "move_up b cur len = (\<lambda>i. if i \<le> len then b (cur + i) else b i)"

definition take_line :: "reader \<Rightarrow> nat \<Rightarrow> event list \<Rightarrow> outcome \<times> reader \<times> event list" where
  "take_line st p_eol ev =
     (if MAX_AT_RESPONSE < p_eol then (Fault, st, ev)
      else let b = (s_ATBuffer st)(p_eol := NUL)
           in case cstring b (s_ATBufferCur st) of
                None \<Rightarrow> (Fault, st, ev)
              | Some ret \<Rightarrow> (Line ret, st\<lparr>s_ATBuffer := b, s_ATBufferCur := p_eol + 1\<rparr>, ev))"

fun event_size :: "event \<Rightarrow> nat" where
  "event_size (R_data s) = 1 + length s"
| "event_size e = 1"

definition events_size :: "event list \<Rightarrow> nat" where
  "events_size ev = sum_list (map event_size ev)"

lemma read_fd_size:
  "read_fd n ev = Some (s, ev') \<Longrightarrow> 0 < n \<Longrightarrow> events_size ev' < events_size ev"
  by (induction n ev rule: read_fd.induct) (auto simp: events_size_def split: if_splits)

text \<open>The loop \<^verbatim>\<open>while (p_eol == NULL)\<close>.\<close>

function readline_loop :: "reader \<Rightarrow> nat \<Rightarrow> event list \<Rightarrow> outcome \<times> reader \<times> event list" where
  "readline_loop st p_read ev =
     (if MAX_AT_RESPONSE < p_read then (Fault, st, ev)
      else let full = (MAX_AT_RESPONSE - p_read = 0);
               st = (if full then st\<lparr>s_ATBufferCur := 0, s_ATBuffer := (s_ATBuffer st)(0 := NUL)\<rparr> else st);
               p_read = (if full then 0 else p_read)
           in case read_fd (MAX_AT_RESPONSE - p_read) ev of
                None \<Rightarrow> (Blocked, st, [])
              | Some (None, ev) \<Rightarrow> (Closed, st, ev)
              | Some (Some data, ev) \<Rightarrow>
                  if data = [] then (Closed, st, ev)
                  else let b = store_data (s_ATBuffer st) p_read data
                       in case skip_newlines b (s_ATBufferCur st) of
                            None \<Rightarrow> (Fault, st, ev)
                          | Some cur \<Rightarrow>
                              let st = st\<lparr>s_ATBuffer := b, s_ATBufferCur := cur,
                                          s_readCount := s_readCount st + int (length data)\<rparr>
                              in case findNextEOL b cur of
                                   None \<Rightarrow> (Fault, st, ev)
                                 | Some (Some p_eol) \<Rightarrow> take_line st p_eol ev
                                 | Some None \<Rightarrow> readline_loop st (p_read + length data) ev)"
  by pat_completeness auto
termination
proof (relation "measure (\<lambda>(st, p, ev). events_size ev)", goal_cases)
  case 1
  then show ?case by simp
next
  case prems: (2 st p_read ev)
  have "0 < MAX_AT_RESPONSE" by (simp add: MAX_AT_RESPONSE_def)
  then show ?case using prems read_fd_size by (fastforce split: if_splits)
qed

definition readline :: "reader \<Rightarrow> event list \<Rightarrow> outcome \<times> reader \<times> event list" where
  "readline st ev =
     (case char_at (s_ATBuffer st) (s_ATBufferCur st) of
        None \<Rightarrow> (Fault, st, ev)
      | Some c \<Rightarrow>
          if c = NUL
          then readline_loop (st\<lparr>s_ATBufferCur := 0, s_ATBuffer := (s_ATBuffer st)(0 := NUL)\<rparr>) 0 ev
          else case skip_newlines (s_ATBuffer st) (s_ATBufferCur st) of
                 None \<Rightarrow> (Fault, st, ev)
               | Some cur \<Rightarrow>
                   let st = st\<lparr>s_ATBufferCur := cur\<rparr>
                   in case findNextEOL (s_ATBuffer st) cur of
                        None \<Rightarrow> (Fault, st, ev)
                      | Some (Some p_eol) \<Rightarrow> take_line st p_eol ev
                      | Some None \<Rightarrow>
                          (case cstring (s_ATBuffer st) cur of
                             None \<Rightarrow> (Fault, st, ev)
                           | Some s \<Rightarrow>
                               readline_loop
                                 (st\<lparr>s_ATBuffer := move_up (s_ATBuffer st) cur (length s),
                                     s_ATBufferCur := 0\<rparr>) (length s) ev))"

text \<open>Several calls in a row, the lines they return.\<close>

fun readlines :: "nat \<Rightarrow> reader \<Rightarrow> event list \<Rightarrow> outcome list" where
  "readlines 0 st ev = []"
| "readlines (Suc n) st ev = (let (out, st, ev) = readline st ev in out # readlines n st ev)"

declare skip_newlines.simps [simp del] scan_eol.simps [simp del] cstring.simps [simp del]
  readline_loop.simps [simp del]

section \<open>Text held in the buffer\<close>

definition holds :: "buffer \<Rightarrow> nat \<Rightarrow> string \<Rightarrow> bool" where
  "holds b cur s \<longleftrightarrow> cur + length s \<le> MAX_AT_RESPONSE \<and> (\<forall>i < length s. b (cur + i) = s ! i) \<and>
     NUL \<notin> set s \<and> b (cur + length s) = NUL"

abbreviation holds_text :: "reader \<Rightarrow> string \<Rightarrow> bool" where
  "holds_text st \<equiv> holds (s_ATBuffer st) (s_ATBufferCur st)"

lemma not_eol_NUL [simp]: "\<not> is_eol NUL"
  by (simp add: is_eol_def)

lemma holds_Nil: "holds b cur [] \<longleftrightarrow> cur \<le> MAX_AT_RESPONSE \<and> b cur = NUL"
  by (simp add: holds_def)

lemma holds_Cons:
  "holds b cur (c # s) \<longleftrightarrow> cur < MAX_AT_RESPONSE \<and> b cur = c \<and> c \<noteq> NUL \<and> holds b (Suc cur) s"
  by (auto simp: holds_def less_Suc_eq_0_disj)

lemma holds_append:
  "holds b cur (s @ t) \<Longrightarrow> holds b (cur + length s) t"
  by (induction s arbitrary: cur) (force simp: holds_Cons)+

text \<open>One step of each loop over the buffer.\<close>

lemma cstring_step:
  "i \<le> MAX_AT_RESPONSE \<Longrightarrow> b i = NUL \<Longrightarrow> cstring b i = Some []"
  "i < MAX_AT_RESPONSE \<Longrightarrow> b i \<noteq> NUL \<Longrightarrow> cstring b i = map_option ((#) (b i)) (cstring b (Suc i))"
  by (subst cstring.simps; simp)+

lemma scan_eol_step:
  "i \<le> MAX_AT_RESPONSE \<Longrightarrow> b i = NUL \<Longrightarrow> scan_eol b i = Some None"
  "i \<le> MAX_AT_RESPONSE \<Longrightarrow> is_eol (b i) \<Longrightarrow> scan_eol b i = Some (Some i)"
  "i \<le> MAX_AT_RESPONSE \<Longrightarrow> b i \<noteq> NUL \<Longrightarrow> \<not> is_eol (b i) \<Longrightarrow> scan_eol b i = scan_eol b (Suc i)"
  by (subst scan_eol.simps; auto)+

lemma skip_newlines_step:
  "i \<le> MAX_AT_RESPONSE \<Longrightarrow> \<not> is_eol (b i) \<Longrightarrow> skip_newlines b i = Some i"
  "i \<le> MAX_AT_RESPONSE \<Longrightarrow> is_eol (b i) \<Longrightarrow> skip_newlines b i = skip_newlines b (Suc i)"
  by (subst skip_newlines.simps; simp)+

lemma cstring_holds: "holds b cur s \<Longrightarrow> cstring b cur = Some s"
proof (induction s arbitrary: cur)
  case (Cons c s)
  then show ?case by (simp add: holds_Cons cstring_step(2))
qed (simp add: holds_Nil cstring_step(1))

lemma skip_newlines_holds:
  "holds b cur s \<Longrightarrow> skip_newlines b cur = Some (cur + length (takeWhile is_eol s)) \<and>
     holds b (cur + length (takeWhile is_eol s)) (dropWhile is_eol s)"
proof (induction s arbitrary: cur)
  case (Cons c s)
  have cur: "cur < MAX_AT_RESPONSE" "b cur = c" "holds b (Suc cur) s"
    using Cons.prems by (auto simp: holds_Cons)
  show ?case using Cons.IH [OF cur(3)] Cons.prems cur
    by (auto simp: skip_newlines_step)
qed (simp add: holds_Nil skip_newlines_step)

lemma scan_eol_none:
  "holds b cur s \<Longrightarrow> (\<forall>c \<in> set s. \<not> is_eol c) \<Longrightarrow> scan_eol b cur = Some None"
proof (induction s arbitrary: cur)
  case (Cons c s)
  then have "scan_eol b cur = scan_eol b (Suc cur)" by (intro scan_eol_step) (auto simp: holds_Cons)
  then show ?case using Cons by (simp add: holds_Cons)
qed (simp add: holds_Nil scan_eol_step)

lemma scan_eol_some:
  "holds b cur (l @ e # r) \<Longrightarrow> (\<forall>c \<in> set l. \<not> is_eol c) \<Longrightarrow> is_eol e \<Longrightarrow>
     scan_eol b cur = Some (Some (cur + length l))"
proof (induction l arbitrary: cur)
  case (Cons c s)
  then have "scan_eol b cur = scan_eol b (Suc cur)" by (intro scan_eol_step) (auto simp: holds_Cons)
  then show ?case using Cons by (simp add: holds_Cons)
qed (simp add: holds_Cons scan_eol_step)

lemma holds_char_at: "holds b cur s \<Longrightarrow> i \<le> length s \<Longrightarrow>
    char_at b (cur + i) = Some (if i < length s then s ! i else NUL)"
  by (auto simp: holds_def char_at_def)

lemma findNextEOL_holds:
  assumes h: "holds b cur s" and "s \<noteq> ''> ''"
  shows "findNextEOL b cur = scan_eol b cur"
proof (cases s)
  case Nil
  then show ?thesis using holds_char_at [OF h, of 0] by (simp add: findNextEOL_def)
next
  case (Cons c s')
  note c0 = holds_char_at [OF h, of 0] and c1 = holds_char_at [OF h, of 1]
    and c2 = holds_char_at [OF h, of 2]
  show ?thesis
  proof (cases s')
    case Nil
    then show ?thesis using Cons c0 c1 by (simp add: findNextEOL_def)
  next
    case (Cons d s'')
    note s = \<open>s = c # s'\<close> Cons
    show ?thesis
    proof (cases "c = CHR ''>'' \<and> d = CHR '' ''")
      case True
      then obtain e s3 where e: "s'' = e # s3" using assms(2) s by (cases s'') auto
      then have "e \<noteq> NUL" using h s by (auto simp: holds_def)
      then show ?thesis using s e c0 c1 c2 by (simp add: findNextEOL_def numeral_2_eq_2)
    next
      case False
      then show ?thesis using s c0 c1 by (auto simp: findNextEOL_def)
    qed
  qed
qed

lemma holds_store_data:
  assumes "holds b cur t" "NUL \<notin> set data" "cur + length t + length data \<le> MAX_AT_RESPONSE"
  shows "holds (store_data b (cur + length t) data) cur (t @ data)"
  using assms by (auto simp: holds_def store_data_def nth_append)

lemma holds_move_up: "holds b cur s \<Longrightarrow> holds (move_up b cur (length s)) 0 s"
  by (auto simp: holds_def move_up_def)

lemma holds_cut:
  assumes "holds b cur (l @ e # r)"
  shows "holds (b(cur + length l := NUL)) cur l" "holds (b(cur + length l := NUL)) (cur + length l + 1) r"
proof -
  have r: "holds b (cur + length (l @ [e])) r" using holds_append [of b cur "l @ [e]" r] assms by simp
  have l: "\<forall>i<length l. b (cur + i) = l ! i" "cur + length l \<le> MAX_AT_RESPONSE" "NUL \<notin> set l"
    using assms by (auto simp: holds_def nth_append)
  show "holds (b(cur + length l := NUL)) cur l" using l by (simp add: holds_def)
  show "holds (b(cur + length l := NUL)) (cur + length l + 1) r" using r by (simp add: holds_def)
qed

lemma take_line_holds:
  assumes "holds_text st (l @ e # r)"
  shows "\<exists>st'. take_line st (s_ATBufferCur st + length l) ev = (Line l, st', ev) \<and> holds_text st' r"
proof -
  have "s_ATBufferCur st + length l \<le> MAX_AT_RESPONSE" using assms by (simp add: holds_def)
  then show ?thesis using holds_cut [OF assms] by (simp add: take_line_def cstring_holds)
qed

section \<open>The stream of characters\<close>

fun data_event :: "event \<Rightarrow> bool" where
  "data_event (R_data s) = (s \<noteq> [] \<and> NUL \<notin> set s)"
| "data_event R_eintr = True"
| "data_event _ = False"

fun event_text :: "event \<Rightarrow> string" where
  "event_text (R_data s) = s"
| "event_text _ = []"

definition stream :: "event list \<Rightarrow> string" where
  "stream ev = concat (map event_text ev)"

lemma read_fd_data:
  "list_all data_event ev \<Longrightarrow> 0 < n \<Longrightarrow>
     read_fd n ev = None \<and> stream ev = [] \<or>
     (\<exists>d ev'. read_fd n ev = Some (Some d, ev') \<and> d \<noteq> [] \<and> NUL \<notin> set d \<and> length d \<le> n \<and>
        list_all data_event ev' \<and> stream ev = d @ stream ev')"
  by (induction n ev rule: read_fd.induct)
    (auto simp: stream_def dest: in_set_takeD in_set_dropD)

lemma dropWhile_eol_split:
  assumes "dropWhile is_eol (s @ u) = l @ e # r" "l \<noteq> []" "\<forall>c \<in> set l. \<not> is_eol c" "is_eol e"
  obtains (more) "\<forall>c \<in> set (dropWhile is_eol s). \<not> is_eol c"
      "dropWhile is_eol (dropWhile is_eol s @ u) = l @ e # r"
      "dropWhile is_eol s = [] \<or> (\<exists>l'. l = dropWhile is_eol s @ l')"
    | (found) r1 where "dropWhile is_eol s = l @ e # r1" "r = r1 @ u"
proof (cases "\<forall>c \<in> set s. is_eol c")
  case True
  then have "dropWhile is_eol s = []" by (simp add: dropWhile_eq_Nil_conv)
  moreover from True have "dropWhile is_eol u = l @ e # r" using assms(1) by (simp add: dropWhile_append2)
  ultimately show thesis using more by (metis append_Nil empty_iff list.set(1))
next
  case False
  let ?t = "dropWhile is_eol s"
  have t: "?t @ u = l @ e # r" using False assms(1) by (auto simp: dropWhile_append1)
  have idem: "dropWhile is_eol (?t @ u) = ?t @ u"
    using t assms(2,3) by (cases l) auto
  from t consider l' where "l = ?t @ l'" | r1 where "?t = l @ e # r1" "r = r1 @ u"
    by (auto simp: append_eq_append_conv2 append_eq_Cons_conv Cons_eq_append_conv)
  then show thesis
  proof cases
    case 1
    then have "\<forall>c \<in> set ?t. \<not> is_eol c" using assms(3) by (metis UnI1 set_append)
    then show thesis using more idem t 1 by metis
  next
    case 2
    then show thesis using found by blast
  qed
qed

lemma length_skipped:
  "length (takeWhile p s) + length (dropWhile p s) = length s"
  by (metis length_append takeWhile_dropWhile_id)

section \<open>Reading a line\<close>

text \<open>One turn of the loop when the buffer is not full and data arrives.\<close>

lemma readline_loop_step:
  assumes h: "holds_text st t" and p: "p = s_ATBufferCur st + length t" "p < MAX_AT_RESPONSE"
    and r: "read_fd (MAX_AT_RESPONSE - p) ev = Some (Some d, ev')" "d \<noteq> []" "NUL \<notin> set d"
    and d: "length d \<le> MAX_AT_RESPONSE - p" and t2: "t2 = dropWhile is_eol (t @ d)" "t2 \<noteq> ''> ''"
  obtains st' where "holds_text st' t2"
    and "s_ATBufferCur st' + length t2 = p + length d"
    and "readline_loop st p ev =
      (case scan_eol (s_ATBuffer st') (s_ATBufferCur st') of
         None \<Rightarrow> (Fault, st', ev') | Some (Some e) \<Rightarrow> take_line st' e ev'
       | Some None \<Rightarrow> readline_loop st' (p + length d) ev')"
proof -
  let ?b = "store_data (s_ATBuffer st) p d" and ?k = "length (takeWhile is_eol (t @ d))"
  let ?st = "st\<lparr>s_ATBuffer := ?b, s_ATBufferCur := s_ATBufferCur st + ?k,
    s_readCount := s_readCount st + int (length d)\<rparr>"
  have hb: "holds ?b (s_ATBufferCur st) (t @ d)"
    unfolding p(1) using h r(3) d p by (intro holds_store_data) auto
  from skip_newlines_holds [OF hb] have sk: "skip_newlines ?b (s_ATBufferCur st) = Some (s_ATBufferCur st + ?k)"
    and h2: "holds ?b (s_ATBufferCur st + ?k) t2" using t2(1) by simp_all
  have "readline_loop st p ev =
      (case scan_eol ?b (s_ATBufferCur st + ?k) of
         None \<Rightarrow> (Fault, ?st, ev') | Some (Some e) \<Rightarrow> take_line ?st e ev'
       | Some None \<Rightarrow> readline_loop ?st (p + length d) ev')"
    using p(2) r sk by (subst readline_loop.simps) (simp add: findNextEOL_holds [OF h2 t2(2)] Let_def)
  moreover have "s_ATBufferCur st + ?k + length t2 = p + length d"
    using length_skipped [of is_eol "t @ d"] t2(1) p(1) by simp
  ultimately show thesis using that [of ?st] h2 by simp
qed

lemma dropWhile_dropWhile_append: "dropWhile P (dropWhile P s @ u) = dropWhile P (s @ u)"
  by (induction s) auto

lemma hd_dropWhile_split:
  "dropWhile P s \<noteq> [] \<Longrightarrow> dropWhile P (s @ u) = dropWhile P s @ u"
  by (induction s) auto

lemma hd_dropWhile_append:
  "dropWhile P s \<noteq> [] \<Longrightarrow> hd (dropWhile P (s @ u)) = hd (dropWhile P s)"
  by (induction s) auto

lemma readline_loop_found:
  assumes "holds_text st t" "\<forall>c \<in> set t. \<not> is_eol c" "list_all data_event ev"
    and "dropWhile is_eol (t @ stream ev) = l @ e # r" "l \<noteq> []" "hd l \<noteq> CHR ''>''"
    and "\<forall>c \<in> set l. \<not> is_eol c" "is_eol e"
    and "s_ATBufferCur st + length (t @ stream ev) < MAX_AT_RESPONSE + Suc (length r)"
  shows "\<exists>st' ev' t'. readline_loop st (s_ATBufferCur st + length t) ev = (Line l, st', ev') \<and>
    list_all data_event ev' \<and> holds_text st' t' \<and> t' @ stream ev' = r"
  using assms
proof (induction "events_size ev" arbitrary: st t ev rule: less_induct)
  case less
  let ?p = "s_ATBufferCur st + length t"
  have lt: "length t \<le> length l \<or> t = []"
  proof (cases t)
    case (Cons c t')
    then have "t @ stream ev = l @ e # r" using less.prems(2,4) by simp
    then show ?thesis using less.prems(2,8) by (auto simp: append_eq_append_conv2 append_eq_Cons_conv)
  qed simp
  have len: "length (l @ e # r) \<le> length (t @ stream ev)"
    using less.prems(4) by (metis length_dropWhile_le)
  have p: "?p < MAX_AT_RESPONSE" using lt len less.prems(5,9) by (cases l) auto
  have ne: "stream ev \<noteq> []"
  proof
    assume "stream ev = []"
    then have "set (l @ e # r) \<subseteq> set t" using less.prems(4) by (metis append_Nil2 set_dropWhileD subsetI)
    then show False using less.prems(2,8) by auto
  qed
  obtain d ev' where d: "read_fd (MAX_AT_RESPONSE - ?p) ev = Some (Some d, ev')" "d \<noteq> []" "NUL \<notin> set d"
      "length d \<le> MAX_AT_RESPONSE - ?p" "list_all data_event ev'" "stream ev = d @ stream ev'"
    using read_fd_data [OF less.prems(3), of "MAX_AT_RESPONSE - ?p"] p ne by auto
  have size: "events_size ev' < events_size ev" using read_fd_size [OF d(1)] p by simp
  let ?t2 = "dropWhile is_eol (t @ d)"
  have dw: "dropWhile is_eol ((t @ d) @ stream ev') = l @ e # r" using less.prems(4) d(6) by simp
  have no_prompt: "?t2 \<noteq> ''> ''"
    using hd_dropWhile_append [of is_eol "t @ d" "stream ev'"] dw less.prems(5,6)
    by (metis hd_append2 list.discI list.sel(1))
  obtain st' where st': "holds_text st' ?t2" "s_ATBufferCur st' + length ?t2 = ?p + length d"
      "readline_loop st ?p ev = (case scan_eol (s_ATBuffer st') (s_ATBufferCur st') of
         None \<Rightarrow> (Fault, st', ev') | Some (Some e) \<Rightarrow> take_line st' e ev'
       | Some None \<Rightarrow> readline_loop st' (?p + length d) ev')"
    using readline_loop_step [OF less.prems(1) refl p d(1-4) refl no_prompt] by blast
  from dw less.prems(5,7,8) show ?case
  proof (cases rule: dropWhile_eol_split)
    case more
    have "s_ATBufferCur st' + length (?t2 @ stream ev') < MAX_AT_RESPONSE + Suc (length r)"
      using st'(2) d(6) less.prems(9) by simp
    from less.hyps [OF size st'(1) more(1) d(5) more(2) less.prems(5-8) this]
    show ?thesis using st'(3) scan_eol_none [OF st'(1) more(1)] by (simp add: st'(2))
  next
    case (found r1)
    have "scan_eol (s_ATBuffer st') (s_ATBufferCur st') = Some (Some (s_ATBufferCur st' + length l))"
      using scan_eol_some [OF st'(1) [unfolded found(1)] less.prems(7,8)] .
    then show ?thesis using st'(3) take_line_holds [of st' l e r1 ev'] st'(1) found d(5) by auto
  qed
qed

lemma readline_loop_blocked:
  assumes "holds_text st t" "list_all data_event ev"
    and "\<forall>c \<in> set (dropWhile is_eol (t @ stream ev)). \<not> is_eol c"
    and "CHR ''>'' \<notin> set (t @ stream ev)"
    and "s_ATBufferCur st + length (t @ stream ev) < MAX_AT_RESPONSE"
  shows "\<exists>st' t'. readline_loop st (s_ATBufferCur st + length t) ev = (Blocked, st', []) \<and>
    holds_text st' t' \<and> dropWhile is_eol t' = dropWhile is_eol (t @ stream ev)"
  using assms
proof (induction "events_size ev" arbitrary: st t ev rule: less_induct)
  case less
  let ?p = "s_ATBufferCur st + length t"
  have p: "?p < MAX_AT_RESPONSE" using less.prems(5) by simp
  from read_fd_data [OF less.prems(2), of "MAX_AT_RESPONSE - ?p"] p
  consider "read_fd (MAX_AT_RESPONSE - ?p) ev = None" "stream ev = []"
    | d ev' where "read_fd (MAX_AT_RESPONSE - ?p) ev = Some (Some d, ev')" "d \<noteq> []" "NUL \<notin> set d"
      "length d \<le> MAX_AT_RESPONSE - ?p" "list_all data_event ev'" "stream ev = d @ stream ev'"
    by auto
  then show ?case
  proof cases
    case 1
    then show ?thesis using p less.prems(1)
      by (subst readline_loop.simps) auto
  next
    case (2 d ev')
    let ?t2 = "dropWhile is_eol (t @ d)"
    have size: "events_size ev' < events_size ev" using read_fd_size [OF 2(1)] p by simp
    have gt: "CHR ''>'' \<notin> set (?t2 @ stream ev')" using less.prems(4) 2(6) by (auto dest: set_dropWhileD)
    then have no_prompt: "?t2 \<noteq> ''> ''" by auto
    obtain st' where st': "holds_text st' ?t2" "s_ATBufferCur st' + length ?t2 = ?p + length d"
        "readline_loop st ?p ev = (case scan_eol (s_ATBuffer st') (s_ATBufferCur st') of
           None \<Rightarrow> (Fault, st', ev') | Some (Some e) \<Rightarrow> take_line st' e ev'
         | Some None \<Rightarrow> readline_loop st' (?p + length d) ev')"
      using readline_loop_step [OF less.prems(1) refl p 2(1-4) refl no_prompt] by blast
    have dw: "dropWhile is_eol (?t2 @ stream ev') = dropWhile is_eol (t @ stream ev)"
      using 2(6) by (simp add: dropWhile_dropWhile_append)
    have ne: "\<forall>c \<in> set ?t2. \<not> is_eol c"
    proof (cases "?t2 = []")
      case False
      then have eq: "dropWhile is_eol (t @ stream ev) = ?t2 @ stream ev'"
        using hd_dropWhile_split [of is_eol "t @ d" "stream ev'"] 2(6) by simp
      from less.prems(3) show ?thesis unfolding eq set_append ball_Un by (rule conjunct1)
    next
      case True
      show ?thesis unfolding True by simp
    qed
    have A: "\<forall>c \<in> set (dropWhile is_eol (?t2 @ stream ev')). \<not> is_eol c"
      unfolding dw by (rule less.prems(3))
    have B: "s_ATBufferCur st' + length (?t2 @ stream ev') < MAX_AT_RESPONSE"
      using st'(2) 2(6) less.prems(5) by simp
    from less.hyps [OF size st'(1) 2(5) A gt B] show ?thesis
      unfolding st'(3) scan_eol_none [OF st'(1) ne] dw st'(2) by (simp only: option.case)
  qed
qed

lemma holds_first: "holds_text st t \<Longrightarrow>
    char_at (s_ATBuffer st) (s_ATBufferCur st) = Some (if t = [] then NUL else hd t)"
  using holds_char_at [of "s_ATBuffer st" "s_ATBufferCur st" t 0] by (cases t) auto

lemma holds_hd: "holds_text st t \<Longrightarrow> t \<noteq> [] \<Longrightarrow> hd t \<noteq> NUL"
  by (cases t) (auto simp: holds_Cons)

text \<open>The start of a call: an empty buffer is reset, otherwise newlines are skipped.\<close>

lemma readline_empty:
  assumes "holds_text st []"
  obtains st' where "holds_text st' []" "s_ATBufferCur st' = 0" "readline st ev = readline_loop st' 0 ev"
  using holds_first [OF assms] that [of "st\<lparr>s_ATBufferCur := 0, s_ATBuffer := (s_ATBuffer st)(0 := NUL)\<rparr>"]
  by (simp add: readline_def holds_Nil)

lemma readline_pending:
  assumes h: "holds_text st t" and "t \<noteq> []" and t2: "t2 = dropWhile is_eol t" "t2 \<noteq> ''> ''"
  obtains st' where "holds_text st' t2"
    and "readline st ev = (case scan_eol (s_ATBuffer st') (s_ATBufferCur st') of
        None \<Rightarrow> (Fault, st', ev) | Some (Some e) \<Rightarrow> take_line st' e ev
      | Some None \<Rightarrow> readline_loop (st'\<lparr>s_ATBuffer := move_up (s_ATBuffer st') (s_ATBufferCur st') (length t2),
          s_ATBufferCur := 0\<rparr>) (length t2) ev)"
proof -
  let ?st = "st\<lparr>s_ATBufferCur := s_ATBufferCur st + length (takeWhile is_eol t)\<rparr>"
  have sk: "skip_newlines (s_ATBuffer st) (s_ATBufferCur st) = Some (s_ATBufferCur ?st)" "holds_text ?st t2"
    using skip_newlines_holds [OF h] t2(1) by auto
  have "readline st ev = (case scan_eol (s_ATBuffer ?st) (s_ATBufferCur ?st) of
        None \<Rightarrow> (Fault, ?st, ev) | Some (Some e) \<Rightarrow> take_line ?st e ev
      | Some None \<Rightarrow> readline_loop (?st\<lparr>s_ATBuffer := move_up (s_ATBuffer ?st) (s_ATBufferCur ?st) (length t2),
          s_ATBufferCur := 0\<rparr>) (length t2) ev)"
    using sk holds_first [OF h] holds_hd [OF h] assms(2) cstring_holds [OF sk(2)] findNextEOL_holds [OF sk(2) t2(2)]
    by (simp add: readline_def Let_def split: option.split)
  with sk(2) show thesis by (rule that)
qed

lemma readline_found:
  assumes h: "holds_text st t" and ev: "list_all data_event ev"
    and dw: "dropWhile is_eol (t @ stream ev) = l @ e # r" and l: "l \<noteq> []" "hd l \<noteq> CHR ''>''"
    and ne: "\<forall>c \<in> set l. \<not> is_eol c" "is_eol e"
    and len: "length (t @ stream ev) < MAX_AT_RESPONSE + Suc (length r)"
  shows "\<exists>st' ev' t'. readline st ev = (Line l, st', ev') \<and> list_all data_event ev' \<and>
    holds_text st' t' \<and> t' @ stream ev' = r"
proof (cases "t = []")
  case True
  from h [unfolded True] obtain st' where st': "holds_text st' []" "s_ATBufferCur st' = 0"
      "readline st ev = readline_loop st' 0 ev"
    by (rule readline_empty)
  then show ?thesis using readline_loop_found [of st' "[]" ev l e r] ev dw l ne len True by simp
next
  case False
  let ?t2 = "dropWhile is_eol t"
  have no_prompt: "?t2 \<noteq> ''> ''"
    using hd_dropWhile_append [of is_eol t "stream ev"] dw l
    by (metis hd_append2 list.discI list.sel(1))
  from h False refl no_prompt obtain st' where st': "holds_text st' ?t2"
    "readline st ev = (case scan_eol (s_ATBuffer st') (s_ATBufferCur st') of
        None \<Rightarrow> (Fault, st', ev) | Some (Some e) \<Rightarrow> take_line st' e ev
      | Some None \<Rightarrow> readline_loop (st'\<lparr>s_ATBuffer := move_up (s_ATBuffer st') (s_ATBufferCur st') (length ?t2),
          s_ATBufferCur := 0\<rparr>) (length ?t2) ev)"
    by (rule readline_pending)
  from dw l(1) ne show ?thesis
  proof (cases rule: dropWhile_eol_split)
    case more
    let ?st = "st'\<lparr>s_ATBuffer := move_up (s_ATBuffer st') (s_ATBufferCur st') (length ?t2), s_ATBufferCur := 0\<rparr>"
    have "holds_text ?st ?t2" using holds_move_up [OF st'(1)] by simp
    moreover have "s_ATBufferCur ?st + length (?t2 @ stream ev) < MAX_AT_RESPONSE + Suc (length r)"
      using len length_dropWhile_le [of is_eol t] by simp
    ultimately show ?thesis using readline_loop_found [of ?st ?t2 ev l e r] ev more l ne
      st'(2) scan_eol_none [OF st'(1) more(1)] by simp
  next
    case (found r1)
    have "scan_eol (s_ATBuffer st') (s_ATBufferCur st') = Some (Some (s_ATBufferCur st' + length l))"
      using scan_eol_some [OF st'(1) [unfolded found(1)] ne] .
    then show ?thesis using st'(2) take_line_holds [of st' l e r1 ev] st'(1) found ev by auto
  qed
qed

lemma readline_blocked:
  assumes h: "holds_text st t" and ev: "list_all data_event ev"
    and ne: "\<forall>c \<in> set (dropWhile is_eol (t @ stream ev)). \<not> is_eol c"
    and gt: "CHR ''>'' \<notin> set (t @ stream ev)" and len: "length (t @ stream ev) < MAX_AT_RESPONSE"
  shows "\<exists>st' t'. readline st ev = (Blocked, st', []) \<and> holds_text st' t' \<and>
    dropWhile is_eol t' = dropWhile is_eol (t @ stream ev)"
proof (cases "t = []")
  case True
  from h [unfolded True] obtain st' where st': "holds_text st' []" "s_ATBufferCur st' = 0"
      "readline st ev = readline_loop st' 0 ev"
    by (rule readline_empty)
  then show ?thesis using readline_loop_blocked [of st' "[]" ev] ev ne gt len True by simp
next
  case False
  let ?t2 = "dropWhile is_eol t"
  have t2: "set ?t2 \<subseteq> set t" by (auto dest: set_dropWhileD)
  then have no_prompt: "?t2 \<noteq> ''> ''" using gt by auto
  from h False refl no_prompt obtain st' where st': "holds_text st' ?t2"
    "readline st ev = (case scan_eol (s_ATBuffer st') (s_ATBufferCur st') of
        None \<Rightarrow> (Fault, st', ev) | Some (Some e) \<Rightarrow> take_line st' e ev
      | Some None \<Rightarrow> readline_loop (st'\<lparr>s_ATBuffer := move_up (s_ATBuffer st') (s_ATBufferCur st') (length ?t2),
          s_ATBufferCur := 0\<rparr>) (length ?t2) ev)"
    by (rule readline_pending)
  let ?st = "st'\<lparr>s_ATBuffer := move_up (s_ATBuffer st') (s_ATBufferCur st') (length ?t2), s_ATBufferCur := 0\<rparr>"
  have ne2: "\<forall>c \<in> set ?t2. \<not> is_eol c"
  proof (cases "?t2 = []")
    case True
    show ?thesis unfolding True by simp
  next
    case False
    from ne show ?thesis unfolding hd_dropWhile_split [OF False] set_append ball_Un by (rule conjunct1)
  qed
  have st: "holds_text ?st ?t2" "s_ATBufferCur ?st = 0" using holds_move_up [OF st'(1)] by simp_all
  have len2: "s_ATBufferCur ?st + length (?t2 @ stream ev) < MAX_AT_RESPONSE"
    using len length_dropWhile_le [of is_eol t] by simp
  have gt2: "CHR ''>'' \<notin> set (?t2 @ stream ev)" using gt t2 by auto
  have ne3: "\<forall>c \<in> set (dropWhile is_eol (?t2 @ stream ev)). \<not> is_eol c"
    unfolding dropWhile_dropWhile_append by (rule ne)
  note readline_loop_blocked [OF st(1) ev ne3 gt2 len2, unfolded st(2) add_0 dropWhile_dropWhile_append]
  then show ?thesis
    unfolding st'(2) scan_eol_none [OF st'(1) ne2] by (simp only: option.case)
qed

section \<open>Properties\<close>

text \<open>
  The lines of a stream: runs of other characters between line ends, the last one not counted
  unless it is ended.  \<open>fits\<close>: each line with the line ends before it is shorter than the buffer.
\<close>

definition line_of :: "string \<Rightarrow> string" where
  "line_of s = takeWhile (\<lambda>c. \<not> is_eol c) (dropWhile is_eol s)"

definition after_line :: "string \<Rightarrow> string" where
  "after_line s = dropWhile (\<lambda>c. \<not> is_eol c) (dropWhile is_eol s)"

lemma after_line_shorter: "length (after_line s) \<le> length s"
  using length_dropWhile_le order_trans unfolding after_line_def by blast

function complete_lines :: "string \<Rightarrow> string list" where
  "complete_lines s = (if after_line s = [] then [] else line_of s # complete_lines (tl (after_line s)))"
  by pat_completeness auto
termination
proof (relation "measure length", goal_cases)
  case (2 s)
  then have "after_line s \<noteq> []" by simp
  then have "0 < length (after_line s)" by simp
  then show ?case using after_line_shorter [of s] by (simp del: length_greater_0_conv)
qed simp

function fits :: "string \<Rightarrow> bool" where
  "fits s = (if after_line s = [] then length s < MAX_AT_RESPONSE
     else length s < MAX_AT_RESPONSE + length (after_line s) \<and> fits (tl (after_line s)))"
  by pat_completeness auto
termination
proof (relation "measure length", goal_cases)
  case (2 s)
  then have "0 < length (after_line s)" by simp
  then show ?case using after_line_shorter [of s] by (simp del: length_greater_0_conv)
qed simp

declare complete_lines.simps [simp del] fits.simps [simp del]

lemma after_line_cases:
  assumes "after_line s \<noteq> []"
  obtains e r where "dropWhile is_eol s = line_of s @ e # r" "after_line s = e # r" "is_eol e"
    "line_of s \<noteq> []" "\<forall>c \<in> set (line_of s). \<not> is_eol c"
proof -
  let ?d = "dropWhile is_eol s"
  obtain e r where er: "after_line s = e # r" using assms by (cases "after_line s") auto
  have d: "?d = line_of s @ e # r" using er by (metis after_line_def line_of_def takeWhile_dropWhile_id)
  have e: "is_eol e" using er hd_dropWhile [of "\<lambda>c. \<not> is_eol c" ?d] by (simp add: after_line_def)
  have ne: "\<forall>c \<in> set (line_of s). \<not> is_eol c" unfolding line_of_def by (auto dest: set_takeWhileD)
  have "line_of s \<noteq> []"
  proof
    assume "line_of s = []"
    then have "?d = e # r" using d by simp
    then show False using e hd_dropWhile [of is_eol s] by force
  qed
  with that er d e ne show thesis by blast
qed

lemma after_line_Nil:
  assumes "after_line s = []"
  shows "\<forall>c \<in> set (dropWhile is_eol s). \<not> is_eol c"
  using assms unfolding after_line_def dropWhile_eq_Nil_conv .

lemma readlines_complete:
  assumes "holds_text st t" "list_all data_event ev" "CHR ''>'' \<notin> set (t @ stream ev)" "fits (t @ stream ev)"
  shows "readlines (Suc (length (complete_lines (t @ stream ev)))) st ev =
    map Line (complete_lines (t @ stream ev)) @ [Blocked]"
  using assms
proof (induction "length (t @ stream ev)" arbitrary: st t ev rule: less_induct)
  case less
  let ?s = "t @ stream ev"
  show ?case
  proof (cases "after_line ?s = []")
    case True
    then have len: "length ?s < MAX_AT_RESPONSE" and L: "complete_lines ?s = []"
      using less.prems(4) by (simp_all add: fits.simps [of ?s] complete_lines.simps [of ?s])
    obtain st' where "readline st ev = (Blocked, st', [])"
      using readline_blocked [OF less.prems(1,2) after_line_Nil [OF True] less.prems(3) len] by blast
    then show ?thesis unfolding L by simp
  next
    case False
    from False obtain e r where er: "dropWhile is_eol ?s = line_of ?s @ e # r" "after_line ?s = e # r"
        "is_eol e" "line_of ?s \<noteq> []" "\<forall>c \<in> set (line_of ?s). \<not> is_eol c"
      by (rule after_line_cases)
    have L: "complete_lines ?s = line_of ?s # complete_lines r" using er(2) by (simp add: complete_lines.simps [of ?s])
    have fit: "fits r" "length ?s < MAX_AT_RESPONSE + Suc (length r)"
      using less.prems(4) er(2) by (simp_all add: fits.simps [of ?s])
    have sub: "set (line_of ?s @ e # r) \<subseteq> set ?s" using er(1) by (metis set_dropWhileD subsetI)
    have "hd (line_of ?s) \<in> set ?s" using hd_in_set [OF er(4)] sub by auto
    then have hd: "hd (line_of ?s) \<noteq> CHR ''>''" using less.prems(3) by metis
    have short: "length r < length ?s"
      using arg_cong [OF er(1), of length] length_dropWhile_le [of is_eol ?s] by simp
    obtain st' ev' t' where st': "readline st ev = (Line (line_of ?s), st', ev')"
        "list_all data_event ev'" "holds_text st' t'" "t' @ stream ev' = r"
      using readline_found [OF less.prems(1,2) er(1,4) hd er(5,3) fit(2)] by blast
    have gt: "CHR ''>'' \<notin> set r" using sub less.prems(3) by auto
    show ?thesis
      using less.hyps [of t' ev' st', unfolded st'(4), OF short st'(3,2) gt fit(1)] st'(1)
      by (simp add: L)
  qed
qed

text \<open>
  C18. The line reader is independent of how the characters arrive: for every sequence of
  non-empty NUL-free chunks (and interrupted reads) without the character of the SMS prompt,
  in which each line with the line ends before it is shorter than the buffer, successive calls
  of \<open>readline\<close> from the initial state return exactly the complete lines of the concatenated
  text, in order and without empty lines, and then block; no access leaves the buffer.  (After the
  SMS prompt old text is read again, as \<open>prompt_replays_old_text\<close> shows.)\<close>

theorem readline_lines:
  assumes "list_all data_event ev" "CHR ''>'' \<notin> set (stream ev)" "fits (stream ev)"
  shows "readlines (Suc (length (complete_lines (stream ev)))) reader_init ev =
    map Line (complete_lines (stream ev)) @ [Blocked]"
proof -
  have "holds_text reader_init []" by (simp add: reader_init_def holds_Nil)
  from readlines_complete [OF this, of ev] assms show ?thesis by simp
qed

lemmas line_evals = line_of_def after_line_def is_eol_def stream_def

theorem readline_lines_witness:
  "readlines 3 reader_init [R_data [CHR 0x0D, CHR 0x0A, CHR ''+''], R_eintr,
      R_data [CHR ''A'', CHR 0x0D, CHR 0x0A, CHR 0x0D, CHR 0x0A, CHR ''O''], R_data [CHR ''K'', CHR 0x0D]] =
   [Line ''+A'', Line ''OK'', Blocked]"
proof -
  let ?ev = "[R_data [CHR 0x0D, CHR 0x0A, CHR ''+''], R_eintr,
      R_data [CHR ''A'', CHR 0x0D, CHR 0x0A, CHR 0x0D, CHR 0x0A, CHR ''O''], R_data [CHR ''K'', CHR 0x0D]]"
  have L: "complete_lines (stream ?ev) = [''+A'', ''OK'']"
    by (simp add: line_evals complete_lines.simps)
  have "list_all data_event ?ev" by simp
  moreover have "CHR ''>'' \<notin> set (stream ?ev)" by (simp add: stream_def)
  moreover have "fits (stream ?ev)" by (simp add: line_evals fits.simps MAX_AT_RESPONSE_def)
  ultimately have "readlines (Suc (length (complete_lines (stream ?ev)))) reader_init ?ev =
      map Line (complete_lines (stream ?ev)) @ [Blocked]"
    by (rule readline_lines)
  then show ?thesis unfolding L by (simp add: numeral_3_eq_3 del: readlines.simps)
qed

lemmas readline_evals = readline_def readline_loop.simps reader_init_def char_at_def skip_newlines.simps
  scan_eol.simps cstring.simps findNextEOL_def store_data_def move_up_def take_line_def is_eol_def
  MAX_AT_RESPONSE_def Let_def

text \<open>
  After the SMS prompt the reader leaves the text it has read and returns old characters.
  \<open>findNextEOL\<close> gives the terminating NUL as the end of the prompt, so the cursor is set one
  position past the NUL, not at most at \<^verbatim>\<open>p_read\<close> as the comment in the code says.  A modem
  that sent \<^verbatim>\<open>OK\<close>, then the prompt, then \<^verbatim>\<open>ERROR\<close>, is read as \<^verbatim>\<open>OK\<close>, the prompt, and a second
  \<^verbatim>\<open>OK\<close> that was never sent, a final response, before the error.\<close>

theorem prompt_replays_old_text:
  "readlines 4 reader_init
     [R_data [CHR 0x0D, CHR 0x0A, CHR 0x0D, CHR 0x0A, CHR ''O'', CHR ''K'', CHR 0x0D, CHR 0x0A],
      R_data ''> '', R_data ([CHR 0x0D, CHR 0x0A] @ ''ERROR'' @ [CHR 0x0D, CHR 0x0A])] =
   [Line ''OK'', Line ''> '', Line ''OK'', Line ''ERROR'']"
proof -
  have "(4::nat) = Suc (Suc (Suc (Suc 0)))" by simp
  show ?thesis unfolding \<open>4 = _\<close> by (simp add: readline_evals)
qed

end
