(* ===== verification/At_Channel.thy ===== *)
theory At_Channel
  imports At_Tok At_Reader
begin

text \<open>
  The command side of the AT channel, \<^verbatim>\<open>hardware/ril/reference-ril/atchannel.c\<close>: the pending
  command, the classification of lines into final, intermediate and unsolicited responses, the
  protocol of \<^verbatim>\<open>at_send_command\<close>, and the reader thread.  The globals are a record.  The results
  of \<^verbatim>\<open>write\<close> are an oracle list, part of the state, and the text written so far is kept; calls
  of the callbacks are counted or logged.  A call returns, waits for ever, or crashes on a
  null pointer.  While a command waits on the condition variable it holds no lock: what other
  threads do meanwhile is a list of actions per wake-up.  The reader thread never processes a line,
  since the call of \<^verbatim>\<open>processLine\<close> in its loop is commented out, so no action does.
\<close>

section \<open>Data\<close>

datatype ATCommandType = NO_RESULT | NUMERIC | SINGLELINE | MULTILINE

record ATResponse =
  success :: int
  finalResponse :: "string option"
  p_intermediates :: "string list"

datatype write_result = W nat | W_EINTR | W_error

record channel =
  s_fd :: int
  s_unsolHandler :: bool
  s_type :: ATCommandType
  s_responsePrefix :: "string option"
  s_smsPDU :: "string option"
  sp_response :: "ATResponse option"
  s_onTimeout :: bool
  s_onReaderClosed :: bool
  s_readerClosed :: int
  unsolicited :: "string list"
  wire :: string
  writes :: "write_result list"
  timeouts :: nat
  closes :: nat

datatype 'a call = Returned 'a | Waits | Crashed

fun call_bind :: "'a call \<Rightarrow> ('a \<Rightarrow> 'b call) \<Rightarrow> 'b call" where
  "call_bind (Returned a) f = f a"
| "call_bind Waits f = Waits"
| "call_bind Crashed f = Crashed"

definition AT_ERROR_GENERIC :: int where "AT_ERROR_GENERIC = -1"
definition AT_ERROR_COMMAND_PENDING :: int where "AT_ERROR_COMMAND_PENDING = -2"
definition AT_ERROR_CHANNEL_CLOSED :: int where "AT_ERROR_CHANNEL_CLOSED = -3"
definition AT_ERROR_TIMEOUT :: int where "AT_ERROR_TIMEOUT = -4"
definition AT_ERROR_INVALID_THREAD :: int where "AT_ERROR_INVALID_THREAD = -5"
definition AT_ERROR_INVALID_RESPONSE :: int where "AT_ERROR_INVALID_RESPONSE = -6"

lemmas at_errors = AT_ERROR_GENERIC_def AT_ERROR_COMMAND_PENDING_def AT_ERROR_CHANNEL_CLOSED_def
  AT_ERROR_TIMEOUT_def AT_ERROR_INVALID_THREAD_def AT_ERROR_INVALID_RESPONSE_def

section \<open>Classification of lines\<close>

definition s_finalResponsesError :: "string list" where
  "s_finalResponsesError =
     [''ERROR'', ''+CMS ERROR:'', ''+CME ERROR:'', ''NO CARRIER'', ''NO ANSWER'', ''NO DIALTONE'']"

definition isFinalResponseError :: "string \<Rightarrow> bool" where
  "isFinalResponseError line = list_ex (strStartsWith line) s_finalResponsesError"

definition s_finalResponsesSuccess :: "string list" where
  "s_finalResponsesSuccess = [''OK'', ''CONNECT'']"

definition isFinalResponseSuccess :: "string \<Rightarrow> bool" where
  "isFinalResponseSuccess line = list_ex (strStartsWith line) s_finalResponsesSuccess"

definition isFinalResponse :: "string \<Rightarrow> bool" where
  "isFinalResponse line \<longleftrightarrow> isFinalResponseSuccess line \<or> isFinalResponseError line"

definition s_smsUnsoliciteds :: "string list" where
  "s_smsUnsoliciteds = [''+CMT:'', ''+CDS:'', ''+CBM:'']"

definition isSMSUnsolicited :: "string \<Rightarrow> bool" where
  "isSMSUnsolicited line = list_ex (strStartsWith line) s_smsUnsoliciteds"

section \<open>Writing to the modem\<close>

text \<open>
  The loop that writes a string, and the one that writes its terminator; \<open>Waits\<close> when no result
  of \<^verbatim>\<open>write\<close> is left.  The result is the error code, the text that was written and the
  remaining results.
\<close>

fun write_all :: "string \<Rightarrow> write_result list \<Rightarrow> (int \<times> string \<times> write_result list) call" where
  "write_all [] ws = Returned (0, [], ws)"
| "write_all s [] = Waits"
| "write_all s (W_EINTR # ws) = write_all s ws"
| "write_all s (W_error # ws) = Returned (AT_ERROR_GENERIC, [], ws)"
| "write_all s (W k # ws) =
     call_bind (write_all (drop k s) ws) (\<lambda>(err, out, ws). Returned (err, take k s @ out, ws))"

fun write_char :: "char \<Rightarrow> write_result list \<Rightarrow> (int \<times> string \<times> write_result list) call" where
  "write_char c [] = Waits"
| "write_char c (W_EINTR # ws) = write_char c ws"
| "write_char c (W_error # ws) = Returned (AT_ERROR_GENERIC, [], ws)"
| "write_char c (W 0 # ws) = write_char c ws"
| "write_char c (W (Suc k) # ws) = Returned (0, [c], ws)"

definition write_string :: "string \<Rightarrow> char \<Rightarrow> channel \<Rightarrow> (int \<times> channel) call" where
  "write_string s term ch =
     (if s_fd ch < 0 \<or> s_readerClosed ch > 0 then Returned (AT_ERROR_CHANNEL_CLOSED, ch)
      else call_bind (write_all s (writes ch)) (\<lambda>(err, out, ws).
        let ch = ch\<lparr>wire := wire ch @ out, writes := ws\<rparr>
        in if err < 0 then Returned (AT_ERROR_GENERIC, ch)
           else call_bind (write_char term ws) (\<lambda>(err, out, ws).
             let ch = ch\<lparr>wire := wire ch @ out, writes := ws\<rparr>
             in if err < 0 then Returned (AT_ERROR_GENERIC, ch) else Returned (0, ch))))"

definition writeline :: "string \<Rightarrow> channel \<Rightarrow> (int \<times> channel) call" where
  "writeline s ch = write_string s (CHR 0x0D) ch"

definition writeCtrlZ :: "string \<Rightarrow> channel \<Rightarrow> (int \<times> channel) call" where
  "writeCtrlZ s ch = write_string s (CHR 0x1A) ch"

section \<open>Processing a line\<close>

definition addIntermediate :: "string \<Rightarrow> channel \<Rightarrow> channel" where
  "addIntermediate line ch =
     ch\<lparr>sp_response := map_option (\<lambda>r. r\<lparr>p_intermediates := line # p_intermediates r\<rparr>) (sp_response ch)\<rparr>"

definition handleFinalResponse :: "string \<Rightarrow> channel \<Rightarrow> channel" where
  "handleFinalResponse line ch =
     ch\<lparr>sp_response := map_option (\<lambda>r. r\<lparr>finalResponse := Some line\<rparr>) (sp_response ch)\<rparr>"

definition handleUnsolicited :: "string \<Rightarrow> channel \<Rightarrow> channel" where
  "handleUnsolicited line ch =
     (if s_unsolHandler ch then ch\<lparr>unsolicited := unsolicited ch @ [line]\<rparr> else ch)"

definition set_success :: "int \<Rightarrow> channel \<Rightarrow> channel" where
  "set_success n ch = ch\<lparr>sp_response := map_option (\<lambda>r. r\<lparr>success := n\<rparr>) (sp_response ch)\<rparr>"

definition processLine :: "string \<Rightarrow> channel \<Rightarrow> channel call" where
  "processLine line ch =
     (case sp_response ch of
        None \<Rightarrow> Returned (handleUnsolicited line ch)
      | Some r \<Rightarrow>
          if isFinalResponseSuccess line then Returned (handleFinalResponse line (set_success 1 ch))
          else if isFinalResponseError line then Returned (handleFinalResponse line (set_success 0 ch))
          else if s_smsPDU ch \<noteq> None \<and> strcmp line ''> '' = 0
          then call_bind (writeCtrlZ (the (s_smsPDU ch)) ch) (\<lambda>(_, ch). Returned (ch\<lparr>s_smsPDU := None\<rparr>))
          else (case s_type ch of
            NO_RESULT \<Rightarrow> Returned (handleUnsolicited line ch)
          | NUMERIC \<Rightarrow>
              if p_intermediates r = [] \<and> line \<noteq> [] \<and> isdigit (hd line)
              then Returned (addIntermediate line ch) else Returned (handleUnsolicited line ch)
          | SINGLELINE \<Rightarrow>
              if p_intermediates r = []
              then (case s_responsePrefix ch of
                      None \<Rightarrow> Crashed
                    | Some prefix \<Rightarrow> if strStartsWith line prefix then Returned (addIntermediate line ch)
                                    else Returned (handleUnsolicited line ch))
              else Returned (handleUnsolicited line ch)
          | MULTILINE \<Rightarrow>
              (case s_responsePrefix ch of
                 None \<Rightarrow> Crashed
               | Some prefix \<Rightarrow> if strStartsWith line prefix then Returned (addIntermediate line ch)
                               else Returned (handleUnsolicited line ch))))"

definition onReaderClosed :: "channel \<Rightarrow> channel" where
  "onReaderClosed ch =
     (if s_onReaderClosed ch \<and> s_readerClosed ch = 0
      then ch\<lparr>s_readerClosed := 1, closes := closes ch + 1\<rparr> else ch)"

section \<open>Opening, closing and the pending command\<close>

definition at_response_new :: ATResponse where
  "at_response_new = \<lparr>success = 0, finalResponse = None, p_intermediates = []\<rparr>"

definition clearPendingCommand :: "channel \<Rightarrow> channel" where
  "clearPendingCommand ch = ch\<lparr>sp_response := None, s_responsePrefix := None, s_smsPDU := None\<rparr>"

text \<open>\<open>created\<close> is whether \<^verbatim>\<open>pthread_create\<close> succeeded; the power control of one board is left out.\<close>

definition at_open :: "int \<Rightarrow> bool \<Rightarrow> bool \<Rightarrow> channel \<Rightarrow> int \<times> channel" where
  "at_open fd h created ch =
     (let ch = ch\<lparr>s_fd := fd, s_unsolHandler := h, s_readerClosed := 0, s_responsePrefix := None,
                 s_smsPDU := None, sp_response := None\<rparr>
      in if \<not> created then (-1, ch) else (0, ch))"

definition at_close :: "channel \<Rightarrow> channel" where
  "at_close ch = ch\<lparr>s_fd := -1, s_readerClosed := 1\<rparr>"

definition at_set_on_timeout :: "bool \<Rightarrow> channel \<Rightarrow> channel" where
  "at_set_on_timeout h ch = ch\<lparr>s_onTimeout := h\<rparr>"

definition at_set_on_reader_closed :: "bool \<Rightarrow> channel \<Rightarrow> channel" where
  "at_set_on_reader_closed h ch = ch\<lparr>s_onReaderClosed := h\<rparr>"

text \<open>The loop of \<open>reverseIntermediates\<close>: \<open>cur\<close> is still to be moved onto \<open>done\<close>.\<close>

fun reverse_loop :: "string list \<Rightarrow> string list \<Rightarrow> string list" where
  "reverse_loop [] done = done"
| "reverse_loop (l # cur) done = reverse_loop cur (l # done)"

definition reverseIntermediates :: "ATResponse \<Rightarrow> ATResponse" where
  "reverseIntermediates r = r\<lparr>p_intermediates := reverse_loop (p_intermediates r) []\<rparr>"

section \<open>Sending a command\<close>

text \<open>The first part of \<open>at_send_command_full_nolock\<close>, up to the loop that waits.\<close>

definition send_begin :: "string \<Rightarrow> ATCommandType \<Rightarrow> string option \<Rightarrow> string option \<Rightarrow> channel \<Rightarrow>
    (int \<times> channel) call" where
  "send_begin command type responsePrefix smspdu ch =
     (if sp_response ch \<noteq> None then Returned (AT_ERROR_COMMAND_PENDING, clearPendingCommand ch)
      else call_bind (writeline command ch) (\<lambda>(err, ch).
        if err < 0 then Returned (err, clearPendingCommand ch)
        else Returned (0, ch\<lparr>s_type := type, s_responsePrefix := responsePrefix, s_smsPDU := smspdu,
                           sp_response := Some at_response_new\<rparr>)))"

text \<open>
  What other threads do between two wake-ups, and how the wait ends.  \<open>Ended\<close> is the end of a call
  of another thread that was waiting as well; whether it finishes or times out, it clears the
  pending command.
\<close>

datatype action =
    Reader_closed
  | Close
  | Open int bool bool
  | Send string ATCommandType "string option" "string option"
  | Ended

datatype wake = Signalled "action list" | Timed_out "action list"

fun step_action :: "action \<Rightarrow> channel \<Rightarrow> channel call" where
  "step_action Reader_closed ch = Returned (onReaderClosed ch)"
| "step_action Close ch = Returned (at_close ch)"
| "step_action (Open fd h created) ch = Returned (snd (at_open fd h created ch))"
| "step_action (Send command type prefix pdu) ch =
     call_bind (send_begin command type prefix pdu ch) (\<lambda>(_, ch). Returned ch)"
| "step_action Ended ch = Returned (clearPendingCommand ch)"

fun run_actions :: "action list \<Rightarrow> channel \<Rightarrow> channel call" where
  "run_actions [] ch = Returned ch"
| "run_actions (a # as) ch = call_bind (step_action a ch) (run_actions as)"

fun wake_actions :: "wake \<Rightarrow> action list" where
  "wake_actions (Signalled as) = as"
| "wake_actions (Timed_out as) = as"

fun is_timeout :: "wake \<Rightarrow> bool" where
  "is_timeout (Signalled as) = False"
| "is_timeout (Timed_out as) = True"

text \<open>The condition of the loop; \<open>None\<close> dereferences the null \<^verbatim>\<open>sp_response\<close>.\<close>

definition still_waiting :: "channel \<Rightarrow> bool option" where
  "still_waiting ch =
     map_option (\<lambda>r. finalResponse r = None \<and> s_readerClosed ch = 0) (sp_response ch)"

fun wait_loop :: "int \<Rightarrow> wake list \<Rightarrow> channel \<Rightarrow> (int \<times> channel \<times> wake list) call" where
  "wait_loop timeoutMsec [] ch =
     (case still_waiting ch of
        None \<Rightarrow> Crashed | Some True \<Rightarrow> Waits | Some False \<Rightarrow> Returned (0, ch, []))"
| "wait_loop timeoutMsec (w # ws) ch =
     (case still_waiting ch of
        None \<Rightarrow> Crashed
      | Some False \<Rightarrow> Returned (0, ch, w # ws)
      | Some True \<Rightarrow>
          call_bind (run_actions (wake_actions w) ch) (\<lambda>ch.
            if is_timeout w \<and> timeoutMsec \<noteq> 0 then Returned (AT_ERROR_TIMEOUT, ch, ws)
            else wait_loop timeoutMsec ws ch))"

text \<open>The part after the loop; \<open>want\<close> is whether \<^verbatim>\<open>pp_outResponse\<close> is non-null.\<close>

definition send_finish :: "bool \<Rightarrow> channel \<Rightarrow> int \<times> ATResponse option \<times> channel" where
  "send_finish want ch =
     (let out = (if want then map_option reverseIntermediates (sp_response ch) else None);
          ch = ch\<lparr>sp_response := None\<rparr>;
          err = (if s_readerClosed ch > 0 then AT_ERROR_CHANNEL_CLOSED else 0)
      in (err, out, clearPendingCommand ch))"

definition at_send_command_full_nolock ::
  "string \<Rightarrow> ATCommandType \<Rightarrow> string option \<Rightarrow> string option \<Rightarrow> int \<Rightarrow> bool \<Rightarrow> wake list \<Rightarrow> channel \<Rightarrow>
     (int \<times> ATResponse option \<times> channel \<times> wake list) call" where
  "at_send_command_full_nolock command type responsePrefix smspdu timeoutMsec want wakes ch =
     call_bind (send_begin command type responsePrefix smspdu ch) (\<lambda>(err, ch).
       if err < 0 then Returned (err, None, ch, wakes)
       else call_bind (wait_loop timeoutMsec wakes ch) (\<lambda>(err, ch, wakes).
         if err < 0 then Returned (err, None, clearPendingCommand ch, wakes)
         else let (err, out, ch) = send_finish want ch in Returned (err, out, ch, wakes)))"

definition at_send_command_full ::
  "bool \<Rightarrow> string \<Rightarrow> ATCommandType \<Rightarrow> string option \<Rightarrow> string option \<Rightarrow> int \<Rightarrow> bool \<Rightarrow> wake list \<Rightarrow> channel \<Rightarrow>
     (int \<times> ATResponse option \<times> channel \<times> wake list) call" where
  "at_send_command_full in_reader command type responsePrefix smspdu timeoutMsec want wakes ch =
     (if in_reader then Returned (AT_ERROR_INVALID_THREAD, None, ch, wakes)
      else call_bind
        (at_send_command_full_nolock command type responsePrefix smspdu timeoutMsec want wakes ch)
        (\<lambda>(err, out, ch, wakes).
          Returned (err, out,
            (if err = AT_ERROR_TIMEOUT \<and> s_onTimeout ch then ch\<lparr>timeouts := timeouts ch + 1\<rparr> else ch), wakes)))"

definition at_send_command :: "bool \<Rightarrow> string \<Rightarrow> bool \<Rightarrow> wake list \<Rightarrow> channel \<Rightarrow>
    (int \<times> ATResponse option \<times> channel \<times> wake list) call" where
  "at_send_command in_reader command want wakes ch =
     at_send_command_full in_reader command NO_RESULT None None 0 want wakes ch"

text \<open>The check the other commands make: a successful response must have an intermediate line.\<close>

definition require_intermediate :: "int \<times> ATResponse option \<times> channel \<times> wake list \<Rightarrow>
    (int \<times> ATResponse option \<times> channel \<times> wake list) call" where
  "require_intermediate = (\<lambda>(err, out, ch, wakes).
     case out of
       Some r \<Rightarrow> if err = 0 \<and> success r > 0 \<and> p_intermediates r = []
                 then Returned (AT_ERROR_INVALID_RESPONSE, None, ch, wakes)
                 else Returned (err, out, ch, wakes)
     | None \<Rightarrow> Returned (err, out, ch, wakes))"

definition at_send_command_singleline :: "bool \<Rightarrow> string \<Rightarrow> string \<Rightarrow> bool \<Rightarrow> wake list \<Rightarrow> channel \<Rightarrow>
    (int \<times> ATResponse option \<times> channel \<times> wake list) call" where
  "at_send_command_singleline in_reader command responsePrefix want wakes ch =
     call_bind (at_send_command_full in_reader command SINGLELINE (Some responsePrefix) None 0 want wakes ch)
       require_intermediate"

definition at_send_command_numeric :: "bool \<Rightarrow> string \<Rightarrow> bool \<Rightarrow> wake list \<Rightarrow> channel \<Rightarrow>
    (int \<times> ATResponse option \<times> channel \<times> wake list) call" where
  "at_send_command_numeric in_reader command want wakes ch =
     call_bind (at_send_command_full in_reader command NUMERIC None None 0 want wakes ch)
       require_intermediate"

definition at_send_command_sms :: "bool \<Rightarrow> string \<Rightarrow> string \<Rightarrow> string \<Rightarrow> bool \<Rightarrow> wake list \<Rightarrow> channel \<Rightarrow>
    (int \<times> ATResponse option \<times> channel \<times> wake list) call" where
  "at_send_command_sms in_reader command pdu responsePrefix want wakes ch =
     call_bind (at_send_command_full in_reader command SINGLELINE (Some responsePrefix) (Some pdu) 0 want wakes ch)
       require_intermediate"

definition at_send_command_multiline :: "bool \<Rightarrow> string \<Rightarrow> string \<Rightarrow> bool \<Rightarrow> wake list \<Rightarrow> channel \<Rightarrow>
    (int \<times> ATResponse option \<times> channel \<times> wake list) call" where
  "at_send_command_multiline in_reader command responsePrefix want wakes ch =
     at_send_command_full in_reader command MULTILINE (Some responsePrefix) None 0 want wakes ch"

definition HANDSHAKE_RETRY_COUNT :: nat where "HANDSHAKE_RETRY_COUNT = 8"
definition HANDSHAKE_TIMEOUT_MSEC :: int where "HANDSHAKE_TIMEOUT_MSEC = 250"

fun handshake_loop :: "nat \<Rightarrow> int \<Rightarrow> wake list \<Rightarrow> channel \<Rightarrow> (int \<times> channel \<times> wake list) call" where
  "handshake_loop 0 err wakes ch = Returned (err, ch, wakes)"
| "handshake_loop (Suc n) err wakes ch =
     call_bind (at_send_command_full_nolock ''ATE0Q0V1'' NO_RESULT None None HANDSHAKE_TIMEOUT_MSEC False wakes ch)
       (\<lambda>(err, _, ch, wakes).
          if err = 0 then Returned (err, ch, wakes) else handshake_loop n err wakes ch)"

text \<open>The pause after a successful handshake does nothing to the state.\<close>

definition at_handshake :: "bool \<Rightarrow> wake list \<Rightarrow> channel \<Rightarrow> (int \<times> channel \<times> wake list) call" where
  "at_handshake in_reader wakes ch =
     (if in_reader then Returned (AT_ERROR_INVALID_THREAD, ch, wakes)
      else handshake_loop HANDSHAKE_RETRY_COUNT 0 wakes ch)"

definition CME_ERROR_NON_CME :: int where "CME_ERROR_NON_CME = -1"
definition CME_SUCCESS :: int where "CME_SUCCESS = 0"

definition at_get_cme_error :: "ATResponse \<Rightarrow> int" where
  "at_get_cme_error r =
     (if success r > 0 then CME_SUCCESS
      else case finalResponse r of
        None \<Rightarrow> CME_ERROR_NON_CME
      | Some f \<Rightarrow>
          if \<not> strStartsWith f ''+CME ERROR:'' then CME_ERROR_NON_CME
          else let (err, p_cur) = at_tok_start (Some f)
               in if err < 0 then CME_ERROR_NON_CME
                  else let (err, ret, p_cur) = at_tok_nextint p_cur
                       in if err < 0 then CME_ERROR_NON_CME else the ret)"

section \<open>The reader thread\<close>

text \<open>
  One turn of the loop of \<open>readerLoop\<close>: the next state of the reader, and whether the loop goes
  on (\<open>Returned True\<close>), ends, waits for the modem or faults.  The calls of \<^verbatim>\<open>s_unsolHandler\<close> and
  \<^verbatim>\<open>processLine\<close> in the loop are commented out in the source, so the channel is not an argument.
\<close>

definition reader_turn :: "reader \<Rightarrow> event list \<Rightarrow> bool call \<times> reader \<times> event list" where
  "reader_turn rd ev =
     (case readline rd ev of
        (Fault, rd, ev) \<Rightarrow> (Crashed, rd, ev)
      | (Blocked, rd, ev) \<Rightarrow> (Waits, rd, ev)
      | (Closed, rd, ev) \<Rightarrow> (Returned False, rd, ev)
      | (Line line, rd, ev) \<Rightarrow>
          if isSMSUnsolicited line
          then (case readline rd ev of
                  (Fault, rd, ev) \<Rightarrow> (Crashed, rd, ev)
                | (Blocked, rd, ev) \<Rightarrow> (Waits, rd, ev)
                | (Closed, rd, ev) \<Rightarrow> (Returned False, rd, ev)
                | (Line line2, rd, ev) \<Rightarrow> (Returned True, rd, ev))
          else (Returned True, rd, ev))"

text \<open>Up to \<open>n\<close> turns, with what the thread does to the channel: \<open>onReaderClosed\<close> when the loop ends.\<close>

fun readerLoop :: "nat \<Rightarrow> reader \<Rightarrow> event list \<Rightarrow> channel \<Rightarrow> channel call" where
  "readerLoop 0 rd ev ch = Waits"
| "readerLoop (Suc n) rd ev ch =
     (case reader_turn rd ev of
        (Crashed, _, _) \<Rightarrow> Crashed
      | (Waits, _, _) \<Rightarrow> Waits
      | (Returned True, rd, ev) \<Rightarrow> readerLoop n rd ev ch
      | (Returned False, _, _) \<Rightarrow> Returned (onReaderClosed ch))"

section \<open>What is written\<close>

lemma write_all_prefix:
  "write_all s ws = Returned (err, out, ws') \<Longrightarrow>
     (err = 0 \<longrightarrow> out = s) \<and> (\<exists>t. s = out @ t) \<and> (err = 0 \<or> err = AT_ERROR_GENERIC)"
proof (induction s ws arbitrary: out ws' rule: write_all.induct)
  case (5 c s k ws)
  then obtain out' where o: "write_all (drop k (c # s)) ws = Returned (err, out', ws')"
      "out = take k (c # s) @ out'"
    by (cases "write_all (drop k (c # s)) ws") auto
  from "5.IH" [OF o(1)] o(2) show ?case
    by (metis append.assoc append_take_drop_id)
qed (auto simp: at_errors)

lemma write_char_prefix:
  "write_char c ws = Returned (err, out, ws') \<Longrightarrow>
     err = 0 \<and> out = [c] \<or> err = AT_ERROR_GENERIC \<and> out = []"
  by (induction c ws arbitrary: out ws' rule: write_char.induct) auto

lemma write_string_effect:
  assumes "write_string s c ch = Returned (err, ch')"
  shows "(\<exists>out ws. ch' = ch\<lparr>wire := wire ch @ out, writes := ws\<rparr> \<and> (\<exists>t. s @ [c] = out @ t) \<and>
      (err = 0 \<longrightarrow> out = s @ [c])) \<and> (err = 0 \<or> err = AT_ERROR_GENERIC \<or> err = AT_ERROR_CHANNEL_CLOSED)"
proof (cases "s_fd ch < 0 \<or> s_readerClosed ch > 0")
  case True
  then have "ch' = ch" "err = AT_ERROR_CHANNEL_CLOSED" using assms by (auto simp: write_string_def)
  moreover have "\<exists>out ws. ch = ch\<lparr>wire := wire ch @ out, writes := ws\<rparr> \<and> (\<exists>t. s @ [c] = out @ t)"
    by (rule exI [of _ "[]"], rule exI [of _ "writes ch"]) simp
  ultimately show ?thesis by (simp add: at_errors)
next
  case False
  obtain err1 out1 ws1 where w1: "write_all s (writes ch) = Returned (err1, out1, ws1)"
    using assms False by (cases "write_all s (writes ch)") (auto simp: write_string_def)
  note p1 = write_all_prefix [OF w1]
  show ?thesis
  proof (cases "err1 < 0")
    case True
    then have "ch' = ch\<lparr>wire := wire ch @ out1, writes := ws1\<rparr>" "err = AT_ERROR_GENERIC"
      using assms False w1 by (auto simp: write_string_def)
    then show ?thesis using p1 by (auto simp: at_errors)
  next
    case pos: False
    then have out1: "out1 = s" using p1 by (auto simp: at_errors)
    obtain err2 out2 ws2 where w2: "write_char c ws1 = Returned (err2, out2, ws2)"
      using assms False w1 pos by (cases "write_char c ws1") (auto simp: write_string_def Let_def)
    have "ch' = ch\<lparr>wire := wire ch @ (s @ out2), writes := ws2\<rparr>"
        "err = (if err2 < 0 then AT_ERROR_GENERIC else 0)"
      using assms False w1 w2 pos out1 by (auto simp: write_string_def Let_def split: if_splits)
    moreover have "\<exists>t. s @ [c] = (s @ out2) @ t" "err2 = 0 \<longrightarrow> out2 = [c]" "err2 = 0 \<or> err2 < 0"
      using write_char_prefix [OF w2] by (auto simp: at_errors)
    ultimately show ?thesis by (metis AT_ERROR_GENERIC_def less_irrefl neg_equal_0_iff_equal zero_neq_one)
  qed
qed

section \<open>Collecting a response\<close>

text \<open>
  What a command of each type makes of the lines that arrive before its final response: the
  intermediate responses it keeps and the lines it passes on as unsolicited.
\<close>

fun drop_first :: "('a \<Rightarrow> bool) \<Rightarrow> 'a list \<Rightarrow> 'a list" where
  "drop_first m [] = []"
| "drop_first m (l # ls) = (if m l then ls else l # drop_first m ls)"

definition starts_with_digit :: "string \<Rightarrow> bool" where
  "starts_with_digit l \<longleftrightarrow> l \<noteq> [] \<and> isdigit (hd l)"

definition has_prefix :: "string option \<Rightarrow> string \<Rightarrow> bool" where
  "has_prefix p l \<longleftrightarrow> (\<exists>t. l = the p @ t)"

definition intermediates_of :: "ATCommandType \<Rightarrow> string option \<Rightarrow> string list \<Rightarrow> string list" where
  "intermediates_of ty p ls =
     (case ty of NO_RESULT \<Rightarrow> []
      | NUMERIC \<Rightarrow> take 1 (filter starts_with_digit ls)
      | SINGLELINE \<Rightarrow> take 1 (filter (has_prefix p) ls)
      | MULTILINE \<Rightarrow> filter (has_prefix p) ls)"

definition unsolicited_of :: "ATCommandType \<Rightarrow> string option \<Rightarrow> string list \<Rightarrow> string list" where
  "unsolicited_of ty p ls =
     (case ty of NO_RESULT \<Rightarrow> ls
      | NUMERIC \<Rightarrow> drop_first starts_with_digit ls
      | SINGLELINE \<Rightarrow> drop_first (has_prefix p) ls
      | MULTILINE \<Rightarrow> filter (\<lambda>l. \<not> has_prefix p l) ls)"

definition prefix_given :: "ATCommandType \<Rightarrow> string option \<Rightarrow> bool" where
  "prefix_given ty p \<longleftrightarrow> (ty = SINGLELINE \<or> ty = MULTILINE \<longrightarrow> p \<noteq> None)"

text \<open>The channel after the lines \<open>ls\<close> have arrived for a command begun in \<open>ch0\<close>.\<close>

definition collected :: "channel \<Rightarrow> string list \<Rightarrow> channel" where
  "collected ch0 ls = ch0\<lparr>
     sp_response := Some \<lparr>success = 0, finalResponse = None,
       p_intermediates = rev (intermediates_of (s_type ch0) (s_responsePrefix ch0) ls)\<rparr>,
     unsolicited := unsolicited ch0 @
       (if s_unsolHandler ch0 then unsolicited_of (s_type ch0) (s_responsePrefix ch0) ls else [])\<rparr>"

lemma digit_fold: "(l \<noteq> [] \<and> isdigit (hd l)) = starts_with_digit l"
  by (simp add: starts_with_digit_def)

lemma drop_first_snoc:
  "drop_first m (ls @ [l]) = (if filter m ls = [] \<and> m l then ls else drop_first m ls @ [l])"
  by (induction ls) auto

lemma drop_first_none: "filter m ls = [] \<Longrightarrow> drop_first m ls = ls"
  by (induction ls) auto

lemma take1_Nil: "take (Suc 0) xs = [] \<longleftrightarrow> xs = []"
  by (cases xs) auto

lemma take1_snoc: "take (Suc 0) (xs @ [x]) = (if xs = [] then [x] else take (Suc 0) xs)"
  by (cases xs) auto

lemma strStartsWith_has_prefix: "strStartsWith l p \<longleftrightarrow> has_prefix (Some p) l"
  by (simp add: strStartsWith_iff has_prefix_def)

lemma process_collected:
  assumes "prefix_given (s_type ch0) (s_responsePrefix ch0)" "s_smsPDU ch0 = None" "\<not> isFinalResponse l"
  shows "processLine l (collected ch0 ls) = Returned (collected ch0 (ls @ [l]))"
proof (cases "s_type ch0")
  case NO_RESULT
  then show ?thesis using assms
    by (simp add: processLine_def collected_def isFinalResponse_def intermediates_of_def
        unsolicited_of_def handleUnsolicited_def)
next
  case NUMERIC
  let ?m = starts_with_digit
  have "processLine l (collected ch0 ls) =
      (if filter ?m ls = [] \<and> ?m l then Returned (addIntermediate l (collected ch0 ls))
       else Returned (handleUnsolicited l (collected ch0 ls)))"
    using NUMERIC assms(2,3)
    by (simp add: processLine_def collected_def isFinalResponse_def intermediates_of_def digit_fold take1_Nil
        del: filter_empty_conv)
  then show ?thesis using NUMERIC
    by (cases "filter ?m ls = []"; cases "?m l")
      (simp_all add: collected_def intermediates_of_def unsolicited_of_def handleUnsolicited_def
        addIntermediate_def drop_first_snoc drop_first_none take1_snoc del: filter_empty_conv take_append)
next
  case SINGLELINE
  then obtain p where p: "s_responsePrefix ch0 = Some p" using assms(1) by (auto simp: prefix_given_def)
  let ?m = "has_prefix (Some p)"
  have "processLine l (collected ch0 ls) =
      (if filter ?m ls = [] \<and> ?m l then Returned (addIntermediate l (collected ch0 ls))
       else Returned (handleUnsolicited l (collected ch0 ls)))"
    using SINGLELINE p assms(2,3)
    by (simp add: processLine_def collected_def isFinalResponse_def intermediates_of_def
        strStartsWith_has_prefix take1_Nil del: filter_empty_conv)
  then show ?thesis using SINGLELINE p
    by (cases "filter ?m ls = []"; cases "?m l")
      (simp_all add: collected_def intermediates_of_def unsolicited_of_def handleUnsolicited_def
        addIntermediate_def drop_first_snoc drop_first_none take1_snoc del: filter_empty_conv take_append)
next
  case MULTILINE
  then obtain p where p: "s_responsePrefix ch0 = Some p" using assms(1) by (auto simp: prefix_given_def)
  then show ?thesis using assms MULTILINE
    by (cases "has_prefix (Some p) l")
      (simp_all add: processLine_def collected_def isFinalResponse_def intermediates_of_def
        unsolicited_of_def handleUnsolicited_def addIntermediate_def strStartsWith_has_prefix)
qed

text \<open>A line after the other.\<close>

fun process_lines :: "string list \<Rightarrow> channel \<Rightarrow> channel call" where
  "process_lines [] ch = Returned ch"
| "process_lines (l # ls) ch = call_bind (processLine l ch) (process_lines ls)"

definition completed :: "channel \<Rightarrow> string list \<Rightarrow> string \<Rightarrow> channel" where
  "completed ch0 ls f = (collected ch0 ls)\<lparr>
     sp_response := Some \<lparr>success = (if isFinalResponseSuccess f then 1 else 0), finalResponse = Some f,
       p_intermediates = rev (intermediates_of (s_type ch0) (s_responsePrefix ch0) ls)\<rparr>\<rparr>"

lemma process_final:
  "isFinalResponse f \<Longrightarrow> processLine f (collected ch0 ls) = Returned (completed ch0 ls f)"
  by (auto simp: isFinalResponse_def processLine_def collected_def completed_def set_success_def
      handleFinalResponse_def)

lemma process_collected_lines:
  assumes "prefix_given (s_type ch0) (s_responsePrefix ch0)" "s_smsPDU ch0 = None"
    and "list_all (\<lambda>l. \<not> isFinalResponse l) new" "isFinalResponse f"
  shows "process_lines (new @ [f]) (collected ch0 ls) = Returned (completed ch0 (ls @ new) f)"
  using assms(3)
proof (induction new arbitrary: ls)
  case Nil
  then show ?case using process_final [OF assms(4)] by simp
next
  case (Cons l new)
  then show ?case using process_collected [OF assms(1,2), of l ls] by simp
qed

lemma reverse_loop_rev: "reverse_loop cur acc = rev cur @ acc"
  by (induction cur arbitrary: acc) auto

section \<open>Properties\<close>

text \<open>
  What \<^verbatim>\<open>processLine\<close> makes of a response: after a command without a PDU has been begun on an open
  channel (a prefix is given for the types that look for one), processing lines that are not final
  responses and then a final response ends the condition of the wait, and the end of the call
  hands out that final response, its success flag and, in the order they arrived, the intermediate
  lines of the command's type (none, the first that starts with a digit, the first with the
  prefix, all with the prefix); every other line has gone to the handler of unsolicited responses,
  in order, and no command is pending any more.  (The reader thread of this repository does not
  call \<^verbatim>\<open>processLine\<close>; see \<open>no_command_succeeds\<close> below.)\<close>

theorem response_collected:
  assumes "send_begin cmd ty p None ch = Returned (0, ch0)" "prefix_given ty p" "s_readerClosed ch = 0"
    and "list_all (\<lambda>l. \<not> isFinalResponse l) ls" "isFinalResponse f"
  shows "\<exists>ch1 ch'. still_waiting ch0 = Some True \<and> process_lines (ls @ [f]) ch0 = Returned ch1 \<and>
    still_waiting ch1 = Some False \<and>
    send_finish True ch1 = (0, Some \<lparr>success = (if isFinalResponseSuccess f then 1 else 0), finalResponse = Some f,
        p_intermediates = intermediates_of ty p ls\<rparr>, ch') \<and>
    sp_response ch' = None \<and>
    unsolicited ch' = unsolicited ch @ (if s_unsolHandler ch then unsolicited_of ty p ls else [])"
proof -
  obtain ch1 where w: "writeline cmd ch = Returned (0, ch1)" and n: "sp_response ch = None"
      and ch0: "ch0 = ch1\<lparr>s_type := ty, s_responsePrefix := p, s_smsPDU := None, sp_response := Some at_response_new\<rparr>"
  proof -
    have n: "sp_response ch = None" using assms(1) by (auto simp: send_begin_def at_errors split: if_splits)
    obtain e ch1 where w: "writeline cmd ch = Returned (e, ch1)"
      using assms(1) n by (cases "writeline cmd ch") (auto simp: send_begin_def)
    have "\<not> e < 0" using assms(1) n w by (auto simp: send_begin_def)
    moreover have "e = 0 \<or> e < 0" using write_string_effect [OF w [unfolded writeline_def]] by (auto simp: at_errors)
    ultimately show thesis using that w n assms(1) by (auto simp: send_begin_def)
  qed
  from write_string_effect [OF w [unfolded writeline_def]] obtain out ws where
    ch1: "ch1 = ch\<lparr>wire := wire ch @ out, writes := ws\<rparr>" by auto
  have f0: "s_type ch0 = ty" "s_responsePrefix ch0 = p" "s_smsPDU ch0 = None" "s_readerClosed ch0 = 0"
      "unsolicited ch0 = unsolicited ch" "s_unsolHandler ch0 = s_unsolHandler ch"
    using ch1 assms(3) by (simp_all add: ch0)
  have c: "ch0 = collected ch0 []"
    by (simp add: collected_def ch0 at_response_new_def intermediates_of_def unsolicited_of_def split: ATCommandType.split)
  have p: "process_lines (ls @ [f]) ch0 = Returned (completed ch0 ls f)"
    using process_collected_lines [of ch0 ls f "[]"] assms(2,4,5) f0 c by simp
  have "still_waiting ch0 = Some True" "still_waiting (completed ch0 ls f) = Some False"
    using f0(4) ch0 by (simp_all add: still_waiting_def completed_def at_response_new_def)
  moreover obtain ch' where "send_finish True (completed ch0 ls f) =
        (0, Some \<lparr>success = (if isFinalResponseSuccess f then 1 else 0), finalResponse = Some f, p_intermediates = intermediates_of ty p ls\<rparr>, ch')"
      "sp_response ch' = None" "unsolicited ch' = unsolicited ch @ (if s_unsolHandler ch then unsolicited_of ty p ls else [])"
    using f0 by (simp add: send_finish_def clearPendingCommand_def completed_def collected_def reverseIntermediates_def reverse_loop_rev)
  ultimately show ?thesis using p by blast
qed

definition sample_channel :: channel where
  "sample_channel = \<lparr>s_fd = 3, s_unsolHandler = True, s_type = NO_RESULT, s_responsePrefix = None,
     s_smsPDU = None, sp_response = None, s_onTimeout = False, s_onReaderClosed = True,
     s_readerClosed = 0, unsolicited = [], wire = [], writes = [W 2, W_EINTR, W 9, W 0, W 1],
     timeouts = 0, closes = 0\<rparr>"

lemma sample_write:
  "writeline ''AT+CSQ'' sample_channel =
     Returned (0, sample_channel\<lparr>wire := ''AT+CSQ'' @ [CHR 0x0D], writes := []\<rparr>)"
  by (simp add: writeline_def write_string_def sample_channel_def eval_nat_numeral)

lemma sample_begin:
  "send_begin ''AT+CSQ'' ty p pdu sample_channel = Returned (0, sample_channel\<lparr>wire := ''AT+CSQ'' @ [CHR 0x0D], writes := [],
     s_type := ty, s_responsePrefix := p, s_smsPDU := pdu, sp_response := Some at_response_new\<rparr>)"
proof -
  have "sp_response sample_channel = None" by (simp add: sample_channel_def)
  then show ?thesis by (simp add: send_begin_def sample_write)
qed

lemma sample_final: "isFinalResponseSuccess ''OK''" "isFinalResponse ''OK''" "\<not> isFinalResponse ''RING''" "\<not> isFinalResponse ''+CSQ: 7,99''"
  by (simp_all add: isFinalResponse_def isFinalResponseSuccess_def isFinalResponseError_def
      s_finalResponsesSuccess_def s_finalResponsesError_def)

theorem response_collected_witness:
  "\<exists>ch0 ch1 ch'. send_begin ''AT+CSQ'' SINGLELINE (Some ''+CSQ:'') None sample_channel = Returned (0, ch0) \<and>
    process_lines [''RING'', ''+CSQ: 7,99'', ''OK''] ch0 = Returned ch1 \<and>
    send_finish True ch1 = (0, Some \<lparr>success = 1, finalResponse = Some ''OK'', p_intermediates = [''+CSQ: 7,99'']\<rparr>, ch') \<and>
    unsolicited ch' = [''RING'']"
proof -
  have pg: "prefix_given SINGLELINE (Some ''+CSQ:'')" by (simp add: prefix_given_def)
  have q: "list_all (\<lambda>l. \<not> isFinalResponse l) [''RING'', ''+CSQ: 7,99'']" using sample_final by simp
  have s: "s_readerClosed sample_channel = 0" "s_unsolHandler sample_channel" "unsolicited sample_channel = []"
    by (simp_all add: sample_channel_def)
  have i: "intermediates_of SINGLELINE (Some ''+CSQ:'') [''RING'', ''+CSQ: 7,99''] = [''+CSQ: 7,99'']"
      "unsolicited_of SINGLELINE (Some ''+CSQ:'') [''RING'', ''+CSQ: 7,99''] = [''RING'']"
    by (simp_all add: intermediates_of_def unsolicited_of_def has_prefix_def)
  from response_collected [OF sample_begin pg s(1) q sample_final(2)] sample_final(1) s(2,3) sample_begin show ?thesis
    unfolding i by auto
qed

section \<open>One client: the state machine\<close>

text \<open>
  The channel used by one command thread: \<open>w\<close> is whether that thread is inside the wait of
  \<open>at_send_command_full_nolock\<close>.  Commands of every type are sent, with or without a prefix.
  Lines may be handed to \<^verbatim>\<open>processLine\<close>, the reader can end and the channel be closed at any time.
\<close>

inductive at_step :: "channel \<times> bool \<Rightarrow> channel \<times> bool \<Rightarrow> bool" where
  step_open: "at_open fd h created ch = (err, ch') \<Longrightarrow> at_step (ch, False) (ch', False)"
| step_begin: "send_begin cmd ty p pdu ch = Returned (err, ch') \<Longrightarrow> at_step (ch, False) (ch', err = 0)"
| step_line: "processLine l ch = Returned ch' \<Longrightarrow> at_step (ch, w) (ch', w)"
| step_reader_closed: "at_step (ch, w) (onReaderClosed ch, w)"
| step_close: "at_step (ch, w) (at_close ch, w)"
| step_timeout: "at_step (ch, True) (clearPendingCommand ch, False)"
| step_finish: "still_waiting ch = Some False \<Longrightarrow> send_finish want ch = (err, out, ch') \<Longrightarrow>
    at_step (ch, True) (ch', False)"
| step_handlers: "at_step (ch, w) (at_set_on_timeout b (at_set_on_reader_closed b' ch), w)"

definition at_inv :: "channel \<times> bool \<Rightarrow> bool" where
  "at_inv = (\<lambda>(ch, w).
     (sp_response ch \<noteq> None) = w \<and> (\<not> w \<longrightarrow> s_responsePrefix ch = None \<and> s_smsPDU ch = None))"

lemma processLine_frame:
  assumes "processLine l ch = Returned ch'"
  shows "(sp_response ch' \<noteq> None) = (sp_response ch \<noteq> None) \<and> s_type ch' = s_type ch \<and>
    s_responsePrefix ch' = s_responsePrefix ch \<and> (s_smsPDU ch = None \<longrightarrow> s_smsPDU ch' = None)"
proof (cases "sp_response ch")
  case None
  then show ?thesis using assms by (auto simp: processLine_def handleUnsolicited_def)
next
  case (Some r)
  have z: "write_string s c ch = Returned (e, ch2) \<Longrightarrow> sp_response ch2 = sp_response ch \<and>
      s_type ch2 = s_type ch \<and> s_responsePrefix ch2 = s_responsePrefix ch" for s c e ch2
    using write_string_effect by fastforce
  show ?thesis
  proof (cases "s_smsPDU ch \<noteq> None \<and> l = ''> '' \<and> \<not> isFinalResponse l")
    case True
    then obtain e ch2 where "writeCtrlZ (the (s_smsPDU ch)) ch = Returned (e, ch2)"
        "ch' = ch2\<lparr>s_smsPDU := None\<rparr>"
      using assms Some by (cases "writeCtrlZ (the (s_smsPDU ch)) ch")
        (auto simp: processLine_def isFinalResponse_def)
    then show ?thesis using z by (auto simp: writeCtrlZ_def)
  next
    case False
    then have "ch' = handleUnsolicited l ch \<or> ch' = addIntermediate l ch \<or>
        (\<exists>n. ch' = handleFinalResponse l (set_success n ch))"
      using assms Some
      by (cases "s_type ch") (auto simp: processLine_def isFinalResponse_def split: if_splits option.splits)
    then show ?thesis
      by (elim disjE exE) (simp_all add: handleUnsolicited_def addIntermediate_def set_success_def
          handleFinalResponse_def)
  qed
qed

lemma send_begin_cases:
  assumes "send_begin cmd ty p pdu ch = Returned (err, ch')"
  shows "err = 0 \<and> sp_response ch' = Some at_response_new \<and> s_type ch' = ty \<and> s_responsePrefix ch' = p \<and>
      s_readerClosed ch' = s_readerClosed ch \<or>
    err < 0 \<and> sp_response ch' = None \<and> s_responsePrefix ch' = None \<and> s_smsPDU ch' = None \<and>
      s_readerClosed ch' = s_readerClosed ch"
proof (cases "sp_response ch")
  case None
  then obtain e ch2 where w: "writeline cmd ch = Returned (e, ch2)"
    using assms by (cases "writeline cmd ch") (auto simp: send_begin_def)
  have "e = 0 \<or> e < 0" "s_readerClosed ch2 = s_readerClosed ch"
    using write_string_effect [OF w [unfolded writeline_def]] by (auto simp: at_errors)
  then show ?thesis using assms None w
    by (auto simp: send_begin_def clearPendingCommand_def split: if_splits)
qed (use assms in \<open>auto simp: send_begin_def clearPendingCommand_def at_errors\<close>)

lemma at_step_inv: "at_step s s' \<Longrightarrow> at_inv s \<Longrightarrow> at_inv s'"
proof (induction rule: at_step.induct)
  case (step_begin cmd ty p pdu ch err ch')
  then show ?case using send_begin_cases [OF step_begin(1)] by (auto simp: at_inv_def)
next
  case (step_line l ch ch' w)
  then show ?case using processLine_frame [OF step_line(1)] by (auto simp: at_inv_def)
qed (auto simp: at_inv_def at_open_def Let_def onReaderClosed_def at_close_def clearPendingCommand_def
    send_finish_def at_set_on_timeout_def at_set_on_reader_closed_def split: if_splits)

lemma write_string_no_crash: "write_string s c ch \<noteq> Crashed"
proof -
  have "write_all s ws \<noteq> Crashed" for ws
  proof (induction s ws rule: write_all.induct)
    case (5 c s k ws)
    then show ?case by (cases "write_all (drop k (c # s)) ws") auto
  qed auto
  moreover have "write_char c ws \<noteq> Crashed" for ws
    by (induction c ws rule: write_char.induct) auto
  ultimately show ?thesis
    by (cases "write_all s (writes ch)"; cases "write_char c (snd (snd (case write_all s (writes ch) of Returned r \<Rightarrow> r)))")
      (auto simp: write_string_def Let_def split: if_splits)
qed

lemma processLine_crash:
  assumes "processLine l ch = Crashed"
  shows "sp_response ch \<noteq> None \<and> \<not> prefix_given (s_type ch) (s_responsePrefix ch) \<and> \<not> isFinalResponse l"
proof (cases "writeCtrlZ (the (s_smsPDU ch)) ch")
  case Crashed
  then show ?thesis using write_string_no_crash by (simp add: writeCtrlZ_def)
qed (use assms in \<open>auto simp: processLine_def prefix_given_def isFinalResponse_def
    split: option.splits ATCommandType.splits if_splits\<close>)

text \<open>
  C27. One command thread is safe: in every state reachable from an opened channel, by commands of
  any type with or without a prefix, lines handed to \<^verbatim>\<open>processLine\<close>, timeouts and the end of the
  reader in any order, the waiting thread finds its response, outside a command no response,
  prefix or PDU is left behind, and processing a line dereferences a null pointer only while a
  command is pending that looks for a prefix and was given none, which the code does not check.\<close>

theorem single_client_safe:
  assumes "at_step\<^sup>*\<^sup>* (snd (at_open fd h created ch0), False) (ch, w)"
  shows "(still_waiting ch \<noteq> None) = w \<and>
    (\<not> w \<longrightarrow> sp_response ch = None \<and> s_responsePrefix ch = None \<and> s_smsPDU ch = None) \<and>
    (processLine l ch = Crashed \<longrightarrow> w \<and> s_type ch \<in> {SINGLELINE, MULTILINE} \<and> s_responsePrefix ch = None)"
proof -
  have "at_inv (snd (at_open fd h created ch0), False)" by (simp add: at_inv_def at_open_def Let_def)
  with assms have "at_inv (ch, w)"
    by (induction rule: rtranclp_induct) (auto intro: at_step_inv)
  then show ?thesis using processLine_crash [of l ch] by (auto simp: at_inv_def still_waiting_def prefix_given_def)
qed

theorem single_client_safe_witness:
  "\<exists>ch. at_step\<^sup>*\<^sup>* (snd (at_open 3 True True sample_channel), False) (ch, True) \<and>
    s_type ch = NO_RESULT \<and> still_waiting ch = Some True \<and> unsolicited ch = [''RING''] \<and> processLine ''OK'' ch \<noteq> Crashed"
proof -
  define ch0 where "ch0 = sample_channel\<lparr>wire := ''AT+CSQ'' @ [CHR 0x0D], writes := [], s_type := NO_RESULT, s_responsePrefix := None,
    s_smsPDU := None, sp_response := Some at_response_new\<rparr>"
  define ch where "ch = ch0\<lparr>unsolicited := [''RING'']\<rparr>"
  have o: "snd (at_open 3 True True sample_channel) = sample_channel" by (simp add: at_open_def sample_channel_def)
  have b: "at_step (sample_channel, False) (ch0, True)"
    using at_step.step_begin [OF sample_begin [of NO_RESULT None None]] by (simp add: ch0_def)
  have "processLine ''RING'' ch0 = Returned ch"
    using sample_final(3) by (simp add: processLine_def isFinalResponse_def handleUnsolicited_def ch_def ch0_def)
      (simp add: sample_channel_def)
  then have "at_step (ch0, True) (ch, True)" by (rule at_step.step_line)
  with b have r: "at_step\<^sup>*\<^sup>* (snd (at_open 3 True True sample_channel), False) (ch, True)"
    unfolding o by (meson rtranclp.simps)
  have "s_type ch = NO_RESULT" "still_waiting ch = Some True" "unsolicited ch = [''RING'']"
    by (simp_all add: ch_def ch0_def still_waiting_def at_response_new_def sample_channel_def)
  then show ?thesis using single_client_safe [OF r, of "''OK''"] r by auto
qed

section \<open>Two clients\<close>

text \<open>
  C36. A second command thread destroys the first: while a command waits for its response, a
  command sent by another thread (which the wait allows, having released the lock) is refused
  with \<open>AT_ERROR_COMMAND_PENDING\<close>, but clears the pending command on its way out; the first
  thread, when it wakes up, dereferences the null response.\<close>

theorem second_client_crashes:
  assumes "writeline cmd ch = Returned (0, ch1)" "sp_response ch = None" "s_readerClosed ch = 0"
  shows "at_send_command_full False cmd ty p pdu t want (Signalled [Send cmd2 ty2 p2 pdu2] # wakes) ch = Crashed \<and>
    (sp_response ch' \<noteq> None \<longrightarrow> (\<exists>ch2. send_begin cmd2 ty2 p2 pdu2 ch' =
       Returned (AT_ERROR_COMMAND_PENDING, ch2) \<and> sp_response ch2 = None))"
proof -
  obtain ch0 where b: "send_begin cmd ty p pdu ch = Returned (0, ch0)"
    using assms by (simp add: send_begin_def)
  then have r: "sp_response ch0 = Some at_response_new" "s_readerClosed ch0 = 0"
    using send_begin_cases [OF b] assms(3) by auto
  have "send_begin cmd2 ty2 p2 pdu2 ch0 = Returned (AT_ERROR_COMMAND_PENDING, clearPendingCommand ch0)"
    using r by (simp add: send_begin_def)
  then have "wait_loop t (Signalled [Send cmd2 ty2 p2 pdu2] # wakes) ch0 = Crashed"
    using r by (cases wakes) (simp_all add: still_waiting_def at_response_new_def clearPendingCommand_def)
  then show ?thesis
    by (simp add: at_send_command_full_def at_send_command_full_nolock_def b)
      (simp add: send_begin_def clearPendingCommand_def)
qed

theorem second_client_crashes_witness:
  "at_send_command_full False ''AT+CSQ'' NO_RESULT None None 0 True
     [Signalled [Send ''AT'' NO_RESULT None None]] sample_channel = Crashed"
proof -
  have "sp_response sample_channel = None" "s_readerClosed sample_channel = 0"
    by (simp_all add: sample_channel_def)
  then show ?thesis using second_client_crashes [OF sample_write] by blast
qed

section \<open>The reader thread of this repository\<close>

lemma run_actions_unanswered:
  "run_actions as ch = Returned ch' \<Longrightarrow> 0 \<le> s_readerClosed ch \<Longrightarrow> \<forall>r. sp_response ch = Some r \<longrightarrow> finalResponse r = None \<Longrightarrow>
     0 \<le> s_readerClosed ch' \<and> (\<forall>r. sp_response ch' = Some r \<longrightarrow> finalResponse r = None)"
proof (induction as arbitrary: ch)
  case (Cons a as)
  obtain ch1 where s: "step_action a ch = Returned ch1" "run_actions as ch1 = Returned ch'"
    using Cons.prems(1) by (cases "step_action a ch") auto
  have "0 \<le> s_readerClosed ch1 \<and> (\<forall>r. sp_response ch1 = Some r \<longrightarrow> finalResponse r = None)"
  proof (cases a)
    case (Send cmd ty p pdu)
    then obtain e where b: "send_begin cmd ty p pdu ch = Returned (e, ch1)"
      using s(1) by (cases "send_begin cmd ty p pdu ch") auto
    show ?thesis using send_begin_cases [OF b] Cons.prems(2) by (auto simp: at_response_new_def)
  qed (use s(1) Cons.prems(2,3) in \<open>auto simp: onReaderClosed_def at_close_def at_open_def clearPendingCommand_def Let_def split: if_splits\<close>)
  then show ?case using Cons.IH [OF s(2)] by blast
qed simp

lemma wait_unanswered:
  "wait_loop t ws ch = Returned (err, ch', ws') \<Longrightarrow> 0 \<le> s_readerClosed ch \<Longrightarrow> \<forall>r. sp_response ch = Some r \<longrightarrow> finalResponse r = None \<Longrightarrow>
   0 \<le> s_readerClosed ch' \<and> (err = AT_ERROR_TIMEOUT \<and> t \<noteq> 0 \<or> err = 0 \<and> s_readerClosed ch' \<noteq> 0)"
proof (induction ws arbitrary: ch)
  case Nil
  then show ?case by (auto simp: still_waiting_def split: option.splits bool.splits)
next
  case (Cons w ws)
  show ?case
  proof (cases "still_waiting ch = Some True")
    case True
    then obtain ch1 where r: "run_actions (wake_actions w) ch = Returned ch1"
      using Cons.prems(1) by (cases "run_actions (wake_actions w) ch") auto
    note i = run_actions_unanswered [OF r Cons.prems(2,3)]
    show ?thesis using Cons.prems(1) True r i Cons.IH [of ch1] by (auto split: if_splits)
  next
    case False
    then show ?thesis using Cons.prems by (auto simp: still_waiting_def split: option.splits bool.splits)
  qed
qed

lemma nolock_fails:
  assumes "0 \<le> s_readerClosed ch"
    and "at_send_command_full_nolock cmd ty p pdu t want wakes ch = Returned (err, out, ch', wakes')"
  shows "err < 0 \<and> 0 \<le> s_readerClosed ch'"
proof -
  obtain err1 ch1 where b: "send_begin cmd ty p pdu ch = Returned (err1, ch1)"
    using assms(2) by (cases "send_begin cmd ty p pdu ch") (auto simp: at_send_command_full_nolock_def)
  note c = send_begin_cases [OF b]
  show ?thesis
  proof (cases "err1 < 0")
    case True
    then show ?thesis using assms b c by (auto simp: at_send_command_full_nolock_def)
  next
    case False
    then have n: "\<forall>r. sp_response ch1 = Some r \<longrightarrow> finalResponse r = None" "0 \<le> s_readerClosed ch1"
      using c assms(1) by (auto simp: at_response_new_def)
    obtain err2 ch2 ws2 where w: "wait_loop t wakes ch1 = Returned (err2, ch2, ws2)"
      using assms(2) b False by (cases "wait_loop t wakes ch1") (auto simp: at_send_command_full_nolock_def)
    show ?thesis using wait_unanswered [OF w n(2,1)] assms(2) b False w
      by (auto simp: at_send_command_full_nolock_def send_finish_def clearPendingCommand_def at_errors)
  qed
qed

lemma handshake_fails:
  "0 \<le> s_readerClosed ch \<Longrightarrow> handshake_loop (Suc n) e wakes ch = Returned (err, ch', wakes') \<Longrightarrow> err < 0"
proof (induction n arbitrary: e wakes ch)
  case 0
  let ?c = "at_send_command_full_nolock ''ATE0Q0V1'' NO_RESULT None None HANDSHAKE_TIMEOUT_MSEC False wakes ch"
  obtain err1 out1 ch1 ws1 where c: "?c = Returned (err1, out1, ch1, ws1)"
    using 0 by (cases ?c) auto
  then show ?case using 0 nolock_fails [OF "0"(1) c] by auto
next
  case (Suc n)
  let ?c = "at_send_command_full_nolock ''ATE0Q0V1'' NO_RESULT None None HANDSHAKE_TIMEOUT_MSEC False wakes ch"
  obtain err1 out1 ch1 ws1 where c: "?c = Returned (err1, out1, ch1, ws1)"
    using Suc.prems by (cases ?c) auto
  note r = nolock_fails [OF Suc.prems(1) c]
  have "handshake_loop (Suc n) err1 ws1 ch1 = Returned (err, ch', wakes')"
    using Suc.prems(2) c r by auto
  then show ?case using Suc.IH r by blast
qed

lemma readerLoop_effect:
  "readerLoop n rd ev ch = Returned ch' \<Longrightarrow> ch' = onReaderClosed ch"
  by (induction n arbitrary: rd ev) (auto split: prod.splits call.splits bool.splits)

text \<open>
  C13. With the reader thread of this repository no command ever succeeds.  The calls that process a
  line are commented out in \<open>readerLoop\<close>: whatever the modem sends, all the thread ever does to the
  channel is to mark it closed.  Whatever the reader and other command threads do while a command
  waits, a call that returns, of a command or of the handshake, returns an error.\<close>

theorem no_command_succeeds:
  assumes "0 \<le> s_readerClosed ch"
  shows "(at_send_command_full in_reader cmd ty p pdu t want wakes ch = Returned (err, out, ch', wakes') \<longrightarrow> err < 0) \<and>
    (at_handshake in_reader wakes ch = Returned (err, ch', wakes') \<longrightarrow> err < 0) \<and>
    (readerLoop n rd ev ch = Returned ch' \<longrightarrow> step_action Reader_closed ch = Returned ch')"
proof (intro conjI impI)
  assume r: "at_send_command_full in_reader cmd ty p pdu t want wakes ch = Returned (err, out, ch', wakes')"
  show "err < 0"
  proof (cases in_reader)
    case True
    then show ?thesis using r by (simp add: at_send_command_full_def at_errors)
  next
    case False
    let ?c = "at_send_command_full_nolock cmd ty p pdu t want wakes ch"
    obtain err1 out1 ch1 ws1 where c: "?c = Returned (err1, out1, ch1, ws1)"
      using r False by (cases ?c) (auto simp: at_send_command_full_def)
    then have "err1 = err" using r False by (simp add: at_send_command_full_def)
    then show ?thesis using nolock_fails [OF assms c] by simp
  qed
next
  assume "at_handshake in_reader wakes ch = Returned (err, ch', wakes')"
  then show "err < 0"
    using handshake_fails [OF assms, of 7 0 wakes err ch' wakes']
    by (cases in_reader) (auto simp: at_handshake_def at_errors HANDSHAKE_RETRY_COUNT_def eval_nat_numeral)
next
  assume "readerLoop n rd ev ch = Returned ch'"
  then show "step_action Reader_closed ch = Returned ch'" using readerLoop_effect by simp
qed

theorem no_command_succeeds_witness:
  "\<exists>err out ch'. at_send_command_full False ''AT+CSQ'' NO_RESULT None None 0 True [Signalled [Reader_closed]] sample_channel =
     Returned (err, out, ch', []) \<and> err < 0"
proof -
  have w: "0 \<le> s_readerClosed sample_channel" by (simp add: sample_channel_def)
  have "\<exists>err out ch'. at_send_command_full False ''AT+CSQ'' NO_RESULT None None 0 True [Signalled [Reader_closed]] sample_channel =
     Returned (err, out, ch', [])"
    by (simp add: at_send_command_full_def at_send_command_full_nolock_def sample_begin)
      (simp add: still_waiting_def at_response_new_def onReaderClosed_def send_finish_def sample_channel_def)
  then show ?thesis using no_command_succeeds [OF w] by blast
qed

text \<open>
  The error code of a response: 0 for a successful response; for an unsuccessful one, the
  number after \<^verbatim>\<open>+CME ERROR:\<close> in its final line, for every 32-bit number; and -1 when the final
  line is missing or of another kind.\<close>

theorem cme_error_code:
  assumes "- (2 ^ 31) \<le> n" "n < 2 ^ 31"
  shows "at_get_cme_error \<lparr>success = 0, finalResponse = Some (''+CME ERROR: '' @ show_int n), p_intermediates = ls\<rparr> = n \<and>
    (success r > 0 \<longrightarrow> at_get_cme_error r = CME_SUCCESS) \<and>
    (success r \<le> 0 \<and> (\<forall>t. finalResponse r \<noteq> Some (''+CME ERROR:'' @ t)) \<longrightarrow> at_get_cme_error r = CME_ERROR_NON_CME)"
proof -
  have "strStartsWith (''+CME ERROR: '' @ show_int n) ''+CME ERROR:''" by simp
  moreover have "at_tok_start (Some (''+CME ERROR: '' @ show_int n)) = (0, Some ('' '' @ show_int n))"
    by (simp add: at_tok_start_def)
  moreover have "at_tok_nextint (Some ('' '' @ show_int n)) = (0, Some n, None)"
  proof -
    have "nextTok (Some ('' '' @ show_int n)) = (Some (show_int n), None)"
      using nextTok_blanks [of "'' ''" "show_int n"] nextTok_int(2) by (simp add: isspace_def)
    moreover have "show_int n \<noteq> []" using show_int_start [of n] by auto
    ultimately show ?thesis using assms
      by (simp add: at_tok_nextint_def at_tok_nextint_base_def strtol_show_int)
  qed
  ultimately show ?thesis
    by (auto simp: at_get_cme_error_def strStartsWith_iff split: option.splits)
qed

theorem cme_error_code_witness:
  "at_get_cme_error \<lparr>success = 0, finalResponse = Some (''+CME ERROR: '' @ show_int 10), p_intermediates = []\<rparr> = 10"
  using cme_error_code [of 10 "[]"] by simp

end
