(* ===== verification/Mtdutils.thy ===== *)
theory Mtdutils
  imports Applypatch_Files
begin

text \<open>
  Access to raw flash partitions, \<^verbatim>\<open>mtdutils/mtdutils.c\<close>: the table of partitions read from \<open>/proc/mtd\<close>, reading and
  writing of a part that skip bad blocks, and erasing.  The system calls and the ioctls of the flash driver are parameters,
  a record of functions on an abstract state.  A loop that need not end (with an erase size of 0) is a partial function.
\<close>

section \<open>Model\<close>

record MtdPartition =
  device_index :: int
  mp_size :: nat
  mp_erase_size :: nat
  mp_name :: "string option"

record MtdReadContext =
  rc_partition :: MtdPartition
  rc_buffer :: "byte list"
  rc_consumed :: nat
  rc_fd :: nat

text \<open>The buffer holds what has been stored; the length of the list of bad blocks is \<^verbatim>\<open>bad_block_count\<close>.\<close>

record MtdWriteContext =
  wc_partition :: MtdPartition
  wc_buffer :: "byte list"
  wc_fd :: nat
  bad_block_offsets :: "int list"
  bad_block_alloc :: nat

record MtdState =
  ms_partitions :: "MtdPartition list option"
  ms_partition_count :: int

text \<open>
  The system: \<open>md_proc\<close> is the result of reading \<open>/proc/mtd\<close>, \<open>md_open\<close> opens for writing when its first argument is true,
  \<open>md_eccstats\<close> gives the number of failed corrections, \<open>md_tell\<close> and \<open>md_lseek\<close> are the two uses of \<^verbatim>\<open>lseek\<close>.
\<close>

record 's mtdops =
  md_malloc :: "nat \<Rightarrow> bool"
  md_proc :: "'s \<Rightarrow> string option"
  md_open :: "bool \<Rightarrow> string \<Rightarrow> 's \<Rightarrow> nat option \<times> 's"
  md_close :: "nat \<Rightarrow> 's \<Rightarrow> bool \<times> 's"
  md_eccstats :: "nat \<Rightarrow> 's \<Rightarrow> nat option \<times> 's"
  md_tell :: "nat \<Rightarrow> 's \<Rightarrow> int"
  md_lseek :: "nat \<Rightarrow> int \<Rightarrow> 's \<Rightarrow> int \<times> 's"
  md_read :: "nat \<Rightarrow> nat \<Rightarrow> 's \<Rightarrow> int \<times> byte list \<times> 's"
  md_write :: "nat \<Rightarrow> byte list \<Rightarrow> 's \<Rightarrow> int \<times> 's"
  md_badblock :: "nat \<Rightarrow> int \<Rightarrow> 's \<Rightarrow> int \<times> 's"
  md_erase :: "nat \<Rightarrow> int \<Rightarrow> nat \<Rightarrow> 's \<Rightarrow> int \<times> 's"
  md_info :: "nat \<Rightarrow> 's \<Rightarrow> (nat \<times> nat \<times> nat) option"

subsection \<open>The table of partitions\<close>

text \<open>The four conversions of \<open>mtd%d: %x %x "%63[^"]\<close>, or \<open>None\<close> when fewer succeed.\<close>

definition sscanf_mtd :: "string \<Rightarrow> (int \<times> nat \<times> nat \<times> string) option" where
  "sscanf_mtd buf =
     (if take 3 buf \<noteq> ''mtd'' \<or> parse_num 10 (drop 3 buf) = None then None
      else let (mtdnum, r1) = strtol (drop 3 buf) 10 in
      if take 1 r1 \<noteq> '':'' \<or> parse_num 16 (drop 1 r1) = None then None
      else let (mtdsize, r2) = strtoul (drop 1 r1) 16 in
      if parse_num 16 r2 = None then None
      else let (mtderasesize, r3) = strtoul r2 16; r4 = dropWhile isspace r3 in
      if take 1 r4 \<noteq> [CHR 34] then None
      else let mtdname = take 63 (takeWhile (\<lambda>c. c \<noteq> CHR 34) (drop 1 r4)) in
      if mtdname = [] then None else Some (mtdnum, unat mtdsize, unat mtderasesize, mtdname))"

definition eat_line :: "string \<Rightarrow> string" where
  "eat_line buf = drop 1 (dropWhile (\<lambda>c. c \<noteq> CHR 10) buf)"

lemma eat_line_shorter: "buf \<noteq> [] \<Longrightarrow> length (eat_line buf) < length buf"
proof -
  assume "buf \<noteq> []"
  then have "length buf > 0" by simp
  then show ?thesis unfolding eat_line_def length_drop using length_dropWhile_le [of "\<lambda>c. c \<noteq> CHR 10" buf] by linarith
qed

text \<open>The table and the count, \<open>None\<close> when a name cannot be copied.  An index outside the table is a \<open>Fault\<close>.\<close>

function scan_lines :: "(nat \<Rightarrow> bool) \<Rightarrow> string \<Rightarrow> MtdPartition list \<Rightarrow> int \<Rightarrow> (MtdPartition list \<times> int option) outcome" where
  "scan_lines malloc buf parts cnt =
     (if buf = [] then Done (parts, Some cnt)
      else case sscanf_mtd buf of
             None \<Rightarrow> scan_lines malloc (eat_line buf) parts cnt
           | Some (mtdnum, mtdsize, mtderasesize, mtdname) \<Rightarrow>
               if mtdnum < 0 \<or> int (length parts) \<le> mtdnum then Fault
               else let ok = malloc (length mtdname + 1);
                        parts = parts[nat mtdnum := \<lparr>device_index = mtdnum, mp_size = mtdsize, mp_erase_size = mtderasesize,
                                                     mp_name = (if ok then Some mtdname else None)\<rparr>] in
               if \<not> ok then Done (parts, None) else scan_lines malloc (eat_line buf) parts (cnt + 1))"
  by pat_completeness auto
termination
  by (relation "measure (\<lambda>(malloc, buf, parts, cnt). length buf)") (auto simp: eat_line_shorter)

declare scan_lines.simps [simp del]

definition NUM_PARTITIONS :: nat where "NUM_PARTITIONS = 32"

definition mtd_scan_partitions :: "'s mtdops \<Rightarrow> MtdState \<Rightarrow> 's \<Rightarrow> (int \<times> MtdState) outcome" where
  "mtd_scan_partitions ops st s =
     (case (case ms_partitions st of
              Some ps \<Rightarrow> Some ps
            | None \<Rightarrow> if md_malloc ops (NUM_PARTITIONS * 16)
                      then Some (replicate NUM_PARTITIONS \<lparr>device_index = 0, mp_size = 0, mp_erase_size = 0, mp_name = None\<rparr>) else None) of
        None \<Rightarrow> Done (-1, st)
      | Some ps \<Rightarrow>
          let ps = map (\<lambda>p. p\<lparr>device_index := -1, mp_name := None\<rparr>) ps in
          (case md_proc ops s of
             None \<Rightarrow> Done (-1, \<lparr>ms_partitions = Some ps, ms_partition_count = -1\<rparr>)
           | Some buf \<Rightarrow>
               (case scan_lines (md_malloc ops) (take 2047 buf) ps 0 of
                  Fault \<Rightarrow> Fault
                | Done (ps, None) \<Rightarrow> Done (-1, \<lparr>ms_partitions = Some ps, ms_partition_count = -1\<rparr>)
                | Done (ps, Some cnt) \<Rightarrow> Done (cnt, \<lparr>ms_partitions = Some ps, ms_partition_count = cnt\<rparr>))))"

definition mtd_find_partition_by_name :: "MtdState \<Rightarrow> string \<Rightarrow> MtdPartition option" where
  "mtd_find_partition_by_name st name =
     (case ms_partitions st of
        None \<Rightarrow> None
      | Some ps \<Rightarrow> List.find (\<lambda>p. device_index p \<ge> 0 \<and> mp_name p = Some name) ps)"

definition mtddevname :: "MtdPartition \<Rightarrow> string" where
  "mtddevname p = ''/dev/mtd/mtd'' @ show_int (device_index p)"

text \<open>The sizes of the partition, the erase block and the write block.\<close>

definition mtd_partition_info :: "'s mtdops \<Rightarrow> MtdPartition \<Rightarrow> 's \<Rightarrow> (nat \<times> nat \<times> nat) option \<times> 's" where
  "mtd_partition_info ops part s =
     (case md_open ops False (mtddevname part) s of
        (None, s) \<Rightarrow> (None, s)
      | (Some fd, s) \<Rightarrow> (md_info ops fd s, snd (md_close ops fd s)))"

subsection \<open>Reading\<close>

text \<open>When the device cannot be opened, the context is freed before its buffer is, which reads the freed context.\<close>

definition mtd_read_partition :: "'s mtdops \<Rightarrow> MtdPartition \<Rightarrow> 's \<Rightarrow> (MtdReadContext option \<times> 's) outcome" where
  "mtd_read_partition ops part s =
     (if \<not> md_malloc ops 16 then Done (None, s)
      else if \<not> md_malloc ops (mp_erase_size part) then Done (None, s)
      else case md_open ops False (mtddevname part) s of
             (None, s) \<Rightarrow> Fault
           | (Some fd, s) \<Rightarrow>
               Done (Some \<lparr>rc_partition = part, rc_buffer = [], rc_consumed = mp_erase_size part, rc_fd = fd\<rparr>, s))"

datatype attempt = Got "byte list" | Stop_error | Skip_block

text \<open>One block: its data, an error that ends the search, or a reason to try the next block.\<close>

definition try_block :: "'s mtdops \<Rightarrow> MtdPartition \<Rightarrow> nat \<Rightarrow> nat \<Rightarrow> int \<Rightarrow> 's \<Rightarrow> attempt \<times> 's" where
  "try_block ops part fd before pos s =
     (let (at, s) = md_lseek ops fd pos s in
      if at \<noteq> pos then (Skip_block, s)
      else let (n, bytes, s) = md_read ops fd (mp_erase_size part) s in
      if n \<noteq> s32 (int (mp_erase_size part)) then (Skip_block, s)
      else case md_eccstats ops fd s of
             (None, s) \<Rightarrow> (Stop_error, s)
           | (Some after, s) \<Rightarrow>
               if after \<noteq> before then (Skip_block, s)
               else let (mgbb, s) = md_badblock ops fd pos s in
               if mgbb \<noteq> 0 then (Skip_block, s)
               else if \<exists>b \<in> set bytes. b \<noteq> 0 then (Got bytes, s) else (Skip_block, s))"

partial_function (option) read_block_loop :: "'s mtdops \<Rightarrow> MtdPartition \<Rightarrow> nat \<Rightarrow> nat \<Rightarrow> int \<Rightarrow> 's \<Rightarrow> (byte list option \<times> 's) option" where
  [code]: "read_block_loop ops part fd before pos s =
     (if pos + s32 (int (mp_erase_size part)) \<le> s32 (int (mp_size part))
      then (case try_block ops part fd before pos s of
              (Got bytes, s) \<Rightarrow> Some (Some bytes, s)
            | (Stop_error, s) \<Rightarrow> Some (None, s)
            | (Skip_block, s) \<Rightarrow> read_block_loop ops part fd before (pos + int (mp_erase_size part)) s)
      else Some (None, s))"

definition read_block :: "'s mtdops \<Rightarrow> MtdPartition \<Rightarrow> nat \<Rightarrow> 's \<Rightarrow> (byte list option \<times> 's) option" where
  "read_block ops part fd s =
     (case md_eccstats ops fd s of
        (None, s) \<Rightarrow> Some (None, s)
      | (Some before, s) \<Rightarrow> read_block_loop ops part fd before (md_tell ops fd s) s)"

text \<open>Complete blocks go directly into the caller's buffer.\<close>

partial_function (option) read_direct :: "'s mtdops \<Rightarrow> MtdReadContext \<Rightarrow> nat \<Rightarrow> byte list \<Rightarrow> 's \<Rightarrow> (bool \<times> byte list \<times> 's) option" where
  [code]: "read_direct ops ctx len got s =
     (if rc_consumed ctx = mp_erase_size (rc_partition ctx) \<and> len - length got \<ge> mp_erase_size (rc_partition ctx)
      then Option.bind (read_block ops (rc_partition ctx) (rc_fd ctx) s) (\<lambda>(r, s).
             case r of
               None \<Rightarrow> Some (False, got, s)
             | Some bytes \<Rightarrow> read_direct ops ctx len (got @ bytes) s)
      else Some (True, got, s))"

definition copy_out :: "MtdReadContext \<Rightarrow> nat \<Rightarrow> byte list \<Rightarrow> MtdReadContext \<times> byte list" where
  "copy_out ctx len got =
     (if rc_consumed ctx < mp_erase_size (rc_partition ctx)
      then let avail = mp_erase_size (rc_partition ctx) - rc_consumed ctx;
               cp = (if len - length got < avail then len - length got else avail)
           in (ctx\<lparr>rc_consumed := rc_consumed ctx + cp\<rparr>, got @ take cp (drop (rc_consumed ctx) (rc_buffer ctx)))
      else (ctx, got))"

partial_function (option) read_data_loop ::
  "'s mtdops \<Rightarrow> MtdReadContext \<Rightarrow> nat \<Rightarrow> byte list \<Rightarrow> 's \<Rightarrow> (int \<times> byte list \<times> MtdReadContext \<times> 's) option" where
  [code]: "read_data_loop ops ctx len got s =
     (if int (length got) < s32 (int len)
      then (case copy_out ctx len got of (ctx, got) \<Rightarrow>
             Option.bind (read_direct ops ctx len got s) (\<lambda>(ok, got, s).
               if \<not> ok then Some (-1, got, ctx, s)
               else if length got \<ge> len then Some (int (length got), got, ctx, s)
               else if rc_consumed ctx = mp_erase_size (rc_partition ctx) \<and> int (length got) < s32 (int len)
               then Option.bind (read_block ops (rc_partition ctx) (rc_fd ctx) s) (\<lambda>(r, s).
                      case r of
                        None \<Rightarrow> Some (-1, got, ctx, s)
                      | Some bytes \<Rightarrow> read_data_loop ops (ctx\<lparr>rc_buffer := bytes, rc_consumed := 0\<rparr>) len got s)
               else read_data_loop ops ctx len got s))
      else Some (int (length got), got, ctx, s))"

definition mtd_read_data :: "'s mtdops \<Rightarrow> MtdReadContext \<Rightarrow> nat \<Rightarrow> 's \<Rightarrow> (int \<times> byte list \<times> MtdReadContext \<times> 's) option" where
  "mtd_read_data ops ctx len s = read_data_loop ops ctx len [] s"

definition mtd_read_close :: "'s mtdops \<Rightarrow> MtdReadContext \<Rightarrow> 's \<Rightarrow> 's" where
  "mtd_read_close ops ctx s = snd (md_close ops (rc_fd ctx) s)"

subsection \<open>Writing\<close>

definition mtd_write_partition :: "'s mtdops \<Rightarrow> MtdPartition \<Rightarrow> 's \<Rightarrow> MtdWriteContext option \<times> 's" where
  "mtd_write_partition ops part s =
     (if \<not> md_malloc ops 28 then (None, s)
      else if \<not> md_malloc ops (mp_erase_size part) then (None, s)
      else case md_open ops True (mtddevname part) s of
             (None, s) \<Rightarrow> (None, s)
           | (Some fd, s) \<Rightarrow>
               (Some \<lparr>wc_partition = part, wc_buffer = [], wc_fd = fd, bad_block_offsets = [], bad_block_alloc = 0\<rparr>, s))"

definition add_bad_block_offset :: "MtdWriteContext \<Rightarrow> int \<Rightarrow> MtdWriteContext" where
  "add_bad_block_offset ctx pos =
     (let ctx = (if length (bad_block_offsets ctx) + 1 > bad_block_alloc ctx
                 then ctx\<lparr>bad_block_alloc := bad_block_alloc ctx * 2 + 1\<rparr> else ctx)
      in ctx\<lparr>bad_block_offsets := bad_block_offsets ctx @ [pos]\<rparr>)"

text \<open>Erase, write and read back one block; an error of the write itself is only reported.\<close>

definition try_write :: "'s mtdops \<Rightarrow> nat \<Rightarrow> nat \<Rightarrow> int \<Rightarrow> byte list \<Rightarrow> 's \<Rightarrow> bool \<times> 's" where
  "try_write ops fd sz pos bytes s =
     (let (e, s) = md_erase ops fd pos sz s in
      if e < 0 then (False, s)
      else let (at, s) = md_lseek ops fd pos s;
               s = (if at \<noteq> pos then s else snd (md_write ops fd bytes s));
               (at, s) = md_lseek ops fd pos s in
      if at \<noteq> pos then (False, s)
      else let (n, verify, s) = md_read ops fd sz s in
      if n \<noteq> s32 (int sz) then (False, s) else (bytes = verify, s))"

definition write_attempts :: "'s mtdops \<Rightarrow> nat \<Rightarrow> nat \<Rightarrow> int \<Rightarrow> byte list \<Rightarrow> 's \<Rightarrow> bool \<times> 's" where
  "write_attempts ops fd sz pos bytes s =
     (let (ok, s) = try_write ops fd sz pos bytes s in if ok then (True, s) else try_write ops fd sz pos bytes s)"

partial_function (option) write_block_loop :: "'s mtdops \<Rightarrow> MtdWriteContext \<Rightarrow> byte list \<Rightarrow> int \<Rightarrow> 's \<Rightarrow> (int \<times> MtdWriteContext \<times> 's) option" where
  [code]: "write_block_loop ops ctx bytes pos s =
     (let sz = mp_erase_size (wc_partition ctx); fd = wc_fd ctx in
      if pos + s32 (int sz) \<le> s32 (int (mp_size (wc_partition ctx)))
      then (case md_badblock ops fd pos s of (bad, s) \<Rightarrow>
             if bad > 0 then write_block_loop ops (add_bad_block_offset ctx pos) bytes (pos + int sz) s
             else (case write_attempts ops fd sz pos bytes s of (ok, s) \<Rightarrow>
                    if ok then Some (0, ctx, s)
                    else write_block_loop ops (add_bad_block_offset ctx pos) bytes (pos + int sz) (snd (md_erase ops fd pos sz s))))
      else Some (-1, ctx, s))"

definition write_block :: "'s mtdops \<Rightarrow> MtdWriteContext \<Rightarrow> byte list \<Rightarrow> 's \<Rightarrow> (int \<times> MtdWriteContext \<times> 's) option" where
  "write_block ops ctx bytes s =
     (let pos = md_tell ops (wc_fd ctx) s in if pos = -1 then Some (1, ctx, s) else write_block_loop ops ctx bytes pos s)"

text \<open>Complete blocks are written directly from the caller's data.\<close>

partial_function (option) write_direct :: "'s mtdops \<Rightarrow> MtdWriteContext \<Rightarrow> byte list \<Rightarrow> nat \<Rightarrow> 's \<Rightarrow> (bool \<times> nat \<times> MtdWriteContext \<times> 's) option" where
  [code]: "write_direct ops ctx bytes wrote s =
     (if wc_buffer ctx = [] \<and> length bytes - wrote \<ge> mp_erase_size (wc_partition ctx)
      then Option.bind (write_block ops ctx (take (mp_erase_size (wc_partition ctx)) (drop wrote bytes)) s) (\<lambda>(r, ctx, s).
             if r \<noteq> 0 then Some (False, wrote, ctx, s)
             else write_direct ops ctx bytes (wrote + mp_erase_size (wc_partition ctx)) s)
      else Some (True, wrote, ctx, s))"

definition coalesce :: "MtdWriteContext \<Rightarrow> byte list \<Rightarrow> nat \<Rightarrow> MtdWriteContext \<times> nat" where
  "coalesce ctx bytes wrote =
     (if wc_buffer ctx \<noteq> [] \<or> length bytes - wrote < mp_erase_size (wc_partition ctx)
      then let avail = mp_erase_size (wc_partition ctx) - length (wc_buffer ctx);
               cp = (if length bytes - wrote < avail then length bytes - wrote else avail)
           in (ctx\<lparr>wc_buffer := wc_buffer ctx @ take cp (drop wrote bytes)\<rparr>, wrote + cp)
      else (ctx, wrote))"

text \<open>A block that has been accumulated is written.\<close>

definition flush_full :: "'s mtdops \<Rightarrow> MtdWriteContext \<Rightarrow> 's \<Rightarrow> (bool \<times> MtdWriteContext \<times> 's) option" where
  "flush_full ops ctx s =
     (if length (wc_buffer ctx) = mp_erase_size (wc_partition ctx)
      then Option.bind (write_block ops ctx (wc_buffer ctx) s) (\<lambda>(r, ctx, s).
             if r \<noteq> 0 then Some (False, ctx, s) else Some (True, ctx\<lparr>wc_buffer := []\<rparr>, s))
      else Some (True, ctx, s))"

partial_function (option) write_data_loop :: "'s mtdops \<Rightarrow> MtdWriteContext \<Rightarrow> byte list \<Rightarrow> nat \<Rightarrow> 's \<Rightarrow> (int \<times> MtdWriteContext \<times> 's) option" where
  [code]: "write_data_loop ops ctx bytes wrote s =
     (if wrote < length bytes
      then (case coalesce ctx bytes wrote of (ctx, wrote) \<Rightarrow>
             Option.bind (flush_full ops ctx s) (\<lambda>(ok, ctx, s).
               if \<not> ok then Some (-1, ctx, s)
               else Option.bind (write_direct ops ctx bytes wrote s) (\<lambda>(ok, wrote, ctx, s).
                 if \<not> ok then Some (-1, ctx, s) else write_data_loop ops ctx bytes wrote s)))
      else Some (int wrote, ctx, s))"

definition mtd_write_data :: "'s mtdops \<Rightarrow> MtdWriteContext \<Rightarrow> byte list \<Rightarrow> 's \<Rightarrow> (int \<times> MtdWriteContext \<times> 's) option" where
  "mtd_write_data ops ctx bytes s = write_data_loop ops ctx bytes 0 s"

text \<open>What is pending is padded with zeros and written.\<close>

definition flush_padded :: "'s mtdops \<Rightarrow> MtdWriteContext \<Rightarrow> 's \<Rightarrow> (bool \<times> MtdWriteContext \<times> 's) option" where
  "flush_padded ops ctx s =
     (if wc_buffer ctx \<noteq> []
      then Option.bind (write_block ops ctx (wc_buffer ctx @ replicate (mp_erase_size (wc_partition ctx) - length (wc_buffer ctx)) 0) s)
             (\<lambda>(r, ctx, s). if r \<noteq> 0 then Some (False, ctx, s) else Some (True, ctx\<lparr>wc_buffer := []\<rparr>, s))
      else Some (True, ctx, s))"

fun erase_loop :: "'s mtdops \<Rightarrow> nat \<Rightarrow> nat \<Rightarrow> nat \<Rightarrow> int \<Rightarrow> 's \<Rightarrow> int \<times> 's" where
  "erase_loop ops fd sz 0 pos s = (pos, s)"
| "erase_loop ops fd sz (Suc blocks) pos s =
     (let (bad, s) = md_badblock ops fd pos s;
          s = (if bad > 0 then s else snd (md_erase ops fd pos sz s))
      in erase_loop ops fd sz blocks (pos + int sz) s)"

definition mtd_erase_blocks :: "'s mtdops \<Rightarrow> MtdWriteContext \<Rightarrow> int \<Rightarrow> 's \<Rightarrow> (int \<times> MtdWriteContext \<times> 's) outcome option" where
  "mtd_erase_blocks ops ctx blocks s =
     Option.bind (flush_padded ops ctx s) (\<lambda>(ok, ctx, s).
       if \<not> ok then Some (Done (-1, ctx, s))
       else let pos = md_tell ops (wc_fd ctx) s; sz = mp_erase_size (wc_partition ctx) in
       if pos = -1 then Some (Done (pos, ctx, s))
       else if sz = 0 then Some Fault
       else let total = s32 (((int (mp_size (wc_partition ctx)) - pos) mod 2 ^ 32) div int sz);
                blocks = (if blocks < 0 then total else blocks) in
       if blocks > total then Some (Done (-1, ctx, s))
       else let (pos, s) = erase_loop ops (wc_fd ctx) sz (nat blocks) pos s in Some (Done (pos, ctx, s)))"

definition mtd_write_close :: "'s mtdops \<Rightarrow> MtdWriteContext \<Rightarrow> 's \<Rightarrow> (int \<times> 's) outcome option" where
  "mtd_write_close ops ctx s =
     bind_run (mtd_erase_blocks ops ctx 0 s) (\<lambda>(pos, ctx, s).
       let (ok, s) = md_close ops (wc_fd ctx) s in Some (Done (if pos = -1 \<or> \<not> ok then -1 else 0, s)))"

text \<open>The first block at or after a position that is not among the bad ones.\<close>

fun find_start :: "nat \<Rightarrow> int list \<Rightarrow> int \<Rightarrow> int" where
  "find_start sz [] pos = pos"
| "find_start sz (b # bs) pos = (if b = pos then find_start sz bs (pos + int sz) else if b > pos then pos else find_start sz bs pos)"

definition mtd_find_write_start :: "MtdWriteContext \<Rightarrow> int \<Rightarrow> int" where
  "mtd_find_write_start ctx pos = find_start (mp_erase_size (wc_partition ctx)) (bad_block_offsets ctx) pos"

end
