(* ===== verification/Mtd_Flash.thy ===== *)
theory Mtd_Flash
  imports Mtdutils
begin

text \<open>
  Writing to flash: the documented behaviour of the driver, in three strengths, and what \<^verbatim>\<open>mtd_write_data\<close>, \<^verbatim>\<open>mtd_write_close\<close> and
  \<^verbatim>\<open>mtd_find_write_start\<close> of \<^verbatim>\<open>mtdutils/mtdutils.c\<close> guarantee on such a driver.  A simulated device is an instance.
\<close>

section \<open>The documented behaviour of the flash driver\<close>

text \<open>
  \<open>flash\<close> is the contents of the device behind a descriptor and \<open>at\<close> its position.  What a call reports is true: a
  successful read gives the contents, a seek sets the position; erasing and writing change nothing outside their range.  They may fail,
  and leave anything within their range.
\<close>

definition block :: "nat \<Rightarrow> byte list \<Rightarrow> nat \<Rightarrow> byte list" where
  "block sz f k = take sz (drop (k * sz) f)"

definition same_outside :: "int \<Rightarrow> nat \<Rightarrow> byte list \<Rightarrow> byte list \<Rightarrow> bool" where
  "same_outside p n f f' \<longleftrightarrow> length f' = length f \<and> (\<forall>i < length f. int i < p \<or> p + int n \<le> int i \<longrightarrow> f' ! i = f ! i)"

definition honest_flash :: "'s mtdops \<Rightarrow> nat \<Rightarrow> ('s \<Rightarrow> byte list) \<Rightarrow> ('s \<Rightarrow> int) \<Rightarrow> bool" where
  "honest_flash ops fd flash at \<longleftrightarrow>
     (\<forall>s. md_tell ops fd s = at s) \<and>
     (\<forall>p s q s'. md_lseek ops fd p s = (q, s') \<longrightarrow> flash s' = flash s \<and> (q = p \<longrightarrow> at s' = p)) \<and>
     (\<forall>n s k bs s'. md_read ops fd n s = (k, bs, s') \<longrightarrow>
        flash s' = flash s \<and> (k = int n \<and> 0 \<le> at s \<longrightarrow> length bs = n \<and> bs = take n (drop (nat (at s)) (flash s)) \<and> at s' = at s + int n)) \<and>
     (\<forall>s r s'. md_eccstats ops fd s = (r, s') \<longrightarrow> flash s' = flash s \<and> at s' = at s) \<and>
     (\<forall>p s b s'. md_badblock ops fd p s = (b, s') \<longrightarrow> flash s' = flash s \<and> at s' = at s) \<and>
     (\<forall>p n s r s'. md_erase ops fd p n s = (r, s') \<longrightarrow> same_outside p n (flash s) (flash s') \<and> at s' = at s) \<and>
     (\<forall>bs s k s'. md_write ops fd bs s = (k, s') \<longrightarrow> same_outside (at s) (length bs) (flash s) (flash s')) \<and>
     (\<forall>s ok s'. md_close ops fd s = (ok, s') \<longrightarrow> flash s' = flash s)"

text \<open>A device that reads without errors, whose counter of failed corrections stays the same, and that always says the same about bad blocks.\<close>

definition ecc_steady :: "'s mtdops \<Rightarrow> nat \<Rightarrow> ('s \<Rightarrow> nat) \<Rightarrow> bool" where
  "ecc_steady ops fd failed \<longleftrightarrow>
     (\<forall>s. fst (md_eccstats ops fd s) = Some (failed s) \<and> failed (snd (md_eccstats ops fd s)) = failed s) \<and>
     (\<forall>p s. failed (snd (md_lseek ops fd p s)) = failed s \<and> failed (snd (md_badblock ops fd p s)) = failed s) \<and>
     (\<forall>n s. failed (snd (snd (md_read ops fd n s))) = failed s)"

definition clean_flash :: "'s mtdops \<Rightarrow> nat \<Rightarrow> ('s \<Rightarrow> byte list) \<Rightarrow> ('s \<Rightarrow> int) \<Rightarrow> (int \<Rightarrow> bool) \<Rightarrow> bool" where
  "clean_flash ops fd flash at bad \<longleftrightarrow>
     honest_flash ops fd flash at \<and>
     (\<forall>p s. 0 \<le> p \<and> p \<le> int (length (flash s)) \<longrightarrow> fst (md_lseek ops fd p s) = p) \<and>
     (\<forall>n s. 0 \<le> at s \<and> at s + int n \<le> int (length (flash s)) \<longrightarrow> fst (md_read ops fd n s) = int n) \<and>
     (\<exists>failed. ecc_steady ops fd failed) \<and>
     (\<forall>p s. fst (md_badblock ops fd p s) = (if bad p then 1 else 0))"

text \<open>Moreover erasing a good block succeeds and leaves all ones, and writing to erased bytes stores the data.\<close>

definition reliable_flash :: "'s mtdops \<Rightarrow> nat \<Rightarrow> ('s \<Rightarrow> byte list) \<Rightarrow> ('s \<Rightarrow> int) \<Rightarrow> (int \<Rightarrow> bool) \<Rightarrow> bool" where
  "reliable_flash ops fd flash at bad \<longleftrightarrow>
     clean_flash ops fd flash at bad \<and>
     (\<forall>p n s. 0 \<le> p \<and> p + int n \<le> int (length (flash s)) \<and> \<not> bad p \<longrightarrow>
        0 \<le> fst (md_erase ops fd p n s) \<and> take n (drop (nat p) (flash (snd (md_erase ops fd p n s)))) = replicate n 255) \<and>
     (\<forall>bs s. 0 \<le> at s \<and> at s + int (length bs) \<le> int (length (flash s)) \<and>
        take (length bs) (drop (nat (at s)) (flash s)) = replicate (length bs) 255 \<longrightarrow>
        take (length bs) (drop (nat (at s)) (flash (snd (md_write ops fd bs s)))) = bs)"

lemma honest_rules:
  assumes "honest_flash ops fd flash at"
  shows "md_tell ops fd s = at s"
    "md_lseek ops fd p s = (q, s') \<Longrightarrow> flash s' = flash s" "md_lseek ops fd p s = (p, s') \<Longrightarrow> at s' = p"
    "md_read ops fd n s = (k, bs, s') \<Longrightarrow> flash s' = flash s"
    "md_read ops fd n s = (int n, bs, s') \<Longrightarrow> 0 \<le> at s \<Longrightarrow> length bs = n \<and> bs = take n (drop (nat (at s)) (flash s)) \<and> at s' = at s + int n"
    "md_eccstats ops fd s = (cs, s') \<Longrightarrow> flash s' = flash s \<and> at s' = at s"
    "md_badblock ops fd p s = (b, s') \<Longrightarrow> flash s' = flash s \<and> at s' = at s"
    "md_erase ops fd p n s = (e, s') \<Longrightarrow> same_outside p n (flash s) (flash s') \<and> at s' = at s"
    "md_write ops fd bs s = (w, s') \<Longrightarrow> same_outside (at s) (length bs) (flash s) (flash s')"
    "md_close ops fd s = (ok, s') \<Longrightarrow> flash s' = flash s"
proof -
  note l1 = assms [unfolded honest_flash_def]
  note l2 = l1 [THEN conjunct2]
  note l3 = l2 [THEN conjunct2]
  note l4 = l3 [THEN conjunct2]
  note l5 = l4 [THEN conjunct2]
  note l6 = l5 [THEN conjunct2]
  note l7 = l6 [THEN conjunct2]
  show "md_tell ops fd s = at s" using l1 [THEN conjunct1] by blast
  show "md_lseek ops fd p s = (q, s') \<Longrightarrow> flash s' = flash s" "md_lseek ops fd p s = (p, s') \<Longrightarrow> at s' = p" using l2 [THEN conjunct1] by blast+
  show "md_read ops fd n s = (k, bs, s') \<Longrightarrow> flash s' = flash s"
    "md_read ops fd n s = (int n, bs, s') \<Longrightarrow> 0 \<le> at s \<Longrightarrow> length bs = n \<and> bs = take n (drop (nat (at s)) (flash s)) \<and> at s' = at s + int n"
    using l3 [THEN conjunct1, rule_format, of n s] by blast+
  show "md_eccstats ops fd s = (cs, s') \<Longrightarrow> flash s' = flash s \<and> at s' = at s" using l4 [THEN conjunct1] by blast
  show "md_badblock ops fd p s = (b, s') \<Longrightarrow> flash s' = flash s \<and> at s' = at s" using l5 [THEN conjunct1] by blast
  show "md_erase ops fd p n s = (e, s') \<Longrightarrow> same_outside p n (flash s) (flash s') \<and> at s' = at s" using l6 [THEN conjunct1] by blast
  show "md_write ops fd bs s = (w, s') \<Longrightarrow> same_outside (at s) (length bs) (flash s) (flash s')" using l7 [THEN conjunct1] by blast
  show "md_close ops fd s = (ok, s') \<Longrightarrow> flash s' = flash s" using l7 [THEN conjunct2] by blast
qed

lemma same_outside_refl: "same_outside p n f f"
  by (simp add: same_outside_def)

lemma same_outside_trans: "same_outside p n f g \<Longrightarrow> same_outside p n g h \<Longrightarrow> same_outside p n f h"
  by (simp add: same_outside_def)

lemma same_outside_block: "same_outside (int (k * sz)) sz f f' \<Longrightarrow> j \<noteq> k \<Longrightarrow> block sz f' j = block sz f j"
proof -
  assume a: "same_outside (int (k * sz)) sz f f'" and ne: "j \<noteq> k"
  have "j * sz + i < k * sz \<or> k * sz + sz \<le> j * sz + i" if i: "i < sz" for i
  proof (cases "j < k")
    case True
    then have "Suc j * sz \<le> k * sz" by (intro mult_le_mono1) simp
    then show ?thesis using i by simp
  next
    case False
    then have "Suc k * sz \<le> j * sz" using ne by (intro mult_le_mono1) simp
    then show ?thesis by simp
  qed
  note o = this
  show ?thesis unfolding block_def
  proof (rule nth_equalityI)
    show "length (take sz (drop (j * sz) f')) = length (take sz (drop (j * sz) f))" using a by (simp add: same_outside_def)
  next
    fix i assume "i < length (take sz (drop (j * sz) f'))"
    then have i: "i < sz" "j * sz + i < length f" using a by (auto simp: same_outside_def)
    have "int (j * sz + i) < int (k * sz) \<or> int (k * sz) + int sz \<le> int (j * sz + i)" using o [OF i(1)] by linarith
    then have "f' ! (j * sz + i) = f ! (j * sz + i)" using a i(2) unfolding same_outside_def by blast
    then show "take sz (drop (j * sz) f') ! i = take sz (drop (j * sz) f) ! i" using i a by (simp add: same_outside_def)
  qed
qed

text \<open>A partition whose sizes are small enough for their signed types and fit the device.\<close>

definition part_ok :: "MtdPartition \<Rightarrow> nat \<Rightarrow> bool" where
  "part_ok p n \<longleftrightarrow> 0 < mp_erase_size p \<and> mp_erase_size p < 2 ^ 31 \<and> mp_size p < 2 ^ 31 \<and> mp_size p = n"

lemma part_ok_s32: "part_ok p n \<Longrightarrow> s32 (int (mp_erase_size p)) = int (mp_erase_size p)" "part_ok p n \<Longrightarrow> s32 (int (mp_size p)) = int n"
  by (auto simp: part_ok_def intro!: s32_small)

section \<open>What is written is on the flash\<close>

lemma try_write_spec:
  assumes h: "honest_flash ops fd flash at" and run: "try_write ops fd sz (int (k * sz)) bytes s = (ok, s')"
    and len: "length bytes = sz" and sz: "sz < 2 ^ 31"
  shows "same_outside (int (k * sz)) sz (flash s) (flash s')" "ok \<Longrightarrow> block sz (flash s') k = bytes \<and> at s' = int (k * sz) + int sz"
proof -
  let ?p = "int (k * sz)"
  obtain e s1 where e: "md_erase ops fd ?p sz s = (e, s1)" by (cases "md_erase ops fd ?p sz s")
  obtain q2 s2 where l2: "md_lseek ops fd ?p s1 = (q2, s2)" by (cases "md_lseek ops fd ?p s1")
  obtain w s3 where w: "md_write ops fd bytes s2 = (w, s3)" by (cases "md_write ops fd bytes s2")
  define s4 where "s4 = (if q2 \<noteq> ?p then s2 else s3)"
  obtain q5 s5 where l5: "md_lseek ops fd ?p s4 = (q5, s5)" by (cases "md_lseek ops fd ?p s4")
  obtain n v s6 where r: "md_read ops fd sz s5 = (n, v, s6)" by (cases "md_read ops fd sz s5") auto
  have b: "(if e < 0 then (False, s1) else if q5 \<noteq> ?p then (False, s5) else if n \<noteq> s32 (int sz) then (False, s6) else (bytes = v, s6)) = (ok, s')"
    using run unfolding try_write_def e Let_def prod.case l2 w s4_def [symmetric] snd_conv l5 r by simp
  have z: "s32 (int sz) = int sz" using sz by (intro s32_small) auto
  have o1: "same_outside ?p sz (flash s) (flash s1)" using honest_rules(8) [OF h e] by blast
  have "same_outside ?p sz (flash s1) (flash s4)"
  proof (cases "q2 = ?p")
    case True
    then show ?thesis using honest_rules(9) [OF h w] honest_rules(2,3) [OF h] l2 len by (simp add: s4_def)
  next
    case False
    then show ?thesis using honest_rules(2) [OF h l2] same_outside_refl by (simp add: s4_def)
  qed
  then have o4: "same_outside ?p sz (flash s) (flash s4)" by (rule same_outside_trans [OF o1])
  have f5: "flash s5 = flash s4" and f6: "flash s6 = flash s5" by (rule honest_rules(2) [OF h l5], rule honest_rules(4) [OF h r])
  show "same_outside ?p sz (flash s) (flash s')" using b o1 o4 f5 f6 by (auto split: if_split_asm)
  assume ok
  then have c: "q5 = ?p" "n = int sz" "bytes = v" "s' = s6" using b z by (auto split: if_split_asm)
  have at5: "at s5 = ?p" using honest_rules(3) [OF h] l5 c(1) by simp
  have "v = take sz (drop (nat (at s5)) (flash s5)) \<and> at s6 = at s5 + int sz" using honest_rules(5) [OF h, of sz s5 v s6] r c(2) at5 by simp
  then show "block sz (flash s') k = bytes \<and> at s' = ?p + int sz" using c at5 f6 by (simp add: block_def del: of_nat_mult)
qed

lemma write_attempts_spec:
  assumes h: "honest_flash ops fd flash at" and run: "write_attempts ops fd sz (int (k * sz)) bytes s = (ok, s')"
    and len: "length bytes = sz" and sz: "sz < 2 ^ 31"
  shows "same_outside (int (k * sz)) sz (flash s) (flash s')" "ok \<Longrightarrow> block sz (flash s') k = bytes \<and> at s' = int (k * sz) + int sz"
proof -
  obtain ok1 s1 where a: "try_write ops fd sz (int (k * sz)) bytes s = (ok1, s1)" by (cases "try_write ops fd sz (int (k * sz)) bytes s")
  note b = run [unfolded write_attempts_def a Let_def prod.case]
  note t1 = try_write_spec [OF h a len sz]
  show "same_outside (int (k * sz)) sz (flash s) (flash s')"
    using b t1(1) try_write_spec(1) [OF h _ len sz, of k s1 ok s'] same_outside_trans by (auto split: if_split_asm)
  show "ok \<Longrightarrow> block sz (flash s') k = bytes \<and> at s' = int (k * sz) + int sz"
    using b t1(2) try_write_spec(2) [OF h _ len sz, of k s1 ok s'] by (auto split: if_split_asm)
qed

lemma write_attempts_ok:
  assumes rel: "reliable_flash ops fd flash at bad" and good: "\<not> bad (int (k * sz))" and room: "Suc k * sz \<le> length (flash s)"
    and len: "length bytes = sz" and sz: "sz < 2 ^ 31"
  shows "fst (write_attempts ops fd sz (int (k * sz)) bytes s)"
proof -
  let ?p = "int (k * sz)"
  note cl = rel [unfolded reliable_flash_def, THEN conjunct1] and wr = rel [unfolded reliable_flash_def, THEN conjunct2]
  note h = cl [unfolded clean_flash_def, THEN conjunct1] and cc = cl [unfolded clean_flash_def, THEN conjunct2]
  have r: "0 \<le> ?p \<and> ?p + int sz \<le> int (length (flash s))" using room by (simp only: mult_Suc of_nat_add [symmetric] of_nat_le_iff add.commute) simp
  obtain e s1 where e: "md_erase ops fd ?p sz s = (e, s1)" by (cases "md_erase ops fd ?p sz s")
  have s1: "0 \<le> e" "take sz (drop (k * sz) (flash s1)) = replicate sz 255" "length (flash s1) = length (flash s)"
    using wr [THEN conjunct1, rule_format, of ?p sz s] r good e honest_rules(8) [OF h e] by (auto simp: same_outside_def simp del: of_nat_mult)
  obtain q s2 where l2: "md_lseek ops fd ?p s1 = (q, s2)" by (cases "md_lseek ops fd ?p s1")
  have q: "q = ?p" using cc [THEN conjunct1, rule_format, of ?p s1] l2 r s1(3) by simp
  have s2: "flash s2 = flash s1" "at s2 = ?p" using honest_rules(2,3) [OF h] l2 q by auto
  obtain w s3 where w: "md_write ops fd bytes s2 = (w, s3)" by (cases "md_write ops fd bytes s2")
  have s3: "take sz (drop (k * sz) (flash s3)) = bytes" "length (flash s3) = length (flash s)"
    using wr [THEN conjunct2, rule_format, of s2 bytes] w s2 s1 r len honest_rules(9) [OF h w] by (auto simp: same_outside_def simp del: of_nat_mult)
  obtain q4 s4 where l4: "md_lseek ops fd ?p s3 = (q4, s4)" by (cases "md_lseek ops fd ?p s3")
  have q4: "q4 = ?p" using cc [THEN conjunct1, rule_format, of ?p s3] l4 r s3(2) by simp
  have s4: "flash s4 = flash s3" "at s4 = ?p" using honest_rules(2,3) [OF h] l4 q4 by auto
  obtain n v s5 where rd: "md_read ops fd sz s4 = (n, v, s5)" by (cases "md_read ops fd sz s4") auto
  have n: "n = int sz" using cc [THEN conjunct2, THEN conjunct1, rule_format, of s4 sz] rd r s4 s3(2) by simp
  have v: "v = bytes" using honest_rules(5) [OF h, of sz s4 v s5] rd n s4 s3(1) by (simp del: of_nat_mult)
  have "s32 (int sz) = int sz" using sz by (intro s32_small) auto
  then have "try_write ops fd sz ?p bytes s = (True, s5)" unfolding try_write_def e Let_def prod.case l2 q w snd_conv simp_thms if_False l4 q4 rd n v using s1(1) by simp
  then show ?thesis by (simp add: write_attempts_def)
qed

definition knows :: "'s mtdops \<Rightarrow> nat \<Rightarrow> ('s \<Rightarrow> byte list) \<Rightarrow> ('s \<Rightarrow> int) \<Rightarrow> (int \<Rightarrow> bool) option \<Rightarrow> bool" where
  "knows ops fd flash at bd \<longleftrightarrow> honest_flash ops fd flash at \<and> (\<forall>bad. bd = Some bad \<longrightarrow> reliable_flash ops fd flash at bad)"

definition ctx_same :: "MtdWriteContext \<Rightarrow> MtdWriteContext \<Rightarrow> bool" where
  "ctx_same ctx ctx' \<longleftrightarrow> wc_partition ctx' = wc_partition ctx \<and> wc_fd ctx' = wc_fd ctx \<and> wc_buffer ctx' = wc_buffer ctx"

lemma add_bad_block_offset_simps [simp]:
  "wc_partition (add_bad_block_offset ctx p) = wc_partition ctx" "wc_fd (add_bad_block_offset ctx p) = wc_fd ctx"
  "wc_buffer (add_bad_block_offset ctx p) = wc_buffer ctx"
  "bad_block_offsets (add_bad_block_offset ctx p) = bad_block_offsets ctx @ [p]"
  by (simp_all add: add_bad_block_offset_def Let_def)

text \<open>
  The result of writing one block from block \<open>m\<close> on: it is on the flash in the first block that was not skipped, the skipped ones are
  recorded, and the blocks before are unchanged.  When the device is known to be reliable, \<open>bd\<close> tells its bad blocks, and these are the
  ones that are skipped.
\<close>

definition block_written :: "('s \<Rightarrow> byte list) \<Rightarrow> ('s \<Rightarrow> int) \<Rightarrow> (int \<Rightarrow> bool) option \<Rightarrow> nat \<Rightarrow> byte list \<Rightarrow> nat \<Rightarrow> MtdWriteContext \<Rightarrow> 's \<Rightarrow> int \<Rightarrow> MtdWriteContext \<Rightarrow> 's \<Rightarrow> bool" where
  "block_written flash at bd N bytes m ctx s r ctx' s' \<longleftrightarrow>
     (let sz = mp_erase_size (wc_partition ctx) in
      ctx_same ctx ctx' \<and> (r = 0 \<or> r = -1) \<and> length (flash s') = length (flash s) \<and> (\<forall>j < m. block sz (flash s') j = block sz (flash s) j) \<and>
      (r = 0 \<longrightarrow> (\<exists>m' \<ge> m. bad_block_offsets ctx' = bad_block_offsets ctx @ map (\<lambda>k. int (k * sz)) [m..<m'] \<and>
         at s' = int (Suc m' * sz) \<and> Suc m' * sz \<le> N \<and> block sz (flash s') m' = bytes \<and>
         (\<forall>bad. bd = Some bad \<longrightarrow> (\<forall>k \<in> {m..<m'}. bad (int (k * sz))) \<and> \<not> bad (int (m' * sz))))))"

lemma block_written_skip:
  assumes "block_written flash at bd N bytes (Suc m) (add_bad_block_offset ctx (int (m * mp_erase_size (wc_partition ctx)))) s1 r ctx' s'"
    and "same_outside (int (m * mp_erase_size (wc_partition ctx))) (mp_erase_size (wc_partition ctx)) (flash s) (flash s1)"
    and "\<forall>bad. bd = Some bad \<longrightarrow> bad (int (m * mp_erase_size (wc_partition ctx)))"
  shows "block_written flash at bd N bytes m ctx s r ctx' s'"
proof -
  let ?sz = "mp_erase_size (wc_partition ctx)"
  note w = assms(1) [unfolded block_written_def Let_def add_bad_block_offset_simps]
  have same: "block ?sz (flash s') j = block ?sz (flash s) j" if "j < m" for j
    using w same_outside_block [OF assms(2), of j] that by auto
  have len: "length (flash s') = length (flash s)" using w assms(2) by (auto simp: same_outside_def)
  have ex: "\<exists>m' \<ge> m. bad_block_offsets ctx' = bad_block_offsets ctx @ map (\<lambda>k. int (k * ?sz)) [m..<m'] \<and>
         at s' = int (Suc m' * ?sz) \<and> Suc m' * ?sz \<le> N \<and> block ?sz (flash s') m' = bytes \<and>
         (\<forall>bad. bd = Some bad \<longrightarrow> (\<forall>k \<in> {m..<m'}. bad (int (k * ?sz))) \<and> \<not> bad (int (m' * ?sz)))" if "r = 0"
  proof -
    from w that obtain m' where m': "m' \<ge> Suc m" "bad_block_offsets ctx' = (bad_block_offsets ctx @ [int (m * ?sz)]) @ map (\<lambda>k. int (k * ?sz)) [Suc m..<m']"
      "at s' = int (Suc m' * ?sz)" "Suc m' * ?sz \<le> N" "block ?sz (flash s') m' = bytes"
      "\<forall>bad. bd = Some bad \<longrightarrow> (\<forall>k \<in> {Suc m..<m'}. bad (int (k * ?sz))) \<and> \<not> bad (int (m' * ?sz))" by blast
    have "[m..<m'] = m # [Suc m..<m']" "{m..<m'} = insert m {Suc m..<m'}" using m'(1) by (auto simp: upt_conv_Cons)
    then show ?thesis using m' assms(3) by (intro exI [of _ m']) (auto simp del: of_nat_mult)
  qed
  show ?thesis unfolding block_written_def Let_def using w same len ex by (simp add: ctx_same_def)
qed

lemma write_block_loop_spec:
  assumes "knows ops (wc_fd ctx) flash at bd" "part_ok (wc_partition ctx) N" "length bytes = mp_erase_size (wc_partition ctx)" "length (flash s) = N"
  shows "\<exists>r ctx' s'. write_block_loop ops ctx bytes (int (m * mp_erase_size (wc_partition ctx))) s = Some (r, ctx', s') \<and>
    block_written flash at bd N bytes m ctx s r ctx' s'"
  using assms
proof (induction "N - m" arbitrary: m ctx s rule: less_induct)
  case less
  let ?sz = "mp_erase_size (wc_partition ctx)" and ?fd = "wc_fd ctx"
  let ?ctx = "add_bad_block_offset ctx (int (m * ?sz))"
  note z = part_ok_s32 [OF less.prems(2)] and h = less.prems(1) [unfolded knows_def, THEN conjunct1]
  have sz: "0 < ?sz" "?sz < 2 ^ 31" using less.prems(2) by (auto simp: part_ok_def)
  have p: "int (m * ?sz) + int ?sz = int (Suc m * ?sz)" by simp
  have unf: "write_block_loop ops ctx bytes (int (m * ?sz)) s =
     (if Suc m * ?sz \<le> N
      then (case md_badblock ops ?fd (int (m * ?sz)) s of (bad, s) \<Rightarrow>
             if bad > 0 then write_block_loop ops ?ctx bytes (int (Suc m * ?sz)) s
             else (case write_attempts ops ?fd ?sz (int (m * ?sz)) bytes s of (ok, s) \<Rightarrow>
                    if ok then Some (0, ctx, s)
                    else write_block_loop ops ?ctx bytes (int (Suc m * ?sz)) (snd (md_erase ops ?fd (int (m * ?sz)) ?sz s))))
      else Some (-1, ctx, s))"
    unfolding write_block_loop.simps [of ops ctx] Let_def z p of_nat_le_iff ..
  show ?case
  proof (cases "Suc m * ?sz \<le> N")
    case False
    then have "write_block_loop ops ctx bytes (int (m * ?sz)) s = Some (-1, ctx, s)" unfolding unf by simp
    then show ?thesis by (auto simp: block_written_def ctx_same_def Let_def)
  next
    case True
    have "m < N" using True sz(1) by (cases ?sz) auto
    then have dec: "N - Suc m < N - m" by simp
    obtain bad s1 where b: "md_badblock ops ?fd (int (m * ?sz)) s = (bad, s1)" by (cases "md_badblock ops ?fd (int (m * ?sz)) s")
    have f1: "flash s1 = flash s" using honest_rules(7) [OF h b] by simp
    have next': "\<exists>r ctx' s'. write_block_loop ops ?ctx bytes (int (Suc m * ?sz)) s2 = Some (r, ctx', s') \<and> block_written flash at bd N bytes m ctx s r ctx' s'"
      if o: "same_outside (int (m * ?sz)) ?sz (flash s) (flash s2)" and bb: "\<forall>bad. bd = Some bad \<longrightarrow> bad (int (m * ?sz))" for s2
    proof -
      have "length (flash s2) = N" using o less.prems(4) by (simp add: same_outside_def)
      then show ?thesis
        using less.hyps [OF dec, of ?ctx s2] less.prems(1-3) block_written_skip [where flash = flash and at = at, OF _ o bb] by fastforce
    qed
    have bs: "0 < bad \<longleftrightarrow> bd' (int (m * ?sz))" if "bd = Some bd'" for bd'
    proof -
      have "clean_flash ops ?fd flash at bd'" using less.prems(1) that by (simp add: knows_def reliable_flash_def)
      then have "fst (md_badblock ops ?fd (int (m * ?sz)) s) = (if bd' (int (m * ?sz)) then 1 else 0)" unfolding clean_flash_def by blast
      then show ?thesis unfolding b by simp
    qed
    show ?thesis
    proof (cases "bad > 0")
      case True
      have o1: "same_outside (int (m * ?sz)) ?sz (flash s) (flash s1)" unfolding f1 by (rule same_outside_refl)
      have "\<forall>bad. bd = Some bad \<longrightarrow> bad (int (m * ?sz))" using bs True by blast
      then show ?thesis unfolding unf using \<open>Suc m * ?sz \<le> N\<close> b next' [OF o1] True by (simp del: of_nat_mult mult_Suc)
    next
      case nb: False
      obtain ok s2 where w: "write_attempts ops ?fd ?sz (int (m * ?sz)) bytes s1 = (ok, s2)" by (cases "write_attempts ops ?fd ?sz (int (m * ?sz)) bytes s1")
      note ws = write_attempts_spec [OF h w less.prems(3) sz(2)]
      have okr: "ok" if "bd = Some bd'" for bd'
        using write_attempts_ok [of ops ?fd flash at bd' m ?sz s1 bytes] less.prems(1,3,4) that bs [OF that] nb True sz(2) f1 w
        by (simp add: knows_def del: of_nat_mult mult_Suc)
      obtain e s3 where er: "md_erase ops ?fd (int (m * ?sz)) ?sz s2 = (e, s3)" by (cases "md_erase ops ?fd (int (m * ?sz)) ?sz s2")
      have o3: "same_outside (int (m * ?sz)) ?sz (flash s) (flash s3)"
        using same_outside_trans [OF ws(1)] honest_rules(8) [OF h er] f1 by simp
      note ln = True
      show ?thesis
      proof (cases ok)
        case True
        have "block_written flash at bd N bytes m ctx s 0 ctx s2"
          using ws True f1 same_outside_block [OF ws(1)] ln bs nb
          by (auto simp: block_written_def Let_def ctx_same_def same_outside_def intro!: exI [of _ m])
        then show ?thesis unfolding unf using ln b nb w True by simp
      next
        case False
        then show ?thesis unfolding unf using ln b nb w er next' [OF o3] okr by (auto simp del: of_nat_mult mult_Suc)
      qed
    qed
  qed
qed

text \<open>What has been written: the blocks before the position that were not skipped.\<close>

definition stored_data :: "nat \<Rightarrow> byte list \<Rightarrow> int list \<Rightarrow> nat \<Rightarrow> byte list" where
  "stored_data sz f bad m = concat (map (block sz f) (filter (\<lambda>k. int (k * sz) \<notin> set bad) [0..<m]))"

definition stored_ok :: "(int \<Rightarrow> bool) option \<Rightarrow> nat \<Rightarrow> byte list \<Rightarrow> int list \<Rightarrow> nat \<Rightarrow> byte list \<Rightarrow> bool" where
  "stored_ok bd sz f badl m w \<longleftrightarrow>
     sorted_wrt (<) badl \<and> set badl \<subseteq> (\<lambda>k. int (k * sz)) ` {..<m} \<and> m * sz \<le> length f \<and>
     (\<forall>bad. bd = Some bad \<longrightarrow> (\<forall>k < m. int (k * sz) \<in> set badl \<longleftrightarrow> bad (int (k * sz)))) \<and> stored_data sz f badl m = w"

definition on_flash :: "('s \<Rightarrow> byte list) \<Rightarrow> ('s \<Rightarrow> int) \<Rightarrow> (int \<Rightarrow> bool) option \<Rightarrow> MtdWriteContext \<Rightarrow> 's \<Rightarrow> byte list \<Rightarrow> bool" where
  "on_flash flash at bd ctx s w \<longleftrightarrow>
     length (flash s) = mp_size (wc_partition ctx) \<and>
     (\<exists>m. at s = int (m * mp_erase_size (wc_partition ctx)) \<and> stored_ok bd (mp_erase_size (wc_partition ctx)) (flash s) (bad_block_offsets ctx) m w)"

lemma stored_data_step:
  assumes "0 < sz" "m \<le> m'" "set bad \<subseteq> (\<lambda>k. int (k * sz)) ` {..<m}" "\<forall>j < m. block sz f' j = block sz f j"
  shows "stored_data sz f' (bad @ map (\<lambda>k. int (k * sz)) [m..<m']) (Suc m') = stored_data sz f bad m @ block sz f' m'"
proof -
  let ?new = "map (\<lambda>k. int (k * sz)) [m..<m']"
  have inj: "int (j * sz) = int (k * sz) \<longleftrightarrow> j = k" for j k using assms(1) by (simp del: of_nat_mult)
  have up: "[0..<Suc m'] = [0..<m] @ [m..<m'] @ [m']" using assms(2) upt_add_eq_append [of 0 m "m' - m"] by simp
  have 1: "filter (\<lambda>k. int (k * sz) \<notin> set (bad @ ?new)) [0..<m] = filter (\<lambda>k. int (k * sz) \<notin> set bad) [0..<m]"
    using assms(1) by (intro filter_cong) (auto simp: inj simp del: of_nat_mult)
  have 2: "filter (\<lambda>k. int (k * sz) \<notin> set (bad @ ?new)) [m..<m'] = []" by (auto simp: filter_empty_conv)
  have 3: "int (m' * sz) \<notin> set (bad @ ?new)"
  proof
    assume "int (m' * sz) \<in> set (bad @ ?new)"
    then have "int (m' * sz) \<in> (\<lambda>k. int (k * sz)) ` {..<m'}" using assms(2,3) unfolding set_append set_map set_upt by fastforce
    then show False unfolding image_iff inj by simp
  qed
  have "map (block sz f') (filter (\<lambda>k. int (k * sz) \<notin> set bad) [0..<m]) = map (block sz f) (filter (\<lambda>k. int (k * sz) \<notin> set bad) [0..<m])"
    using assms(4) by (intro map_cong) auto
  then show ?thesis unfolding stored_data_def up filter_append 1 2 map_append concat_append by (simp only: filter.simps 3 if_True list.map concat.simps not_False_eq_True simp_thms append_Nil append_Nil2)
qed

lemma stored_ok_step:
  assumes sz: "0 < sz" and st: "stored_ok bd sz f badl m w" and m': "m \<le> m'" "Suc m' * sz \<le> length f'" and same: "\<forall>j < m. block sz f' j = block sz f j"
    and bd: "\<forall>bad. bd = Some bad \<longrightarrow> (\<forall>k \<in> {m..<m'}. bad (int (k * sz))) \<and> \<not> bad (int (m' * sz))"
  shows "stored_ok bd sz f' (badl @ map (\<lambda>k. int (k * sz)) [m..<m']) (Suc m') (w @ block sz f' m')"
proof -
  let ?new = "map (\<lambda>k. int (k * sz)) [m..<m']"
  note o = st [unfolded stored_ok_def]
  have sub: "set badl \<subseteq> (\<lambda>k. int (k * sz)) ` {..<m}" using o by blast
  have lt: "int (j * sz) < int (k * sz) \<longleftrightarrow> j < k" and inj: "int (j * sz) = int (k * sz) \<longleftrightarrow> j = k" for j k using sz by (simp_all del: of_nat_mult)
  have inew: "int (j * sz) \<in> set ?new \<longleftrightarrow> m \<le> j \<and> j < m'" for j unfolding set_map set_upt image_iff inj by auto
  have ibad: "j < m" if "int (j * sz) \<in> set badl" for j using subsetD [OF sub that] unfolding image_iff inj by auto
  have cross: "x < y" if xy: "x \<in> set badl" "y \<in> set ?new" for x y
  proof -
    obtain j where j: "x = int (j * sz)" "j < m" using xy(1) sub by blast
    obtain k where k: "y = int (k * sz)" "m \<le> k" using xy(2) unfolding set_map set_upt by (meson atLeastLessThan_iff imageE)
    show ?thesis unfolding j(1) k(1) lt using j(2) k(2) by simp
  qed
  have new: "sorted_wrt (<) ?new" unfolding sorted_wrt_map lt by (rule sorted_wrt_upt)
  have srt: "sorted_wrt (<) (badl @ ?new)" unfolding sorted_wrt_append using cross new o by blast
  have "set ?new \<subseteq> (\<lambda>k. int (k * sz)) ` {..<Suc m'}" by auto
  moreover have "set badl \<subseteq> (\<lambda>k. int (k * sz)) ` {..<Suc m'}" using sub m'(1) by (meson image_mono lessThan_subset_iff le_SucI subset_trans)
  ultimately have sub': "set (badl @ ?new) \<subseteq> (\<lambda>k. int (k * sz)) ` {..<Suc m'}" by simp
  have kn: "int (k * sz) \<in> set (badl @ ?new) \<longleftrightarrow> bad (int (k * sz))" if b: "bd = Some bad" and k: "k < Suc m'" for bad k
  proof -
    consider "k < m" | "m \<le> k" "k < m'" | "k = m'" using k by linarith
    then show ?thesis
    proof cases
      case 1
      then show ?thesis using o b inew [of k] unfolding set_append Un_iff by auto
    next
      case 2
      then show ?thesis using bd b inew [of k] unfolding set_append Un_iff by auto
    next
      case 3
      then show ?thesis using bd b inew [of k] ibad [of k] m'(1) unfolding set_append Un_iff by auto
    qed
  qed
  have "stored_data sz f' (badl @ ?new) (Suc m') = w @ block sz f' m'" using stored_data_step [OF sz m'(1) sub same] o by simp
  then show ?thesis unfolding stored_ok_def using srt sub' kn m'(2) by blast
qed

lemma write_block_on_flash:
  assumes h: "knows ops (wc_fd ctx) flash at bd" and ok: "part_ok (wc_partition ctx) N" and len: "length bytes = mp_erase_size (wc_partition ctx)"
    and w: "on_flash flash at bd ctx s w"
  shows "\<exists>r ctx' s'. write_block ops ctx bytes s = Some (r, ctx', s') \<and> ctx_same ctx ctx' \<and> (r = 0 \<longrightarrow> on_flash flash at bd ctx' s' (w @ bytes))"
proof -
  let ?sz = "mp_erase_size (wc_partition ctx)"
  have sz: "0 < ?sz" "mp_size (wc_partition ctx) = N" using ok by (simp_all add: part_ok_def)
  obtain m where m: "at s = int (m * ?sz)" "stored_ok bd ?sz (flash s) (bad_block_offsets ctx) m w" "length (flash s) = N"
    using w sz(2) by (auto simp: on_flash_def)
  obtain r ctx' s' where r: "write_block_loop ops ctx bytes (int (m * ?sz)) s = Some (r, ctx', s')" "block_written flash at bd N bytes m ctx s r ctx' s'"
    using write_block_loop_spec [OF h ok len m(3)] by blast
  have "md_tell ops (wc_fd ctx) s = int (m * ?sz)" using honest_rules(1) [of ops "wc_fd ctx" flash at s] h m(1) by (simp add: knows_def)
  then have wb: "write_block ops ctx bytes s = Some (r, ctx', s')" using r(1) by (simp add: write_block_def Let_def del: of_nat_mult)
  note bw = r(2) [unfolded block_written_def Let_def]
  have "on_flash flash at bd ctx' s' (w @ bytes)" if z: "r = 0"
  proof -
    obtain m' where m': "m \<le> m'" "bad_block_offsets ctx' = bad_block_offsets ctx @ map (\<lambda>k. int (k * ?sz)) [m..<m']"
        "at s' = int (Suc m' * ?sz)" "block ?sz (flash s') m' = bytes" "Suc m' * ?sz \<le> N"
        "\<forall>bad. bd = Some bad \<longrightarrow> (\<forall>k \<in> {m..<m'}. bad (int (k * ?sz))) \<and> \<not> bad (int (m' * ?sz))"
      using bw z by blast
    have p: "wc_partition ctx' = wc_partition ctx" "length (flash s') = N" using bw m(3) by (simp_all add: ctx_same_def)
    have "stored_ok bd ?sz (flash s') (bad_block_offsets ctx') (Suc m') (w @ bytes)"
      using stored_ok_step [OF sz(1) m(2) m'(1) _ _ m'(6), of "flash s'"] m'(5) p(2) bw unfolding m'(2,4) by blast
    then show ?thesis unfolding on_flash_def p using m'(3) sz(2) by blast
  qed
  then show ?thesis using wb bw by blast
qed

lemma on_flash_buffer [simp]: "on_flash flash at bd (ctx\<lparr>wc_buffer := b\<rparr>) s w \<longleftrightarrow> on_flash flash at bd ctx s w"
  by (simp add: on_flash_def)

text \<open>A writer is in order: the device is honest, the partition fits it and less than a block is pending.\<close>

definition writer_ok :: "'s mtdops \<Rightarrow> ('s \<Rightarrow> byte list) \<Rightarrow> ('s \<Rightarrow> int) \<Rightarrow> (int \<Rightarrow> bool) option \<Rightarrow> nat \<Rightarrow> MtdWriteContext \<Rightarrow> bool" where
  "writer_ok ops flash at bd N ctx \<longleftrightarrow>
     knows ops (wc_fd ctx) flash at bd \<and> part_ok (wc_partition ctx) N \<and> length (wc_buffer ctx) < mp_erase_size (wc_partition ctx)"

lemma write_direct_spec:
  assumes "writer_ok ops flash at bd N ctx" "on_flash flash at bd ctx s w"
  shows "\<exists>ok wrote' ctx' s'. write_direct ops ctx bytes wrote s = Some (ok, wrote', ctx', s') \<and>
    (ok \<longrightarrow> writer_ok ops flash at bd N ctx' \<and> wc_partition ctx' = wc_partition ctx \<and> wc_buffer ctx' = wc_buffer ctx \<and> wrote \<le> wrote' \<and> wrote' \<le> max wrote (length bytes) \<and>
      (wc_buffer ctx = [] \<and> length bytes - wrote \<ge> mp_erase_size (wc_partition ctx) \<longrightarrow> wrote < wrote') \<and>
      on_flash flash at bd ctx' s' (w @ take (wrote' - wrote) (drop wrote bytes)))"
  using assms
proof (induction "length bytes - wrote" arbitrary: wrote ctx s w rule: less_induct)
  case less
  let ?sz = "mp_erase_size (wc_partition ctx)"
  have h: "knows ops (wc_fd ctx) flash at bd" and ok: "part_ok (wc_partition ctx) N" and sz: "0 < ?sz"
    using less.prems(1) by (auto simp: writer_ok_def part_ok_def)
  show ?case
  proof (cases "wc_buffer ctx = [] \<and> length bytes - wrote \<ge> ?sz")
    case False
    then have "write_direct ops ctx bytes wrote s = Some (True, wrote, ctx, s)" by (subst write_direct.simps) auto
    then show ?thesis using less.prems False by (intro exI [of _ True] exI [of _ wrote] exI [of _ ctx] exI [of _ s]) auto
  next
    case True
    let ?b = "take ?sz (drop wrote bytes)"
    have lb: "length ?b = ?sz" using True by simp
    obtain r ctx1 s1 where r: "write_block ops ctx ?b s = Some (r, ctx1, s1)" "ctx_same ctx ctx1" "r = 0 \<longrightarrow> on_flash flash at bd ctx1 s1 (w @ ?b)"
      using write_block_on_flash [OF h ok lb less.prems(2)] by blast
    show ?thesis
    proof (cases "r = 0")
      case nz: False
      have "write_direct ops ctx bytes wrote s = Some (False, wrote, ctx1, s1)" using True r nz by (subst write_direct.simps) simp
      then show ?thesis by blast
    next
      case z: True
      have p: "mp_erase_size (wc_partition ctx1) = ?sz" "wc_buffer ctx1 = []" "wc_partition ctx1 = wc_partition ctx" using r(2) True by (simp_all add: ctx_same_def)
      have e: "write_direct ops ctx bytes wrote s = write_direct ops ctx1 bytes (wrote + ?sz) s1" using True r(1) z p by (subst write_direct.simps) simp
      have "writer_ok ops flash at bd N ctx1" using less.prems(1) r(2) by (simp add: writer_ok_def ctx_same_def)
      moreover have "length bytes - (wrote + ?sz) < length bytes - wrote" using True sz by linarith
      ultimately obtain ok wrote' ctx' s' where i: "write_direct ops ctx1 bytes (wrote + ?sz) s1 = Some (ok, wrote', ctx', s')"
          "ok \<longrightarrow> writer_ok ops flash at bd N ctx' \<and> wc_partition ctx' = wc_partition ctx1 \<and> wc_buffer ctx' = wc_buffer ctx1 \<and> wrote + ?sz \<le> wrote' \<and> wrote' \<le> max (wrote + ?sz) (length bytes) \<and>
            on_flash flash at bd ctx' s' ((w @ ?b) @ take (wrote' - (wrote + ?sz)) (drop (wrote + ?sz) bytes))"
        using less.hyps [of "wrote + ?sz" ctx1 s1 "w @ ?b"] r(3) z by blast
      have "?b @ take (wrote' - (wrote + ?sz)) (drop (wrote + ?sz) bytes) = take (wrote' - wrote) (drop wrote bytes)" if "wrote + ?sz \<le> wrote'"
        using take_add [of ?sz "wrote' - (wrote + ?sz)" "drop wrote bytes"] that by (simp add: add.commute)
      then show ?thesis unfolding e i(1) using i(2) True p(2,3) sz by auto
    qed
  qed
qed

lemma flush_full_spec:
  assumes "knows ops (wc_fd ctx) flash at bd" "part_ok (wc_partition ctx) N" "length (wc_buffer ctx) \<le> mp_erase_size (wc_partition ctx)"
    and "on_flash flash at bd ctx s w"
  shows "\<exists>ok ctx' s'. flush_full ops ctx s = Some (ok, ctx', s') \<and>
    (ok \<longrightarrow> writer_ok ops flash at bd N ctx' \<and> wc_partition ctx' = wc_partition ctx \<and>
      (length (wc_buffer ctx) < mp_erase_size (wc_partition ctx) \<longrightarrow> ctx' = ctx) \<and>
      (\<exists>w'. on_flash flash at bd ctx' s' w' \<and> w' @ wc_buffer ctx' = w @ wc_buffer ctx))"
proof (cases "length (wc_buffer ctx) = mp_erase_size (wc_partition ctx)")
  case True
  obtain r ctx1 s1 where r: "write_block ops ctx (wc_buffer ctx) s = Some (r, ctx1, s1)" "ctx_same ctx ctx1"
      "r = 0 \<longrightarrow> on_flash flash at bd ctx1 s1 (w @ wc_buffer ctx)"
    using write_block_on_flash [OF assms(1,2) True assms(4)] by blast
  have "flush_full ops ctx s = (if r \<noteq> 0 then Some (False, ctx1, s1) else Some (True, ctx1\<lparr>wc_buffer := []\<rparr>, s1))"
    using True r(1) by (simp add: flush_full_def)
  moreover have "writer_ok ops flash at bd N (ctx1\<lparr>wc_buffer := []\<rparr>)"
    using assms(1,2) r(2) by (auto simp: writer_ok_def ctx_same_def part_ok_def)
  ultimately show ?thesis using True r(2,3) by (cases "r = 0") (auto simp: ctx_same_def)
next
  case False
  then have "flush_full ops ctx s = Some (True, ctx, s)" "writer_ok ops flash at bd N ctx" using assms by (auto simp: flush_full_def writer_ok_def)
  then show ?thesis using assms(4) by auto
qed

text \<open>What coalescing copies: something, unless a complete block is left and nothing is pending.\<close>

lemma coalesce_spec:
  assumes "coalesce ctx bytes wrote = (ctx', wrote')" "wrote < length bytes" "length (wc_buffer ctx) < mp_erase_size (wc_partition ctx)"
  shows "wc_partition ctx' = wc_partition ctx" "wc_fd ctx' = wc_fd ctx" "bad_block_offsets ctx' = bad_block_offsets ctx"
    "wrote \<le> wrote'" "wrote' \<le> length bytes" "length (wc_buffer ctx') \<le> mp_erase_size (wc_partition ctx)"
    "wc_buffer ctx' = wc_buffer ctx @ take (wrote' - wrote) (drop wrote bytes)"
    "wrote' = wrote \<Longrightarrow> ctx' = ctx \<and> wc_buffer ctx = [] \<and> length bytes - wrote \<ge> mp_erase_size (wc_partition ctx)"
  using assms by (auto simp: coalesce_def Let_def split: if_split_asm)

lemma write_data_loop_spec:
  assumes "writer_ok ops flash at bd N ctx" "on_flash flash at bd ctx s w" "wrote \<le> length bytes"
  shows "\<exists>r ctx' s'. write_data_loop ops ctx bytes wrote s = Some (r, ctx', s') \<and>
    (r \<noteq> -1 \<longrightarrow> r = int (length bytes) \<and> writer_ok ops flash at bd N ctx' \<and> wc_partition ctx' = wc_partition ctx \<and>
      (\<exists>w'. on_flash flash at bd ctx' s' w' \<and> w' @ wc_buffer ctx' = w @ wc_buffer ctx @ drop wrote bytes))"
  using assms
proof (induction "length bytes - wrote" arbitrary: wrote ctx s w rule: less_induct)
  case less
  show ?case
  proof (cases "wrote < length bytes")
    case False
    then have "write_data_loop ops ctx bytes wrote s = Some (int wrote, ctx, s)" by (subst write_data_loop.simps) simp
    then show ?thesis using less.prems False by auto
  next
    case True
    obtain c1 w1 where c: "coalesce ctx bytes wrote = (c1, w1)" by (cases "coalesce ctx bytes wrote")
    have b: "length (wc_buffer ctx) < mp_erase_size (wc_partition ctx)" using less.prems(1) by (simp add: writer_ok_def)
    note cs = coalesce_spec [OF c True b]
    have of1: "on_flash flash at bd c1 s w" using less.prems(2) cs(1,3) by (simp add: on_flash_def)
    have h1: "knows ops (wc_fd c1) flash at bd" "part_ok (wc_partition c1) N" "length (wc_buffer c1) \<le> mp_erase_size (wc_partition c1)"
      using less.prems(1) cs(1,2,6) by (simp_all add: writer_ok_def)
    obtain ok2 c2 s2 where f: "flush_full ops c1 s = Some (ok2, c2, s2)" and fs: "ok2 \<longrightarrow> writer_ok ops flash at bd N c2 \<and>
        wc_partition c2 = wc_partition c1 \<and>
        (length (wc_buffer c1) < mp_erase_size (wc_partition c1) \<longrightarrow> c2 = c1) \<and> (\<exists>w'. on_flash flash at bd c2 s2 w' \<and> w' @ wc_buffer c2 = w @ wc_buffer c1)"
      using flush_full_spec [OF h1 of1] by blast
    note unf = write_data_loop.simps [of ops ctx bytes wrote s, unfolded c prod.case f]
    show ?thesis
    proof (cases ok2)
      case False
      then show ?thesis using unf True by simp
    next
      case ok2: True
      obtain w2 where w2: "on_flash flash at bd c2 s2 w2" "w2 @ wc_buffer c2 = w @ wc_buffer c1" and wo2: "writer_ok ops flash at bd N c2" using fs ok2 by blast
      obtain ok3 w3 c3 s3 where d: "write_direct ops c2 bytes w1 s2 = Some (ok3, w3, c3, s3)" and ds: "ok3 \<longrightarrow> writer_ok ops flash at bd N c3 \<and> wc_partition c3 = wc_partition c2 \<and>
          wc_buffer c3 = wc_buffer c2 \<and> w1 \<le> w3 \<and> w3 \<le> max w1 (length bytes) \<and> (wc_buffer c2 = [] \<and> length bytes - w1 \<ge> mp_erase_size (wc_partition c2) \<longrightarrow> w1 < w3) \<and>
          on_flash flash at bd c3 s3 (w2 @ take (w3 - w1) (drop w1 bytes))"
        using write_direct_spec [OF wo2 w2(1), of bytes w1] by blast
      show ?thesis
      proof (cases ok3)
        case False
        then show ?thesis using unf True ok2 d by simp
      next
        case ok3: True
        have e: "write_data_loop ops ctx bytes wrote s = write_data_loop ops c3 bytes w3 s3" using unf True ok2 d ok3 by simp
        have le: "w3 \<le> length bytes" "w1 \<le> w3" using ds ok3 cs(5) by auto
        have "w1 = wrote \<Longrightarrow> w1 < w3" using cs(8) fs ok2 ds ok3 b by auto
        then have dec: "length bytes - w3 < length bytes - wrote" using cs(4) le True by linarith
        have "w3 = w1 \<or> wc_buffer c2 = []"
        proof (rule ccontr)
          assume n: "\<not> (w3 = w1 \<or> wc_buffer c2 = [])"
          then have "write_direct ops c2 bytes w1 s2 = Some (True, w1, c2, s2)" by (subst write_direct.simps) simp
          then show False using d n by simp
        qed
        then have "w2 @ take (w3 - w1) (drop w1 bytes) @ wc_buffer c3 @ drop w3 bytes = w @ wc_buffer ctx @ drop wrote bytes"
        proof -
          have "take (w3 - w1) (drop w1 bytes) @ drop w3 bytes = drop w1 bytes"
            using append_take_drop_id [of "w3 - w1" "drop w1 bytes"] le(2) by simp
          moreover have "take (w1 - wrote) (drop wrote bytes) @ drop w1 bytes = drop wrote bytes"
            using append_take_drop_id [of "w1 - wrote" "drop wrote bytes"] cs(4) by simp
          ultimately show ?thesis using \<open>w3 = w1 \<or> wc_buffer c2 = []\<close> w2(2) ds ok3 cs(7) by (metis append.assoc append_Nil2 append_Nil take_0 diff_self_eq_0)
        qed
        then show ?thesis unfolding e using less.hyps [OF dec, of c3 s3 "w2 @ take (w3 - w1) (drop w1 bytes)"] ds ok3 le(1) fs ok2 cs(1) by auto
      qed
    qed
  qed
qed

lemma flush_padded_spec:
  assumes "writer_ok ops flash at bd N ctx" "on_flash flash at bd ctx s w"
  shows "\<exists>ok ctx' s'. flush_padded ops ctx s = Some (ok, ctx', s') \<and>
    (ok \<longrightarrow> wc_fd ctx' = wc_fd ctx \<and> wc_partition ctx' = wc_partition ctx \<and>
      (\<exists>pad < mp_erase_size (wc_partition ctx). on_flash flash at bd ctx' s' (w @ wc_buffer ctx @ replicate pad 0)))"
proof (cases "wc_buffer ctx = []")
  case True
  then have "flush_padded ops ctx s = Some (True, ctx, s)" by (simp add: flush_padded_def)
  then show ?thesis using assms True by (auto simp: writer_ok_def intro!: exI [of _ 0])
next
  case False
  let ?pad = "mp_erase_size (wc_partition ctx) - length (wc_buffer ctx)" and ?sz = "mp_erase_size (wc_partition ctx)"
  have w: "knows ops (wc_fd ctx) flash at bd" "part_ok (wc_partition ctx) N" "length (wc_buffer ctx) < ?sz" using assms(1) by (simp_all add: writer_ok_def)
  have len: "length (wc_buffer ctx @ replicate ?pad 0) = ?sz" using w(3) by simp
  obtain r ctx1 s1 where r: "write_block ops ctx (wc_buffer ctx @ replicate ?pad 0) s = Some (r, ctx1, s1)" "ctx_same ctx ctx1"
      "r = 0 \<longrightarrow> on_flash flash at bd ctx1 s1 (w @ wc_buffer ctx @ replicate ?pad 0)"
    using write_block_on_flash [OF w(1,2) len assms(2)] by blast
  have "flush_padded ops ctx s = (if r \<noteq> 0 then Some (False, ctx1, s1) else Some (True, ctx1\<lparr>wc_buffer := []\<rparr>, s1))"
    using False r(1) by (simp add: flush_padded_def)
  moreover have "0 < length (wc_buffer ctx)" using False by simp
  then have "?pad < ?sz" using w(3) by linarith
  ultimately show ?thesis using r(2,3) by (cases "r = 0") (auto simp: ctx_same_def)
qed

text \<open>Closing writes what is pending and erases nothing.\<close>

lemma mtd_write_close_spec:
  assumes "writer_ok ops flash at bd N ctx" "on_flash flash at bd ctx s w"
  shows "\<exists>c s'. mtd_write_close ops ctx s = Some (Done (c, s')) \<and>
    (c = 0 \<longrightarrow> length (flash s') = N \<and> (\<exists>badl m. \<exists>pad < mp_erase_size (wc_partition ctx).
       stored_ok bd (mp_erase_size (wc_partition ctx)) (flash s') badl m (w @ wc_buffer ctx @ replicate pad 0)))"
proof -
  let ?sz = "mp_erase_size (wc_partition ctx)"
  have sz: "0 < ?sz" and h: "honest_flash ops (wc_fd ctx) flash at" using assms(1) by (simp_all add: writer_ok_def part_ok_def knows_def)
  have N: "mp_size (wc_partition ctx) = N" using assms(1) by (simp add: writer_ok_def part_ok_def)
  obtain ok c1 s1 where f: "flush_padded ops ctx s = Some (ok, c1, s1)" and fs: "ok \<longrightarrow> wc_fd c1 = wc_fd ctx \<and> wc_partition c1 = wc_partition ctx \<and>
      (\<exists>pad < ?sz. on_flash flash at bd c1 s1 (w @ wc_buffer ctx @ replicate pad 0))"
    using flush_padded_spec [OF assms] by blast
  obtain pos where e: "mtd_erase_blocks ops ctx 0 s = Some (Done (pos, c1, s1))" "pos \<noteq> -1 \<longrightarrow> ok"
  proof (cases ok)
    case False
    then show thesis using f that [of "-1"] by (simp add: mtd_erase_blocks_def)
  next
    case True
    define pos where "pos = md_tell ops (wc_fd c1) s1"
    define total where "total = s32 (((int (mp_size (wc_partition ctx)) - pos) mod 2 ^ 32) div int ?sz)"
    have "mtd_erase_blocks ops ctx 0 s = Some (Done (if pos = -1 \<or> 0 > total then -1 else pos, c1, s1))"
      using f fs sz True by (simp add: mtd_erase_blocks_def Let_def pos_def total_def)
    then show thesis using that True by blast
  qed
  obtain b s2 where cl: "md_close ops (wc_fd c1) s1 = (b, s2)" by (cases "md_close ops (wc_fd c1) s1")
  have "mtd_write_close ops ctx s = Some (Done (if pos = -1 \<or> \<not> b then -1 else 0, s2))"
    using e(1) cl by (simp add: mtd_write_close_def bind_run_def)
  moreover have "flash s2 = flash s1" if ok using honest_rules(10) [OF h] cl fs that by simp
  ultimately show ?thesis using e(2) fs N unfolding on_flash_def by (auto split: if_split) metis
qed

lemma on_flash_start:
  "at s = 0 \<Longrightarrow> bad_block_offsets ctx = [] \<Longrightarrow> length (flash s) = mp_size (wc_partition ctx) \<Longrightarrow> on_flash flash at bd ctx s []"
  unfolding on_flash_def by (intro conjI exI [of _ 0]) (simp_all add: stored_ok_def stored_data_def)

lemma mtd_write_partition_fresh:
  assumes "mtd_write_partition ops p s0 = (Some ctx, s)"
  shows "wc_partition ctx = p" "wc_buffer ctx = []" "bad_block_offsets ctx = []"
  using assms by (auto simp: mtd_write_partition_def split: if_split_asm prod.split_asm option.split_asm)

lemma fresh_write_spec:
  assumes "mtd_write_partition ops p s0 = (Some ctx, s)" "knows ops (wc_fd ctx) flash at bd" "part_ok p (length (flash s))" "at s = 0"
  shows "\<exists>r ctx1 s1. mtd_write_data ops ctx bytes s = Some (r, ctx1, s1) \<and> (r \<noteq> -1 \<longrightarrow> r = int (length bytes) \<and>
    writer_ok ops flash at bd (length (flash s)) ctx1 \<and> wc_partition ctx1 = p \<and> (\<exists>w'. on_flash flash at bd ctx1 s1 w' \<and> w' @ wc_buffer ctx1 = bytes))"
proof -
  note fresh = mtd_write_partition_fresh [OF assms(1)]
  have w: "writer_ok ops flash at bd (length (flash s)) ctx" using assms(2,3) fresh by (simp add: writer_ok_def part_ok_def)
  have "on_flash flash at bd ctx s []" using assms(3,4) fresh by (intro on_flash_start) (simp_all add: part_ok_def)
  from write_data_loop_spec [OF w this, of 0 bytes] fresh show ?thesis unfolding mtd_write_data_def by auto
qed

lemma fresh_write_close:
  assumes "mtd_write_partition ops p s0 = (Some ctx, s)" "knows ops (wc_fd ctx) flash at bd" "part_ok p (length (flash s))" "at s = 0"
    and "mtd_write_data ops ctx bytes s = Some (r, ctx1, s1)" "r \<noteq> -1"
  shows "\<exists>c s2. mtd_write_close ops ctx1 s1 = Some (Done (c, s2)) \<and> (c = 0 \<longrightarrow> length (flash s2) = length (flash s) \<and>
    (\<exists>badl m. \<exists>pad < mp_erase_size p. stored_ok bd (mp_erase_size p) (flash s2) badl m (bytes @ replicate pad 0)))"
proof -
  obtain w' where w': "writer_ok ops flash at bd (length (flash s)) ctx1" "wc_partition ctx1 = p" "on_flash flash at bd ctx1 s1 w'" "w' @ wc_buffer ctx1 = bytes"
    using fresh_write_spec [OF assms(1-4), of bytes] assms(5,6) by auto
  from mtd_write_close_spec [OF w'(1,3)] show ?thesis unfolding w'(2) w'(4) [symmetric] append_assoc .
qed

text \<open>
  C16. What is reported as written is on the flash: on a device that may fail to erase or write any block, writing data to a
  partition that has just been opened returns, and unless it reports an error, closing it returns, and unless that reports an
  error, the data is on the device, in order, in whole blocks padded with zeros at the end, apart from blocks that were skipped.\<close>

theorem mtd_write_verified:
  assumes "mtd_write_partition ops p s0 = (Some ctx, s)" "honest_flash ops (wc_fd ctx) flash at" "part_ok p (length (flash s))" "at s = 0"
  shows "\<exists>r ctx1 s1. mtd_write_data ops ctx bytes s = Some (r, ctx1, s1) \<and> (r \<noteq> -1 \<longrightarrow> r = int (length bytes) \<and>
    (\<exists>c s2. mtd_write_close ops ctx1 s1 = Some (Done (c, s2)) \<and> (c = 0 \<longrightarrow>
      (\<exists>badl m. \<exists>pad < mp_erase_size p. sorted_wrt (<) badl \<and> stored_data (mp_erase_size p) (flash s2) badl m = bytes @ replicate pad 0))))"
proof -
  have kn: "knows ops (wc_fd ctx) flash at None" using assms(2) by (simp add: knows_def)
  obtain r ctx1 s1 where d: "mtd_write_data ops ctx bytes s = Some (r, ctx1, s1)" "r \<noteq> -1 \<longrightarrow> r = int (length bytes)"
    using fresh_write_spec [OF assms(1) kn assms(3,4), of bytes] by blast
  show ?thesis using fresh_write_close [OF assms(1) kn assms(3,4) d(1)] d unfolding stored_ok_def by blast
qed

section \<open>The start of what was written\<close>

lemma find_start_spec:
  "sorted_wrt (<) bs \<Longrightarrow> 0 < sz \<Longrightarrow> \<exists>k. find_start sz bs pos = pos + int (k * sz) \<and> find_start sz bs pos \<notin> set bs \<and> (\<forall>j < k. pos + int (j * sz) \<in> set bs)"
proof (induction bs arbitrary: pos)
  case (Cons b bs)
  consider "b = pos" | "b > pos" | "b < pos" by linarith
  then show ?case
  proof cases
    case 1
    obtain k where k: "find_start sz bs (pos + int sz) = pos + int sz + int (k * sz)" "find_start sz bs (pos + int sz) \<notin> set bs"
        "\<forall>j < k. pos + int sz + int (j * sz) \<in> set bs"
      using Cons.IH [of "pos + int sz"] Cons.prems by auto
    have "pos + int (j * sz) \<in> set (b # bs)" if "j < Suc k" for j
      using 1 k(3) that by (cases j) (auto simp: algebra_simps)
    moreover have "pos + int sz + int (k * sz) \<noteq> b" using 1 Cons.prems(2) by (simp del: of_nat_mult)
    ultimately show ?thesis using 1 k(1,2) by (intro exI [of _ "Suc k"]) (auto simp: algebra_simps)
  next
    case 2
    then have "pos \<notin> set (b # bs)" using Cons.prems(1) by auto
    then show ?thesis using 2 by (intro exI [of _ 0]) auto
  next
    case 3
    obtain k where k: "find_start sz bs pos = pos + int (k * sz)" "find_start sz bs pos \<notin> set bs" "\<forall>j < k. pos + int (j * sz) \<in> set bs"
      using Cons.IH [of pos] Cons.prems by auto
    have "b < pos + int (k * sz)" using 3 by (simp del: of_nat_mult)
    then show ?thesis using 3 k by (intro exI [of _ k]) auto
  qed
qed (auto intro!: exI [of _ 0])

text \<open>
  After writing, \<^verbatim>\<open>mtd_find_write_start\<close> returns the first block at or after a position that was not skipped: the
  result is not among the skipped blocks and every block between is.\<close>

theorem find_write_start_first:
  assumes "mtd_write_partition ops p s0 = (Some ctx, s)" "honest_flash ops (wc_fd ctx) flash at" "part_ok p (length (flash s))" "at s = 0"
    and "mtd_write_data ops ctx bytes s = Some (r, ctx1, s1)" "r \<noteq> -1"
  shows "\<exists>k. mtd_find_write_start ctx1 pos = pos + int (k * mp_erase_size p) \<and> mtd_find_write_start ctx1 pos \<notin> set (bad_block_offsets ctx1) \<and>
    (\<forall>j < k. pos + int (j * mp_erase_size p) \<in> set (bad_block_offsets ctx1))"
proof -
  have kn: "knows ops (wc_fd ctx) flash at None" using assms(2) by (simp add: knows_def)
  obtain w' where w': "wc_partition ctx1 = p" "on_flash flash at None ctx1 s1 w'"
    using fresh_write_spec [OF assms(1) kn assms(3,4), of bytes] assms(5,6) by auto
  then have "sorted_wrt (<) (bad_block_offsets ctx1)" unfolding on_flash_def stored_ok_def by blast
  then show ?thesis using find_start_spec [of "bad_block_offsets ctx1" "mp_erase_size p" pos] assms(3) w'(1)
    by (simp add: mtd_find_write_start_def part_ok_def)
qed

section \<open>Instances\<close>

text \<open>A simulated device: its contents, its position and the counter; some blocks are bad and some cannot be corrected.\<close>

type_synonym sim = "byte list \<times> int \<times> nat"

definition overlay :: "int \<Rightarrow> byte list \<Rightarrow> byte list \<Rightarrow> byte list" where
  "overlay p bs f = take (nat p) f @ bs @ drop (nat p + length bs) f"

definition sim_ops :: "(int \<Rightarrow> bool) \<Rightarrow> (int \<Rightarrow> bool) \<Rightarrow> sim mtdops" where
  "sim_ops bad ecc =
     \<lparr>md_malloc = (\<lambda>n. True), md_proc = (\<lambda>s. None), md_open = (\<lambda>w nm (f, p, c). (Some 3, (f, 0, c))), md_close = (\<lambda>fd s. (True, s)),
      md_eccstats = (\<lambda>fd (f, p, c). (Some c, (f, p, c))), md_tell = (\<lambda>fd (f, p, c). p),
      md_lseek = (\<lambda>fd q (f, p, c). if 0 \<le> q then (q, (f, q, c)) else (if q = -1 then -2 else -1, (f, p, c))),
      md_read = (\<lambda>fd n (f, p, c). if 0 \<le> p \<and> nat p + n \<le> length f
         then (int n, take n (drop (nat p) f), (f, p + int n, if ecc p then c + 1 else c)) else (-1, [], (f, p, c))),
      md_write = (\<lambda>fd bs (f, p, c). if 0 \<le> p \<and> nat p + length bs \<le> length f
         then (int (length bs), (overlay p bs f, p + int (length bs), c)) else (-1, (f, p, c))),
      md_badblock = (\<lambda>fd q s. (if bad q then 1 else 0, s)),
      md_erase = (\<lambda>fd q n (f, p, c). if \<not> bad q \<and> 0 \<le> q \<and> nat q + n \<le> length f then (0, (overlay q (replicate n 255) f, p, c)) else (-1, (f, p, c))),
      md_info = (\<lambda>fd (f, p, c). Some (length f, 4, 2))\<rparr>"

abbreviation sim_flash :: "sim \<Rightarrow> byte list" where "sim_flash s \<equiv> fst s"
abbreviation sim_at :: "sim \<Rightarrow> int" where "sim_at s \<equiv> fst (snd s)"

lemma overlay_outside:
  assumes "0 \<le> p" "nat p + length bs \<le> length f"
  shows "same_outside p (length bs) f (overlay p bs f)" "take (length bs) (drop (nat p) (overlay p bs f)) = bs" "length (overlay p bs f) = length f"
proof -
  show len: "length (overlay p bs f) = length f" "take (length bs) (drop (nat p) (overlay p bs f)) = bs" using assms by (simp_all add: overlay_def)
  have "overlay p bs f ! i = f ! i" if i: "i < length f" "int i < p \<or> p + int (length bs) \<le> int i" for i
  proof (cases "int i < p")
    case True
    then show ?thesis using i(1) assms by (auto simp: overlay_def nth_append)
  next
    case False
    then have g: "nat p + length bs \<le> i" using i(2) assms(1) by linarith
    then have "\<not> i < nat p" "\<not> i - nat p < length bs" by linarith+
    then show ?thesis using g i(1) assms by (simp add: overlay_def nth_append)
  qed
  then show "same_outside p (length bs) f (overlay p bs f)" unfolding same_outside_def using len by blast
qed

lemma sim_honest: "honest_flash (sim_ops bad ecc) fd sim_flash sim_at"
proof -
  have e: "same_outside q n f (overlay q (replicate n 255) f)" if "0 \<le> q" "nat q + n \<le> length f" for q n f
    using overlay_outside(1) [of q "replicate n 255" f] that by simp
  show ?thesis unfolding honest_flash_def sim_ops_def
    by (auto simp: same_outside_refl overlay_outside(1) e split: if_split_asm)
qed

lemma sim_steady: "ecc_steady (sim_ops bad (\<lambda>p. False)) fd (snd \<circ> snd)"
  by (auto simp: ecc_steady_def sim_ops_def)

lemma sim_clean: "clean_flash (sim_ops bad (\<lambda>p. False)) fd sim_flash sim_at bad"
  unfolding clean_flash_def
proof (intro conjI exI)
  show "honest_flash (sim_ops bad (\<lambda>p. False)) fd sim_flash sim_at" by (rule sim_honest)
  show "ecc_steady (sim_ops bad (\<lambda>p. False)) fd (snd \<circ> snd)" by (rule sim_steady)
qed (auto simp: sim_ops_def)

lemma sim_reliable: "reliable_flash (sim_ops bad (\<lambda>p. False)) fd sim_flash sim_at bad"
proof -
  have e: "take n (drop (nat p) (overlay p (replicate n 255) f)) = replicate n 255" if "0 \<le> p" "nat p + n \<le> length f" for p n f
    using overlay_outside(2) [of p "replicate n 255" f] that by simp
  show ?thesis unfolding reliable_flash_def
  proof (intro conjI)
    show "clean_flash (sim_ops bad (\<lambda>p. False)) fd sim_flash sim_at bad" by (rule sim_clean)
  qed (auto simp: sim_ops_def e overlay_outside(2))
qed

definition sim_part :: MtdPartition where
  "sim_part = \<lparr>device_index = 1, mp_size = 16, mp_erase_size = 4, mp_name = Some ''misc''\<rparr>"

definition sim_start :: sim where
  "sim_start = (replicate 16 0, 0, 0)"

definition sim_wctx :: MtdWriteContext where
  "sim_wctx = \<lparr>wc_partition = sim_part, wc_buffer = [], wc_fd = 3, bad_block_offsets = [], bad_block_alloc = 0\<rparr>"

lemma sim_write_open: "mtd_write_partition (sim_ops bad ecc) sim_part sim_start = (Some sim_wctx, sim_start)"
  by (simp add: mtd_write_partition_def sim_ops_def sim_start_def sim_wctx_def)

lemma sim_part_ok: "part_ok sim_part (length (sim_flash sim_start))"
  by (simp add: part_ok_def sim_part_def sim_start_def)

text \<open>The second block is bad.\<close>

abbreviation sim_bad :: "int \<Rightarrow> bool" where "sim_bad p \<equiv> p = 4"

definition sim_wctx1 :: MtdWriteContext where
  "sim_wctx1 = sim_wctx\<lparr>wc_buffer := [9, 10], bad_block_offsets := [4], bad_block_alloc := 1\<rparr>"

lemma sim_write_run:
  "mtd_write_data (sim_ops sim_bad (\<lambda>p. False)) sim_wctx [1, 2, 3, 4, 5, 6, 7, 8, 9, 10] sim_start =
    Some (10, sim_wctx1, [1, 2, 3, 4, 0, 0, 0, 0, 5, 6, 7, 8, 0, 0, 0, 0], 12, 0)"
  by code_simp

lemma sim_close_run:
  "mtd_write_close (sim_ops sim_bad (\<lambda>p. False)) sim_wctx1 ([1, 2, 3, 4, 0, 0, 0, 0, 5, 6, 7, 8, 0, 0, 0, 0], 12, 0) =
    Some (Done (0, [1, 2, 3, 4, 0, 0, 0, 0, 5, 6, 7, 8, 9, 10, 0, 0], 16, 0))"
  by code_simp

theorem mtd_write_verified_witness:
  "\<exists>badl m pad. pad < 4 \<and> stored_data 4 [1, 2, 3, 4, 0, 0, 0, 0, 5, 6, 7, 8, 9, 10, 0, 0] badl m = [1, 2, 3, 4, 5, 6, 7, 8, 9, 10] @ replicate pad 0"
proof -
  have "sim_at sim_start = 0" by (simp add: sim_start_def)
  from mtd_write_verified [OF sim_write_open sim_honest sim_part_ok this, of sim_bad "\<lambda>p. False" "[1, 2, 3, 4, 5, 6, 7, 8, 9, 10]"]
  show ?thesis unfolding sim_write_run using sim_close_run by (auto simp: sim_part_def)
qed

theorem find_write_start_first_witness: "mtd_find_write_start sim_wctx1 4 \<noteq> 4"
proof -
  have "sim_at sim_start = 0" by (simp add: sim_start_def)
  from find_write_start_first [OF sim_write_open sim_honest sim_part_ok this sim_write_run, of 4]
  show ?thesis by (auto simp: sim_wctx1_def)
qed

end
