(* ===== verification/Mtd_Read.thy ===== *)
theory Mtd_Read
  imports Mtd_Flash
begin

text \<open>
  Reading from flash: what \<^verbatim>\<open>mtd_read_data\<close> of \<^verbatim>\<open>mtdutils/mtdutils.c\<close> delivers, reading back what was written, and what an
  uncorrectable block does.
\<close>

section \<open>What is read\<close>

text \<open>The bytes that reading delivers from block \<open>m\<close> on: bad blocks and blocks of zeros are left out.\<close>

definition shown :: "nat \<Rightarrow> byte list \<Rightarrow> (int \<Rightarrow> bool) \<Rightarrow> nat \<Rightarrow> bool" where
  "shown sz f bad k \<longleftrightarrow> \<not> bad (int (k * sz)) \<and> (\<exists>b \<in> set (block sz f k). b \<noteq> 0)"

definition visible :: "nat \<Rightarrow> byte list \<Rightarrow> (int \<Rightarrow> bool) \<Rightarrow> nat \<Rightarrow> byte list" where
  "visible sz f bad m = concat (map (block sz f) (filter (shown sz f bad) [m..<length f div sz]))"

lemma visible_step:
  assumes "Suc m * sz \<le> length f" "0 < sz"
  shows "visible sz f bad m = (if shown sz f bad m then block sz f m else []) @ visible sz f bad (Suc m)"
proof -
  have "Suc m \<le> length f div sz" using assms less_eq_div_iff_mult_less_eq by blast
  then have "[m..<length f div sz] = m # [Suc m..<length f div sz]" by (simp add: upt_conv_Cons)
  then show ?thesis by (simp add: visible_def)
qed

lemma visible_end: "\<not> Suc m * sz \<le> length f \<Longrightarrow> 0 < sz \<Longrightarrow> visible sz f bad m = []"
proof -
  assume "\<not> Suc m * sz \<le> length f" "0 < sz"
  then have "\<not> Suc m \<le> length f div sz" using less_eq_div_iff_mult_less_eq by blast
  then show ?thesis by (simp add: visible_def)
qed

lemma try_block_spec:
  assumes cl: "clean_flash ops fd flash at bad" and ok: "part_ok part (length (flash s))" and ec: "ecc_steady ops fd failed" and c: "failed s = c"
    and room: "Suc m * mp_erase_size part \<le> length (flash s)"
  shows "\<exists>a s'. try_block ops part fd c (int (m * mp_erase_size part)) s = (a, s') \<and> flash s' = flash s \<and>
    a = (if shown (mp_erase_size part) (flash s) bad m then Got (block (mp_erase_size part) (flash s) m) else Skip_block) \<and>
    at s' = int (Suc m * mp_erase_size part) \<and> failed s' = c"
proof -
  let ?sz = "mp_erase_size part" and ?p = "int (m * mp_erase_size part)"
  note h = cl [unfolded clean_flash_def, THEN conjunct1] and cc = cl [unfolded clean_flash_def, THEN conjunct2]
  obtain q s1 where l: "md_lseek ops fd ?p s = (q, s1)" by (cases "md_lseek ops fd ?p s")
  have "0 \<le> ?p \<and> ?p \<le> int (length (flash s))" using room by (simp del: of_nat_mult)
  from cc [THEN conjunct1, rule_format, OF this] have q: "q = ?p" unfolding l by simp
  have s1: "flash s1 = flash s" "at s1 = ?p" using honest_rules(2,3) [OF h] l q by auto
  obtain n bs s2 where r: "md_read ops fd ?sz s1 = (n, bs, s2)" by (cases "md_read ops fd ?sz s1") auto
  have "int (m * ?sz) + int ?sz \<le> int (length (flash s))" using room by (simp only: mult_Suc of_nat_add [symmetric] of_nat_le_iff add.commute)
  then have n: "n = int ?sz" using cc [THEN conjunct2, THEN conjunct1, rule_format, of s1 ?sz] r s1 by simp
  have s2: "flash s2 = flash s" "bs = block ?sz (flash s) m" "at s2 = int (Suc m * ?sz)"
    using honest_rules(4,5) [OF h, of ?sz s1] r n s1 by (auto simp: block_def simp del: of_nat_mult)
  have f2: "failed s1 = c" "failed s2 = c" using ec [unfolded ecc_steady_def, THEN conjunct2] l r c by (metis snd_conv)+
  obtain s3 where e: "md_eccstats ops fd s2 = (Some c, s3)" "failed s3 = c"
    using ec [unfolded ecc_steady_def, THEN conjunct1, rule_format, of s2] f2(2) by (cases "md_eccstats ops fd s2") simp
  have s3: "flash s3 = flash s" "at s3 = at s2" using honest_rules(6) [OF h e(1)] s2 by auto
  obtain b s4 where b: "md_badblock ops fd ?p s3 = (b, s4)" by (cases "md_badblock ops fd ?p s3")
  have bb: "b = (if bad ?p then 1 else 0)" using cc [THEN conjunct2, THEN conjunct2, THEN conjunct2, rule_format, of ?p s3] b by simp
  have s4: "flash s4 = flash s" "at s4 = int (Suc m * ?sz)" using honest_rules(7) [OF h b] s3 s2 by auto
  have f4: "failed s4 = c" using ec [unfolded ecc_steady_def, THEN conjunct2] b e(2) by (metis snd_conv)
  have "try_block ops part fd c ?p s = (if shown ?sz (flash s) bad m then Got bs else Skip_block, s4)"
    unfolding try_block_def l Let_def prod.case q r n e(1) part_ok_s32(1) [OF ok] option.case b
    using bb s2(2) by (auto simp: shown_def)
  then show ?thesis using s4 s2 f4 by auto
qed

text \<open>The result of reading one block from block \<open>m\<close> on.\<close>

definition block_read :: "('s \<Rightarrow> byte list) \<Rightarrow> ('s \<Rightarrow> int) \<Rightarrow> (int \<Rightarrow> bool) \<Rightarrow> nat \<Rightarrow> nat \<Rightarrow> byte list \<Rightarrow> byte list option \<Rightarrow> 's \<Rightarrow> bool" where
  "block_read flash at bad sz m f r s' \<longleftrightarrow> flash s' = f \<and>
     (case r of None \<Rightarrow> visible sz f bad m = []
      | Some bytes \<Rightarrow> length bytes = sz \<and> (\<exists>m'. at s' = int (m' * sz) \<and> visible sz f bad m = bytes @ visible sz f bad m'))"

lemma read_block_loop_spec:
  assumes "clean_flash ops fd flash at bad" "part_ok part (length (flash s))" "ecc_steady ops fd failed" "failed s = c"
  shows "\<exists>r s'. read_block_loop ops part fd c (int (m * mp_erase_size part)) s = Some (r, s') \<and> block_read flash at bad (mp_erase_size part) m (flash s) r s'"
  using assms
proof (induction "length (flash s) - m" arbitrary: m s rule: less_induct)
  case less
  let ?sz = "mp_erase_size part" and ?N = "length (flash s)"
  have sz: "0 < ?sz" using less.prems(2) by (simp add: part_ok_def)
  have p: "int (m * ?sz) + int ?sz = int (Suc m * ?sz)" by simp
  have unf: "read_block_loop ops part fd c (int (m * ?sz)) s = (if Suc m * ?sz \<le> ?N
      then (case try_block ops part fd c (int (m * ?sz)) s of
              (Got bytes, s) \<Rightarrow> Some (Some bytes, s) | (Stop_error, s) \<Rightarrow> Some (None, s)
            | (Skip_block, s) \<Rightarrow> read_block_loop ops part fd c (int (Suc m * ?sz)) s) else Some (None, s))"
    unfolding read_block_loop.simps [of ops part fd c "int (m * ?sz)"] part_ok_s32 [OF less.prems(2)] p of_nat_le_iff ..
  show ?case
  proof (cases "Suc m * ?sz \<le> ?N")
    case False
    then show ?thesis unfolding unf using visible_end [OF False sz] by (simp add: block_read_def)
  next
    case True
    obtain s1 where t: "try_block ops part fd c (int (m * ?sz)) s = (if shown ?sz (flash s) bad m then Got (block ?sz (flash s) m) else Skip_block, s1)"
        "flash s1 = flash s" "at s1 = int (Suc m * ?sz)" "failed s1 = c"
      using try_block_spec [OF less.prems(1,2) less.prems(3,4) True] by blast
    have "m < ?N" using True sz by (cases ?sz) auto
    then have dec: "length (flash s1) - Suc m < ?N - m" using t(2) by simp
    have len: "length (block ?sz (flash s) m) = ?sz" using True by (simp add: block_def)
    show ?thesis
    proof (cases "shown ?sz (flash s) bad m")
      case sh: True
      then show ?thesis unfolding unf using True t len visible_step [OF True sz, of bad] by (auto simp: block_read_def simp del: mult_Suc of_nat_mult)
    next
      case False
      then have "visible ?sz (flash s) bad m = visible ?sz (flash s) bad (Suc m)" using visible_step [OF True sz, of bad] by simp
      then have "block_read flash at bad ?sz (Suc m) (flash s) r s' \<Longrightarrow> block_read flash at bad ?sz m (flash s) r s'" for r s'
        by (simp only: block_read_def)
      moreover have "\<exists>r s'. read_block_loop ops part fd c (int (Suc m * ?sz)) s1 = Some (r, s') \<and> block_read flash at bad ?sz (Suc m) (flash s) r s'"
        using less.hyps [OF dec less.prems(1) _ less.prems(3) t(4)] less.prems(2) unfolding t(2) by blast
      ultimately show ?thesis unfolding unf using True t(1) False by (auto simp del: mult_Suc of_nat_mult)
    qed
  qed
qed

text \<open>A reader in order: what is still to come is the rest of its buffer and the visible blocks from its position on.\<close>

definition unread :: "('s \<Rightarrow> byte list) \<Rightarrow> ('s \<Rightarrow> int) \<Rightarrow> (int \<Rightarrow> bool) \<Rightarrow> MtdReadContext \<Rightarrow> 's \<Rightarrow> byte list \<Rightarrow> bool" where
  "unread flash at bad ctx s u \<longleftrightarrow>
     (let sz = mp_erase_size (rc_partition ctx) in
      rc_consumed ctx \<le> sz \<and> (rc_consumed ctx < sz \<longrightarrow> length (rc_buffer ctx) = sz) \<and>
      (\<exists>m. at s = int (m * sz) \<and> u = (if rc_consumed ctx < sz then drop (rc_consumed ctx) (rc_buffer ctx) else []) @ visible sz (flash s) bad m))"

lemma read_block_spec:
  assumes cl: "clean_flash ops fd flash at bad" and ok: "part_ok part (length (flash s))" and at: "at s = int (m * mp_erase_size part)"
  shows "\<exists>r s'. read_block ops part fd s = Some (r, s') \<and> block_read flash at bad (mp_erase_size part) m (flash s) r s'"
proof -
  obtain failed where ec: "ecc_steady ops fd failed" using cl by (auto simp: clean_flash_def)
  have h: "honest_flash ops fd flash at" using cl by (simp add: clean_flash_def)
  obtain s1 where e: "md_eccstats ops fd s = (Some (failed s), s1)" "failed s1 = failed s"
    using ec [unfolded ecc_steady_def, THEN conjunct1, rule_format, of s] by (cases "md_eccstats ops fd s") simp
  have s1: "flash s1 = flash s" "at s1 = at s" using honest_rules(6) [OF h e(1)] by auto
  have "read_block ops part fd s = read_block_loop ops part fd (failed s) (int (m * mp_erase_size part)) s1"
    using e(1) honest_rules(1) [OF h, of s1] s1(2) at by (simp add: read_block_def)
  then show ?thesis using read_block_loop_spec [OF cl _ ec e(2), of part m] ok unfolding s1(1) by simp
qed

lemma copy_out_spec:
  assumes "unread flash at bad ctx s u" "length got < len" "copy_out ctx len got = (ctx', got')"
  shows "rc_partition ctx' = rc_partition ctx" "rc_fd ctx' = rc_fd ctx"
    "\<exists>d u'. got' = got @ d \<and> u = d @ u' \<and> unread flash at bad ctx' s u'" "length got' \<le> len"
    "length got' < len \<Longrightarrow> rc_consumed ctx' = mp_erase_size (rc_partition ctx)"
    "rc_consumed ctx < mp_erase_size (rc_partition ctx) \<Longrightarrow> length got < length got'"
proof -
  let ?sz = "mp_erase_size (rc_partition ctx)"
  obtain m where u: "rc_consumed ctx \<le> ?sz" "rc_consumed ctx < ?sz \<longrightarrow> length (rc_buffer ctx) = ?sz" "at s = int (m * ?sz)"
      "u = (if rc_consumed ctx < ?sz then drop (rc_consumed ctx) (rc_buffer ctx) else []) @ visible ?sz (flash s) bad m"
    using assms(1) by (auto simp: unread_def Let_def)
  define cp where "cp = min (len - length got) (?sz - rc_consumed ctx)"
  have e: "ctx' = ctx\<lparr>rc_consumed := rc_consumed ctx + cp\<rparr>" "got' = got @ take cp (drop (rc_consumed ctx) (rc_buffer ctx))" if "rc_consumed ctx < ?sz"
    using assms(3) that by (auto simp: copy_out_def cp_def min_def Let_def split: if_split_asm)
  have n: "ctx' = ctx" "got' = got" if "\<not> rc_consumed ctx < ?sz" using assms(3) that by (auto simp: copy_out_def)
  show "rc_partition ctx' = rc_partition ctx" "rc_fd ctx' = rc_fd ctx" using e n by (cases "rc_consumed ctx < ?sz"; simp)+
  show "length got' \<le> len" "length got' < len \<Longrightarrow> rc_consumed ctx' = ?sz" "rc_consumed ctx < ?sz \<Longrightarrow> length got < length got'"
    using e n u(1,2) assms(2) by (cases "rc_consumed ctx < ?sz"; auto simp: cp_def)+
  show "\<exists>d u'. got' = got @ d \<and> u = d @ u' \<and> unread flash at bad ctx' s u'"
  proof (cases "rc_consumed ctx < ?sz")
    case True
    let ?d = "take cp (drop (rc_consumed ctx) (rc_buffer ctx))"
    have "drop (rc_consumed ctx) (rc_buffer ctx) = ?d @ drop (rc_consumed ctx + cp) (rc_buffer ctx)"
      by (metis append_take_drop_id drop_drop add.commute)
    then have "u = ?d @ drop (rc_consumed ctx + cp) (rc_buffer ctx) @ visible ?sz (flash s) bad m"
      using u(4) True by (simp only: if_True append_assoc [symmetric])
    moreover have "unread flash at bad ctx' s (drop (rc_consumed ctx + cp) (rc_buffer ctx) @ visible ?sz (flash s) bad m)"
      unfolding unread_def Let_def e(1) [OF True] using u True by (auto simp: cp_def intro!: exI [of _ m])
    ultimately show ?thesis using e(2) [OF True] by blast
  qed (use n assms(1) in auto)
qed

lemma read_direct_spec:
  assumes "clean_flash ops (rc_fd ctx) flash at bad" "part_ok (rc_partition ctx) (length (flash s))" "unread flash at bad ctx s u" "length got \<le> len"
  shows "\<exists>ok got' s'. read_direct ops ctx len got s = Some (ok, got', s') \<and> flash s' = flash s \<and>
    (if ok then \<exists>d u'. got' = got @ d \<and> u = d @ u' \<and> unread flash at bad ctx s' u' \<and> length got' \<le> len
     else length got + length u < len)"
  using assms
proof (induction "len - length got" arbitrary: got s u rule: less_induct)
  case less
  let ?sz = "mp_erase_size (rc_partition ctx)"
  have sz: "0 < ?sz" using less.prems(2) by (simp add: part_ok_def)
  show ?case
  proof (cases "rc_consumed ctx = ?sz \<and> len - length got \<ge> ?sz")
    case False
    then have "read_direct ops ctx len got s = Some (True, got, s)" by (subst read_direct.simps) auto
    then show ?thesis using less.prems by auto
  next
    case True
    obtain m where m: "at s = int (m * ?sz)" "u = visible ?sz (flash s) bad m" using less.prems(3) True by (auto simp: unread_def Let_def)
    obtain r s1 where r: "read_block ops (rc_partition ctx) (rc_fd ctx) s = Some (r, s1)" "block_read flash at bad ?sz m (flash s) r s1"
      using read_block_spec [OF less.prems(1,2) m(1)] by blast
    show ?thesis
    proof (cases r)
      case None
      then have e: "read_direct ops ctx len got s = Some (False, got, s1)" using True r(1) by (subst read_direct.simps) simp
      have "u = []" "flash s1 = flash s" using r(2) None m(2) by (simp_all add: block_read_def)
      moreover have "length got < len" using True sz by linarith
      ultimately show ?thesis unfolding e by (intro exI [of _ False]) simp
    next
      case (Some bytes)
      obtain m' where b: "length bytes = ?sz" "at s1 = int (m' * ?sz)" "u = bytes @ visible ?sz (flash s) bad m'" "flash s1 = flash s"
        using r(2) Some m(2) by (auto simp: block_read_def)
      have u1: "unread flash at bad ctx s1 (visible ?sz (flash s) bad m')" using True b(2,4) by (auto simp: unread_def Let_def)
      have e: "read_direct ops ctx len got s = read_direct ops ctx len (got @ bytes) s1" using True r(1) Some by (subst read_direct.simps) simp
      have "len - length (got @ bytes) < len - length got" unfolding length_append b(1) using True sz by linarith
      moreover have "length (got @ bytes) \<le> len" unfolding length_append b(1) using True sz by linarith
      ultimately obtain ok got' s' where i: "read_direct ops ctx len (got @ bytes) s1 = Some (ok, got', s')" "flash s' = flash s"
          "if ok then \<exists>d u'. got' = (got @ bytes) @ d \<and> visible ?sz (flash s) bad m' = d @ u' \<and> unread flash at bad ctx s' u' \<and> length got' \<le> len
           else length (got @ bytes) + length (visible ?sz (flash s) bad m') < len"
        using less.hyps [OF _ less.prems(1) _ u1, of "got @ bytes"] less.prems(2) unfolding b(4) by blast
      show ?thesis unfolding e i(1) using i(2,3) b(3) by (auto split: if_split_asm)
    qed
  qed
qed

lemma read_data_loop_spec:
  assumes "clean_flash ops (rc_fd ctx) flash at bad" "part_ok (rc_partition ctx) (length (flash s))" "unread flash at bad ctx s u"
    and "length got \<le> len" "len < 2 ^ 31"
  shows "\<exists>r got' ctx' s'. read_data_loop ops ctx len got s = Some (r, got', ctx', s') \<and> flash s' = flash s \<and>
    (if len \<le> length got + length u
     then r = int len \<and> got' = got @ take (len - length got) u \<and> rc_partition ctx' = rc_partition ctx \<and> rc_fd ctx' = rc_fd ctx \<and>
       unread flash at bad ctx' s' (drop (len - length got) u)
     else r = -1)"
  using assms
proof (induction "2 * (len - length got) + (if rc_consumed ctx < mp_erase_size (rc_partition ctx) then 0 else 1)" arbitrary: got ctx s u rule: less_induct)
  case less
  let ?sz = "mp_erase_size (rc_partition ctx)"
  have l32: "s32 (int len) = int len" using less.prems(5) by (intro s32_small) auto
  have sz: "0 < ?sz" using less.prems(2) by (simp add: part_ok_def)
  show ?case
  proof (cases "length got < len")
    case False
    then have "read_data_loop ops ctx len got s = Some (int (length got), got, ctx, s)" by (subst read_data_loop.simps) (simp add: l32)
    then show ?thesis using False less.prems by auto
  next
    case True
    obtain c1 g1 where c: "copy_out ctx len got = (c1, g1)" by (cases "copy_out ctx len got")
    note cs = copy_out_spec [OF less.prems(3) True c]
    obtain d1 u1 where d1: "g1 = got @ d1" "u = d1 @ u1" "unread flash at bad c1 s u1" using cs(3) by blast
    have cl1: "clean_flash ops (rc_fd c1) flash at bad" "part_ok (rc_partition c1) (length (flash s))" using less.prems(1,2) cs(1,2) by simp_all
    obtain ok g2 s2 where rd: "read_direct ops c1 len g1 s = Some (ok, g2, s2)" "flash s2 = flash s"
        "if ok then \<exists>d u'. g2 = g1 @ d \<and> u1 = d @ u' \<and> unread flash at bad c1 s2 u' \<and> length g2 \<le> len else length g1 + length u1 < len"
      using read_direct_spec [OF cl1 d1(3) cs(4)] by blast
    note unf = read_data_loop.simps [of ops ctx len got s, unfolded l32 c prod.case rd(1)]
    show ?thesis
    proof (cases ok)
      case False
      then have "read_data_loop ops ctx len got s = Some (-1, g2, c1, s2)" using unf True by simp
      then show ?thesis using rd(2,3) False d1 by simp
    next
      case ok: True
      obtain d2 u2 where d2: "g2 = g1 @ d2" "u1 = d2 @ u2" "unread flash at bad c1 s2 u2" "length g2 \<le> len" using rd(3) ok by auto
      have gu: "g2 = got @ d1 @ d2" "u = (d1 @ d2) @ u2" using d1 d2 by simp_all
      show ?thesis
      proof (cases "length g2 = len")
        case full: True
        then have "read_data_loop ops ctx len got s = Some (int len, g2, c1, s2)" using unf True ok by simp
        moreover have "take (len - length got) u = d1 @ d2" "drop (len - length got) u = u2" "len \<le> length got + length u" using full gu by auto
        ultimately show ?thesis using d2(3) rd(2) cs(1,2) gu(1) by auto
      next
        case False
        then have lt: "length g2 < len" using d2(4) by simp
        have con: "rc_consumed c1 = ?sz" using cs(5) d2(1) lt by simp
        obtain m where m: "at s2 = int (m * ?sz)" "u2 = visible ?sz (flash s2) bad m" using d2(3) con cs(1) by (auto simp: unread_def Let_def)
        have cl2: "clean_flash ops (rc_fd c1) flash at bad" "part_ok (rc_partition c1) (length (flash s2))" using cl1 rd(2) by simp_all
        obtain r s3 where r: "read_block ops (rc_partition c1) (rc_fd c1) s2 = Some (r, s3)" "block_read flash at bad ?sz m (flash s2) r s3"
          using read_block_spec [OF cl2, of m] m(1) cs(1) by auto
        show ?thesis
        proof (cases r)
          case None
          then have "read_data_loop ops ctx len got s = Some (-1, g2, c1, s3)" using unf True ok lt con cs(1) r(1) by simp
          moreover have "u2 = []" "flash s3 = flash s" using r(2) None m(2) rd(2) by (simp_all add: block_read_def)
          ultimately show ?thesis using lt gu by simp
        next
          case (Some bytes)
          let ?c = "c1\<lparr>rc_buffer := bytes, rc_consumed := 0\<rparr>"
          have e: "read_data_loop ops ctx len got s = read_data_loop ops ?c len g2 s3" using unf True ok lt con cs(1) r(1) Some by simp
          obtain m' where b: "length bytes = ?sz" "at s3 = int (m' * ?sz)" "u2 = bytes @ visible ?sz (flash s2) bad m'" "flash s3 = flash s2"
            using r(2) Some m(2) by (auto simp: block_read_def)
          have u3: "unread flash at bad ?c s3 u2" using b cs(1) sz by (auto simp: unread_def Let_def)
          have "2 * (len - length g2) < 2 * (len - length got) + (if rc_consumed ctx < ?sz then 0 else 1)"
          proof (cases "rc_consumed ctx < ?sz")
            case True
            then have "length got < length g2" using cs(6) d2(1) by simp
            then show ?thesis using True lt by simp
          next
            case False
            then show ?thesis using gu(1) by simp
          qed
          then have dec: "2 * (len - length g2) + (if rc_consumed ?c < mp_erase_size (rc_partition ?c) then 0 else 1) <
              2 * (len - length got) + (if rc_consumed ctx < ?sz then 0 else 1)" using sz cs(1) by simp
          have p3: "clean_flash ops (rc_fd ?c) flash at bad" "part_ok (rc_partition ?c) (length (flash s3))" using cl1 b(4) rd(2) by simp_all
          have "len - length got = length (d1 @ d2) + (len - length g2)" using gu(1) lt by simp
          then have t: "take (len - length got) u = (d1 @ d2) @ take (len - length g2) u2" "drop (len - length got) u = drop (len - length g2) u2"
            unfolding gu(2) by simp_all
          have q: "len \<le> length g2 + length u2 \<longleftrightarrow> len \<le> length got + length u" using gu by (simp add: add.assoc)
          from less.hyps [OF dec p3 u3 d2(4) less.prems(5)] show ?thesis
            unfolding e t q using b(4) rd(2) cs(1,2) gu(1) by (auto split: if_split_asm)
        qed
      qed
    qed
  qed
qed

lemma mtd_read_partition_fresh:
  assumes "mtd_read_partition ops p s0 = Done (Some ctx, s)"
  shows "rc_partition ctx = p" "at s = 0 \<Longrightarrow> unread flash at bad ctx s (visible (mp_erase_size p) (flash s) bad 0)"
  using assms by (auto simp: mtd_read_partition_def unread_def Let_def split: if_split_asm prod.split_asm option.split_asm intro!: exI [of _ 0])

lemma fresh_read:
  assumes "mtd_read_partition ops p s0 = Done (Some ctx, s)" "clean_flash ops (rc_fd ctx) flash at bad" "part_ok p (length (flash s))" "at s = 0" "len < 2 ^ 31"
  shows "\<exists>r got ctx' s'. mtd_read_data ops ctx len s = Some (r, got, ctx', s') \<and>
    (if len \<le> length (visible (mp_erase_size p) (flash s) bad 0) then r = int len \<and> got = take len (visible (mp_erase_size p) (flash s) bad 0) else r = -1)"
proof -
  note f = mtd_read_partition_fresh(1) [OF assms(1)] mtd_read_partition_fresh(2) [where at = at and flash = flash and bad = bad, OF assms(1,4)]
  from read_data_loop_spec [OF assms(2) _ f(2) _ assms(5), of "[]"] assms(3) f(1) show ?thesis
    unfolding mtd_read_data_def by (auto split: if_split_asm)
qed

text \<open>
  C22. What reading delivers: from a device without read errors and without ECC errors that reports its bad blocks, reading a partition that has just been opened, and has the size of the device, gives the bytes of its
  blocks in order, leaving out the bad blocks and the blocks that contain only zeros, and reports an error exactly when there
  are not enough of them.\<close>

theorem mtd_read_visible:
  assumes "mtd_read_partition ops p s0 = Done (Some ctx, s)" "clean_flash ops (rc_fd ctx) flash at bad" "part_ok p (length (flash s))" "at s = 0" "len < 2 ^ 31"
  shows "\<exists>r got ctx' s'. mtd_read_data ops ctx len s = Some (r, got, ctx', s') \<and>
    (if len \<le> length (visible (mp_erase_size p) (flash s) bad 0) then r = int len \<and> got = take len (visible (mp_erase_size p) (flash s) bad 0) else r = -1)"
  using assms by (rule fresh_read)

section \<open>Writing and reading back\<close>

text \<open>Every block of the data contains something other than zero.\<close>

definition blocks_nonzero :: "nat \<Rightarrow> byte list \<Rightarrow> bool" where
  "blocks_nonzero sz bytes \<longleftrightarrow> (\<forall>j < length bytes. j * sz < length bytes \<longrightarrow> (\<exists>b \<in> set (block sz bytes j). b \<noteq> 0))"

lemma block_length: "Suc k * sz \<le> length f \<Longrightarrow> length (block sz f k) = sz"
  by (simp add: block_def)

lemma concat_blocks_nth:
  assumes "\<forall>k \<in> set ks. length (block sz f k) = sz" "i < length ks"
  shows "block sz (concat (map (block sz f) ks)) i = block sz f (ks ! i)"
  using assms
proof (induction ks arbitrary: i)
  case (Cons k ks)
  show ?case
  proof (cases i)
    case 0
    then show ?thesis using Cons.prems(1) by (simp add: block_def)
  next
    case (Suc j)
    have "block sz (block sz f k @ concat (map (block sz f) ks)) (Suc j) = block sz (concat (map (block sz f) ks)) j"
      using Cons.prems(1) by (simp add: block_def [of sz "block sz f k @ _"] block_def [of sz "concat _"])
    then show ?thesis using Cons Suc by simp
  qed
qed simp

lemma visible_stored:
  assumes st: "stored_ok (Some bad) sz f badl m (bytes @ replicate pad 0)" and pad: "pad < sz" and nz: "blocks_nonzero sz bytes"
  shows "\<exists>rest. visible sz f bad 0 = bytes @ rest"
proof -
  have sz: "0 < sz" using pad by simp
  let ?ks = "filter (\<lambda>k. int (k * sz) \<notin> set badl) [0..<m]"
  note o = st [unfolded stored_ok_def]
  have len: "\<forall>k \<in> set ?ks. length (block sz f k) = sz"
  proof
    fix k assume "k \<in> set ?ks"
    then have "Suc k * sz \<le> m * sz" by (intro mult_le_mono1) auto
    then show "length (block sz f k) = sz" using o by (intro block_length) linarith
  qed
  have cat: "concat (map (block sz f) ?ks) = bytes @ replicate pad 0" using o by (simp add: stored_data_def)
  have total: "length ?ks * sz = length bytes + pad"
  proof -
    have "length (concat (map (block sz f) ks)) = length ks * sz" if "\<forall>k \<in> set ks. length (block sz f k) = sz" for ks
      using that by (induction ks) auto
    from this [OF len] show ?thesis unfolding cat by simp
  qed
  have "\<exists>b \<in> set (block sz f (?ks ! i)). b \<noteq> 0" if i: "i < length ?ks" for i
  proof -
    have "Suc i * sz \<le> length ?ks * sz" using i by (intro mult_le_mono1) simp
    then have l: "i * sz < length bytes" using total pad by simp
    then have "i < length bytes" using sz by (metis le_less_trans mult.commute mult_le_mono1 nat_mult_1 Suc_leI One_nat_def)
    then obtain b where b: "b \<in> set (block sz bytes i)" "b \<noteq> 0" using nz l unfolding blocks_nonzero_def by blast
    have "set (block sz bytes i) \<subseteq> set (block sz (bytes @ replicate pad 0) i)"
      by (auto simp: block_def)
    then show ?thesis using b concat_blocks_nth [OF len i] unfolding cat by auto
  qed
  then have "\<forall>k \<in> set ?ks. \<exists>b \<in> set (block sz f k). b \<noteq> 0" by (metis in_set_conv_nth)
  then have fs: "filter (shown sz f bad) [0..<m] = ?ks"
    using o by (intro filter_cong) (auto simp: shown_def simp del: of_nat_mult)
  have "m \<le> length f div sz" using o sz less_eq_div_iff_mult_less_eq by blast
  then have "[0..<length f div sz] = [0..<m] @ [m..<length f div sz]" using upt_add_eq_append [of 0 m "length f div sz - m"] by simp
  then show ?thesis using cat fs by (simp add: visible_def)
qed

text \<open>
  C15. Data is read back as it was written: on a device that only fails at the blocks it reports as bad, what was written to a
  partition and closed without an error is what reading delivers, provided that no block of the data is all zeros.\<close>

theorem mtd_round_trip:
  assumes "mtd_write_partition ops p s0 = (Some ctx, s)" "reliable_flash ops (wc_fd ctx) flash at bad" "part_ok p (length (flash s))" "at s = 0"
    and "mtd_write_data ops ctx bytes s = Some (int (length bytes), ctx1, s1)" "mtd_write_close ops ctx1 s1 = Some (Done (0, s2))"
    and "mtd_read_partition ops p s2 = Done (Some rctx, s3)" "clean_flash ops (rc_fd rctx) flash at bad" "flash s3 = flash s2" "at s3 = 0"
    and "blocks_nonzero (mp_erase_size p) bytes" "length bytes < 2 ^ 31"
  shows "\<exists>ctx' s'. mtd_read_data ops rctx (length bytes) s3 = Some (int (length bytes), bytes, ctx', s')"
proof -
  have kn: "knows ops (wc_fd ctx) flash at (Some bad)" using assms(2) by (simp add: knows_def reliable_flash_def clean_flash_def)
  obtain badl m pad where st: "length (flash s2) = length (flash s)" "pad < mp_erase_size p"
      "stored_ok (Some bad) (mp_erase_size p) (flash s2) badl m (bytes @ replicate pad 0)"
    using fresh_write_close [OF assms(1) kn assms(3,4,5)] assms(6) by auto
  obtain rest where v: "visible (mp_erase_size p) (flash s3) bad 0 = bytes @ rest" using visible_stored [OF st(3,2) assms(11)] assms(9) by auto
  have "part_ok p (length (flash s3))" using assms(3,9) st(1) by simp
  from fresh_read [OF assms(7,8) this assms(10,12)] v show ?thesis by auto
qed

section \<open>Uncorrectable blocks\<close>

text \<open>The counter of failed corrections never decreases.\<close>

definition ecc_counts :: "'s mtdops \<Rightarrow> nat \<Rightarrow> ('s \<Rightarrow> nat) \<Rightarrow> bool" where
  "ecc_counts ops fd failed \<longleftrightarrow>
     (\<forall>s. md_eccstats ops fd s = (Some (failed s), s)) \<and>
     (\<forall>p s. failed s \<le> failed (snd (md_lseek ops fd p s))) \<and>
     (\<forall>n s. failed s \<le> failed (snd (snd (md_read ops fd n s)))) \<and>
     (\<forall>p s. failed s \<le> failed (snd (md_badblock ops fd p s)))"

lemma try_block_failed:
  assumes ec: "ecc_counts ops fd failed" and lt: "before < failed s"
  shows "\<exists>s'. try_block ops part fd before pos s = (Skip_block, s') \<and> before < failed s'"
proof -
  obtain q s1 where l: "md_lseek ops fd pos s = (q, s1)" by (cases "md_lseek ops fd pos s")
  obtain n bs s2 where r: "md_read ops fd (mp_erase_size part) s1 = (n, bs, s2)" by (cases "md_read ops fd (mp_erase_size part) s1") auto
  have "failed s \<le> failed s1" using ec l unfolding ecc_counts_def by (metis snd_conv)
  moreover have "failed s1 \<le> failed s2" using ec r unfolding ecc_counts_def by (metis snd_conv)
  moreover have e: "md_eccstats ops fd s2 = (Some (failed s2), s2)" using ec unfolding ecc_counts_def by blast
  ultimately show ?thesis using lt unfolding try_block_def l Let_def prod.case r e by auto
qed

lemma read_block_loop_failed:
  assumes ec: "ecc_counts ops fd failed" and ok: "part_ok part N"
  shows "before < failed s \<Longrightarrow> \<exists>s'. read_block_loop ops part fd before pos s = Some (None, s')"
proof (induction "nat (int N - pos)" arbitrary: pos s rule: less_induct)
  case less
  let ?sz = "mp_erase_size part"
  have sz: "0 < ?sz" using ok by (simp add: part_ok_def)
  obtain s1 where t: "try_block ops part fd before pos s = (Skip_block, s1)" "before < failed s1" using try_block_failed [OF ec less.prems] by blast
  have unf: "read_block_loop ops part fd before pos s = (if pos + int ?sz \<le> int N then read_block_loop ops part fd before (pos + int ?sz) s1 else Some (None, s))"
    unfolding read_block_loop.simps [of ops part fd before pos s] part_ok_s32 [OF ok] t(1) by simp
  show ?case
  proof (cases "pos + int ?sz \<le> int N")
    case True
    then have "nat (int N - (pos + int ?sz)) < nat (int N - pos)" using sz by linarith
    from less.hyps [OF this t(2)] show ?thesis unfolding unf using True by simp
  next
    case False
    then show ?thesis unfolding unf by simp
  qed
qed

text \<open>
  C33. One uncorrectable block makes the rest of a partition unreadable: the counter of failures is only read once before the search
  for a good block, so that after a failure every later block counts as failed and the call reports an error, although the
  block is meant to be skipped.\<close>

theorem ecc_error_ends_read:
  assumes "ecc_counts ops fd failed" "part_ok part N" "md_tell ops fd s + int (mp_erase_size part) \<le> int N"
    and "try_block ops part fd (failed s) (md_tell ops fd s) s = (Skip_block, s1)" "failed s < failed s1"
  shows "\<exists>s'. read_block ops part fd s = Some (None, s')"
proof -
  have "md_eccstats ops fd s = (Some (failed s), s)" using assms(1) unfolding ecc_counts_def by blast
  then have "read_block ops part fd s = read_block_loop ops part fd (failed s) (md_tell ops fd s + int (mp_erase_size part)) s1"
    using assms(3,4) by (simp add: read_block_def read_block_loop.simps [of ops part fd "failed s" "md_tell ops fd s"] part_ok_s32 [OF assms(2)])
  then show ?thesis using read_block_loop_failed [OF assms(1,2,5)] by simp
qed

section \<open>Examples\<close>

definition sim_rctx :: MtdReadContext where
  "sim_rctx = \<lparr>rc_partition = sim_part, rc_buffer = [], rc_consumed = 4, rc_fd = 3\<rparr>"

lemma sim_read_open: "mtd_read_partition (sim_ops bad ecc) sim_part (f, p, c) = Done (Some sim_rctx, (f, 0, c))"
  by (simp add: mtd_read_partition_def sim_ops_def sim_rctx_def sim_part_def)

theorem mtd_read_visible_witness:
  "\<exists>ctx' s'. mtd_read_data (sim_ops sim_bad (\<lambda>p. False)) sim_rctx 6 ([1, 2, 3, 4, 8, 8, 8, 8, 0, 0, 0, 0, 5, 6, 0, 0], 0, 0) = Some (6, [1, 2, 3, 4, 5, 6], ctx', s')"
proof -
  let ?f = "[1, 2, 3, 4, 8, 8, 8, 8, 0, 0, 0, 0, 5, 6, 0, 0] :: byte list"
  have v: "visible (mp_erase_size sim_part) (sim_flash (?f, 0 :: int, 0 :: nat)) sim_bad 0 = [1, 2, 3, 4, 5, 6, 0, 0]" by code_simp
  have "part_ok sim_part (length (sim_flash (?f, 0 :: int, 0 :: nat)))" by (simp add: part_ok_def sim_part_def)
  from mtd_read_visible [OF sim_read_open sim_clean [where bad = sim_bad] this, of 6] show ?thesis unfolding v by simp
qed

theorem mtd_round_trip_witness:
  "\<exists>ctx' s'. mtd_read_data (sim_ops sim_bad (\<lambda>p. False)) sim_rctx 10 ([1, 2, 3, 4, 0, 0, 0, 0, 5, 6, 7, 8, 9, 10, 0, 0], 0, 0) =
    Some (10, [1, 2, 3, 4, 5, 6, 7, 8, 9, 10], ctx', s')"
proof -
  let ?b = "[1, 2, 3, 4, 5, 6, 7, 8, 9, 10] :: byte list" and ?f = "[1, 2, 3, 4, 0, 0, 0, 0, 5, 6, 7, 8, 9, 10, 0, 0] :: byte list"
  have nz: "blocks_nonzero (mp_erase_size sim_part) ?b"
    unfolding blocks_nonzero_def
  proof (intro allI impI)
    fix j assume "j * mp_erase_size sim_part < length ?b"
    then have "j = 0 \<or> j = 1 \<or> j = 2" by (simp add: sim_part_def) linarith
    then show "\<exists>b \<in> set (block (mp_erase_size sim_part) ?b j). b \<noteq> 0" by (auto simp: block_def sim_part_def)
  qed
  have w: "mtd_write_data (sim_ops sim_bad (\<lambda>p. False)) sim_wctx ?b sim_start =
      Some (int (length ?b), sim_wctx1, [1, 2, 3, 4, 0, 0, 0, 0, 5, 6, 7, 8, 0, 0, 0, 0], 12, 0)" using sim_write_run by simp
  have l: "length ?b = 10" by simp
  from mtd_round_trip [OF sim_write_open sim_reliable sim_part_ok _ w sim_close_run sim_read_open sim_clean _ _ nz] show ?thesis
    unfolding l by (simp add: sim_start_def)
qed

theorem ecc_error_ends_read_witness:
  "\<exists>s'. read_block (sim_ops (\<lambda>p. False) (\<lambda>p. p = 0)) sim_part 3 (replicate 16 7, 0, 0) = Some (None, s')"
proof -
  have ec: "ecc_counts (sim_ops (\<lambda>p. False) (\<lambda>p. p = 0)) 3 (snd \<circ> snd)" by (auto simp: ecc_counts_def sim_ops_def)
  have po: "part_ok sim_part 16" by (simp add: part_ok_def sim_part_def)
  have t: "try_block (sim_ops (\<lambda>p. False) (\<lambda>p. p = 0)) sim_part 3 0 0 (replicate 16 7, 0, 0) = (Skip_block, (replicate 16 7, 4, 1))" by code_simp
  have m: "md_tell (sim_ops (\<lambda>p. False) (\<lambda>p. p = 0)) 3 (replicate 16 7, 0, 0) = 0" by (simp add: sim_ops_def)
  show ?thesis by (rule ecc_error_ends_read [OF ec po, of _ "(replicate 16 7, 4, 1)"]) (use t m in \<open>simp_all add: sim_part_def\<close>)
qed

end
