(* ===== verification/Mtd_Interface.thy ===== *)
theory Mtd_Interface
  imports Mtd_Read
begin

text \<open>
  The flash layer as \<^verbatim>\<open>applypatch\<close> uses it: the functions of \<^verbatim>\<open>mtdutils/mtdutils.c\<close> provide the interface that the model of
  \<^verbatim>\<open>applypatch/applypatch.c\<close> takes as a parameter, and keep the laws it relies on.  The state is that of the system, the table of
  partitions and the flag \<^verbatim>\<open>mtd_partitions_scanned\<close>.
\<close>

section \<open>Model\<close>

text \<open>A call that faults or does not return is represented by the result for an error; the laws below only speak of successful results.\<close>

definition mtdutils :: "'s mtdops \<Rightarrow> ('s \<times> MtdState \<times> bool, MtdReadContext, MtdWriteContext) mtd_if" where
  "mtdutils ops =
     \<lparr>mi_scanned = (\<lambda>(s, st, scanned). scanned),
      mi_scan = (\<lambda>(s, st, scanned). (s, case mtd_scan_partitions ops st s of Done (_, st) \<Rightarrow> st | Fault \<Rightarrow> st, True)),
      mi_find = (\<lambda>p (s, st, scanned). mtd_find_partition_by_name st p \<noteq> None),
      mi_read_partition = (\<lambda>p (s, st, scanned).
        case mtd_find_partition_by_name st p of
          None \<Rightarrow> (None, (s, st, scanned))
        | Some part \<Rightarrow> (case mtd_read_partition ops part s of Done (ctx, s) \<Rightarrow> (ctx, (s, st, scanned)) | Fault \<Rightarrow> (None, (s, st, scanned)))),
      mi_read_data = (\<lambda>n ctx (s, st, scanned).
        case mtd_read_data ops ctx n s of Some (r, got, ctx, s) \<Rightarrow> (r, got, ctx, (s, st, scanned)) | None \<Rightarrow> (-1, [], ctx, (s, st, scanned))),
      mi_read_close = (\<lambda>ctx (s, st, scanned). (mtd_read_close ops ctx s, st, scanned)),
      mi_write_partition = (\<lambda>p (s, st, scanned).
        case mtd_find_partition_by_name st p of
          None \<Rightarrow> (None, (s, st, scanned))
        | Some part \<Rightarrow> (case mtd_write_partition ops part s of (ctx, s) \<Rightarrow> (ctx, (s, st, scanned)))),
      mi_write_data = (\<lambda>bytes ctx (s, st, scanned).
        case mtd_write_data ops ctx bytes s of Some (r, ctx, s) \<Rightarrow> (r, ctx, (s, st, scanned)) | None \<Rightarrow> (-1, ctx, (s, st, scanned))),
      mi_erase_blocks = (\<lambda>blocks ctx (s, st, scanned).
        case mtd_erase_blocks ops ctx blocks s of Some (Done (r, ctx, s)) \<Rightarrow> (r, ctx, (s, st, scanned)) | _ \<Rightarrow> (-1, ctx, (s, st, scanned))),
      mi_write_close = (\<lambda>ctx (s, st, scanned).
        case mtd_write_close ops ctx s of Some (Done (r, s)) \<Rightarrow> (r, (s, st, scanned)) | _ \<Rightarrow> (-1, (s, st, scanned)))\<rparr>"

section \<open>The laws\<close>

text \<open>The driver leaves something alone, such as the contents of files, when a device is opened, read and closed.\<close>

definition reading_keeps :: "'s mtdops \<Rightarrow> ('s \<Rightarrow> 'a) \<Rightarrow> bool" where
  "reading_keeps ops g \<longleftrightarrow>
     (\<forall>w n s. g (snd (md_open ops w n s)) = g s) \<and> (\<forall>fd s. g (snd (md_close ops fd s)) = g s) \<and>
     (\<forall>fd s. g (snd (md_eccstats ops fd s)) = g s) \<and> (\<forall>fd p s. g (snd (md_lseek ops fd p s)) = g s) \<and>
     (\<forall>fd n s. g (snd (snd (md_read ops fd n s))) = g s) \<and> (\<forall>fd p s. g (snd (md_badblock ops fd p s)) = g s)"

lemma reading_keeps_rules:
  assumes "reading_keeps ops g"
  shows "md_open ops w n s = (o', s') \<Longrightarrow> g s' = g s" "md_close ops fd s = (b, s') \<Longrightarrow> g s' = g s"
    "md_eccstats ops fd s = (e, s') \<Longrightarrow> g s' = g s" "md_lseek ops fd p s = (q, s') \<Longrightarrow> g s' = g s"
    "md_read ops fd k s = (m, bs, s') \<Longrightarrow> g s' = g s" "md_badblock ops fd p s = (i, s') \<Longrightarrow> g s' = g s"
  using assms unfolding reading_keeps_def by (metis snd_conv)+

lemma try_block_keeps:
  assumes k: "reading_keeps ops g" and run: "try_block ops part fd before pos s = (a, s')"
  shows "g s' = g s"
proof -
  obtain q s1 where l: "md_lseek ops fd pos s = (q, s1)" by (cases "md_lseek ops fd pos s")
  obtain n bs s2 where r: "md_read ops fd (mp_erase_size part) s1 = (n, bs, s2)" by (cases "md_read ops fd (mp_erase_size part) s1") auto
  obtain e s3 where e: "md_eccstats ops fd s2 = (e, s3)" by (cases "md_eccstats ops fd s2")
  obtain b s4 where b: "md_badblock ops fd pos s3 = (b, s4)" by (cases "md_badblock ops fd pos s3")
  have "g s1 = g s" "g s2 = g s1" "g s3 = g s2" "g s4 = g s3"
    using reading_keeps_rules(4) [OF k l] reading_keeps_rules(5) [OF k r] reading_keeps_rules(3) [OF k e] reading_keeps_rules(6) [OF k b] .
  moreover have "s' \<in> {s1, s2, s3, s4}" using run unfolding try_block_def l Let_def prod.case r e b by (auto split: if_split_asm option.split_asm)
  ultimately show ?thesis by auto
qed

lemma read_block_keeps:
  assumes k: "reading_keeps ops g" and run: "read_block ops part fd s = Some (r, s')"
  shows "g s' = g s"
proof -
  have loop: "g (snd y) = g s" if r: "read_block_loop ops part fd before pos s = Some y" for before pos s y
  proof -
    have "ops = ops \<longrightarrow> g (snd y) = g s"
    proof (rule read_block_loop.raw_induct [where P = "\<lambda>o' part fd before pos s y. o' = ops \<longrightarrow> g (snd y) = g s", OF _ r], intro impI, goal_cases)
      case (1 loop o' part fd before pos s y)
      obtain a s1 where t: "try_block ops part fd before pos s = (a, s1)" by (cases "try_block ops part fd before pos s")
      show ?case using 1 t try_block_keeps [OF k t] by (cases a) (auto split: if_split_asm)
    qed
    then show ?thesis by simp
  qed
  obtain e s1 where e: "md_eccstats ops fd s = (e, s1)" by (cases "md_eccstats ops fd s")
  show ?thesis using run e loop reading_keeps_rules(3) [OF k e] by (auto simp: read_block_def split: option.split_asm dest!: loop)
qed

lemma read_direct_keeps:
  assumes k: "reading_keeps ops g" and run: "read_direct ops ctx len got s = Some (ok, got', s')"
  shows "g s' = g s"
proof -
  have "ops = ops \<longrightarrow> g (snd (snd (ok, got', s'))) = g s"
  proof (rule read_direct.raw_induct [where P = "\<lambda>o' ctx len got s y. o' = ops \<longrightarrow> g (snd (snd y)) = g s", OF _ run], intro impI, goal_cases)
    case (1 loop o' ctx len got s y)
    then show ?case by (cases y) (fastforce simp: bind_eq_Some_conv split: if_split_asm option.split_asm dest: read_block_keeps [OF k])
  qed
  then show ?thesis by simp
qed

text \<open>The number that reading returns is the number of bytes it has stored, or the error.\<close>

lemma mtd_read_data_count:
  assumes k: "reading_keeps ops g" and run: "mtd_read_data ops ctx len s = Some (r, got', ctx', s')"
  shows "r = int (length got') \<or> r = -1" "g s' = g s"
proof -
  let ?Q = "\<lambda>s y. (fst y = int (length (fst (snd y))) \<or> fst y = (- 1 :: int)) \<and> g (snd (snd (snd y))) = g s"
  have "ops = ops \<longrightarrow> ?Q s (r, got', ctx', s')"
  proof (rule read_data_loop.raw_induct [where P = "\<lambda>o' ctx len got s y. o' = ops \<longrightarrow> ?Q s y", OF _ run [unfolded mtd_read_data_def]], intro impI, goal_cases)
    case (1 loop o' ctx len got s y)
    obtain c1 g1 where c: "copy_out ctx len got = (c1, g1)" by (cases "copy_out ctx len got")
    show ?case
    proof (cases "int (length got) < s32 (int len)")
      case False
      then have "Some (int (length got), got, ctx, s) = Some y" using 1(2) by simp
      then have "y = (int (length got), got, ctx, s)" by simp
      then show ?thesis by simp
    next
      case True
      obtain ok g2 s2 where d: "read_direct ops c1 len g1 s = Some (ok, g2, s2)" 
        using 1(2) True c 1(3) by (auto simp: bind_eq_Some_conv)
      have s2: "g s2 = g s" by (rule read_direct_keeps [OF k d])
      note b = 1(2) [unfolded c 1(3) prod.case d Option.bind.bind_lunit, simplified True if_True]
      obtain y1 y2 y3 y4 where y: "y = (y1, y2, y3, y4)" by (cases y)
      show ?thesis unfolding y using b [unfolded y] s2 1(1,3)
        by (fastforce simp: bind_eq_Some_conv split: if_split_asm option.split_asm dest: read_block_keeps [OF k])
    qed
  qed
  then show "r = int (length got') \<or> r = -1" "g s' = g s" by simp_all
qed

text \<open>
  The flash layer keeps what \<^verbatim>\<open>applypatch\<close> relies on: a read that reports the requested number of bytes has stored that many, and
  scanning, opening, reading and closing partitions leave the files alone when the driver does.\<close>

theorem mtdutils_meets_applypatch:
  assumes "reading_keeps ops (\<lambda>s f. content f s)"
  shows "reads_exact (mtdutils ops) \<and> mtd_keeps (mtdutils ops) (\<lambda>f (s, st, scanned). content f s)"
proof
  show "reads_exact (mtdutils ops)"
    unfolding reads_exact_def by (auto simp: mtdutils_def split: option.split_asm dest!: mtd_read_data_count(1) [OF assms])
  have rp: "content f s' = content f s" if "mtd_read_partition ops part s = Done (x, s')" for part s x s' f
    using that by (auto simp: mtd_read_partition_def split: if_split_asm prod.split_asm option.split_asm dest!: reading_keeps_rules(1) [OF assms] fun_cong)
  have rd: "content f s' = content f s" if "mtd_read_data ops ctx n s = Some (r, got, ctx', s')" for ctx n s r got ctx' s' f
    using mtd_read_data_count(2) [OF assms that] by (rule fun_cong)
  have cl: "content f (mtd_read_close ops ctx s) = content f s" for f ctx s
    using assms unfolding mtd_read_close_def reading_keeps_def by metis
  show "mtd_keeps (mtdutils ops) (\<lambda>f (s, st, scanned). content f s)"
    unfolding mtd_keeps_def mtdutils_def by (auto simp: cl rp rd split: option.split outcome.split)
qed

theorem mtdutils_meets_applypatch_witness:
  "reads_exact (mtdutils (sim_ops sim_bad (\<lambda>p. False))) \<and> mtd_keeps (mtdutils (sim_ops sim_bad (\<lambda>p. False))) (\<lambda>f (s, st, scanned). Some (sim_flash s))"
  by (rule mtdutils_meets_applypatch [where content = "\<lambda>f s. Some (sim_flash s)"]) (auto simp: reading_keeps_def sim_ops_def)

end
