(* ===== verification/Mounts.thy ===== *)
theory Mounts
  imports Mtdutils
begin

text \<open>
  The table of mounted volumes, \<^verbatim>\<open>mtdutils/mounts.c\<close>: it is read from \<open>/proc/mounts\<close>, searched by device or mount point, and an
  entry is cleared when its volume is unmounted.  The contents of \<open>/proc/mounts\<close> and \<^verbatim>\<open>umount\<close> are parameters; copies of strings whose
  result the source does not look at succeed.
\<close>

section \<open>Model\<close>

record MountedVolume =
  mv_device :: "string option"
  mv_mount_point :: "string option"
  mv_filesystem :: "string option"
  mv_flags :: "string option"

record MountsState =
  mts_volumes :: "MountedVolume list option"
  mts_volume_count :: nat

definition no_volume :: MountedVolume where
  "no_volume = \<lparr>mv_device = None, mv_mount_point = None, mv_filesystem = None, mv_flags = None\<rparr>"

definition NUM_VOLUMES :: nat where "NUM_VOLUMES = 32"

text \<open>The conversion \<open>%s\<close> with a width.\<close>

definition scan_word :: "nat \<Rightarrow> string \<Rightarrow> (string \<times> string) option" where
  "scan_word width str =
     (let t = dropWhile isspace str; word = take width (takeWhile (\<lambda>c. \<not> isspace c) t)
      in if word = [] then None else Some (word, drop (length word) t))"

text \<open>The four conversions of \<open>%63s %63s %63s %127s\<close>, or \<open>None\<close> when fewer succeed.\<close>

definition sscanf_mount :: "string \<Rightarrow> (string \<times> string \<times> string \<times> string) option" where
  "sscanf_mount buf =
     (case scan_word 63 buf of
        None \<Rightarrow> None
      | Some (device, r1) \<Rightarrow>
          (case scan_word 63 r1 of
             None \<Rightarrow> None
           | Some (mount_point, r2) \<Rightarrow>
               (case scan_word 63 r2 of
                  None \<Rightarrow> None
                | Some (filesystem, r3) \<Rightarrow> map_option (\<lambda>(flags, _). (device, mount_point, filesystem, flags)) (scan_word 127 r3))))"

text \<open>The loop over the lines; the array of volumes is not enlarged, so that a volume too many is stored outside it.\<close>

function scan_mounts :: "string \<Rightarrow> MountedVolume list \<Rightarrow> nat \<Rightarrow> (MountedVolume list \<times> nat) outcome" where
  "scan_mounts buf volumes volume_count =
     (if buf = [] then Done (volumes, volume_count)
      else case sscanf_mount buf of
             None \<Rightarrow> scan_mounts (eat_line buf) volumes volume_count
           | Some (device, mount_point, filesystem, flags) \<Rightarrow>
               if length volumes \<le> volume_count then Fault
               else scan_mounts (eat_line buf)
                      (volumes[volume_count := \<lparr>mv_device = Some device, mv_mount_point = Some mount_point,
                                                mv_filesystem = Some filesystem, mv_flags = Some flags\<rparr>]) (volume_count + 1))"
  by pat_completeness auto
termination
  by (relation "measure (\<lambda>(buf, volumes, volume_count). length buf)") (auto simp: eat_line_shorter)

declare scan_mounts.simps [simp del]

definition scan_mounted_volumes :: "bool \<Rightarrow> string option \<Rightarrow> MountsState \<Rightarrow> (int \<times> MountsState) outcome" where
  "scan_mounted_volumes malloc_ok proc st =
     (case (case mts_volumes st of
              None \<Rightarrow> if malloc_ok then Some (replicate NUM_VOLUMES no_volume) else None
            | Some vs \<Rightarrow> Some (replicate (mts_volume_count st) no_volume @ drop (mts_volume_count st) vs)) of
        None \<Rightarrow> Done (-1, st)
      | Some vs \<Rightarrow>
          (case proc of
             None \<Rightarrow> Done (-1, \<lparr>mts_volumes = Some vs, mts_volume_count = 0\<rparr>)
           | Some buf \<Rightarrow>
               (case scan_mounts (take 2047 buf) vs 0 of
                  Fault \<Rightarrow> Fault
                | Done (vs, n) \<Rightarrow> Done (0, \<lparr>mts_volumes = Some vs, mts_volume_count = n\<rparr>))))"

text \<open>The index of the first volume, among those counted, that satisfies a condition.\<close>

definition find_volume :: "(MountedVolume \<Rightarrow> bool) \<Rightarrow> MountsState \<Rightarrow> nat option" where
  "find_volume P st =
     (case mts_volumes st of
        None \<Rightarrow> None
      | Some vs \<Rightarrow> List.find (\<lambda>i. P (vs ! i)) [0..<mts_volume_count st])"

definition find_mounted_volume_by_device :: "string \<Rightarrow> MountsState \<Rightarrow> nat option" where
  "find_mounted_volume_by_device device st = find_volume (\<lambda>v. mv_device v = Some device) st"

definition find_mounted_volume_by_mount_point :: "string \<Rightarrow> MountsState \<Rightarrow> nat option" where
  "find_mounted_volume_by_mount_point mount_point st = find_volume (\<lambda>v. mv_mount_point v = Some mount_point) st"

text \<open>The system call may get a null pointer, when the volume was unmounted before.\<close>

definition unmount_mounted_volume :: "(string option \<Rightarrow> 's \<Rightarrow> int \<times> 's) \<Rightarrow> nat \<Rightarrow> MountsState \<Rightarrow> 's \<Rightarrow> (int \<times> MountsState \<times> 's) outcome" where
  "unmount_mounted_volume umount volume st s =
     (case mts_volumes st of
        None \<Rightarrow> Fault
      | Some vs \<Rightarrow>
          if length vs \<le> volume then Fault
          else let (ret, s) = umount (mv_mount_point (vs ! volume)) s in
          if ret = 0 then Done (0, st\<lparr>mts_volumes := Some (vs[volume := no_volume])\<rparr>, s) else Done (ret, st, s))"

section \<open>Scanning the text of the kernel\<close>

type_synonym mount_entry = "string \<times> string \<times> string \<times> string"

definition mount_line :: "mount_entry \<Rightarrow> string" where
  "mount_line e = (case e of (dev, mp, fs, fl) \<Rightarrow> dev @ '' '' @ mp @ '' '' @ fs @ '' '' @ fl @ '' 0 0'' @ [CHR 10])"

definition word_ok :: "nat \<Rightarrow> string \<Rightarrow> bool" where
  "word_ok width w \<longleftrightarrow> w \<noteq> [] \<and> length w \<le> width \<and> (\<forall>c \<in> set w. \<not> isspace c)"

definition mount_ok :: "mount_entry \<Rightarrow> bool" where
  "mount_ok e = (case e of (dev, mp, fs, fl) \<Rightarrow> word_ok 63 dev \<and> word_ok 63 mp \<and> word_ok 63 fs \<and> word_ok 127 fl)"

definition entry_volume :: "mount_entry \<Rightarrow> MountedVolume" where
  "entry_volume e = (case e of (dev, mp, fs, fl) \<Rightarrow>
     \<lparr>mv_device = Some dev, mv_mount_point = Some mp, mv_filesystem = Some fs, mv_flags = Some fl\<rparr>)"

lemma scan_word_next:
  assumes "word_ok width w"
  shows "scan_word width (w @ CHR '' '' # r) = Some (w, CHR '' '' # r)" "scan_word width (CHR '' '' # w @ CHR '' '' # r) = Some (w, CHR '' '' # r)"
proof -
  have sp: "isspace (CHR '' '')" by (simp add: isspace_def)
  obtain c cs where c: "w = c # cs" "\<not> isspace c" using assms by (cases w) (auto simp: word_ok_def)
  have tw: "takeWhile (\<lambda>c. \<not> isspace c) (w @ CHR '' '' # r) = w"
    using assms sp by (subst takeWhile_append2) (auto simp: word_ok_def)
  have dw: "dropWhile isspace (w @ CHR '' '' # r) = w @ CHR '' '' # r" using c by simp
  show 1: "scan_word width (w @ CHR '' '' # r) = Some (w, CHR '' '' # r)"
    unfolding scan_word_def dw Let_def tw using assms by (simp add: word_ok_def)
  have "dropWhile isspace (CHR '' '' # w @ CHR '' '' # r) = w @ CHR '' '' # r" using sp dw by simp
  then show "scan_word width (CHR '' '' # w @ CHR '' '' # r) = Some (w, CHR '' '' # r)"
    unfolding scan_word_def Let_def using tw assms by (simp add: word_ok_def)
qed

lemma sscanf_mount_line: "mount_ok (dev, mp, fs, fl) \<Longrightarrow> sscanf_mount (mount_line (dev, mp, fs, fl) @ r) = Some (dev, mp, fs, fl)"
  using scan_word_next(1) [of 63 dev] scan_word_next(2) [of 63 mp] scan_word_next(2) [of 63 fs] scan_word_next(2) [of 127 fl]
  by (simp add: mount_ok_def mount_line_def sscanf_mount_def)

lemma eat_mount_line:
  assumes "mount_ok e"
  shows "eat_line (mount_line e @ r) = r"
proof -
  obtain dev mp fs fl where e: "e = (dev, mp, fs, fl)" by (cases e)
  have n: "CHR 10 \<notin> set w" if "word_ok k w" for k w
    using that by (auto simp: word_ok_def isspace_def)
  have "CHR 10 \<notin> set (dev @ '' '' @ mp @ '' '' @ fs @ '' '' @ fl @ '' 0 0'')" using assms n by (auto simp: e mount_ok_def)
  then have "dropWhile (\<lambda>c. c \<noteq> CHR 10) ((dev @ '' '' @ mp @ '' '' @ fs @ '' '' @ fl @ '' 0 0'') @ CHR 10 # r) = CHR 10 # r"
    by (subst dropWhile_append2) auto
  moreover have "mount_line e @ r = (dev @ '' '' @ mp @ '' '' @ fs @ '' '' @ fl @ '' 0 0'') @ CHR 10 # r" by (simp add: mount_line_def e)
  ultimately show ?thesis by (simp only: eat_line_def drop_Suc_Cons drop_0 One_nat_def)
qed

lemma scan_mounts_step:
  assumes "mount_ok e"
  shows "scan_mounts (mount_line e @ r) vs n = (if length vs \<le> n then Fault else scan_mounts r (vs[n := entry_volume e]) (n + 1))"
proof -
  obtain dev mp fs fl where e: "e = (dev, mp, fs, fl)" by (cases e)
  have "mount_line e @ r \<noteq> []" by (simp add: mount_line_def e)
  then show ?thesis using sscanf_mount_line [of dev mp fs fl r] eat_mount_line [OF assms, of r] assms
    by (subst scan_mounts.simps) (auto simp: e entry_volume_def)
qed

lemma scan_mounts_lines:
  "list_all mount_ok es \<Longrightarrow> scan_mounts (concat (map mount_line es)) vs n =
    (if n + length es \<le> length vs \<or> es = [] then Done (take n vs @ map entry_volume es @ drop (n + length es) vs, n + length es) else Fault)"
proof (induction es arbitrary: vs n)
  case Nil
  then show ?case by (simp add: scan_mounts.simps)
next
  case (Cons e es)
  have "scan_mounts (concat (map mount_line (e # es))) vs n =
      (if length vs \<le> n then Fault else scan_mounts (concat (map mount_line es)) (vs[n := entry_volume e]) (n + 1))"
    using scan_mounts_step [of e "concat (map mount_line es)" vs n] Cons.prems by simp
  moreover have "take (n + 1) (vs[n := entry_volume e]) = take n vs @ [entry_volume e]" if "n < length vs"
    using that by (simp add: take_Suc_conv_app_nth)
  ultimately show ?case using Cons by (auto simp: not_le)
qed

definition mounts_wf :: "MountsState \<Rightarrow> bool" where
  "mounts_wf st = (case mts_volumes st of None \<Rightarrow> True | Some vs \<Rightarrow> length vs = NUM_VOLUMES \<and> mts_volume_count st \<le> NUM_VOLUMES)"

lemma scan_mounted_volumes_lines:
  assumes "list_all mount_ok es" "length (concat (map mount_line es)) \<le> 2047" "mounts_wf st"
  shows "\<exists>vs. length vs = NUM_VOLUMES \<and> scan_mounted_volumes True (Some (concat (map mount_line es))) st =
    (if length es \<le> NUM_VOLUMES then Done (0, \<lparr>mts_volumes = Some (map entry_volume es @ drop (length es) vs), mts_volume_count = length es\<rparr>) else Fault)"
proof -
  define vs where "vs = (case mts_volumes st of None \<Rightarrow> replicate NUM_VOLUMES no_volume
      | Some vs \<Rightarrow> replicate (mts_volume_count st) no_volume @ drop (mts_volume_count st) vs)"
  have len: "length vs = NUM_VOLUMES" using assms(3) by (auto simp: vs_def mounts_wf_def split: option.splits)
  have "scan_mounted_volumes True (Some (concat (map mount_line es))) st =
      (case scan_mounts (concat (map mount_line es)) vs 0 of Fault \<Rightarrow> Fault | Done (vs, n) \<Rightarrow> Done (0, \<lparr>mts_volumes = Some vs, mts_volume_count = n\<rparr>))"
    using assms(2) by (auto simp: scan_mounted_volumes_def vs_def split: option.splits)
  then show ?thesis using scan_mounts_lines [OF assms(1), of vs 0] len by (intro exI [of _ vs]) (auto simp: NUM_VOLUMES_def)
qed

lemma scan_then_find:
  assumes "list_all mount_ok es" "length (concat (map mount_line es)) \<le> 2047" "mounts_wf st" "length es \<le> 32"
  shows "\<exists>st'. scan_mounted_volumes True (Some (concat (map mount_line es))) st = Done (0, st') \<and> mounts_wf st' \<and>
    (\<forall>mp. find_mounted_volume_by_mount_point mp st' = List.find (\<lambda>i. fst (snd (es ! i)) = mp) [0..<length es])"
proof -
  obtain vs where vs: "length vs = NUM_VOLUMES" "scan_mounted_volumes True (Some (concat (map mount_line es))) st =
      Done (0, \<lparr>mts_volumes = Some (map entry_volume es @ drop (length es) vs), mts_volume_count = length es\<rparr>)"
    using scan_mounted_volumes_lines [OF assms(1-3)] assms(4) by (auto simp: NUM_VOLUMES_def)
  let ?st = "\<lparr>mts_volumes = Some (map entry_volume es @ drop (length es) vs), mts_volume_count = length es\<rparr>"
  have "mounts_wf ?st" using vs(1) assms(4) by (simp add: mounts_wf_def NUM_VOLUMES_def)
  moreover have "find_mounted_volume_by_mount_point mp ?st = List.find (\<lambda>i. fst (snd (es ! i)) = mp) [0..<length es]" for mp
  proof -
    have "mv_mount_point ((map entry_volume es @ drop (length es) vs) ! i) = Some mp \<longleftrightarrow> fst (snd (es ! i)) = mp" if "i \<in> set [0..<length es]" for i
      using that by (auto simp: nth_append entry_volume_def split: prod.splits)
    then show ?thesis unfolding find_mounted_volume_by_mount_point_def find_volume_def by (auto intro!: find_cong)
  qed
  ultimately show ?thesis using vs(2) by blast
qed

text \<open>
  Scanning finds the mounted volumes: for the text that the kernel prints for at most 32 volumes, the scan succeeds and a volume is
  found by its mount point exactly when it is mounted, the first one if there are several.\<close>

theorem mounts_scanned:
  assumes "list_all mount_ok es" "length (concat (map mount_line es)) \<le> 2047" "mounts_wf st" "length es \<le> 32"
  shows "\<exists>st'. scan_mounted_volumes True (Some (concat (map mount_line es))) st = Done (0, st') \<and> mounts_wf st' \<and>
    (\<forall>mp. find_mounted_volume_by_mount_point mp st' = List.find (\<lambda>i. fst (snd (es ! i)) = mp) [0..<length es])"
  using assms by (rule scan_then_find)

text \<open>
  C34. The array of mounted volumes has 32 elements and is never enlarged: with more volumes mounted, the scan writes behind it.\<close>

theorem too_many_mounts_fault:
  assumes "list_all mount_ok es" "length (concat (map mount_line es)) \<le> 2047" "mounts_wf st" "length es > 32"
  shows "scan_mounted_volumes True (Some (concat (map mount_line es))) st = Fault"
  using scan_mounted_volumes_lines [OF assms(1-3)] assms(4) by (auto simp: NUM_VOLUMES_def)

theorem mounts_scanned_witness:
  "\<exists>st'. scan_mounted_volumes True (Some ''rootfs / rootfs rw 0 0\<newline>/dev/block/mtdblock4 /system yaffs2 ro 0 0\<newline>'') \<lparr>mts_volumes = None, mts_volume_count = 0\<rparr> = Done (0, st') \<and>
    find_mounted_volume_by_mount_point ''/system'' st' = Some 1 \<and> find_mounted_volume_by_mount_point ''/data'' st' = None"
proof -
  let ?es = "[(''rootfs'', ''/'', ''rootfs'', ''rw''), (''/dev/block/mtdblock4'', ''/system'', ''yaffs2'', ''ro'')]"
  have ok: "list_all mount_ok ?es" by (simp add: mount_ok_def word_ok_def isspace_def)
  have t: "concat (map mount_line ?es) = ''rootfs / rootfs rw 0 0\<newline>/dev/block/mtdblock4 /system yaffs2 ro 0 0\<newline>''" by (simp add: mount_line_def)
  have l: "length (concat (map mount_line ?es)) \<le> 2047" "mounts_wf \<lparr>mts_volumes = None, mts_volume_count = 0\<rparr>" "length ?es \<le> 32" by (simp_all add: mount_line_def mounts_wf_def)
  obtain st' where "scan_mounted_volumes True (Some (concat (map mount_line ?es))) \<lparr>mts_volumes = None, mts_volume_count = 0\<rparr> = Done (0, st')"
      "\<forall>mp. find_mounted_volume_by_mount_point mp st' = List.find (\<lambda>i. fst (snd (?es ! i)) = mp) [0..<length ?es]"
    using mounts_scanned [OF ok l(1,2,3)] by blast
  then show ?thesis unfolding t by (auto simp: upt_rec)
qed

theorem too_many_mounts_fault_witness:
  "scan_mounted_volumes True (Some (concat (map mount_line (replicate 33 (''a'', ''b'', ''c'', ''d''))))) \<lparr>mts_volumes = None, mts_volume_count = 0\<rparr> = Fault"
proof (rule too_many_mounts_fault)
  have "length (concat (map mount_line (replicate n (''a'', ''b'', ''c'', ''d'')))) = 12 * n" for n by (induction n) (simp_all add: mount_line_def)
  then show "length (concat (map mount_line (replicate 33 (''a'', ''b'', ''c'', ''d'')))) \<le> 2047" by simp
qed (simp_all add: list_all_iff mount_ok_def word_ok_def isspace_def mounts_wf_def)

end
