(* ===== verification/Mtd_Table.thy ===== *)
theory Mtd_Table
  imports Mtdutils
begin

text \<open>
  The table of partitions: scanning the text that the kernel prints in \<open>/proc/mtd\<close> with \<^verbatim>\<open>mtd_scan_partitions\<close> of
  \<^verbatim>\<open>mtdutils/mtdutils.c\<close> gives back the partitions, which can then be found by name.
\<close>

section \<open>The text of the kernel\<close>

fun show_hex :: "nat \<Rightarrow> nat \<Rightarrow> string" where
  "show_hex 0 n = []"
| "show_hex (Suc k) n = show_hex k (n div 16) @ [hex_char (n mod 16)]"

type_synonym mtd_entry = "nat \<times> nat \<times> string"

definition proc_line :: "nat \<Rightarrow> mtd_entry \<Rightarrow> string" where
  "proc_line i e =
     (case e of (sz, es, nm) \<Rightarrow> ''mtd'' @ show_nat i @ '': '' @ show_hex 8 sz @ '' '' @ show_hex 8 es @ '' '' @ [CHR 34] @ nm @ [CHR 34, CHR 10])"

fun proc_lines :: "nat \<Rightarrow> mtd_entry list \<Rightarrow> string" where
  "proc_lines i [] = []"
| "proc_lines i (e # es) = proc_line i e @ proc_lines (Suc i) es"

definition proc_mtd :: "mtd_entry list \<Rightarrow> string" where
  "proc_mtd es = ''dev:    size   erasesize  name'' @ [CHR 10] @ proc_lines 0 es"

definition mtd_entry_ok :: "mtd_entry \<Rightarrow> bool" where
  "mtd_entry_ok e = (case e of (sz, es, nm) \<Rightarrow> sz < 2 ^ 32 \<and> es < 2 ^ 32 \<and> nm \<noteq> [] \<and> length nm \<le> 63 \<and> CHR 34 \<notin> set nm \<and> CHR 10 \<notin> set nm)"

section \<open>Parsing a line\<close>

lemma hex_char_props:
  assumes "d < 16"
  shows "digit_val (hex_char d) = Some d" "is_base_digit 16 (hex_char d)" "\<not> isspace (hex_char d)" "hex_char d \<noteq> CHR ''-''" "hex_char d \<noteq> CHR ''+''"
    "hex_char d \<noteq> CHR ''x''" "hex_char d \<noteq> CHR ''X''" "hex_char d \<noteq> CHR 10"
proof -
  have c: "code (hex_char d) = (if d < 10 then 48 + d else 87 + d)" using assms by (simp add: hex_char_def)
  show dv: "digit_val (hex_char d) = Some d" using assms by (auto simp: digit_val_def c)
  show "is_base_digit 16 (hex_char d)" using assms by (simp add: is_base_digit_def dv)
  show "\<not> isspace (hex_char d)" by (auto simp: isspace_def c)
  show "hex_char d \<noteq> CHR ''-''" "hex_char d \<noteq> CHR ''+''" "hex_char d \<noteq> CHR ''x''" "hex_char d \<noteq> CHR ''X''" "hex_char d \<noteq> CHR 10"
    using c assms by (auto split: if_split_asm)
qed

lemma show_hex_chars: "c \<in> set (show_hex k n) \<Longrightarrow> \<exists>d < 16. c = hex_char d"
proof (induction k arbitrary: n)
  case (Suc k)
  have l: "n mod 16 < 16" by simp
  have "c \<in> set (show_hex k (n div 16)) \<or> c = hex_char (n mod 16)" using Suc.prems by auto
  then show ?case using Suc.IH l by blast
qed simp

lemma show_hex_length [simp]: "length (show_hex k n) = k"
  by (induction k arbitrary: n) auto

lemma show_hex_digits: "list_all (is_base_digit 16) (show_hex k n)"
  using show_hex_chars hex_char_props(2) by (fastforce simp: list_all_iff)

lemma digits_val_show_hex: "n < 16 ^ k \<Longrightarrow> digits_val 16 a (show_hex k n) = (a * 16 ^ k + n, [])"
proof (induction k arbitrary: n)
  case (Suc k)
  have "n div 16 < 16 ^ k" using Suc.prems by (simp add: less_mult_imp_div_less mult.commute)
  from Suc.IH [OF this] show ?case
    using digits_val_append [OF show_hex_digits [of k "n div 16"], of a "[hex_char (n mod 16)]"] hex_char_props(1,2) [of "n mod 16"]
    by (simp add: algebra_simps)
qed simp

lemma parse_num_hex:
  assumes "n < 2 ^ 32" "\<not> is_base_digit 16 c"
  shows "parse_num 16 (CHR '' '' # show_hex 8 n @ c # r) = Some (False, n, c # r)"
proof -
  have "length (show_hex 8 n) = Suc (Suc 6)" by simp
  then obtain a b rest where ab: "show_hex 8 n = a # b # rest" unfolding length_Suc_conv by blast
  obtain da db where d: "da < 16" "db < 16" "a = hex_char da" "b = hex_char db"
    using show_hex_chars [of a 8 n] show_hex_chars [of b 8 n] ab by auto
  note pa = hex_char_props [OF d(1), folded d(3)] and pb = hex_char_props [OF d(2), folded d(4)]
  have "digits_val 16 0 (show_hex 8 n @ c # r) = digits_val 16 n (c # r)"
    using digits_val_append [OF show_hex_digits [of 8 n], of 0 "c # r"] digits_val_show_hex [of n 8 0] assms(1) by simp
  then have v: "digits_val 16 0 (a # b # rest @ c # r) = (n, c # r)" using assms(2) ab by simp
  have s: "strip_0x 16 (a # b # rest @ c # r) = a # b # rest @ c # r"
    using pb(6,7) by (auto simp: strip_0x_def split: list.split)
  have sp: "isspace (CHR '' '')" by (simp add: isspace_def)
  have p: "parse_num 16 (CHR '' '' # a # b # rest @ c # r) =
      (case strip_0x 16 (a # b # rest @ c # r) of
         x # xs \<Rightarrow> if is_base_digit 16 x then let (n, rest) = digits_val 16 0 (strip_0x 16 (a # b # rest @ c # r)) in Some (False, n, rest) else None
       | [] \<Rightarrow> None)"
    using sp pa(3-5) by (simp add: parse_num_def Let_def)
  show ?thesis unfolding ab append_Cons p s list.case using pa(2) v by (simp del: digits_val.simps)
qed

lemma parse_num_dec: "\<not> is_base_digit 10 c \<Longrightarrow> parse_num 10 (show_nat i @ c # r) = Some (False, i, c # r)"
proof -
  assume c: "\<not> is_base_digit 10 c"
  obtain d ds where d: "show_nat i = digit_char d # ds" "d < 10" using show_nat_Cons by blast
  note pd = digit_char_props [OF d(2)]
  have "digits_val 10 0 (show_nat i @ c # r) = (i, c # r)"
    using digits_val_append [OF show_nat_digits [of i], of 0 "c # r"] digits_val_show_nat [of i] c by simp
  then show ?thesis unfolding d(1) append_Cons using pd by (simp add: parse_num_def del: digits_val.simps)
qed

lemma sscanf_proc_line:
  assumes "mtd_entry_ok (sz, es, nm)" "i < 2 ^ 31"
  shows "sscanf_mtd (proc_line i (sz, es, nm) @ r) = Some (int i, sz, es, nm)"
proof -
  have e: "sz < 2 ^ 32" "es < 2 ^ 32" "nm \<noteq> []" "length nm \<le> 63" "CHR 34 \<notin> set nm" using assms(1) by (simp_all add: mtd_entry_ok_def)
  define t3 where "t3 = CHR 34 # nm @ CHR 34 # CHR 10 # r"
  define t2 where "t2 = CHR '' '' # show_hex 8 es @ CHR '' '' # t3"
  define t1 where "t1 = CHR '' '' # show_hex 8 sz @ t2"
  have l: "proc_line i (sz, es, nm) @ r = ''mtd'' @ show_nat i @ CHR '':'' # t1"
    by (simp add: proc_line_def t1_def t2_def t3_def)
  have nd: "\<not> is_base_digit 10 (CHR '':'')" "\<not> is_base_digit 16 (CHR '' '')" by code_simp+
  have p1: "parse_num 10 (show_nat i @ CHR '':'' # t1) = Some (False, i, CHR '':'' # t1)" by (rule parse_num_dec [OF nd(1)])
  have p2: "parse_num 16 t1 = Some (False, sz, t2)" unfolding t1_def t2_def by (rule parse_num_hex [OF e(1) nd(2)])
  have p3: "parse_num 16 t2 = Some (False, es, CHR '' '' # t3)" unfolding t2_def by (rule parse_num_hex [OF e(2) nd(2)])
  have s1: "strtol (show_nat i @ CHR '':'' # t1) 10 = (int i, CHR '':'' # t1)" using p1 assms(2) by (simp add: strtol_def)
  have s2: "strtoul t1 16 = (of_nat sz, t2)" and s3: "strtoul t2 16 = (of_nat es, CHR '' '' # t3)" using p2 p3 e(1,2) by (simp_all add: strtoul_def)
  have w: "dropWhile isspace (CHR '' '' # t3) = t3" by (simp add: t3_def isspace_def)
  have nm: "takeWhile (\<lambda>c. c \<noteq> CHR 34) (nm @ CHR 34 # CHR 10 # r) = nm" using e(5) by (subst takeWhile_append2) auto
  have u: "unat (of_nat sz :: u32) = sz" "unat (of_nat es :: u32) = es" using e(1,2) by (simp_all add: unat_of_nat take_bit_nat_eq_self)
  show ?thesis
    unfolding sscanf_mtd_def l using p1 p2 p3 s1 s2 s3 w nm u e(3,4) by (simp add: t3_def Let_def)
qed

lemma show_nat_no_newline: "CHR 10 \<notin> set (show_nat i)"
proof (induction i rule: show_nat.induct)
  case (1 i)
  have d: "CHR 10 \<noteq> digit_char d" if "d < 10" for d
  proof -
    have "isspace (CHR 10)" by (simp add: isspace_def)
    then show ?thesis using digit_char_props(3) [OF that] by metis
  qed
  have m: "i mod 10 < 10" by simp
  show ?case using 1 d [of i] d [OF m] by (subst show_nat.simps) auto
qed

lemma eat_proc_line:
  assumes "mtd_entry_ok e"
  shows "eat_line (proc_line i e @ r) = r"
proof -
  obtain sz es nm where e: "e = (sz, es, nm)" by (cases e)
  define body where "body = ''mtd'' @ show_nat i @ '': '' @ show_hex 8 sz @ '' '' @ show_hex 8 es @ '' '' @ [CHR 34] @ nm @ [CHR 34]"
  have h: "CHR 10 \<notin> set (show_hex k n)" for k n using show_hex_chars [of "CHR 10" k n] hex_char_props(8) by metis
  have "CHR 10 \<notin> set body" using assms h show_nat_no_newline by (simp add: body_def e mtd_entry_ok_def)
  then have "dropWhile (\<lambda>c. c \<noteq> CHR 10) (body @ CHR 10 # r) = CHR 10 # r" by (subst dropWhile_append2) auto
  moreover have "proc_line i e @ r = body @ CHR 10 # r" by (simp add: proc_line_def e body_def)
  ultimately show ?thesis by (simp add: eat_line_def)
qed

section \<open>Scanning the text\<close>

definition entry_part :: "nat \<Rightarrow> mtd_entry \<Rightarrow> MtdPartition" where
  "entry_part i e = (case e of (sz, es, nm) \<Rightarrow> \<lparr>device_index = int i, mp_size = sz, mp_erase_size = es, mp_name = Some nm\<rparr>)"

fun table :: "nat \<Rightarrow> mtd_entry list \<Rightarrow> MtdPartition list \<Rightarrow> MtdPartition list" where
  "table i [] parts = parts"
| "table i (e # es) parts = table (Suc i) es (parts[i := entry_part i e])"

lemma scan_proc_lines:
  "list_all mtd_entry_ok es \<Longrightarrow> i + length es \<le> length parts \<Longrightarrow> length parts < 2 ^ 31 \<Longrightarrow>
    scan_lines (\<lambda>n. True) (proc_lines i es) parts cnt = Done (table i es parts, Some (cnt + int (length es)))"
proof (induction es arbitrary: i parts cnt)
  case Nil
  then show ?case by (simp add: scan_lines.simps)
next
  case (Cons e es)
  obtain sz er nm where e: "e = (sz, er, nm)" by (cases e)
  have ok: "mtd_entry_ok (sz, er, nm)" "i < 2 ^ 31" using Cons.prems e by auto
  have ne: "proc_lines i (e # es) \<noteq> []" by (simp add: e proc_line_def)
  have "scan_lines (\<lambda>n. True) (proc_lines i (e # es)) parts cnt = scan_lines (\<lambda>n. True) (proc_lines (Suc i) es) (parts[i := entry_part i e]) (cnt + 1)"
    using ne Cons.prems(2) sscanf_proc_line [OF ok, of "proc_lines (Suc i) es"] eat_proc_line [of e i "proc_lines (Suc i) es"] ok(1)
    by (subst scan_lines.simps) (auto simp: e entry_part_def)
  also have "\<dots> = Done (table (Suc i) es (parts[i := entry_part i e]), Some (cnt + 1 + int (length es)))"
    using Cons by simp
  finally show ?case by simp
qed

lemma table_nth:
  "i + length es \<le> length parts \<Longrightarrow> k < length parts \<Longrightarrow>
    table i es parts ! k = (if i \<le> k \<and> k < i + length es then entry_part k (es ! (k - i)) else parts ! k)"
proof (induction es arbitrary: i parts)
  case (Cons e es)
  then show ?case using Cons.IH [of "Suc i" "parts[i := entry_part i e]"] by (auto simp: nth_list_update nth_Cons' Suc_diff_Suc)
qed auto

lemma table_length [simp]: "length (table i es parts) = length parts"
  by (induction es arbitrary: i parts) auto

lemma find_nth:
  assumes "k < length xs" "P (xs ! k)" "\<And>j. j < length xs \<Longrightarrow> P (xs ! j) \<Longrightarrow> j = k"
  shows "List.find P xs = Some (xs ! k)"
  using assms find_Some_iff2 [of "xs ! k" P xs] find_Some_iff [of P xs "xs ! k"] by (metis less_imp_le_nat nat_neq_iff less_trans)

lemma scan_table:
  assumes "list_all mtd_entry_ok es" "distinct (map (snd \<circ> snd) es)" "length es \<le> 32" "length (proc_mtd es) \<le> 2047"
    and "md_proc ops s = Some (proc_mtd es)" "md_malloc ops = (\<lambda>n. True)" "ms_partitions st = None"
  shows "\<exists>st'. mtd_scan_partitions ops st s = Done (int (length es), st') \<and>
    (\<forall>i < length es. mtd_find_partition_by_name st' (snd (snd (es ! i))) = Some (entry_part i (es ! i))) \<and>
    (\<forall>nm. nm \<notin> set (map (snd \<circ> snd) es) \<longrightarrow> mtd_find_partition_by_name st' nm = None)"
proof -
  let ?p0 = "replicate NUM_PARTITIONS \<lparr>device_index = -1, mp_size = 0, mp_erase_size = 0, mp_name = None\<rparr>"
  let ?t = "table 0 es ?p0"
  have hd: "sscanf_mtd (proc_mtd es) = None" by (simp add: proc_mtd_def sscanf_mtd_def)
  have "CHR 10 \<notin> set ''dev:    size   erasesize  name''" by simp
  then have eat: "eat_line (proc_mtd es) = proc_lines 0 es" unfolding eat_line_def proc_mtd_def by (subst dropWhile_append2) auto
  have ne: "proc_mtd es \<noteq> []" by (simp add: proc_mtd_def)
  have "scan_lines (\<lambda>n. True) (proc_mtd es) ?p0 0 = Done (?t, Some (int (length es)))"
    using ne hd eat scan_proc_lines [OF assms(1), of 0 ?p0 0] assms(3) by (subst scan_lines.simps) (simp add: NUM_PARTITIONS_def)
  then have sc: "mtd_scan_partitions ops st s = Done (int (length es), \<lparr>ms_partitions = Some ?t, ms_partition_count = int (length es)\<rparr>)"
    using assms(4-7) by (simp add: mtd_scan_partitions_def)
  have nth: "?t ! k = (if k < length es then entry_part k (es ! k) else \<lparr>device_index = -1, mp_size = 0, mp_erase_size = 0, mp_name = None\<rparr>)"
    if "k < NUM_PARTITIONS" for k using table_nth [of 0 es ?p0 k] that assms(3) by (simp add: NUM_PARTITIONS_def)
  have ok: "device_index (?t ! k) \<ge> 0 \<and> mp_name (?t ! k) = Some nm \<longleftrightarrow> k < length es \<and> snd (snd (es ! k)) = nm" if "k < NUM_PARTITIONS" for k nm
    unfolding nth [OF that] by (auto simp: entry_part_def split: prod.splits)
  let ?st = "\<lparr>ms_partitions = Some ?t, ms_partition_count = int (length es)\<rparr>"
  have "mtd_find_partition_by_name ?st (snd (snd (es ! i))) = Some (entry_part i (es ! i))" if i: "i < length es" for i
  proof -
    have iN: "i < NUM_PARTITIONS" using i assms(3) by (simp add: NUM_PARTITIONS_def)
    have "List.find (\<lambda>p. device_index p \<ge> 0 \<and> mp_name p = Some (snd (snd (es ! i)))) ?t = Some (?t ! i)"
    proof (rule find_nth)
      fix j assume "j < length ?t" "device_index (?t ! j) \<ge> 0 \<and> mp_name (?t ! j) = Some (snd (snd (es ! i)))"
      then have "j < length es" "snd (snd (es ! j)) = snd (snd (es ! i))" using ok by auto
      then show "j = i" using assms(2) i by (auto simp: distinct_conv_nth)
    qed (use iN i ok in auto)
    then show ?thesis using nth [OF iN] i by (simp add: mtd_find_partition_by_name_def)
  qed
  moreover have "mtd_find_partition_by_name ?st nm = None" if "nm \<notin> set (map (snd \<circ> snd) es)" for nm
  proof -
    have "\<not> (device_index p \<ge> 0 \<and> mp_name p = Some nm)" if p: "p \<in> set ?t" for p
    proof
      assume a: "device_index p \<ge> 0 \<and> mp_name p = Some nm"
      obtain k where k: "k < NUM_PARTITIONS" "p = ?t ! k" using p by (auto simp: in_set_conv_nth)
      then have "k < length es" "snd (snd (es ! k)) = nm" using ok [OF k(1)] a by auto
      then have "map (snd \<circ> snd) es ! k = nm" "k < length (map (snd \<circ> snd) es)" by simp_all
      then show False using \<open>nm \<notin> set (map (snd \<circ> snd) es)\<close> nth_mem by blast
    qed
    then have "List.find (\<lambda>p. device_index p \<ge> 0 \<and> mp_name p = Some nm) ?t = None" unfolding find_None_iff by blast
    then show ?thesis by (simp add: mtd_find_partition_by_name_def)
  qed
  ultimately show ?thesis using sc by blast
qed

text \<open>
  C29. Scanning finds the partitions: for the text that the kernel prints for a list of partitions with different names, at most 32 of them and
  short enough for the buffer, \<^verbatim>\<open>mtd_scan_partitions\<close> returns their number, and \<^verbatim>\<open>mtd_find_partition_by_name\<close> returns each
  under its name and nothing under other names.\<close>

theorem scan_finds:
  assumes "list_all mtd_entry_ok es" "distinct (map (snd \<circ> snd) es)" "length es \<le> 32" "length (proc_mtd es) \<le> 2047"
    and "md_proc ops s = Some (proc_mtd es)" "md_malloc ops = (\<lambda>n. True)" "ms_partitions st = None"
  shows "\<exists>st'. mtd_scan_partitions ops st s = Done (int (length es), st') \<and>
    (\<forall>i < length es. mtd_find_partition_by_name st' (snd (snd (es ! i))) = Some (entry_part i (es ! i))) \<and>
    (\<forall>nm. nm \<notin> set (map (snd \<circ> snd) es) \<longrightarrow> mtd_find_partition_by_name st' nm = None)"
  using assms by (rule scan_table)

definition proc_ops :: "string \<Rightarrow> 's mtdops" where
  "proc_ops txt = \<lparr>md_malloc = (\<lambda>n. True), md_proc = (\<lambda>s. Some txt), md_open = (\<lambda>w n s. (None, s)), md_close = (\<lambda>fd s. (False, s)),
     md_eccstats = (\<lambda>fd s. (None, s)), md_tell = (\<lambda>fd s. -1), md_lseek = (\<lambda>fd p s. (-1, s)), md_read = (\<lambda>fd n s. (-1, [], s)),
     md_write = (\<lambda>fd bs s. (-1, s)), md_badblock = (\<lambda>fd p s. (-1, s)), md_erase = (\<lambda>fd p n s. (-1, s)), md_info = (\<lambda>fd s. None)\<rparr>"

theorem scan_finds_witness:
  "\<exists>st'. mtd_scan_partitions (proc_ops (proc_mtd [(524288, 131072, ''boot''), (4194304, 131072, ''misc'')])) \<lparr>ms_partitions = None, ms_partition_count = -1\<rparr> () =
      Done (2, st') \<and>
    mtd_find_partition_by_name st' ''misc'' = Some \<lparr>device_index = 1, mp_size = 4194304, mp_erase_size = 131072, mp_name = Some ''misc''\<rparr> \<and>
    mtd_find_partition_by_name st' ''radio'' = None"
proof -
  let ?es = "[(524288, 131072, ''boot''), (4194304, 131072, ''misc'')] :: mtd_entry list" and ?st = "\<lparr>ms_partitions = None, ms_partition_count = -1\<rparr>"
  have ok: "list_all mtd_entry_ok ?es" "distinct (map (snd \<circ> snd) ?es)" "length ?es \<le> 32" by (simp_all add: mtd_entry_ok_def)
  have hx: "length (proc_line i (a, b, nm)) = length (show_nat i) + length nm + 26" for i a b nm by (simp add: proc_line_def)
  have "length (show_nat 0) = 1" "length (show_nat (Suc 0)) = 1" by (simp_all add: show_nat.simps)
  then have l: "length (proc_mtd ?es) \<le> 2047" by (simp add: proc_mtd_def hx)
  have m: "md_proc (proc_ops (proc_mtd ?es)) () = Some (proc_mtd ?es)" "md_malloc (proc_ops (proc_mtd ?es) :: unit mtdops) = (\<lambda>n. True)" "ms_partitions ?st = None"
    by (simp_all add: proc_ops_def)
  obtain st' where st': "mtd_scan_partitions (proc_ops (proc_mtd ?es)) ?st () = Done (int (length ?es), st')"
      "\<forall>i < length ?es. mtd_find_partition_by_name st' (snd (snd (?es ! i))) = Some (entry_part i (?es ! i))"
      "\<forall>nm. nm \<notin> set (map (snd \<circ> snd) ?es) \<longrightarrow> mtd_find_partition_by_name st' nm = None"
    using scan_finds [OF ok l m] by blast
  then show ?thesis using spec [OF st'(2), of 1] spec [OF st'(3), of "''radio''"] by (simp add: entry_part_def)
qed

end
