(* ===== verification/Roots.thy ===== *)
theory Roots
  imports Mounts Mtd_Flash Mtd_Table
begin

text \<open>
  The volumes that recovery names by a prefix such as \<open>CACHE:\<close>, \<^verbatim>\<open>roots.c\<close>: their table, the translation of paths, mounting,
  unmounting and formatting.  The system calls are parameters.
\<close>

section \<open>Model\<close>

text \<open>The canonical pointers \<^verbatim>\<open>g_mtd_device\<close>, \<^verbatim>\<open>g_raw\<close> and \<^verbatim>\<open>g_package_file\<close> are constructors.\<close>

datatype root_device = G_mtd_device | Device string
datatype root_filesystem = G_raw | G_package_file | Filesystem string

record RootInfo =
  ri_name :: string
  ri_device :: "root_device option"
  ri_device2 :: "string option"
  ri_partition_name :: "string option"
  ri_mount_point :: "string option"
  ri_filesystem :: "root_filesystem option"

definition root :: "string \<Rightarrow> root_device option \<Rightarrow> string option \<Rightarrow> string option \<Rightarrow> string option \<Rightarrow> root_filesystem option \<Rightarrow> RootInfo" where
  "root name device device2 partition_name mount_point filesystem =
     \<lparr>ri_name = name, ri_device = device, ri_device2 = device2, ri_partition_name = partition_name, ri_mount_point = mount_point, ri_filesystem = filesystem\<rparr>"

definition g_roots :: "RootInfo list" where
  "g_roots =
     [root ''BOOT:'' (Some G_mtd_device) None (Some ''boot'') None (Some G_raw),
      root ''CACHE:'' (Some G_mtd_device) None (Some ''cache'') (Some ''/cache'') (Some (Filesystem ''yaffs2'')),
      root ''DATA:'' (Some G_mtd_device) None (Some ''userdata'') (Some ''/data'') (Some (Filesystem ''yaffs2'')),
      root ''MISC:'' (Some G_mtd_device) None (Some ''misc'') None (Some G_raw),
      root ''PACKAGE:'' None None None None (Some G_package_file),
      root ''RECOVERY:'' (Some G_mtd_device) None (Some ''recovery'') (Some ''/'') (Some G_raw),
      root ''SDCARD:'' (Some (Device ''/dev/block/mmcblk0p1'')) (Some ''/dev/block/mmcblk0'') None (Some ''/sdcard'') (Some (Filesystem ''vfat'')),
      root ''SYSTEM:'' (Some G_mtd_device) None (Some ''system'') (Some ''/system'') (Some (Filesystem ''yaffs2'')),
      root ''MBM:'' (Some G_mtd_device) None (Some ''mbm'') None (Some G_raw),
      root ''TMP:'' None None None (Some ''/tmp'') None,
      root ''RECOVERYSYS:'' (Some G_mtd_device) None (Some ''recoverysys'') (Some ''/system'') (Some (Filesystem ''yaffs2''))]"

definition get_root_info_for_path :: "string \<Rightarrow> RootInfo option" where
  "get_root_info_for_path root_path =
     (if CHR '':'' \<notin> set root_path then None
      else let len = length (takeWhile (\<lambda>c. c \<noteq> CHR '':'') root_path) + 1
           in List.find (\<lambda>info. take len (ri_name info) = take len root_path) g_roots)"

subsection \<open>Paths\<close>

definition is_package_root_path :: "string \<Rightarrow> bool" where
  "is_package_root_path root_path =
     (case get_root_info_for_path root_path of None \<Rightarrow> False | Some info \<Rightarrow> ri_filesystem info = Some G_package_file)"

text \<open>The registered package, of an arbitrary type, and its path; the parameter says whether the path can be copied.\<close>

record 'z package_root =
  g_package :: "'z option"
  g_package_path :: "string option"

definition register_package_root :: "bool \<Rightarrow> 'z option \<Rightarrow> string \<Rightarrow> 'z package_root \<Rightarrow> int \<times> 'z package_root" where
  "register_package_root strdup_ok package package_path st =
     (if package \<noteq> None \<and> \<not> strdup_ok then (-1, st)
      else (0, \<lparr>g_package = package, g_package_path = (if package \<noteq> None then Some package_path else None)\<rparr>))"

text \<open>What is put into the buffer, and the registered package.\<close>

definition translate_package_root_path :: "'z package_root \<Rightarrow> string \<Rightarrow> nat \<Rightarrow> (string \<times> 'z option) option" where
  "translate_package_root_path st root_path out_buf_len =
     (case get_root_info_for_path root_path of
        None \<Rightarrow> None
      | Some info \<Rightarrow>
          if ri_filesystem info \<noteq> Some G_package_file then None
          else let root_path = drop (length (ri_name info)) root_path in
          if out_buf_len < length root_path + 1 then None else Some (root_path, g_package st))"

definition translate_root_path :: "string \<Rightarrow> nat \<Rightarrow> string option" where
  "translate_root_path root_path out_buf_len =
     (if out_buf_len < 1 then None
      else case get_root_info_for_path root_path of
             None \<Rightarrow> None
           | Some info \<Rightarrow>
               (case ri_mount_point info of
                  None \<Rightarrow> None
                | Some mount_point \<Rightarrow>
                    let root_path = dropWhile (\<lambda>c. c = CHR ''/'') (drop (length (ri_name info)) root_path) in
                    if length mount_point + 1 + length root_path + 1 > out_buf_len then None
                    else Some ((if last mount_point \<noteq> CHR ''/'' then mount_point @ ''/'' else mount_point) @ root_path)))"

subsection \<open>Mounting\<close>

record 's rootops =
  ro_mtd :: "'s mtdops"
  ro_malloc :: bool
  ro_proc_mounts :: "'s \<Rightarrow> string option"
  ro_mount :: "string \<Rightarrow> string option \<Rightarrow> string option \<Rightarrow> bool \<Rightarrow> 's \<Rightarrow> int \<times> 's"
  ro_umount :: "string option \<Rightarrow> 's \<Rightarrow> int \<times> 's"
  ro_mkdir :: "string \<Rightarrow> 's \<Rightarrow> 's"
  ro_stat :: "string option \<Rightarrow> 's \<Rightarrow> nat option"
  ro_chmod :: "string option \<Rightarrow> nat \<Rightarrow> 's \<Rightarrow> int \<times> 's"

text \<open>The state of the system and of the two tables.\<close>

record 's rootst =
  rs_sys :: 's
  rs_mtd :: MtdState
  rs_mounts :: MountsState

text \<open>The name of a file system, for the pointers \<^verbatim>\<open>g_raw\<close> and \<^verbatim>\<open>g_package_file\<close> the string \<open>@\<close> they point to.\<close>

definition fs_string :: "root_filesystem option \<Rightarrow> string option" where
  "fs_string fs = (case fs of None \<Rightarrow> None | Some (Filesystem n) \<Rightarrow> Some n | Some _ \<Rightarrow> Some ''@'')"

text \<open>The system calls may get a null pointer for the mount point.  The last argument of \<open>ro_mount\<close> is the flag for reading only.\<close>

definition S_IX :: nat where "S_IX = 73"

definition mtd_mount_partition :: "'s rootops \<Rightarrow> MtdPartition \<Rightarrow> string option \<Rightarrow> string option \<Rightarrow> bool \<Rightarrow> 's \<Rightarrow> int \<times> 's" where
  "mtd_mount_partition ops part mount_point filesystem read_only s =
     (let devname = ''/dev/block/mtdblock'' @ show_int (device_index part);
          (rv, s) = (if \<not> read_only then ro_mount ops devname mount_point filesystem False s else (-1, s));
          (rv, s) = (if read_only \<or> rv < 0 then ro_mount ops devname mount_point filesystem True s else (rv, s)) in
      if rv < 0 then (rv, s)
      else case ro_stat ops mount_point s of
             None \<Rightarrow> (-1, s)
           | Some mode \<Rightarrow> let new_mode = mode OR S_IX in if new_mode \<noteq> mode then ro_chmod ops mount_point new_mode s else (0, s))"

definition internal_root_mounted :: "'s rootops \<Rightarrow> RootInfo \<Rightarrow> 's rootst \<Rightarrow> (int \<times> 's rootst) outcome" where
  "internal_root_mounted ops info st =
     (case ri_mount_point info of
        None \<Rightarrow> Done (-1, st)
      | Some mount_point \<Rightarrow>
          (case scan_mounted_volumes (ro_malloc ops) (ro_proc_mounts ops (rs_sys st)) (rs_mounts st) of
             Fault \<Rightarrow> Fault
           | Done (ret, m) \<Rightarrow>
               let st = st\<lparr>rs_mounts := m\<rparr> in
               if ret < 0 then Done (ret, st)
               else Done (if find_mounted_volume_by_mount_point mount_point m \<noteq> None then 0 else -1, st)))"

definition is_root_path_mounted :: "'s rootops \<Rightarrow> string \<Rightarrow> 's rootst \<Rightarrow> (int \<times> 's rootst) outcome" where
  "is_root_path_mounted ops root_path st =
     (case get_root_info_for_path root_path of
        None \<Rightarrow> Done (-1, st)
      | Some info \<Rightarrow>
          (case internal_root_mounted ops info st of
             Fault \<Rightarrow> Fault
           | Done (ret, st) \<Rightarrow> Done (if ret \<ge> 0 then 1 else 0, st)))"

text \<open>The table of partitions is scanned anew; the result of the scan is not looked at.\<close>

definition scan_and_find :: "'s rootops \<Rightarrow> string \<Rightarrow> 's rootst \<Rightarrow> (MtdPartition option \<times> 's rootst) outcome" where
  "scan_and_find ops partition_name st =
     (case mtd_scan_partitions (ro_mtd ops) (rs_mtd st) (rs_sys st) of
        Fault \<Rightarrow> Fault
      | Done (_, m) \<Rightarrow> Done (mtd_find_partition_by_name m partition_name, st\<lparr>rs_mtd := m\<rparr>))"

definition ensure_root_path_mounted :: "'s rootops \<Rightarrow> string \<Rightarrow> 's rootst \<Rightarrow> (int \<times> 's rootst) outcome" where
  "ensure_root_path_mounted ops root_path st =
     (case get_root_info_for_path root_path of
        None \<Rightarrow> Done (-1, st)
      | Some info \<Rightarrow>
          (case internal_root_mounted ops info st of
             Fault \<Rightarrow> Fault
           | Done (ret, st) \<Rightarrow>
               if ret \<ge> 0 then Done (0, st)
               else if ri_device info = Some G_mtd_device
               then (case ri_partition_name info of
                       None \<Rightarrow> Done (-1, st)
                     | Some partition_name \<Rightarrow>
                         (case scan_and_find ops partition_name st of
                            Fault \<Rightarrow> Fault
                          | Done (None, st) \<Rightarrow> Done (-1, st)
                          | Done (Some part, st) \<Rightarrow>
                              let (rv, s) = mtd_mount_partition ops part (ri_mount_point info) (fs_string (ri_filesystem info)) False (rs_sys st)
                              in Done (rv, st\<lparr>rs_sys := s\<rparr>)))
               else (case (ri_device info, ri_mount_point info, ri_filesystem info) of
                       (Some (Device device), Some mount_point, Some (Filesystem filesystem)) \<Rightarrow>
                         let s = ro_mkdir ops mount_point (rs_sys st);
                             (r, s) = ro_mount ops device (Some mount_point) (Some filesystem) False s in
                         if r = 0 then Done (0, st\<lparr>rs_sys := s\<rparr>)
                         else (case ri_device2 info of
                                 None \<Rightarrow> Done (-1, st\<lparr>rs_sys := s\<rparr>)
                               | Some device2 \<Rightarrow>
                                   let (r, s) = ro_mount ops device2 (Some mount_point) (Some filesystem) False s
                                   in Done (if r = 0 then 0 else -1, st\<lparr>rs_sys := s\<rparr>))
                     | _ \<Rightarrow> Done (-1, st))))"

definition ensure_root_path_unmounted :: "'s rootops \<Rightarrow> string \<Rightarrow> 's rootst \<Rightarrow> (int \<times> 's rootst) outcome" where
  "ensure_root_path_unmounted ops root_path st =
     (case get_root_info_for_path root_path of
        None \<Rightarrow> Done (-1, st)
      | Some info \<Rightarrow>
          (case ri_mount_point info of
             None \<Rightarrow> Done (0, st)
           | Some mount_point \<Rightarrow>
               (case scan_mounted_volumes (ro_malloc ops) (ro_proc_mounts ops (rs_sys st)) (rs_mounts st) of
                  Fault \<Rightarrow> Fault
                | Done (ret, m) \<Rightarrow>
                    let st = st\<lparr>rs_mounts := m\<rparr> in
                    if ret < 0 then Done (ret, st)
                    else (case find_mounted_volume_by_mount_point mount_point m of
                            None \<Rightarrow> Done (0, st)
                          | Some volume \<Rightarrow>
                              (case unmount_mounted_volume (ro_umount ops) volume m (rs_sys st) of
                                 Fault \<Rightarrow> Fault
                               | Done (ret, m, s) \<Rightarrow> Done (ret, st\<lparr>rs_mounts := m, rs_sys := s\<rparr>))))))"

definition get_root_mtd_partition :: "'s rootops \<Rightarrow> string \<Rightarrow> 's rootst \<Rightarrow> (MtdPartition option \<times> 's rootst) outcome" where
  "get_root_mtd_partition ops root_path st =
     (case get_root_info_for_path root_path of
        None \<Rightarrow> Done (None, st)
      | Some info \<Rightarrow>
          if ri_device info \<noteq> Some G_mtd_device then Done (None, st)
          else (case ri_partition_name info of None \<Rightarrow> Done (None, st) | Some partition_name \<Rightarrow> scan_and_find ops partition_name st))"

subsection \<open>Formatting\<close>

text \<open>Erasing a whole partition.\<close>

definition erase_partition :: "'s rootops \<Rightarrow> MtdPartition \<Rightarrow> 's rootst \<Rightarrow> (int \<times> 's rootst) outcome option" where
  "erase_partition ops part st =
     (case mtd_write_partition (ro_mtd ops) part (rs_sys st) of
        (None, s) \<Rightarrow> Some (Done (-1, st\<lparr>rs_sys := s\<rparr>))
      | (Some ctx, s) \<Rightarrow>
          bind_run (mtd_erase_blocks (ro_mtd ops) ctx (-1) s) (\<lambda>(pos, ctx, s).
            bind_run (mtd_write_close (ro_mtd ops) ctx s) (\<lambda>(r, s).
              Some (Done (if pos = -1 then -1 else if r \<noteq> 0 then -1 else 0, st\<lparr>rs_sys := s\<rparr>)))))"

definition format_root_device :: "'s rootops \<Rightarrow> string \<Rightarrow> 's rootst \<Rightarrow> (int \<times> 's rootst) outcome option" where
  "format_root_device ops rt st =
     (if dropWhile (\<lambda>c. c \<noteq> CHR '':'') rt \<noteq> '':'' then Some (Done (-1, st))
      else case get_root_info_for_path rt of
             None \<Rightarrow> Some (Done (-1, st))
           | Some info \<Rightarrow>
               if ri_device info = None then Some (Done (-1, st))
               else bind_run (if ri_mount_point info \<noteq> None then Some (ensure_root_path_unmounted ops rt st) else Some (Done (0, st))) (\<lambda>(ret, st).
                 if ret < 0 then Some (Done (ret, st))
                 else if ri_device info = Some G_mtd_device
                 then (case ri_partition_name info of
                         None \<Rightarrow> Some Fault
                       | Some partition_name \<Rightarrow>
                           bind_run (Some (scan_and_find ops partition_name st)) (\<lambda>(part, st).
                             case part of
                               None \<Rightarrow> Some (Done (-1, st))
                             | Some part \<Rightarrow>
                                 (case ri_filesystem info of
                                    None \<Rightarrow> Some Fault
                                  | Some filesystem \<Rightarrow>
                                      if filesystem = G_raw \<or> filesystem = Filesystem ''yaffs2''
                                      then erase_partition ops part st
                                      else Some (Done (-1, st)))))
                 else Some (Done (-1, st))))"

section \<open>The table\<close>

lemma root_names: "info \<in> set g_roots \<Longrightarrow> \<exists>nm. ri_name info = nm @ '':'' \<and> CHR '':'' \<notin> set nm"
proof -
  assume "info \<in> set g_roots"
  then have "ri_name info \<in> (\<lambda>nm. nm @ '':'') ` {''BOOT'', ''CACHE'', ''DATA'', ''MISC'', ''PACKAGE'', ''RECOVERY'', ''SDCARD'', ''SYSTEM'', ''MBM'', ''TMP'', ''RECOVERYSYS''}"
    by (auto simp: g_roots_def root_def)
  then show ?thesis by auto
qed

lemma root_mount_points: "info \<in> set g_roots \<Longrightarrow> ri_mount_point info = Some mp \<Longrightarrow> mp \<noteq> [] \<and> hd mp = CHR ''/''"
  by (auto simp: g_roots_def root_def)

lemma root_name_matches:
  assumes "info \<in> set g_roots" "CHR '':'' \<notin> set nm"
  shows "take (length nm + 1) (ri_name info) = nm @ '':'' \<longleftrightarrow> ri_name info = nm @ '':''"
proof -
  obtain n where n: "ri_name info = n @ '':''" "CHR '':'' \<notin> set n" using root_names [OF assms(1)] by blast
  show ?thesis
  proof
    assume t: "take (length nm + 1) (ri_name info) = nm @ '':''"
    then have "length nm \<le> length n" using n(1) by (metis length_append length_take list.size(3) list.size(4) add_le_cancel_right min.cobounded1 One_nat_def plus_nat.add_0)
    moreover have "\<not> length nm < length n"
    proof
      assume lt: "length nm < length n"
      then have "(n @ '':'') ! length nm = CHR '':''" using t n(1) by (metis Suc_eq_plus1 lessI nth_append_length nth_take)
      then show False using lt n(2) by (metis nth_append nth_mem)
    qed
    ultimately have "length nm = length n" by simp
    then show "ri_name info = nm @ '':''" using t n(1) by simp
  qed simp
qed

text \<open>The volume of a path is the one with the name before the colon.\<close>

lemma get_root_info_spec:
  assumes "CHR '':'' \<notin> set nm"
  shows "get_root_info_for_path (nm @ CHR '':'' # rest) = List.find (\<lambda>info. ri_name info = nm @ '':'') g_roots"
proof -
  have tw: "takeWhile (\<lambda>c. c \<noteq> CHR '':'') (nm @ CHR '':'' # rest) = nm" using assms by (subst takeWhile_append2) auto
  have tk: "take (length nm + 1) (nm @ CHR '':'' # rest) = nm @ '':''" by simp
  have "get_root_info_for_path (nm @ CHR '':'' # rest) = List.find (\<lambda>info. take (length nm + 1) (ri_name info) = nm @ '':'') g_roots"
    unfolding get_root_info_for_path_def Let_def tw tk by simp
  also have "\<dots> = List.find (\<lambda>info. ri_name info = nm @ '':'') g_roots"
    using root_name_matches [OF _ assms] by (auto intro!: find_cong)
  finally show ?thesis .
qed

section \<open>Paths and mounted volumes\<close>

lemma get_root_info_for_path_Some:
  assumes "get_root_info_for_path path = Some info"
  shows "\<exists>nm rest. path = nm @ CHR '':'' # rest \<and> CHR '':'' \<notin> set nm \<and> info \<in> set g_roots \<and> ri_name info = nm @ '':''"
proof -
  have "CHR '':'' \<in> set path" using assms by (simp add: get_root_info_for_path_def split: if_split_asm)
  then obtain nm rest where p: "path = nm @ CHR '':'' # rest" "CHR '':'' \<notin> set nm" by (meson split_list_first)
  then show ?thesis using assms get_root_info_spec [OF p(2)] by (auto simp: find_Some_iff intro: nth_mem)
qed

text \<open>
  C31. A translated path is the mount point of the volume named before the colon, one slash, and the rest of the path without its leading
  slashes; it is absolute and fits the buffer with its terminating zero.\<close>

theorem translated_path:
  assumes "translate_root_path path out_buf_len = Some out"
  shows "\<exists>nm rest info mp. path = nm @ CHR '':'' # rest \<and> CHR '':'' \<notin> set nm \<and> info \<in> set g_roots \<and> ri_name info = nm @ '':'' \<and>
    ri_mount_point info = Some mp \<and> out = (if mp = ''/'' then [] else mp) @ CHR ''/'' # dropWhile (\<lambda>c. c = CHR ''/'') rest \<and>
    hd out = CHR ''/'' \<and> length out + 1 \<le> out_buf_len"
proof -
  obtain info mp where i: "get_root_info_for_path path = Some info" "ri_mount_point info = Some mp"
    using assms by (auto simp: translate_root_path_def split: if_split_asm option.split_asm)
  obtain nm rest where n: "path = nm @ CHR '':'' # rest" "CHR '':'' \<notin> set nm" "info \<in> set g_roots" "ri_name info = nm @ '':''"
    using get_root_info_for_path_Some [OF i(1)] by blast
  have mp: "mp = ''/'' \<or> mp \<noteq> [] \<and> hd mp = CHR ''/'' \<and> last mp \<noteq> CHR ''/''" using n(3) i(2) by (auto simp: g_roots_def root_def)
  have "drop (length (ri_name info)) path = rest" using n(1,4) by simp
  then have o: "length mp + 1 + length (dropWhile (\<lambda>c. c = CHR ''/'') rest) + 1 \<le> out_buf_len"
      "out = (if last mp \<noteq> CHR ''/'' then mp @ ''/'' else mp) @ dropWhile (\<lambda>c. c = CHR ''/'') rest"
    using assms i unfolding translate_root_path_def Let_def by (auto simp: not_le split: if_split_asm)
  have "out = (if mp = ''/'' then [] else mp) @ CHR ''/'' # dropWhile (\<lambda>c. c = CHR ''/'') rest" "hd out = CHR ''/''" "length out + 1 \<le> out_buf_len"
    using mp o by auto
  then show ?thesis using n i(2) by blast
qed

theorem translated_path_witness: "hd ''/system/lib'' = CHR ''/'' \<and> length ''/system/lib'' + 1 \<le> (12 :: nat)"
proof -
  have "translate_root_path ''SYSTEM://lib'' 12 = Some ''/system/lib''" by code_simp
  from translated_path [OF this] show ?thesis by blast
qed

lemma found_volume:
  assumes "find_mounted_volume_by_mount_point mp m = Some i" "mounts_wf m"
  shows "\<exists>vs. mts_volumes m = Some vs \<and> i < length vs \<and> mv_mount_point (vs ! i) = Some mp"
  using assms by (auto simp: find_mounted_volume_by_mount_point_def find_volume_def mounts_wf_def find_Some_iff split: option.split_asm)

lemma unmount_found:
  assumes "find_mounted_volume_by_mount_point mp m = Some i" "mounts_wf m"
  shows "\<exists>m'. mounts_wf m' \<and> unmount_mounted_volume umount i m s = Done (fst (umount (Some mp) s), m', snd (umount (Some mp) s))"
proof -
  obtain vs where vs: "mts_volumes m = Some vs" "i < length vs" "mv_mount_point (vs ! i) = Some mp" using found_volume [OF assms] by blast
  have "mounts_wf (m\<lparr>mts_volumes := Some (vs[i := no_volume])\<rparr>)" using assms(2) vs(1) by (simp add: mounts_wf_def)
  then show ?thesis using vs assms(2) by (cases "umount (Some mp) s") (auto simp: unmount_mounted_volume_def)
qed

lemma found_iff_mounted:
  "List.find (\<lambda>i. fst (snd (es ! i)) = mp) [0..<length es] = None \<longleftrightarrow> mp \<notin> (\<lambda>e. fst (snd e)) ` set es"
proof -
  have "set es = (!) es ` {0..<length es}" by (simp add: list_eq_iff_nth_eq [symmetric] nth_image [of "length es" es, simplified])
  then show ?thesis by (auto simp: find_None_iff image_iff)
qed

text \<open>
  C30. Whether a volume is mounted is what the kernel says, and a volume is unmounted when it is needed: for the text that the kernel prints
  for at most 32 mounts in at most 2047 bytes, with words that fit the fields, and when the table can be allocated, for a volume
  that has a mount point: \<^verbatim>\<open>is_root_path_mounted\<close> tells whether the mount point of the volume is among them, and \<^verbatim>\<open>ensure_root_path_unmounted\<close>
  calls \<^verbatim>\<open>umount\<close> with this mount point and returns its result when it is, and touches nothing when it is not.\<close>

theorem roots_mounted:
  assumes "ro_malloc ops" "ro_proc_mounts ops (rs_sys st) = Some (concat (map mount_line es))" "list_all mount_ok es"
    and "length (concat (map mount_line es)) \<le> 2047" "length es \<le> 32" "mounts_wf (rs_mounts st)"
    and "CHR '':'' \<notin> set nm" "List.find (\<lambda>info. ri_name info = nm @ '':'') g_roots = Some info" "ri_mount_point info = Some mp"
  shows "\<exists>m m'. mounts_wf m \<and> mounts_wf m' \<and>
    is_root_path_mounted ops (nm @ CHR '':'' # rest) st = Done (if mp \<in> (\<lambda>e. fst (snd e)) ` set es then 1 else 0, st\<lparr>rs_mounts := m\<rparr>) \<and>
    ensure_root_path_unmounted ops (nm @ CHR '':'' # rest) st =
      (if mp \<in> (\<lambda>e. fst (snd e)) ` set es
       then Done (fst (ro_umount ops (Some mp) (rs_sys st)), st\<lparr>rs_mounts := m', rs_sys := snd (ro_umount ops (Some mp) (rs_sys st))\<rparr>)
       else Done (0, st\<lparr>rs_mounts := m'\<rparr>))"
proof -
  obtain m where m: "scan_mounted_volumes True (Some (concat (map mount_line es))) (rs_mounts st) = Done (0, m)" "mounts_wf m"
      "find_mounted_volume_by_mount_point mp m = List.find (\<lambda>i. fst (snd (es ! i)) = mp) [0..<length es]"
    using scan_then_find [OF assms(3,4,6,5)] by blast
  note d = get_root_info_spec [OF assms(7)] assms(1,2,8,9) m(1)
  have mounted: "is_root_path_mounted ops (nm @ CHR '':'' # rest) st = Done (if mp \<in> (\<lambda>e. fst (snd e)) ` set es then 1 else 0, st\<lparr>rs_mounts := m\<rparr>)"
    using d found_iff_mounted [of es mp] m(3) by (auto simp: is_root_path_mounted_def internal_root_mounted_def)
  show ?thesis
  proof (cases "find_mounted_volume_by_mount_point mp m")
    case None
    then have "mp \<notin> (\<lambda>e. fst (snd e)) ` set es" using m(3) found_iff_mounted by metis
    then show ?thesis using mounted d None m(2) by (intro exI [of _ m]) (simp add: ensure_root_path_unmounted_def)
  next
    case (Some i)
    then have in_es: "mp \<in> (\<lambda>e. fst (snd e)) ` set es" using m(3) found_iff_mounted by (metis option.distinct(1))
    obtain m' where m': "mounts_wf m'"
        "unmount_mounted_volume (ro_umount ops) i m (rs_sys st) = Done (fst (ro_umount ops (Some mp) (rs_sys st)), m', snd (ro_umount ops (Some mp) (rs_sys st)))"
      using unmount_found [OF Some m(2), of "ro_umount ops" "rs_sys st"] by (elim exE conjE)
    then have "ensure_root_path_unmounted ops (nm @ CHR '':'' # rest) st =
        Done (fst (ro_umount ops (Some mp) (rs_sys st)), st\<lparr>rs_mounts := m', rs_sys := snd (ro_umount ops (Some mp) (rs_sys st))\<rparr>)"
      using d Some by (simp add: ensure_root_path_unmounted_def)
    then show ?thesis using mounted m(2) m' in_es by auto
  qed
qed

section \<open>Formatting erases the good blocks\<close>

lemma erase_step:
  assumes rel: "reliable_flash ops fd flash at bad" and room: "Suc m * sz \<le> length (flash s)"
    and b: "md_badblock ops fd (int (m * sz)) s = (b, s1)" and s2: "s2 = (if b > 0 then s1 else snd (md_erase ops fd (int (m * sz)) sz s1))"
  shows "at s2 = at s" "length (flash s2) = length (flash s)"
    "block sz (flash s2) k = (if k = m \<and> \<not> bad (int (k * sz)) then replicate sz 255 else block sz (flash s) k)"
proof -
  let ?p = "int (m * sz)"
  note cl = rel [unfolded reliable_flash_def, THEN conjunct1] and er = rel [unfolded reliable_flash_def, THEN conjunct2, THEN conjunct1, rule_format]
  note h = cl [unfolded clean_flash_def, THEN conjunct1]
  have "fst (md_badblock ops fd ?p s) = (if bad ?p then 1 else 0)" using cl unfolding clean_flash_def by blast
  then have bad: "b > 0 \<longleftrightarrow> bad ?p" using b by (simp split: if_split_asm)
  have s1: "flash s1 = flash s" "at s1 = at s" using honest_rules(7) [OF h b] by auto
  obtain e s3 where e: "md_erase ops fd ?p sz s1 = (e, s3)" by (cases "md_erase ops fd ?p sz s1")
  have s3: "same_outside ?p sz (flash s) (flash s3)" "at s3 = at s" using honest_rules(8) [OF h e] s1 by auto
  have "?p + int sz \<le> int (length (flash s1))" using room s1(1) by (simp only: mult_Suc of_nat_add [symmetric] of_nat_le_iff add.commute)
  then have one: "block sz (flash s3) m = replicate sz 255" if "\<not> bad ?p" using er [of ?p sz s1] e that by (simp add: block_def del: of_nat_mult)
  show "at s2 = at s" using s1(2) s3(2) e s2 by simp
  show "length (flash s2) = length (flash s)" using s1(1) s3(1) e s2 by (simp add: same_outside_def)
  show "block sz (flash s2) k = (if k = m \<and> \<not> bad (int (k * sz)) then replicate sz 255 else block sz (flash s) k)"
    using one same_outside_block [OF s3(1), of k] e s1(1) bad s2 by (auto simp del: of_nat_mult)
qed

lemma erase_loop_spec:
  assumes "reliable_flash ops fd flash at bad" "(m + n) * sz \<le> length (flash s)"
  shows "\<exists>s'. erase_loop ops fd sz n (int (m * sz)) s = (int ((m + n) * sz), s') \<and> at s' = at s \<and> length (flash s') = length (flash s) \<and>
    (\<forall>k. block sz (flash s') k = (if m \<le> k \<and> k < m + n \<and> \<not> bad (int (k * sz)) then replicate sz 255 else block sz (flash s) k))"
  using assms(2)
proof (induction n arbitrary: m s)
  case 0
  then show ?case by auto
next
  case (Suc n)
  obtain b s1 where b: "md_badblock ops fd (int (m * sz)) s = (b, s1)" by (cases "md_badblock ops fd (int (m * sz)) s")
  define s2 where s2: "s2 = (if b > 0 then s1 else snd (md_erase ops fd (int (m * sz)) sz s1))"
  have "Suc m * sz \<le> (m + Suc n) * sz" by (intro mult_le_mono1) simp
  then have "Suc m * sz \<le> length (flash s)" using Suc.prems by linarith
  note st = erase_step [OF assms(1) this b s2]
  obtain s' where s': "erase_loop ops fd sz n (int (Suc m * sz)) s2 = (int ((Suc m + n) * sz), s')" "at s' = at s2" "length (flash s') = length (flash s2)"
      "\<forall>k. block sz (flash s') k = (if Suc m \<le> k \<and> k < Suc m + n \<and> \<not> bad (int (k * sz)) then replicate sz 255 else block sz (flash s2) k)"
    using Suc.IH [of "Suc m" s2] Suc.prems st(2) by auto
  have "int (m * sz) + int sz = int (Suc m * sz)" by simp
  then have "erase_loop ops fd sz (Suc n) (int (m * sz)) s = (int ((m + Suc n) * sz), s')"
    unfolding erase_loop.simps Let_def b prod.case s2 [symmetric] using s'(1) by (simp only: add_Suc_shift)
  moreover have "block sz (flash s') k = (if m \<le> k \<and> k < m + Suc n \<and> \<not> bad (int (k * sz)) then replicate sz 255 else block sz (flash s) k)" for k
    unfolding s'(4) [rule_format] st(3) by (cases "k = m") (auto simp del: of_nat_mult)
  ultimately show ?case using s'(2,3) st(1,2) by auto
qed

lemma erase_partition_spec:
  assumes op: "mtd_write_partition (ro_mtd ops) part (rs_sys st) = (Some ctx, s)" and rel: "reliable_flash (ro_mtd ops) (wc_fd ctx) flash at bad"
    and ok: "part_ok part (length (flash s))" and at: "at s = 0"
  shows "\<exists>r st'. erase_partition ops part st = Some (Done (r, st')) \<and> (r = 0 \<or> r = -1) \<and> length (flash (rs_sys st')) = length (flash s) \<and>
    (\<forall>k. Suc k * mp_erase_size part \<le> length (flash s) \<longrightarrow>
       block (mp_erase_size part) (flash (rs_sys st')) k =
       (if bad (int (k * mp_erase_size part)) then block (mp_erase_size part) (flash s) k else replicate (mp_erase_size part) 255))"
proof -
  let ?sz = "mp_erase_size part" and ?N = "length (flash s)" and ?m = "ro_mtd ops"
  let ?n = "?N div ?sz"
  note fresh = mtd_write_partition_fresh [OF op]
  have h: "honest_flash ?m (wc_fd ctx) flash at" using rel by (simp add: reliable_flash_def clean_flash_def)
  have sz: "0 < ?sz" "mp_size part = ?N" "?N < 2 ^ 31" using ok by (auto simp: part_ok_def)
  have tot: "s32 (int ?N mod 2 ^ 32 div int ?sz) = int ?n"
  proof -
    have "int ?N mod 2 ^ 32 = int ?N" using sz(3) by simp
    moreover have "?n < 2 ^ 31" using sz(3) div_le_dividend [of ?N ?sz] by linarith
    then have "s32 (int ?n) = int ?n" by (intro s32_small) auto
    ultimately show ?thesis by (simp only: zdiv_int)
  qed
  have "(0 + ?n) * ?sz \<le> ?N" by simp
  from erase_loop_spec [OF rel this] obtain s1 where s1: "erase_loop ?m (wc_fd ctx) ?sz ?n 0 s = (int (?n * ?sz), s1)" "at s1 = at s" "length (flash s1) = ?N"
      "\<forall>k. block ?sz (flash s1) k = (if k < ?n \<and> \<not> bad (int (k * ?sz)) then replicate ?sz 255 else block ?sz (flash s) k)"
    by auto
  have tell: "md_tell ?m (wc_fd ctx) s' = at s'" for s' by (rule honest_rules(1) [OF h])
  have e1: "mtd_erase_blocks ?m ctx (-1) s = Some (Done (int (?n * ?sz), ctx, s1))"
    using fresh sz(1,2) tot s1(1) by (simp add: mtd_erase_blocks_def flush_padded_def tell at Let_def del: of_nat_mult)
  have e2: "mtd_erase_blocks ?m ctx 0 s1 = Some (Done (0, ctx, s1))"
    using fresh sz(1,2) tot by (simp add: mtd_erase_blocks_def flush_padded_def tell at s1(2) Let_def)
  obtain c s2 where c: "md_close ?m (wc_fd ctx) s1 = (c, s2)" by (cases "md_close ?m (wc_fd ctx) s1")
  have f: "flash s2 = flash s1" by (rule honest_rules(10) [OF h c])
  have r: "erase_partition ops part st = Some (Done (if c then 0 else -1, st\<lparr>rs_sys := s2\<rparr>))"
    using op e1 e2 c by (simp add: erase_partition_def mtd_write_close_def bind_run_def del: of_nat_mult)
  have "k < ?n" if "Suc k * ?sz \<le> ?N" for k using div_le_mono [OF that, of ?sz] sz(1) by simp
  then show ?thesis using r f s1(3,4) by (auto simp del: of_nat_mult)
qed

lemma mtd_roots:
  assumes "info \<in> set g_roots" "ri_device info = Some G_mtd_device"
  shows "ri_partition_name info \<noteq> None" "ri_filesystem info = Some G_raw \<or> ri_filesystem info = Some (Filesystem ''yaffs2'')"
  using assms by (auto simp: g_roots_def root_def)

text \<open>Once the volume is not mounted and its partition is found, formatting is erasing the partition.\<close>

lemma format_erase:
  assumes "CHR '':'' \<notin> set nm" "ensure_root_path_unmounted ops (nm @ '':'') st = Done (0, st1)"
    and "get_root_mtd_partition ops (nm @ '':'') st1 = Done (Some part, st2)"
  shows "format_root_device ops (nm @ '':'') st = erase_partition ops part st2"
proof -
  obtain info where i: "get_root_info_for_path (nm @ '':'') = Some info" "ri_device info = Some G_mtd_device"
    using assms(3) by (auto simp: get_root_mtd_partition_def split: option.split_asm if_split_asm)
  have "info \<in> set g_roots" using get_root_info_for_path_Some [OF i(1)] by blast
  note mr = mtd_roots [OF this i(2)]
  obtain pn where pn: "ri_partition_name info = Some pn" using mr(1) by blast
  have sc: "scan_and_find ops pn st1 = Done (Some part, st2)" using assms(3) i pn by (simp add: get_root_mtd_partition_def)
  have mt: "ri_mount_point info = None \<Longrightarrow> st1 = st" using assms(2) i by (simp add: ensure_root_path_unmounted_def)
  have dw: "dropWhile (\<lambda>c. c \<noteq> CHR '':'') (nm @ '':'') = '':''" using assms(1) by (subst dropWhile_append2) auto
  show ?thesis
    using i pn sc mr(2) assms(2) mt unfolding format_root_device_def dw by (cases "ri_mount_point info") (auto simp: bind_run_def)
qed


section \<open>Instances\<close>

text \<open>A simulated flash device with two partitions, and \<open>/system\<close> mounted.\<close>

definition sim_table :: "mtd_entry list" where
  "sim_table = [(8, 4, ''boot''), (16, 4, ''misc'')]"

definition sim_roots :: "sim rootops" where
  "sim_roots =
     \<lparr>ro_mtd = (sim_ops sim_bad (\<lambda>p. False))\<lparr>md_proc := (\<lambda>s. Some (proc_mtd sim_table))\<rparr>, ro_malloc = True,
      ro_proc_mounts = (\<lambda>s. Some ''/dev/block/mtdblock4 /system yaffs2 ro 0 0\<newline>''), ro_mount = (\<lambda>dev mp fs readonly s. (0, s)),
      ro_umount = (\<lambda>mp s. (0, s)), ro_mkdir = (\<lambda>mp s. s), ro_stat = (\<lambda>mp s. Some 0), ro_chmod = (\<lambda>mp mode s. (0, s))\<rparr>"

definition sim_rootst :: "sim rootst" where
  "sim_rootst = \<lparr>rs_sys = sim_start, rs_mtd = \<lparr>ms_partitions = None, ms_partition_count = -1\<rparr>, rs_mounts = \<lparr>mts_volumes = None, mts_volume_count = 0\<rparr>\<rparr>"

theorem roots_mounted_witness:
  "\<exists>m m' m''. is_root_path_mounted sim_roots ''SYSTEM:lib'' sim_rootst = Done (1, sim_rootst\<lparr>rs_mounts := m\<rparr>) \<and>
    ensure_root_path_unmounted sim_roots ''SYSTEM:lib'' sim_rootst = Done (0, sim_rootst\<lparr>rs_mounts := m'\<rparr>) \<and>
    is_root_path_mounted sim_roots ''DATA:'' sim_rootst = Done (0, sim_rootst\<lparr>rs_mounts := m''\<rparr>)"
proof -
  let ?es = "[(''/dev/block/mtdblock4'', ''/system'', ''yaffs2'', ''ro'')]"
  have es: "concat (map mount_line ?es) = ''/dev/block/mtdblock4 /system yaffs2 ro 0 0\<newline>''" by (simp add: mount_line_def)
  have a: "ro_malloc sim_roots" "ro_proc_mounts sim_roots (rs_sys sim_rootst) = Some (concat (map mount_line ?es))"
    by (simp_all only: es) (simp_all add: sim_roots_def)
  have b: "list_all mount_ok ?es" "length (concat (map mount_line ?es)) \<le> 2047" "length ?es \<le> 32" "mounts_wf (rs_mounts sim_rootst)"
    by (simp_all add: mount_ok_def word_ok_def isspace_def mount_line_def mounts_wf_def sim_rootst_def)
  define sys where "sys = root ''SYSTEM:'' (Some G_mtd_device) None (Some ''system'') (Some ''/system'') (Some (Filesystem ''yaffs2''))"
  define dat where "dat = root ''DATA:'' (Some G_mtd_device) None (Some ''userdata'') (Some ''/data'') (Some (Filesystem ''yaffs2''))"
  have f: "List.find (\<lambda>info. ri_name info = ''SYSTEM'' @ '':'') g_roots = Some sys" "List.find (\<lambda>info. ri_name info = ''DATA'' @ '':'') g_roots = Some dat"
      "ri_mount_point sys = Some ''/system''" "ri_mount_point dat = Some ''/data''"
    by (simp_all add: g_roots_def root_def sys_def dat_def)
  have c: "CHR '':'' \<notin> set ''SYSTEM''" "CHR '':'' \<notin> set ''DATA''" by simp_all
  have u: "ro_umount sim_roots (Some ''/system'') (rs_sys sim_rootst) = (0, rs_sys sim_rootst)" by (simp add: sim_roots_def)
  from roots_mounted [OF a b c(1) f(1,3), of "''lib''"] obtain m m' where "is_root_path_mounted sim_roots ''SYSTEM:lib'' sim_rootst = Done (1, sim_rootst\<lparr>rs_mounts := m\<rparr>)"
      "ensure_root_path_unmounted sim_roots ''SYSTEM:lib'' sim_rootst = Done (0, sim_rootst\<lparr>rs_mounts := m'\<rparr>)"
    by (auto simp: u)
  moreover from roots_mounted [OF a b c(2) f(2,4), of "[]"] obtain m'' where
      "is_root_path_mounted sim_roots ''DATA:'' sim_rootst = Done (0, sim_rootst\<lparr>rs_mounts := m''\<rparr>)"
    by auto
  ultimately show ?thesis by blast
qed

lemma reliable_flash_proc: "reliable_flash (ops\<lparr>md_proc := f\<rparr>) fd flash at bad = reliable_flash ops fd flash at bad"
  by (cases ops) (simp only: reliable_flash_def clean_flash_def honest_flash_def ecc_steady_def mtdops.simps)

lemma sim_roots_reliable: "reliable_flash (ro_mtd sim_roots) fd sim_flash sim_at sim_bad"
  using sim_reliable [of sim_bad fd] by (simp only: sim_roots_def rootops.simps reliable_flash_proc)

lemma sim_scan:
  "\<exists>m. mtd_scan_partitions (ro_mtd sim_roots) (rs_mtd sim_rootst) s = Done (2, m) \<and> mtd_find_partition_by_name m ''misc'' = Some sim_part"
proof -
  have ok: "list_all mtd_entry_ok sim_table" "distinct (map (snd \<circ> snd) sim_table)" "length sim_table \<le> 32" by (simp_all add: sim_table_def mtd_entry_ok_def)
  have hx: "length (proc_line i (a, b, nm)) = length (show_nat i) + length nm + 26" for i a b nm by (simp add: proc_line_def)
  have "length (show_nat 0) = 1" "length (show_nat (Suc 0)) = 1" by (simp_all add: show_nat.simps)
  then have l: "length (proc_mtd sim_table) \<le> 2047" by (simp add: proc_mtd_def hx sim_table_def)
  have m: "md_proc (ro_mtd sim_roots) s = Some (proc_mtd sim_table)" "md_malloc (ro_mtd sim_roots) = (\<lambda>n. True)" "ms_partitions (rs_mtd sim_rootst) = None"
    by (simp_all add: sim_roots_def sim_ops_def sim_rootst_def)
  obtain st' where st': "mtd_scan_partitions (ro_mtd sim_roots) (rs_mtd sim_rootst) s = Done (int (length sim_table), st')"
      "\<forall>i < length sim_table. mtd_find_partition_by_name st' (snd (snd (sim_table ! i))) = Some (entry_part i (sim_table ! i))"
    using scan_table [OF ok l m] by blast
  then show ?thesis using spec [OF st'(2), of 1] by (simp add: entry_part_def sim_table_def sim_part_def)
qed


end
