(* ===== verification/Bootloader.thy ===== *)
theory Bootloader
  imports Roots Mtd_Read
begin

text \<open>
  The message to the boot loader, \<^verbatim>\<open>bootloader.c\<close> and \<^verbatim>\<open>bootloader.h\<close>: it is the second of the first three pages of the partition
  \<open>misc\<close>, which are read, changed and written back.
\<close>

section \<open>Model\<close>

record bootloader_message =
  bm_command :: "byte list"
  bm_status :: "byte list"
  bm_recovery :: "byte list"

text \<open>The bytes of the structure and the structure at some bytes; its arrays have 32, 32 and 1024 elements.\<close>

definition message_bytes :: "bootloader_message \<Rightarrow> byte list" where
  "message_bytes m = bm_command m @ bm_status m @ bm_recovery m"

definition message_at :: "byte list \<Rightarrow> bootloader_message" where
  "message_at bs = \<lparr>bm_command = take 32 bs, bm_status = take 32 (drop 32 bs), bm_recovery = take 1024 (drop 64 bs)\<rparr>"

definition message_ok :: "bootloader_message \<Rightarrow> bool" where
  "message_ok m \<longleftrightarrow> length (bm_command m) = 32 \<and> length (bm_status m) = 32 \<and> length (bm_recovery m) = 1024"

definition MESSAGE_SIZE :: nat where "MESSAGE_SIZE = 1088"
definition MISC_NAME :: string where "MISC_NAME = ''MISC:''"
definition MISC_PAGES :: nat where "MISC_PAGES = 3"
definition MISC_COMMAND_PAGE :: nat where "MISC_COMMAND_PAGE = 1"

text \<open>
  The part that reading and writing a message share: the partition, the size of its pages and the bytes of the first pages.  The size is a signed
  number, and an array of a negative size is a \<open>Fault\<close>.
\<close>

definition read_misc :: "'s rootops \<Rightarrow> 's rootst \<Rightarrow> ((MtdPartition \<times> nat \<times> byte list) option \<times> 's rootst) outcome option" where
  "read_misc ops st =
     (case get_root_mtd_partition ops MISC_NAME st of
        Fault \<Rightarrow> Some Fault
      | Done (None, st) \<Rightarrow> Some (Done (None, st))
      | Done (Some part, st) \<Rightarrow>
          (case mtd_partition_info (ro_mtd ops) part (rs_sys st) of
             (None, s) \<Rightarrow> Some (Done (None, st\<lparr>rs_sys := s\<rparr>))
           | (Some (_, _, write_size), s) \<Rightarrow>
               (case mtd_read_partition (ro_mtd ops) part s of
                  Fault \<Rightarrow> Some Fault
                | Done (None, s) \<Rightarrow> Some (Done (None, st\<lparr>rs_sys := s\<rparr>))
                | Done (Some ctx, s) \<Rightarrow>
                    let sz = s32 (int (write_size * MISC_PAGES)) in
                    if sz < 0 then Some Fault
                    else Option.bind (mtd_read_data (ro_mtd ops) ctx (nat sz) s) (\<lambda>(r, bytes, ctx, s).
                      let st = st\<lparr>rs_sys := mtd_read_close (ro_mtd ops) ctx s\<rparr> in
                      Some (Done (if r \<noteq> sz then None else Some (part, write_size, bytes), st))))))"

text \<open>Copying from or to the page is a \<open>Fault\<close> when the message does not fit in the pages that were read.\<close>

definition get_bootloader_message :: "'s rootops \<Rightarrow> 's rootst \<Rightarrow> (int \<times> bootloader_message option \<times> 's rootst) outcome option" where
  "get_bootloader_message ops st =
     bind_run (read_misc ops st) (\<lambda>(r, st).
       case r of
         None \<Rightarrow> Some (Done (-1, None, st))
       | Some (part, write_size, bytes) \<Rightarrow>
           if length bytes < write_size * MISC_COMMAND_PAGE + MESSAGE_SIZE then Some Fault
           else Some (Done (0, Some (message_at (drop (write_size * MISC_COMMAND_PAGE) bytes)), st)))"

definition set_bootloader_message :: "'s rootops \<Rightarrow> bootloader_message \<Rightarrow> 's rootst \<Rightarrow> (int \<times> 's rootst) outcome option" where
  "set_bootloader_message ops m st =
     bind_run (read_misc ops st) (\<lambda>(r, st).
       case r of
         None \<Rightarrow> Some (Done (-1, st))
       | Some (part, write_size, bytes) \<Rightarrow>
           if length bytes < write_size * MISC_COMMAND_PAGE + MESSAGE_SIZE then Some Fault
           else
             let bytes = take (write_size * MISC_COMMAND_PAGE) bytes @ message_bytes m @ drop (write_size * MISC_COMMAND_PAGE + MESSAGE_SIZE) bytes in
             (case mtd_write_partition (ro_mtd ops) part (rs_sys st) of
                (None, s) \<Rightarrow> Some (Done (-1, st\<lparr>rs_sys := s\<rparr>))
              | (Some ctx, s) \<Rightarrow>
                  Option.bind (mtd_write_data (ro_mtd ops) ctx bytes s) (\<lambda>(r, ctx, s).
                    bind_run (mtd_write_close (ro_mtd ops) ctx s) (\<lambda>(c, s).
                      Some (Done (if r \<noteq> int (length bytes) then -1 else if c \<noteq> 0 then -1 else 0, st\<lparr>rs_sys := s\<rparr>))))))"

section \<open>A short write succeeds\<close>

text \<open>On a reliable device a block is written as soon as some block from the position on is good.\<close>

lemma write_block_loop_ok:
  assumes "reliable_flash ops (wc_fd ctx) flash at bad" "part_ok (wc_partition ctx) N" "length bytes = mp_erase_size (wc_partition ctx)"
    and "length (flash s) = N" "m \<le> k" "Suc k * mp_erase_size (wc_partition ctx) \<le> N" "\<not> bad (int (k * mp_erase_size (wc_partition ctx)))"
  shows "\<exists>ctx' s'. write_block_loop ops ctx bytes (int (m * mp_erase_size (wc_partition ctx))) s = Some (0, ctx', s')"
  using assms
proof (induction "k - m" arbitrary: m ctx s rule: less_induct)
  case less
  let ?sz = "mp_erase_size (wc_partition ctx)" and ?fd = "wc_fd ctx"
  let ?ctx = "add_bad_block_offset ctx (int (m * ?sz))"
  note z = part_ok_s32 [OF less.prems(2)]
  note cl = less.prems(1) [unfolded reliable_flash_def, THEN conjunct1]
  have h: "honest_flash ops ?fd flash at" using cl by (simp add: clean_flash_def)
  have p: "int (m * ?sz) + int ?sz = int (Suc m * ?sz)" by simp
  have sz: "?sz < 2 ^ 31" using less.prems(2) by (simp add: part_ok_def)
  have "Suc m * ?sz \<le> Suc k * ?sz" using less.prems(5) by (intro mult_le_mono1) simp
  then have room: "Suc m * ?sz \<le> N" using less.prems(6) by linarith
  obtain b s1 where b: "md_badblock ops ?fd (int (m * ?sz)) s = (b, s1)" by (cases "md_badblock ops ?fd (int (m * ?sz)) s")
  have "fst (md_badblock ops ?fd (int (m * ?sz)) s) = (if bad (int (m * ?sz)) then 1 else 0)" using cl unfolding clean_flash_def by blast
  then have bad: "b > 0 \<longleftrightarrow> bad (int (m * ?sz))" unfolding b by (simp split: if_split_asm)
  have f1: "flash s1 = flash s" using honest_rules(7) [OF h b] by simp
  have unf: "write_block_loop ops ctx bytes (int (m * ?sz)) s =
     (if b > 0 then write_block_loop ops ?ctx bytes (int (Suc m * ?sz)) s1
      else case write_attempts ops ?fd ?sz (int (m * ?sz)) bytes s1 of (ok, s) \<Rightarrow>
             if ok then Some (0, ctx, s)
             else write_block_loop ops ?ctx bytes (int (Suc m * ?sz)) (snd (md_erase ops ?fd (int (m * ?sz)) ?sz s)))"
    unfolding write_block_loop.simps [of ops ctx] Let_def z p b prod.case using room by (simp only: of_nat_le_iff if_True)
  show ?case
  proof (cases "bad (int (m * ?sz))")
    case True
    then have mk: "m < k" using less.prems(5,7) by (cases "m = k") auto
    then have "k - Suc m < k - m" by simp
    from less.hyps [OF this, of ?ctx s1] show ?thesis unfolding unf using True bad less.prems f1 mk by simp
  next
    case False
    have "fst (write_attempts ops ?fd ?sz (int (m * ?sz)) bytes s1)"
      by (rule write_attempts_ok [OF less.prems(1) False _ less.prems(3) sz]) (use room f1 less.prems(4) in simp)
    then show ?thesis unfolding unf using False bad by (auto split: prod.split)
  qed
qed

lemma mtd_write_close_ok:
  assumes rel: "reliable_flash ops (wc_fd ctx) flash at bad" and ok: "part_ok (wc_partition ctx) (length (flash s))" and at: "at s = 0"
    and fresh: "bad_block_offsets ctx = []" and buf: "wc_buffer ctx \<noteq> []" "length (wc_buffer ctx) < mp_erase_size (wc_partition ctx)"
    and good: "Suc k * mp_erase_size (wc_partition ctx) \<le> length (flash s)" "\<not> bad (int (k * mp_erase_size (wc_partition ctx)))"
    and cl: "\<And>s. fst (md_close ops (wc_fd ctx) s)"
  shows "\<exists>s'. mtd_write_close ops ctx s = Some (Done (0, s'))"
proof -
  let ?sz = "mp_erase_size (wc_partition ctx)" and ?N = "length (flash s)"
  let ?bytes = "wc_buffer ctx @ replicate (?sz - length (wc_buffer ctx)) 0"
  have kn: "knows ops (wc_fd ctx) flash at (Some bad)" using rel by (simp add: knows_def reliable_flash_def clean_flash_def)
  have h: "honest_flash ops (wc_fd ctx) flash at" using kn by (simp add: knows_def)
  have len: "length ?bytes = ?sz" using buf(2) by simp
  have sz: "0 < ?sz" "mp_size (wc_partition ctx) = ?N" "?N < 2 ^ 31" using ok by (auto simp: part_ok_def)
  have "on_flash flash at (Some bad) ctx s []" using ok at fresh by (intro on_flash_start) (simp_all add: part_ok_def)
  then obtain r c1 s1 where w: "write_block ops ctx ?bytes s = Some (r, c1, s1)" "ctx_same ctx c1" "r = 0 \<longrightarrow> on_flash flash at (Some bad) c1 s1 ([] @ ?bytes)"
    using write_block_on_flash [OF kn ok len] by blast
  obtain c2 s2 where "write_block_loop ops ctx ?bytes (int (0 * ?sz)) s = Some (0, c2, s2)"
    using write_block_loop_ok [OF rel ok len refl _ good, of 0] by blast
  then have r: "r = 0" using w(1) honest_rules(1) [OF h] at by (simp add: write_block_def)
  have p: "wc_partition c1 = wc_partition ctx" using w(2) by (simp add: ctx_same_def)
  obtain m where m: "at s1 = int (m * ?sz)" "m * ?sz \<le> length (flash s1)" "length (flash s1) = ?N"
    using w(3) r sz(2) unfolding on_flash_def stored_ok_def p by metis
  have "((int ?N - int (m * ?sz)) mod 2 ^ 32) div int ?sz < 2 ^ 31" "0 \<le> ((int ?N - int (m * ?sz)) mod 2 ^ 32) div int ?sz"
  proof -
    have "int (m * ?sz) \<le> int ?N" "0 \<le> int (m * ?sz)" using m(2,3) by (simp_all only: of_nat_le_iff of_nat_0_le_iff)
    moreover have "int ?N < 2 ^ 31" using sz(3) by simp
    ultimately have d: "0 \<le> int ?N - int (m * ?sz)" "int ?N - int (m * ?sz) < 2 ^ 31" by linarith+
    then have e: "(int ?N - int (m * ?sz)) mod 2 ^ 32 = int ?N - int (m * ?sz)" by (intro mod_pos_pos_trivial) simp_all
    have "(int ?N - int (m * ?sz)) div int ?sz \<le> int ?N - int (m * ?sz)" using zdiv_mono2 [OF d(1), of 1 "int ?sz"] sz(1) by simp
    then show "((int ?N - int (m * ?sz)) mod 2 ^ 32) div int ?sz < 2 ^ 31" unfolding e using d by linarith
    show "0 \<le> ((int ?N - int (m * ?sz)) mod 2 ^ 32) div int ?sz" unfolding e using d sz(1) by (simp add: pos_imp_zdiv_nonneg_iff del: of_nat_mult)
  qed
  then have tot: "0 \<le> s32 (((int ?N - int (m * ?sz)) mod 2 ^ 32) div int ?sz)" using s32_small by simp
  have "mtd_erase_blocks ops ctx 0 s = Some (Done (int (m * ?sz), c1\<lparr>wc_buffer := []\<rparr>, s1))"
    using w(1,2) r buf(1) sz(1,2) tot m(1) honest_rules(1) [OF h]
    by (simp add: mtd_erase_blocks_def flush_padded_def Let_def ctx_same_def del: of_nat_mult)
  then show ?thesis using cl [of s1] w(2) by (cases "md_close ops (wc_fd ctx) s1") (simp add: mtd_write_close_def bind_run_def ctx_same_def del: of_nat_mult)
qed

lemma mtd_write_data_short:
  assumes "wc_buffer ctx = []" "bytes \<noteq> []" "length bytes < mp_erase_size (wc_partition ctx)"
  shows "mtd_write_data ops ctx bytes s = Some (int (length bytes), ctx\<lparr>wc_buffer := bytes\<rparr>, s)"
proof -
  have c: "coalesce ctx bytes 0 = (ctx\<lparr>wc_buffer := bytes\<rparr>, length bytes)" using assms by (simp add: coalesce_def Let_def)
  have f: "flush_full ops (ctx\<lparr>wc_buffer := bytes\<rparr>) s = Some (True, ctx\<lparr>wc_buffer := bytes\<rparr>, s)" using assms by (simp add: flush_full_def)
  have d: "write_direct ops (ctx\<lparr>wc_buffer := bytes\<rparr>) bytes (length bytes) s = Some (True, length bytes, ctx\<lparr>wc_buffer := bytes\<rparr>, s)"
    using assms by (subst write_direct.simps) simp
  have "write_data_loop ops (ctx\<lparr>wc_buffer := bytes\<rparr>) bytes (length bytes) s = Some (int (length bytes), ctx\<lparr>wc_buffer := bytes\<rparr>, s)"
    by (subst write_data_loop.simps) simp
  then show ?thesis unfolding mtd_write_data_def using c f d assms(2) by (subst write_data_loop.simps) simp
qed

section \<open>The message is read back\<close>

lemma message_at_bytes: "message_ok m \<Longrightarrow> message_at (message_bytes m @ rest) = m"
  by (cases m) (simp add: message_ok_def message_at_def message_bytes_def)

lemma length_message: "message_ok m \<Longrightarrow> length (message_bytes m) = MESSAGE_SIZE"
  by (simp add: message_ok_def message_bytes_def MESSAGE_SIZE_def)

lemma get_root_mtd_partition_sys: "get_root_mtd_partition ops p st = Done (x, st1) \<Longrightarrow> rs_sys st1 = rs_sys st"
  by (auto simp: get_root_mtd_partition_def scan_and_find_def split: option.split_asm if_split_asm outcome.split_asm)

text \<open>The device of the partition can be opened and closed, at its start, tells the size of its pages and is reliable.\<close>

definition misc_driver :: "'s mtdops \<Rightarrow> MtdPartition \<Rightarrow> nat \<Rightarrow> nat \<Rightarrow> ('s \<Rightarrow> byte list) \<Rightarrow> ('s \<Rightarrow> int) \<Rightarrow> (int \<Rightarrow> bool) \<Rightarrow> bool" where
  "misc_driver ops part fd ws flash at bad \<longleftrightarrow>
     reliable_flash ops fd flash at bad \<and> (\<forall>n. md_malloc ops n) \<and>
     (\<forall>w s. fst (md_open ops w (mtddevname part) s) = Some fd \<and> flash (snd (md_open ops w (mtddevname part) s)) = flash s \<and>
            at (snd (md_open ops w (mtddevname part) s)) = 0) \<and>
     (\<forall>s. fst (md_close ops fd s)) \<and> (\<forall>s. map_option (snd \<circ> snd) (md_info ops fd s) = Some ws)"

lemma misc_driver_open:
  assumes "misc_driver ops part fd ws flash at bad"
  shows "\<exists>s1. mtd_read_partition ops part s = Done (Some \<lparr>rc_partition = part, rc_buffer = [], rc_consumed = mp_erase_size part, rc_fd = fd\<rparr>, s1) \<and>
      flash s1 = flash s \<and> at s1 = 0"
    "\<exists>s1. mtd_write_partition ops part s =
      (Some \<lparr>wc_partition = part, wc_buffer = [], wc_fd = fd, bad_block_offsets = [], bad_block_alloc = 0\<rparr>, s1) \<and> flash s1 = flash s \<and> at s1 = 0"
    "\<exists>a b s1. mtd_partition_info ops part s = (Some (a, b, ws), s1) \<and> flash s1 = flash s"
proof -
  note d = assms [unfolded misc_driver_def]
  have o: "\<exists>s1. md_open ops w (mtddevname part) s = (Some fd, s1) \<and> flash s1 = flash s \<and> at s1 = 0" for w s
    using d [THEN conjunct2, THEN conjunct2, THEN conjunct1, rule_format, of w s] by (cases "md_open ops w (mtddevname part) s") auto
  have h: "honest_flash ops fd flash at" using d by (simp add: reliable_flash_def clean_flash_def)
  show "\<exists>s1. mtd_read_partition ops part s = Done (Some \<lparr>rc_partition = part, rc_buffer = [], rc_consumed = mp_erase_size part, rc_fd = fd\<rparr>, s1) \<and>
      flash s1 = flash s \<and> at s1 = 0"
    using o [of False s] d by (auto simp: mtd_read_partition_def)
  show "\<exists>s1. mtd_write_partition ops part s =
      (Some \<lparr>wc_partition = part, wc_buffer = [], wc_fd = fd, bad_block_offsets = [], bad_block_alloc = 0\<rparr>, s1) \<and> flash s1 = flash s \<and> at s1 = 0"
    using o [of True s] d by (auto simp: mtd_write_partition_def)
  obtain s1 where s1: "md_open ops False (mtddevname part) s = (Some fd, s1)" "flash s1 = flash s" using o [of False s] by blast
  obtain a b where i: "md_info ops fd s1 = Some (a, b, ws)" using d [THEN conjunct2, THEN conjunct2, THEN conjunct2, THEN conjunct2, rule_format, of s1] by auto
  obtain c s2 where c: "md_close ops fd s1 = (c, s2)" by (cases "md_close ops fd s1")
  show "\<exists>a b s1. mtd_partition_info ops part s = (Some (a, b, ws), s1) \<and> flash s1 = flash s"
    using s1 i c honest_rules(10) [OF h c] by (simp add: mtd_partition_info_def)
qed

lemma read_misc_spec:
  assumes drv: "misc_driver (ro_mtd ops) part fd ws flash at bad" and part: "get_root_mtd_partition ops MISC_NAME st = Done (Some part, st1)"
    and ok: "part_ok part (length (flash (rs_sys st)))" and ws: "3 * ws < 2 ^ 31"
    and v: "v = visible (mp_erase_size part) (flash (rs_sys st)) bad 0" "3 * ws \<le> length v"
  shows "\<exists>st2. read_misc ops st = Some (Done (Some (part, ws, take (3 * ws) v), st2)) \<and> flash (rs_sys st2) = flash (rs_sys st)"
proof -
  let ?m = "ro_mtd ops" and ?ctx = "\<lparr>rc_partition = part, rc_buffer = [], rc_consumed = mp_erase_size part, rc_fd = fd\<rparr>"
  have sys: "rs_sys st1 = rs_sys st" by (rule get_root_mtd_partition_sys [OF part])
  have cl: "clean_flash ?m fd flash at bad" using drv by (simp add: misc_driver_def reliable_flash_def)
  then have h: "honest_flash ?m fd flash at" by (simp add: clean_flash_def)
  obtain a b s1 where i: "mtd_partition_info ?m part (rs_sys st1) = (Some (a, b, ws), s1)" "flash s1 = flash (rs_sys st1)"
    using misc_driver_open(3) [OF drv, of "rs_sys st1"] by blast
  obtain s2 where r: "mtd_read_partition ?m part s1 = Done (Some ?ctx, s2)" "flash s2 = flash s1" "at s2 = 0" using misc_driver_open(1) [OF drv, of s1] by blast
  have f2: "flash s2 = flash (rs_sys st)" using r(2) i(2) sys by simp
  note u = mtd_read_partition_fresh(2) [where at = at and flash = flash and bad = bad, OF r(1,3)]
  obtain ctx' s3 where d: "mtd_read_data ?m ?ctx (3 * ws) s2 = Some (int (3 * ws), take (3 * ws) v, ctx', s3)" "flash s3 = flash s2" "rc_fd ctx' = fd"
    using read_data_loop_spec [OF _ _ u _ ws, of ?m "[]"] cl ok f2 v unfolding mtd_read_data_def by (auto split: if_split_asm)
  have sz: "s32 (int (ws * MISC_PAGES)) = int (3 * ws)" using ws s32_small [of "int (3 * ws)"] by (simp add: MISC_PAGES_def mult.commute)
  obtain c s4 where c: "md_close ?m fd s3 = (c, s4)" by (cases "md_close ?m fd s3")
  have f4: "flash s4 = flash (rs_sys st)" using honest_rules(10) [OF h c] d(2) f2 by simp
  have "read_misc ops st = Some (Done (Some (part, ws, take (3 * ws) v), st1\<lparr>rs_sys := s4\<rparr>))"
    unfolding read_misc_def part using i(1) r(1) d(1,3) c by (simp add: sz mtd_read_close_def del: of_nat_mult)
  then show ?thesis using f4 by simp
qed

lemma single_block_nonzero: "length bytes \<le> sz \<Longrightarrow> b \<in> set bytes \<Longrightarrow> b \<noteq> 0 \<Longrightarrow> blocks_nonzero sz bytes"
  unfolding blocks_nonzero_def
proof (intro allI impI)
  fix j assume a: "length bytes \<le> sz" "b \<in> set bytes" "b \<noteq> 0" "j * sz < length bytes"
  have "j = 0" using a(1,4) by (cases j) auto
  then show "\<exists>b \<in> set (block sz bytes j). b \<noteq> 0" using a(1-3) by (auto simp: block_def)
qed

text \<open>
  C21. The message to the boot loader is stored and found again: on a reliable flash device (it can be opened and closed, reads
  have no errors, bad blocks are reported, erasing and writing a good block succeed), when memory is granted, the partition \<open>misc\<close> is
  found, with the size of the device, and has a good block and three readable pages, and two pages are large enough for a message and three fit in one block, writing a message that is not all zeros succeeds and changes nothing else in
  the three pages, and reading it from there succeeds and gives the message.\<close>

theorem bootloader_round_trip:
  assumes drv: "misc_driver (ro_mtd ops) part fd ws flash at bad" and part: "get_root_mtd_partition ops MISC_NAME st = Done (Some part, st1)"
    and ok: "part_ok part (length (flash (rs_sys st)))" "MESSAGE_SIZE \<le> 2 * ws" "3 * ws < mp_erase_size part"
    and v: "v = visible (mp_erase_size part) (flash (rs_sys st)) bad 0" "3 * ws \<le> length v"
    and m: "message_ok m" "b \<in> set (message_bytes m)" "b \<noteq> 0"
    and good: "Suc k * mp_erase_size part \<le> length (flash (rs_sys st))" "\<not> bad (int (k * mp_erase_size part))"
  shows "\<exists>st'. set_bootloader_message ops m st = Some (Done (0, st')) \<and>
    take (3 * ws) (visible (mp_erase_size part) (flash (rs_sys st')) bad 0) =
      take ws v @ message_bytes m @ take (2 * ws - MESSAGE_SIZE) (drop (ws + MESSAGE_SIZE) v) \<and>
    (\<forall>st2 st3. rs_sys st2 = rs_sys st' \<and> get_root_mtd_partition ops MISC_NAME st2 = Done (Some part, st3) \<longrightarrow>
       (\<exists>st4. get_bootloader_message ops st2 = Some (Done (0, Some m, st4))))"
proof -
  let ?m = "ro_mtd ops" and ?sz = "mp_erase_size part"
  let ?ctx = "\<lparr>wc_partition = part, wc_buffer = [], wc_fd = fd, bad_block_offsets = [], bad_block_alloc = 0\<rparr>"
  define bytes where "bytes = take ws v @ message_bytes m @ take (2 * ws - MESSAGE_SIZE) (drop (ws + MESSAGE_SIZE) v)"
  have len: "length bytes = 3 * ws" using ok(2) v(2) length_message [OF m(1)] by (simp add: bytes_def)
  have ws: "3 * ws < 2 ^ 31" using ok(1,3) by (simp add: part_ok_def)
  have rel: "reliable_flash ?m fd flash at bad" using drv by (simp add: misc_driver_def)
  have kn: "knows ?m fd flash at (Some bad)" using rel by (simp add: knows_def reliable_flash_def clean_flash_def)
  obtain st2 where r: "read_misc ops st = Some (Done (Some (part, ws, take (3 * ws) v), st2))" "flash (rs_sys st2) = flash (rs_sys st)"
    using read_misc_spec [OF drv part ok(1) ws v] by blast
  obtain s1 where w: "mtd_write_partition ?m part (rs_sys st2) = (Some ?ctx, s1)" "flash s1 = flash (rs_sys st)" "at s1 = 0"
    using misc_driver_open(2) [OF drv, of "rs_sys st2"] r(2) by auto
  have bn: "bytes \<noteq> []" using m(2) by (auto simp: bytes_def)
  have wd: "mtd_write_data ?m ?ctx bytes s1 = Some (int (3 * ws), ?ctx\<lparr>wc_buffer := bytes\<rparr>, s1)"
    using mtd_write_data_short [of ?ctx bytes ?m s1] len ok(3) bn by simp
  obtain s2 where c: "mtd_write_close ?m (?ctx\<lparr>wc_buffer := bytes\<rparr>) s1 = Some (Done (0, s2))"
    using mtd_write_close_ok [of ?m "?ctx\<lparr>wc_buffer := bytes\<rparr>" flash at bad s1 k] rel ok(1,3) w(2,3) bn len good drv by (auto simp: misc_driver_def)
  obtain badl n pad where st: "length (flash s2) = length (flash s1)" "pad < ?sz" "stored_ok (Some bad) ?sz (flash s2) badl n (bytes @ replicate pad 0)"
    using fresh_write_close [where flash = flash and at = at and bd = "Some bad", OF w(1) _ _ w(3) wd] kn ok(1) w(2) c by auto
  have "blocks_nonzero ?sz bytes" by (rule single_block_nonzero [of _ _ b]) (use len ok(3) m(2,3) in \<open>auto simp: bytes_def\<close>)
  then obtain rest where vis: "visible ?sz (flash s2) bad 0 = bytes @ rest" using visible_stored [OF st(3,2)] by blast
  have upd: "take ws (take (3 * ws) v) @ message_bytes m @ drop (ws + MESSAGE_SIZE) (take (3 * ws) v) = bytes"
    using ok(2) by (simp add: bytes_def min_def drop_take)
  have set': "set_bootloader_message ops m st = Some (Done (0, st2\<lparr>rs_sys := s2\<rparr>))"
    unfolding set_bootloader_message_def r(1) using w(1) wd c ok(2) v(2) upd len
    by (simp add: bind_run_def MISC_COMMAND_PAGE_def Let_def del: of_nat_mult)
  have get': "\<exists>st4. get_bootloader_message ops stb = Some (Done (0, Some m, st4))"
    if stb: "rs_sys stb = s2" "get_root_mtd_partition ops MISC_NAME stb = Done (Some part, stc)" for stb stc
  proof -
    have po: "part_ok part (length (flash (rs_sys stb)))" using ok(1) st(1) w(2) stb(1) by simp
    obtain std where "read_misc ops stb = Some (Done (Some (part, ws, take (3 * ws) (bytes @ rest)), std))"
      using read_misc_spec [OF drv stb(2) po ws, of "bytes @ rest"] vis stb(1) len by auto
    moreover have "take (3 * ws) (bytes @ rest) = bytes" using len by simp
    moreover have "drop ws bytes = message_bytes m @ take (2 * ws - MESSAGE_SIZE) (drop (ws + MESSAGE_SIZE) v)" using v(2) by (simp add: bytes_def)
    ultimately show ?thesis using len ok(2) message_at_bytes [OF m(1)] by (simp add: get_bootloader_message_def bind_run_def MISC_COMMAND_PAGE_def)
  qed
  have "take (3 * ws) (visible ?sz (flash s2) bad 0) = bytes" using vis len by simp
  then show ?thesis using set' get' unfolding bytes_def by auto
qed

section \<open>Instances\<close>

text \<open>A device with one good block of 2048 bytes and pages of 544 bytes.\<close>

definition boot_table :: "mtd_entry list" where
  "boot_table = [(8, 4, ''boot''), (2048, 2048, ''misc'')]"

definition boot_part :: MtdPartition where
  "boot_part = \<lparr>device_index = 1, mp_size = 2048, mp_erase_size = 2048, mp_name = Some ''misc''\<rparr>"

definition boot_ops :: "sim rootops" where
  "boot_ops = sim_roots\<lparr>ro_mtd := (sim_ops (\<lambda>p. False) (\<lambda>p. False))\<lparr>md_proc := (\<lambda>s. Some (proc_mtd boot_table)), md_info := (\<lambda>fd s. Some (2048, 2048, 544))\<rparr>\<rparr>"

definition boot_state :: "sim \<Rightarrow> sim rootst" where
  "boot_state s = sim_rootst\<lparr>rs_sys := s\<rparr>"

definition boot_message :: bootloader_message where
  "boot_message = \<lparr>bm_command = replicate 32 98, bm_status = replicate 32 0, bm_recovery = replicate 1024 0\<rparr>"

lemma boot_scan: "\<exists>st1. get_root_mtd_partition boot_ops MISC_NAME (boot_state s) = Done (Some boot_part, st1)"
proof -
  have ok: "list_all mtd_entry_ok boot_table" "distinct (map (snd \<circ> snd) boot_table)" "length boot_table \<le> 32" by (simp_all add: boot_table_def mtd_entry_ok_def)
  have hx: "length (proc_line i (a, b, nm)) = length (show_nat i) + length nm + 26" for i a b nm by (simp add: proc_line_def)
  have "length (show_nat 0) = 1" "length (show_nat (Suc 0)) = 1" by (simp_all add: show_nat.simps)
  then have l: "length (proc_mtd boot_table) \<le> 2047" by (simp add: proc_mtd_def hx boot_table_def)
  have m: "md_proc (ro_mtd boot_ops) s = Some (proc_mtd boot_table)" "md_malloc (ro_mtd boot_ops) = (\<lambda>n. True)" "ms_partitions (rs_mtd (boot_state s)) = None"
    by (simp_all add: boot_ops_def sim_ops_def sim_rootst_def boot_state_def)
  obtain st' where st': "mtd_scan_partitions (ro_mtd boot_ops) (rs_mtd (boot_state s)) s = Done (int (length boot_table), st')"
      "\<forall>i < length boot_table. mtd_find_partition_by_name st' (snd (snd (boot_table ! i))) = Some (entry_part i (boot_table ! i))"
    using scan_table [OF ok l m] by blast
  then have f: "mtd_find_partition_by_name st' ''misc'' = Some boot_part"
    using spec [OF st'(2), of 1] by (simp add: entry_part_def boot_table_def boot_part_def)
  have i: "get_root_info_for_path MISC_NAME = Some (root ''MISC:'' (Some G_mtd_device) None (Some ''misc'') None (Some G_raw))" by code_simp
  have "rs_sys (boot_state s) = s" by (simp add: boot_state_def)
  then show ?thesis using i st'(1) f by (simp add: get_root_mtd_partition_def scan_and_find_def root_def)
qed

lemma reliable_flash_info: "reliable_flash (ops\<lparr>md_info := g\<rparr>) fd flash at bad = reliable_flash ops fd flash at bad"
  by (cases ops) (simp only: reliable_flash_def clean_flash_def honest_flash_def ecc_steady_def mtdops.simps)

lemma boot_driver: "misc_driver (ro_mtd boot_ops) boot_part 3 544 sim_flash sim_at (\<lambda>p. False)"
proof -
  have "reliable_flash (ro_mtd boot_ops) 3 sim_flash sim_at (\<lambda>p. False)"
    using sim_reliable [of "\<lambda>p. False" 3] by (simp add: boot_ops_def reliable_flash_info reliable_flash_proc)
  then show ?thesis by (simp add: misc_driver_def boot_ops_def) (simp add: sim_ops_def split_beta)
qed

lemma boot_visible: "visible 2048 (replicate 2048 1) (\<lambda>p. False) 0 = replicate 2048 1"
proof -
  have "[0..<length (replicate 2048 (1 :: byte)) div 2048] = [0]" by simp
  moreover have "block 2048 (replicate 2048 (1 :: byte)) 0 = replicate 2048 1" by (simp add: block_def)
  moreover have "shown 2048 (replicate 2048 1) (\<lambda>p. False) 0" using calculation(2) by (simp add: shown_def)
  ultimately show ?thesis unfolding visible_def by simp
qed

theorem bootloader_round_trip_witness:
  "\<exists>st' st4. set_bootloader_message boot_ops boot_message (boot_state (replicate 2048 1, 0, 0)) = Some (Done (0, st')) \<and>
    get_bootloader_message boot_ops (boot_state (rs_sys st')) = Some (Done (0, Some boot_message, st4))"
proof -
  let ?st = "boot_state (replicate 2048 1, 0, 0)"
  obtain st1 where p: "get_root_mtd_partition boot_ops MISC_NAME ?st = Done (Some boot_part, st1)" using boot_scan by blast
  have sys: "rs_sys (boot_state s) = s" for s by (simp add: boot_state_def)
  have a: "part_ok boot_part (length (sim_flash (rs_sys ?st)))" "MESSAGE_SIZE \<le> 2 * 544" "3 * 544 < mp_erase_size boot_part"
    by (simp_all add: part_ok_def boot_part_def sys MESSAGE_SIZE_def)
  have v: "replicate 2048 1 = visible (mp_erase_size boot_part) (sim_flash (rs_sys ?st)) (\<lambda>p. False) 0" "3 * 544 \<le> length (replicate 2048 (1 :: byte))"
    by (simp_all add: sys boot_part_def boot_visible)
  have m: "message_ok boot_message" "98 \<in> set (message_bytes boot_message)" "(98 :: byte) \<noteq> 0"
    by (simp_all add: message_ok_def message_bytes_def boot_message_def)
  have g: "Suc 0 * mp_erase_size boot_part \<le> length (sim_flash (rs_sys ?st))" "\<not> (\<lambda>p :: int. False) (int (0 * mp_erase_size boot_part))"
    by (simp_all add: boot_part_def sys)
  from bootloader_round_trip [OF boot_driver p a v m g] obtain st' where st': "set_bootloader_message boot_ops boot_message ?st = Some (Done (0, st'))"
      "\<forall>st2 st3. rs_sys st2 = rs_sys st' \<and> get_root_mtd_partition boot_ops MISC_NAME st2 = Done (Some boot_part, st3) \<longrightarrow>
       (\<exists>st4. get_bootloader_message boot_ops st2 = Some (Done (0, Some boot_message, st4)))"
    by blast
  obtain st3 where "get_root_mtd_partition boot_ops MISC_NAME (boot_state (rs_sys st')) = Done (Some boot_part, st3)" using boot_scan by blast
  then show ?thesis using st' sys by blast
qed

end
