(* ===== verification/Spec2Isabelle.thy ===== *)
theory Spec2Isabelle
  imports Applypatch Imgdiff Minzip_Tree Edify_Script At_Channel Mtd_Interface Bootloader
begin

text \<open>
  A verification of the recovery system and the modem interface of MetaOS.

  \<^bold>\<open>The program.\<close>  The recovery system (\<^verbatim>\<open>src/bootable/recovery\<close>) opens an update package, a Zip archive,
  with its library minzip, evaluates the script in it with the expression language edify, extracts
  files and applies binary patches.  It reads, writes and formats flash partitions with its library mtdutils and names
  volumes by prefixes such as \<open>SYSTEM:\<close>.  The radio interface layer (\<^verbatim>\<open>src/hardware/ril\<close>) talks to the modem
  with AT commands over a serial channel.

  \<^bold>\<open>The theories.\<close>
  \<^item> \<open>Recovery_Prelude\<close>: the collections of rewrite rules, machine words and their bytes, regions of
    memory with an address, lists and options.  \<open>C_Library\<close>: the character and string functions of C.
  \<^item> \<open>Minzip_Bits\<close> (\<^verbatim>\<open>minzip/Bits.h\<close>): the byte accessors over a region; a locale of codecs gives
    the round trips and the bounds of all of them.
  \<^item> \<open>Minzip_Hash\<close> (\<^verbatim>\<open>minzip/Hash.c\<close>, \<^verbatim>\<open>minzip/Hash.h\<close>): the open-addressing hash table with tombstones.
    Every sequence of operations refines a bag of entries; lookups, additions and removals are
    characterised on every branch; a table created for \<open>n\<close> entries never resizes.
  \<^item> \<open>Minzip_Zip\<close> (\<^verbatim>\<open>minzip/Zip.c\<close> up to \<^verbatim>\<open>mzIsZipEntrySymlink\<close>): opening an archive.  The entry table is
    sorted and valid, the index finds exactly the names of the archive (through the locale
    \<open>name_index\<close>, which the hash table provides), and no read leaves the mapping.
  \<^item> \<open>Minzip_Extract\<close> (\<^verbatim>\<open>minzip/Zip.c\<close>, the entry contents): stored and deflated entries are streamed through
    a process function.  The locales \<open>content_sink\<close> and \<open>bounded_sink\<close> are its contract, and the functions for the
    CRC, the buffers and the files are interpretations.
  \<^item> \<open>Minzip_DirUtil\<close> (\<^verbatim>\<open>minzip/DirUtil.c\<close>): creating, removing and changing directory trees over a record of
    system calls.  \<open>Minzip_Tree\<close> (\<^verbatim>\<open>targetEntryPath\<close>, \<^verbatim>\<open>mzExtractRecursive\<close>): extracting a tree.
  \<^item> \<open>Verifier\<close> (\<^verbatim>\<open>verifier.c\<close>): the signature of a package.  Verification computes its specification, and in a verified
    package the archive parser finds the signed end record.
  \<^item> \<open>Bspatch\<close> (\<^verbatim>\<open>applypatch/bspatch.c\<close>) and \<open>Bsdiff\<close> (\<^verbatim>\<open>applypatch/bsdiff.c\<close> after the sorting): applying a binary patch
    computes a reference of the format, and the patch that \<^verbatim>\<open>bsdiff\<close> makes produces the new file.
  \<^item> \<open>Imgpatch\<close> (\<^verbatim>\<open>applypatch/imgpatch.c\<close>, \<^verbatim>\<open>applypatch/utils.c\<close>) and \<open>Imgdiff\<close> (the writer in \<^verbatim>\<open>applypatch/imgdiff.c\<close>): image
    patches.  The locales \<open>counting_sink\<close> and \<open>atomic_sink\<close> are the contract of a sink; with an atomic sink the bytes that are hashed
    are the bytes that are written.
  \<^item> \<open>Applypatch_Files\<close> (\<^verbatim>\<open>applypatch/applypatch.c\<close> up to \<^verbatim>\<open>CacheSizeCheck\<close>, \<^verbatim>\<open>applypatch/freecache.c\<close>) and \<open>Applypatch\<close>
    (\<^verbatim>\<open>applypatch\<close>): files, partitions and the patching of a file.  For plain files outside the cache partition a run that
    returns an error leaves the source or its saved copy, and a run that succeeds leaves the expected target (with an image
    patch only if no \<^verbatim>\<open>write\<close> fails, since the result for a chunk is not looked at); the repeated run for a
    partition destroys the saved copy.
  \<^item> \<open>Mtdutils\<close> (\<^verbatim>\<open>mtdutils/mtdutils.c\<close>): the model of the flash layer.  \<open>Mtd_Flash\<close>: writing on a driver that may fail leaves on the flash what
    it reports as written.  \<open>Mtd_Read\<close>: reading delivers the good blocks that are not all zeros, and the round trip.  \<open>Mtd_Table\<close>: the table of
    partitions is the one the kernel prints.  \<open>Mtd_Interface\<close>: the flash layer meets what \<open>Applypatch\<close> assumes of it.
  \<^item> \<open>Mounts\<close> (\<^verbatim>\<open>mtdutils/mounts.c\<close>) and \<open>Roots\<close> (\<^verbatim>\<open>roots.c\<close>, with \<^verbatim>\<open>mtd_mount_partition\<close>): the mounted volumes and the named ones.  Paths are
    translated within the bounds of the buffer, unmounting follows what the kernel says is mounted, and formatting erases every good block.
  \<^item> \<open>Bootloader\<close> (\<^verbatim>\<open>bootloader.c\<close>): the message to the boot loader in the partition \<open>misc\<close> is stored and found again.
  \<^item> \<open>Edify_Expr\<close> (\<^verbatim>\<open>edify/expr.c\<close>) and \<open>Edify_Script\<close> (the actions of \<^verbatim>\<open>edify/parser.y\<close>): the functions
    of the language and the evaluation of parsed scripts, which is equal to a direct semantics of the
    syntax tree.
  \<^item> \<open>At_Tok\<close> (\<^verbatim>\<open>at_tok.c\<close>), \<open>At_Reader\<close> and \<open>At_Channel\<close> (\<^verbatim>\<open>atchannel.c\<close>): tokens of a response line, lines
    from the serial stream, and the state machine of commands and responses with the interleaving of
    the other threads.  The reader thread of this version never processes a line, so that no command
    succeeds; what \<^verbatim>\<open>processLine\<close> makes of the lines of a response is shown for the function itself.

  \<^bold>\<open>Conventions.\<close>  Integers whose width matters are words; \<^verbatim>\<open>int\<close> values that stay far below their
  bounds are \<open>int\<close> or \<open>nat\<close>.  Pointers into a mapped file are 32-bit addresses, other pointers are indices
  or values.  An access outside an object is a value of the model (\<open>None\<close>, \<open>Fault\<close>, \<open>Crashed\<close>), so
  that safety can be stated.  Code that is not part of the sources is a parameter: safe_iop, zlib and
  the system calls, with their documented behaviour as named predicates (\<open>safe_iop\<close>, \<open>inflates\<close>,
  \<open>inflate_progress\<close>, \<open>crc_chains\<close>, \<open>deflates\<close>, \<open>posix_dirs\<close>, \<open>names_fit\<close>, \<open>posix_files\<close>, \<open>readable_files\<close>, \<open>writes_progress\<close>, and for the flash driver \<open>honest_flash\<close>, \<open>clean_flash\<close>, \<open>reliable_flash\<close>, \<open>ecc_counts\<close>, \<open>misc_driver\<close>); each theorem that assumes one has an
  instance in which it holds.  Allocation is a parameter that says which requests succeed.

  \<^bold>\<open>Fuel and loops.\<close>  Loops that end are recursive functions with a measure.  Probing a hash table and
  the inflate loop may run forever and are partial functions; they are proved to return on
  well-formed tables and with progress of the decoder.  The loops over flash blocks are partial functions too, since with an erase size
  of 0 they would not end; they are proved to return for partitions with a positive erase size.  The recursion over directory trees is a partial function as
  well and is proved to return when the paths of the entries fit the buffer of \<^verbatim>\<open>PATH_MAX\<close> bytes.

  \<^bold>\<open>Not modelled.\<close>  The drivers of screen and keys (\<^verbatim>\<open>ui.c\<close>, \<^verbatim>\<open>minui\<close>), the main programs
  (\<^verbatim>\<open>recovery.c\<close>, \<^verbatim>\<open>rild.c\<close>), the suffix sorting of \<^verbatim>\<open>bsdiff.c\<close> and the splitting of images in \<^verbatim>\<open>imgdiff.c\<close>, the C++ request
  dispatcher \<^verbatim>\<open>libril\<close>, and \<^verbatim>\<open>ril-reader\<close>, which holds copies of the files modelled from \<^verbatim>\<open>reference-ril\<close>.
  \<^verbatim>\<open>flash_image.c\<close>, the functions of \<^verbatim>\<open>updater/install.c\<close> and the request handlers of \<^verbatim>\<open>reference-ril.c\<close> are thin
  layers over single system calls or AT commands and are left out too.
\<close>

end
